(* ===== verification/Prelude.thy ===== *)
theory Prelude
  imports Main "HOL-Library.Word" "HOL-Library.List_Lexorder"
begin

text \<open>
  Shared vocabulary of the development: the machine types of the engine, exceptions as
  values, the result type of fallible code, and the generic lemmas on lists, sorted key
  sequences and words that the component theories use.

  A \<open>std::string\<close> is a byte container in this program, so it is a list of 8-bit words.
  Its \<open>operator<\<close> compares bytes as \<open>unsigned char\<close> lexicographically, which is the
  order of \<open>HOL-Library.List_Lexorder\<close> over the unsigned order on words.
\<close>

unbundle bit_operations_syntax

type_synonym byte = "8 word"
type_synonym u32 = "32 word"
type_synonym u64 = "64 word"
type_synonym bytes = "byte list"

text \<open>
  The exceptions the sources throw, by their C++ type and message context.
  \<open>SystemError\<close> carries \<open>errno\<close>. \<open>Undefined\<close> marks a place where the source has
  undefined behaviour (an out-of-bounds vector access), so that its absence is a theorem.
\<close>

datatype exn =
    SystemError nat string
  | LengthError string
  | RuntimeError string
  | OutOfRange string
  | Undefined string

type_synonym 'a res = "exn + 'a"

definition rbind :: "'a res \<Rightarrow> ('a \<Rightarrow> 'b res) \<Rightarrow> 'b res" where
  "rbind m f = (case m of Inl e \<Rightarrow> Inl e | Inr x \<Rightarrow> f x)"

text \<open>Byte literals: the bytes of an ASCII string literal of the source.\<close>

definition lit :: "string \<Rightarrow> bytes" where
  "lit s = map of_char s"

definition UINT32_MAX :: nat where
  "UINT32_MAX = 2 ^ 32 - 1"

named_theorems res_simps \<open>evaluation of result binds\<close>
named_theorems enc_simps \<open>lengths and round trips of the byte encodings\<close>

subsection \<open>The result type\<close>

lemma rbind_Inr [simp, res_simps]: "rbind (Inr x) f = f x"
  by (simp add: rbind_def)

lemma rbind_Inl [simp, res_simps]: "rbind (Inl e) f = Inl e"
  by (simp add: rbind_def)

lemma rbind_eq_Inr [res_simps]:
  "rbind m f = Inr y \<longleftrightarrow> (\<exists>x. m = Inr x \<and> f x = Inr y)"
  by (cases m) auto

lemma rbind_eq_Inl [res_simps]:
  "rbind m f = Inl e \<longleftrightarrow> m = Inl e \<or> (\<exists>x. m = Inr x \<and> f x = Inl e)"
  by (cases m) auto

lemma rbind_assoc: "rbind (rbind m f) g = rbind m (\<lambda>x. rbind (f x) g)"
  by (cases m) auto

lemma rbind_cong [fundef_cong]:
  assumes "m = m'" and "\<And>x. m' = Inr x \<Longrightarrow> f x = f' x"
  shows "rbind m f = rbind m' f'"
  using assms by (cases m) auto

subsection \<open>Strictly sorted key sequences\<close>

abbreviation ssorted :: "'a::linorder list \<Rightarrow> bool" where
  "ssorted \<equiv> sorted_wrt (<)"

lemma ssorted_distinct: "ssorted xs \<Longrightarrow> distinct xs"
  by (induction xs) auto

lemma ssorted_sorted: "ssorted xs \<Longrightarrow> sorted xs"
  by (induction xs) auto

lemma ssorted_append:
  "ssorted (xs @ ys) \<longleftrightarrow> ssorted xs \<and> ssorted ys \<and> (\<forall>x\<in>set xs. \<forall>y\<in>set ys. x < y)"
  by (simp add: sorted_wrt_append)

lemma ssorted_filter: "ssorted (map f xs) \<Longrightarrow> ssorted (map f (filter P xs))"
  by (induction xs) auto

lemma ssorted_unique:
  assumes "ssorted xs" and "ssorted ys" and "set xs = set ys"
  shows "xs = ys"
  using assms by (metis sorted_distinct_set_unique ssorted_distinct ssorted_sorted)

lemma ssorted_drop: "ssorted xs \<Longrightarrow> ssorted (drop n xs)"
  by (metis append_take_drop_id ssorted_append)

lemma ssorted_take: "ssorted xs \<Longrightarrow> ssorted (take n xs)"
  by (metis append_take_drop_id ssorted_append)

lemma ssorted_takeWhile: "ssorted (map f xs) \<Longrightarrow> takeWhile (\<lambda>x. f x < b) xs = filter (\<lambda>x. f x < b) xs"
proof (induction xs)
  case (Cons x xs)
  then have "\<forall>y\<in>set xs. f x < f y" by auto
  then have "\<not> f x < b \<Longrightarrow> filter (\<lambda>x. f x < b) xs = []"
    by (auto simp: filter_empty_conv)
  with Cons show ?case by auto
qed simp

lemma ssorted_dropWhile: "ssorted (map f xs) \<Longrightarrow> dropWhile (\<lambda>x. f x < a) xs = filter (\<lambda>x. a \<le> f x) xs"
proof (induction xs)
  case (Cons x xs)
  then have "\<forall>y\<in>set xs. f x < f y" by auto
  then have "a \<le> f x \<Longrightarrow> filter (\<lambda>x. a \<le> f x) xs = xs"
    by (auto intro!: filter_True)
  with Cons show ?case by auto
qed simp

subsection \<open>Prefixes\<close>

lemma take_length_take: "take (length (take k xs)) xs = take k xs"
  by (simp add: min_def)

lemma drop_exact: "length xs = n \<Longrightarrow> drop n (xs @ ys) = ys"
  by simp

lemma take_exact: "length xs = n \<Longrightarrow> take n (xs @ ys) = xs"
  by simp

lemma drop_append_le: "n \<le> length xs \<Longrightarrow> drop n (xs @ ys) = drop n xs @ ys"
  by simp

subsection \<open>Words\<close>

lemma unat_of_nat_u32 [simp]: "n \<le> UINT32_MAX \<Longrightarrow> unat (of_nat n :: u32) = n"
  by (simp add: UINT32_MAX_def unat_of_nat)

lemma unat_of_nat_u64: "n < 2 ^ 64 \<Longrightarrow> unat (of_nat n :: u64) = n"
  by (simp add: unat_of_nat)

lemma unat_u32_le: "unat (w :: u32) \<le> UINT32_MAX"
proof -
  have "unat w < 2 ^ 32" using unsigned_less [of w, where 'a = nat] by simp
  then show ?thesis by (simp add: UINT32_MAX_def)
qed

end
