(* ===== verification/Encoding.thy ===== *)
theory Encoding
  imports Prelude
begin

text \<open>
  Little-endian fixed-width integers of the on-disk formats
  (\<open>include/lsmkv/encoding.h\<close>). The \<open>put\<close> functions append to a buffer; the \<open>read\<close>
  functions take the pointed-to bytes, that is, the suffix of the buffer that starts at
  the pointer.
\<close>

definition put_u32_le :: "bytes \<Rightarrow> u32 \<Rightarrow> bytes" where
  "put_u32_le buf v =
     buf @ [ucast (v AND 0xff)]
         @ [ucast (drop_bit 8 v AND 0xff)]
         @ [ucast (drop_bit 16 v AND 0xff)]
         @ [ucast (drop_bit 24 v AND 0xff)]"

definition put_u64_le :: "bytes \<Rightarrow> u64 \<Rightarrow> bytes" where
  "put_u64_le buf v =
     fold (\<lambda>i b. b @ [ucast (drop_bit (8 * i) v AND 0xff)]) [0..<8] buf"

definition read_u32_le :: "bytes \<Rightarrow> u32" where
  "read_u32_le p =
     ucast (p ! 0) OR
     push_bit 8 (ucast (p ! 1)) OR
     push_bit 16 (ucast (p ! 2)) OR
     push_bit 24 (ucast (p ! 3))"

definition read_u64_le :: "bytes \<Rightarrow> u64" where
  "read_u64_le p =
     fold (\<lambda>i v. v OR push_bit (8 * i) (ucast (p ! i))) [0..<8] 0"

lemma upt_8: "[0..<8] = [0, 1, 2, 3, 4, 5, 6, 7::nat]"
  by (simp add: upt_rec)

lemma length_put_u32 [simp, enc_simps]: "length (put_u32_le buf v) = length buf + 4"
  by (simp add: put_u32_le_def)

lemma length_put_u64 [simp, enc_simps]: "length (put_u64_le buf v) = length buf + 8"
  by (simp add: put_u64_le_def upt_8)

lemma put_u32_append: "put_u32_le buf v = buf @ put_u32_le [] v"
  by (simp add: put_u32_le_def)

lemma put_u64_append: "put_u64_le buf v = buf @ put_u64_le [] v"
  by (simp add: put_u64_le_def upt_8)

text \<open>A byte cut out of a word at bit position \<open>k\<close> carries exactly the bits \<open>k..k+7\<close>.\<close>

lemma bit_byte_at:
  fixes v :: "'a::len word"
  shows "bit (ucast (ucast (drop_bit k v AND 0xff) :: byte) :: 'a word) n \<longleftrightarrow> n < 8 \<and> bit v (n + k)"
proof -
  have mask: "(0xff :: 'a word) = mask 8"
    by (simp add: mask_eq_exp_minus_1)
  show ?thesis
    unfolding mask by (auto simp: bit_simps ac_simps dest: bit_imp_le_length)
qed

lemma read_put_u32 [simp, enc_simps]: "read_u32_le (put_u32_le [] v @ rest) = v"
proof (rule bit_word_eqI)
  fix n assume "n < LENGTH(32)"
  then have "n < 32" by simp
  then consider "n < 8" | "8 \<le> n" "n < 16" | "16 \<le> n" "n < 24" | "24 \<le> n" "n < 32"
    by linarith
  then show "bit (read_u32_le (put_u32_le [] v @ rest)) n \<longleftrightarrow> bit v n"
    using bit_byte_at [of 0 v] bit_byte_at [of 8 v] bit_byte_at [of 16 v] bit_byte_at [of 24 v]
    by cases (simp_all add: put_u32_le_def read_u32_le_def bit_or_iff bit_push_bit_iff less_diff_conv2)
qed

lemma read_put_u64 [simp, enc_simps]: "read_u64_le (put_u64_le [] v @ rest) = v"
proof (rule bit_word_eqI)
  fix n assume "n < LENGTH(64)"
  then have "n < 64" by simp
  then consider "n < 8" | "8 \<le> n" "n < 16" | "16 \<le> n" "n < 24" | "24 \<le> n" "n < 32"
    | "32 \<le> n" "n < 40" | "40 \<le> n" "n < 48" | "48 \<le> n" "n < 56" | "56 \<le> n" "n < 64"
    by linarith
  then show "bit (read_u64_le (put_u64_le [] v @ rest)) n \<longleftrightarrow> bit v n"
    using bit_byte_at [of 0 v] bit_byte_at [of 8 v] bit_byte_at [of 16 v] bit_byte_at [of 24 v]
      bit_byte_at [of 32 v] bit_byte_at [of 40 v] bit_byte_at [of 48 v] bit_byte_at [of 56 v]
    by cases (simp_all add: put_u64_le_def read_u64_le_def upt_8 bit_or_iff bit_push_bit_iff less_diff_conv2)
qed

lemma read_u32_append: "4 \<le> length p \<Longrightarrow> read_u32_le (p @ q) = read_u32_le p"
  by (auto simp: read_u32_le_def nth_append)

lemma read_u64_append: "8 \<le> length p \<Longrightarrow> read_u64_le (p @ q) = read_u64_le p"
  by (auto simp: read_u64_le_def upt_8 nth_append)

text \<open>The converse: re-encoding what was read gives back the four bytes that were read.\<close>

lemma byte_of_or:
  fixes a b c d :: byte
  shows "ucast ((ucast a OR push_bit 8 (ucast b) OR push_bit 16 (ucast c) OR push_bit 24 (ucast d) :: u32) AND 0xff) = a"
    and "ucast (drop_bit 8 (ucast a OR push_bit 8 (ucast b) OR push_bit 16 (ucast c) OR push_bit 24 (ucast d) :: u32) AND 0xff) = b"
    and "ucast (drop_bit 16 (ucast a OR push_bit 8 (ucast b) OR push_bit 16 (ucast c) OR push_bit 24 (ucast d) :: u32) AND 0xff) = c"
    and "ucast (drop_bit 24 (ucast a OR push_bit 8 (ucast b) OR push_bit 16 (ucast c) OR push_bit 24 (ucast d) :: u32) AND 0xff) = d"
proof -
  have mask: "(0xff :: u32) = mask 8" by (simp add: mask_eq_exp_minus_1)
  have out: "\<not> bit (x :: byte) (k + n)" if "8 \<le> k" for x k n
    using that bit_imp_le_length [of x "k + n"] by auto
  show "ucast ((ucast a OR push_bit 8 (ucast b) OR push_bit 16 (ucast c) OR push_bit 24 (ucast d) :: u32) AND 0xff) = a"
    unfolding mask by (rule bit_word_eqI) (auto simp: bit_simps)
  show "ucast (drop_bit 8 (ucast a OR push_bit 8 (ucast b) OR push_bit 16 (ucast c) OR push_bit 24 (ucast d) :: u32) AND 0xff) = b"
    unfolding mask by (rule bit_word_eqI) (auto simp: bit_simps out)
  show "ucast (drop_bit 16 (ucast a OR push_bit 8 (ucast b) OR push_bit 16 (ucast c) OR push_bit 24 (ucast d) :: u32) AND 0xff) = c"
    unfolding mask by (rule bit_word_eqI) (auto simp: bit_simps out)
  show "ucast (drop_bit 24 (ucast a OR push_bit 8 (ucast b) OR push_bit 16 (ucast c) OR push_bit 24 (ucast d) :: u32) AND 0xff) = d"
    unfolding mask by (rule bit_word_eqI) (auto simp: bit_simps out)
qed

lemma put_read_u32:
  assumes "4 \<le> length b"
  shows "put_u32_le [] (read_u32_le b) = take 4 b"
proof -
  obtain b0 b1 b2 b3 rest where b: "b = b0 # b1 # b2 # b3 # rest"
    using assms by (auto simp: numeral_eq_Suc Suc_le_length_iff)
  have "read_u32_le b = ucast b0 OR push_bit 8 (ucast b1) OR push_bit 16 (ucast b2) OR push_bit 24 (ucast b3)"
    by (simp add: b read_u32_le_def)
  then show ?thesis
    unfolding put_u32_le_def by (simp only: byte_of_or) (simp add: b)
qed

end
