(* ===== verification/Kv_Record.thy ===== *)
theory Kv_Record
  imports Encoding
begin

text \<open>
  One logical write (\<open>include/lsmkv/record.h\<close>). \<open>enum class Op : uint8_t\<close> can hold every
  byte, because the parsers cast an arbitrary byte to it, so the two enumerators are
  constructors and every other byte is kept as \<open>UnknownOp\<close>.
\<close>

datatype op = Put | Delete | UnknownOp byte

definition op_byte :: "op \<Rightarrow> byte" where
  "op_byte x = (case x of Put \<Rightarrow> 0 | Delete \<Rightarrow> 1 | UnknownOp b \<Rightarrow> b)"

definition byte_op :: "byte \<Rightarrow> op" where
  "byte_op b = (if b = 0 then Put else if b = 1 then Delete else UnknownOp b)"

record value_ptr =
  vp_gen :: u32
  vp_offset :: u64
  vp_len :: u32

definition vptr0 :: value_ptr where
  "vptr0 = \<lparr>vp_gen = 0, vp_offset = 0, vp_len = 0\<rparr>"

record kv_record =
  rec_op :: op
  rec_key :: bytes
  rec_value :: bytes
  rec_separated :: bool
  rec_vptr :: value_ptr

definition mk_record :: "op \<Rightarrow> bytes \<Rightarrow> bytes \<Rightarrow> kv_record" where
  "mk_record x k v =
     \<lparr>rec_op = x, rec_key = k, rec_value = v, rec_separated = False, rec_vptr = vptr0\<rparr>"

text \<open>The records the engine itself writes: one of the two operations.\<close>

definition known_op :: "op \<Rightarrow> bool" where
  "known_op x \<longleftrightarrow> x = Put \<or> x = Delete"

definition inline_rec :: "kv_record \<Rightarrow> bool" where
  "inline_rec r \<longleftrightarrow> \<not> rec_separated r \<and> rec_vptr r = vptr0"

text \<open>A lookup in a list of records: the first record with the key.\<close>

fun find_rec :: "bytes \<Rightarrow> kv_record list \<Rightarrow> kv_record option" where
  "find_rec k [] = None"
| "find_rec k (r # rs) = (if rec_key r = k then Some r else find_rec k rs)"

lemma byte_op_op_byte [simp]: "known_op x \<Longrightarrow> byte_op (op_byte x) = x"
  by (auto simp: byte_op_def op_byte_def known_op_def)

lemma op_byte_byte_op [simp]: "op_byte (byte_op b) = b"
  by (simp add: byte_op_def op_byte_def)

lemma known_op_simps [simp]: "known_op Put" "known_op Delete"
  by (simp_all add: known_op_def)

lemma mk_record_sel [simp]:
  "rec_op (mk_record x k v) = x" "rec_key (mk_record x k v) = k"
  "rec_value (mk_record x k v) = v" "rec_separated (mk_record x k v) = False"
  "rec_vptr (mk_record x k v) = vptr0"
  by (simp_all add: mk_record_def)

lemma inline_mk_record [simp]: "inline_rec (mk_record x k v)"
  by (simp add: inline_rec_def)

lemma inline_rec_eq: "inline_rec r \<Longrightarrow> mk_record (rec_op r) (rec_key r) (rec_value r) = r"
  by (simp add: inline_rec_def mk_record_def)

lemma find_rec_key: "find_rec k rs = Some r \<Longrightarrow> rec_key r = k \<and> r \<in> set rs"
  by (induction rs) (auto split: if_splits)

lemma find_rec_None: "find_rec k rs = None \<longleftrightarrow> k \<notin> rec_key ` set rs"
  by (induction rs) auto

lemma find_rec_append:
  "find_rec k (xs @ ys) = (case find_rec k xs of None \<Rightarrow> find_rec k ys | Some r \<Rightarrow> Some r)"
  by (induction xs) auto

lemma find_rec_in:
  "distinct (map rec_key rs) \<Longrightarrow> r \<in> set rs \<Longrightarrow> find_rec (rec_key r) rs = Some r"
  by (induction rs) (auto intro: rev_image_eqI)

lemma find_rec_filter:
  "P k \<Longrightarrow> find_rec k (filter (\<lambda>r. P (rec_key r)) rs) = find_rec k rs"
  by (induction rs) auto

lemma find_rec_filter_out:
  "\<not> P k \<Longrightarrow> find_rec k (filter (\<lambda>r. P (rec_key r)) rs) = None"
  by (induction rs) auto

end
