(* ===== verification/Effects.thy ===== *)
theory Effects
  imports Prelude
begin

text \<open>
  Code that changes state and may throw: a function from the state to a result and the
  state it leaves behind. The state of a computation that throws is kept, because a C++
  exception does not undo the effects that happened before it. \<open>triple P m Q E\<close> says that
  from a state in \<open>P\<close> the computation ends in \<open>Q\<close> when it returns and in \<open>E\<close> when it
  throws; the rules below let a property of a handler be proved from properties of its
  statements.
\<close>

type_synonym ('s, 'a) prog = "'s \<Rightarrow> 'a res \<times> 's"

definition sret :: "'a \<Rightarrow> ('s, 'a) prog" where
  "sret x s = (Inr x, s)"

definition sthrow :: "exn \<Rightarrow> ('s, 'a) prog" where
  "sthrow e s = (Inl e, s)"

definition slift :: "'a res \<Rightarrow> ('s, 'a) prog" where
  "slift r s = (r, s)"

definition sget :: "('s \<Rightarrow> 'a) \<Rightarrow> ('s, 'a) prog" where
  "sget f s = (Inr (f s), s)"

definition supd :: "('s \<Rightarrow> 's) \<Rightarrow> ('s, unit) prog" where
  "supd f s = (Inr (), f s)"

definition sbind :: "('s, 'a) prog \<Rightarrow> ('a \<Rightarrow> ('s, 'b) prog) \<Rightarrow> ('s, 'b) prog" where
  "sbind m f s = (case m s of (Inl e, s') \<Rightarrow> (Inl e, s') | (Inr x, s') \<Rightarrow> f x s')"

text \<open>A loop over a list that threads state and an accumulator and stops at a throw.\<close>

fun sfold :: "('x \<Rightarrow> 'b \<Rightarrow> ('s, 'b) prog) \<Rightarrow> 'x list \<Rightarrow> 'b \<Rightarrow> ('s, 'b) prog" where
  "sfold f [] b = sret b"
| "sfold f (x # xs) b = sbind (f x b) (sfold f xs)"

definition triple ::
  "('s \<Rightarrow> bool) \<Rightarrow> ('s, 'a) prog \<Rightarrow> ('a \<Rightarrow> 's \<Rightarrow> bool) \<Rightarrow> (exn \<Rightarrow> 's \<Rightarrow> bool) \<Rightarrow> bool" where
  "triple P m Q E \<longleftrightarrow>
     (\<forall>s. P s \<longrightarrow> (case m s of (Inl e, s') \<Rightarrow> E e s' | (Inr x, s') \<Rightarrow> Q x s'))"

named_theorems eff_simps \<open>evaluation of stateful computations\<close>

lemma sret_run [simp, eff_simps]: "sret x s = (Inr x, s)"
  by (simp add: sret_def)

lemma sthrow_run [simp, eff_simps]: "sthrow e s = (Inl e, s)"
  by (simp add: sthrow_def)

lemma slift_run [simp, eff_simps]: "slift r s = (r, s)"
  by (simp add: slift_def)

lemma sget_run [simp, eff_simps]: "sget f s = (Inr (f s), s)"
  by (simp add: sget_def)

lemma supd_run [simp, eff_simps]: "supd f s = (Inr (), f s)"
  by (simp add: supd_def)

lemma sbind_run [eff_simps]:
  "sbind m f s = (case m s of (Inl e, s') \<Rightarrow> (Inl e, s') | (Inr x, s') \<Rightarrow> f x s')"
  by (simp add: sbind_def)

lemma sbind_Inr: "m s = (Inr x, s') \<Longrightarrow> sbind m f s = f x s'"
  by (simp add: sbind_def)

lemma sbind_Inl: "m s = (Inl e, s') \<Longrightarrow> sbind m f s = (Inl e, s')"
  by (simp add: sbind_def)

lemma sbind_eq_Inr:
  "sbind m f s = (Inr y, t) \<longleftrightarrow> (\<exists>x s'. m s = (Inr x, s') \<and> f x s' = (Inr y, t))"
  by (auto simp: sbind_def split: prod.splits sum.splits)

lemma sbind_eq_Inl:
  "sbind m f s = (Inl e, t) \<longleftrightarrow>
     m s = (Inl e, t) \<or> (\<exists>x s'. m s = (Inr x, s') \<and> f x s' = (Inl e, t))"
  by (auto simp: sbind_def split: prod.splits sum.splits)

lemma sbind_assoc: "sbind (sbind m f) g = sbind m (\<lambda>x. sbind (f x) g)"
  by (rule ext) (auto simp: sbind_def split: prod.splits sum.splits)

subsection \<open>Rules for triples\<close>

lemma tripleI:
  assumes "\<And>s x s'. P s \<Longrightarrow> m s = (Inr x, s') \<Longrightarrow> Q x s'"
    and "\<And>s e s'. P s \<Longrightarrow> m s = (Inl e, s') \<Longrightarrow> E e s'"
  shows "triple P m Q E"
  using assms by (auto simp: triple_def split: prod.splits sum.splits)

lemma triple_InrD: "triple P m Q E \<Longrightarrow> P s \<Longrightarrow> m s = (Inr x, s') \<Longrightarrow> Q x s'"
  by (auto simp: triple_def split: prod.splits sum.splits)

lemma triple_InlD: "triple P m Q E \<Longrightarrow> P s \<Longrightarrow> m s = (Inl e, s') \<Longrightarrow> E e s'"
  by (auto simp: triple_def split: prod.splits sum.splits)

lemma triple_bind:
  assumes "triple P m R E" and "\<And>x. triple (R x) (f x) Q E"
  shows "triple P (sbind m f) Q E"
proof (rule tripleI)
  show "Q y t" if "P s" "sbind m f s = (Inr y, t)" for s y t
    using that assms by (auto simp: sbind_eq_Inr dest: triple_InrD)
  show "E e t" if "P s" "sbind m f s = (Inl e, t)" for s e t
    using that assms by (auto simp: sbind_eq_Inl dest: triple_InrD triple_InlD)
qed

lemma triple_ret: "(\<And>s. P s \<Longrightarrow> Q x s) \<Longrightarrow> triple P (sret x) Q E"
  by (simp add: triple_def)

lemma triple_throw: "(\<And>s. P s \<Longrightarrow> E e s) \<Longrightarrow> triple P (sthrow e) Q E"
  by (simp add: triple_def)

lemma triple_lift:
  assumes "\<And>s x. P s \<Longrightarrow> r = Inr x \<Longrightarrow> Q x s" and "\<And>s e. P s \<Longrightarrow> r = Inl e \<Longrightarrow> E e s"
  shows "triple P (slift r) Q E"
  using assms by (auto simp: triple_def split: sum.splits)

lemma triple_get: "(\<And>s. P s \<Longrightarrow> Q (f s) s) \<Longrightarrow> triple P (sget f) Q E"
  by (simp add: triple_def)

lemma triple_upd: "(\<And>s. P s \<Longrightarrow> Q () (f s)) \<Longrightarrow> triple P (supd f) Q E"
  by (simp add: triple_def)

lemma triple_conseq:
  assumes "triple P' m Q' E'" and "\<And>s. P s \<Longrightarrow> P' s"
    and "\<And>x s. Q' x s \<Longrightarrow> Q x s" and "\<And>e s. E' e s \<Longrightarrow> E e s"
  shows "triple P m Q E"
proof (rule tripleI)
  show "Q x s'" if "P s" "m s = (Inr x, s')" for s x s'
    using triple_InrD [OF assms(1,2)] that assms(3) by blast
  show "E e s'" if "P s" "m s = (Inl e, s')" for s e s'
    using triple_InlD [OF assms(1,2)] that assms(4) by blast
qed

lemma triple_fold:
  assumes "\<And>x b. x \<in> set xs \<Longrightarrow> triple (I b) (f x b) I E"
  shows "triple (I b) (sfold f xs b) I E"
  using assms
proof (induction xs arbitrary: b)
  case Nil
  show ?case by (auto simp: triple_def)
next
  case (Cons x xs)
  have "triple (I b) (f x b) I E" by (rule Cons.prems) simp
  moreover have "triple (I b') (sfold f xs b') I E" for b'
    by (rule Cons.IH) (auto intro: Cons.prems)
  ultimately show ?case by (auto intro: triple_bind)
qed

lemmas triple_rules = triple_ret triple_throw triple_lift triple_get triple_upd triple_bind

end
