(* ===== verification/Posix_Io.thy ===== *)
theory Posix_Io
  imports Effects
begin

text \<open>
  The part of POSIX the engine uses, and the retry loops the sources wrap around it.

  A directory maps names to inodes, an inode is a byte sequence of which a prefix is known
  to be durable. Metadata operations (create, rename, unlink) are ordered: the sources
  fsync the directory after each of them. File contents are durable up to the last fsync,
  so a crash may cut a file anywhere between its durable prefix and its full length.

  A system call may fail. The parameter \<open>io\<close> of an operation says which call site fails:
  \<open>io ctx = Some (m, e)\<close> means that the call whose error message is \<open>ctx\<close> transfers \<open>m\<close>
  bytes and then fails with \<open>errno = e\<close>; \<open>None\<close> means that it succeeds. The retry loops
  themselves are modelled over a schedule of individual system call results, and are
  proved to have one of these two outcomes.
\<close>

subsection \<open>Retry loops over individual system calls\<close>

datatype sysret = SysOk nat | SysErr nat

definition EINTR :: nat where
  "EINTR = 4"

text \<open>
  \<open>write_all\<close> on an append-mode descriptor: \<open>None\<close> as result means that the schedule
  ended before the loop did.
\<close>

fun write_all ::
  "string \<Rightarrow> sysret list \<Rightarrow> bytes \<Rightarrow> nat \<Rightarrow> bytes \<Rightarrow> bytes \<times> unit res option" where
  "write_all ctx sch dat written fl =
     (if written < length dat then
        (case sch of
           [] \<Rightarrow> (fl, None)
         | SysErr e # sch' \<Rightarrow>
             if e = EINTR then write_all ctx sch' dat written fl
             else (fl, Some (Inl (SystemError e ctx)))
         | SysOk n # sch' \<Rightarrow>
             write_all ctx sch' dat (written + n) (fl @ take n (drop written dat)))
      else (fl, Some (Inr ())))"

declare write_all.simps [simp del]

text \<open>A positioned write extends the file with zero bytes when it starts past its end.\<close>

definition pwrite_at :: "bytes \<Rightarrow> nat \<Rightarrow> bytes \<Rightarrow> bytes" where
  "pwrite_at fl off bs =
     (if bs = [] then fl
      else take off fl @ replicate (off - length fl) 0 @ bs @ drop (off + length bs) fl)"

fun pwrite_all ::
  "sysret list \<Rightarrow> bytes \<Rightarrow> nat \<Rightarrow> nat \<Rightarrow> bytes \<Rightarrow> bytes \<times> unit res option" where
  "pwrite_all sch buf off written fl =
     (if written < length buf then
        (case sch of
           [] \<Rightarrow> (fl, None)
         | SysErr e # sch' \<Rightarrow>
             if e = EINTR then pwrite_all sch' buf off written fl
             else (fl, Some (Inl (SystemError e ''vlog pwrite'')))
         | SysOk n # sch' \<Rightarrow>
             pwrite_all sch' buf off (written + n)
               (pwrite_at fl (off + written) (take n (drop written buf))))
      else (fl, Some (Inr ())))"

declare pwrite_all.simps [simp del]

text \<open>
  \<open>pread_exact\<close>: the kernel returns at most the bytes that remain, and 0 only at the end
  of the file.
\<close>

fun pread_loop ::
  "string \<Rightarrow> sysret list \<Rightarrow> bytes \<Rightarrow> nat \<Rightarrow> nat \<Rightarrow> bytes \<Rightarrow> bytes res option" where
  "pread_loop ctx sch fl off len buf =
     (if length buf < len then
        (case sch of
           [] \<Rightarrow> None
         | SysErr e # sch' \<Rightarrow>
             if e = EINTR then pread_loop ctx sch' fl off len buf
             else Some (Inl (SystemError e ctx))
         | SysOk n # sch' \<Rightarrow>
             (let got = take (min n (len - length buf)) (drop (off + length buf) fl) in
              if got = [] then Some (Inl (RuntimeError ctx))
              else pread_loop ctx sch' fl off len (buf @ got)))
      else Some (Inr buf))"

declare pread_loop.simps [simp del]

text \<open>The read-to-the-end loop of \<open>Wal::replay\<close> and \<open>manifest_read\<close>, with its chunk size.\<close>

fun read_all :: "string \<Rightarrow> nat \<Rightarrow> sysret list \<Rightarrow> bytes \<Rightarrow> bytes \<Rightarrow> bytes res option" where
  "read_all ctx chunk [] fl dat = None"
| "read_all ctx chunk (SysErr e # sch) fl dat =
     (if e = EINTR then read_all ctx chunk sch fl dat else Some (Inl (SystemError e ctx)))"
| "read_all ctx chunk (SysOk n # sch) fl dat =
     (let got = take (min n chunk) (drop (length dat) fl) in
      if got = [] then Some (Inr dat) else read_all ctx chunk sch fl (dat @ got))"

subsection \<open>Outcomes of whole calls\<close>

type_synonym fault = "(nat \<times> nat) option"
type_synonym io = "string \<Rightarrow> fault"

definition no_faults :: io where
  "no_faults ctx = None"

definition pread_exact :: "io \<Rightarrow> string \<Rightarrow> bytes \<Rightarrow> nat \<Rightarrow> nat \<Rightarrow> bytes res" where
  "pread_exact io ctx fl off len =
     (if len = 0 then Inr []
      else case io ctx of
             Some (m, e) \<Rightarrow> Inl (SystemError e ctx)
           | None \<Rightarrow> if off + len \<le> length fl then Inr (take len (drop off fl))
                     else Inl (RuntimeError ctx))"

subsection \<open>The directory of a store\<close>

record disk =
  dents :: "(bytes \<times> nat) list"
  blobs :: "nat \<Rightarrow> bytes"
  synced :: "nat \<Rightarrow> nat"
  next_ino :: nat

definition d_ino :: "disk \<Rightarrow> bytes \<Rightarrow> nat option" where
  "d_ino d name = map_of (dents d) name"

definition d_read :: "disk \<Rightarrow> bytes \<Rightarrow> bytes option" where
  "d_read d name = map_option (blobs d) (d_ino d name)"

definition d_create :: "bytes \<Rightarrow> disk \<Rightarrow> nat \<times> disk" where
  "d_create name d =
     (case d_ino d name of
        Some i \<Rightarrow> (i, d)
      | None \<Rightarrow> (next_ino d,
          d\<lparr>dents := (name, next_ino d) # dents d,
            blobs := (blobs d)(next_ino d := []),
            synced := (synced d)(next_ino d := 0),
            next_ino := Suc (next_ino d)\<rparr>))"

definition d_set :: "nat \<Rightarrow> bytes \<Rightarrow> disk \<Rightarrow> disk" where
  "d_set i bs d = d\<lparr>blobs := (blobs d)(i := bs)\<rparr>"

definition d_truncate :: "nat \<Rightarrow> disk \<Rightarrow> disk" where
  "d_truncate i d = d\<lparr>blobs := (blobs d)(i := []), synced := (synced d)(i := 0)\<rparr>"

definition d_append :: "nat \<Rightarrow> bytes \<Rightarrow> disk \<Rightarrow> disk" where
  "d_append i bs d = d_set i (blobs d i @ bs) d"

definition d_fsync :: "nat \<Rightarrow> disk \<Rightarrow> disk" where
  "d_fsync i d = d\<lparr>synced := (synced d)(i := length (blobs d i))\<rparr>"

definition d_unlink :: "bytes \<Rightarrow> disk \<Rightarrow> disk" where
  "d_unlink name d = d\<lparr>dents := filter (\<lambda>(n, _). n \<noteq> name) (dents d)\<rparr>"

text \<open>\<open>rename\<close> fails with ENOENT when the source name does not exist.\<close>

definition ENOENT :: nat where
  "ENOENT = 2"

definition d_rename :: "io \<Rightarrow> string \<Rightarrow> bytes \<Rightarrow> bytes \<Rightarrow> (disk, unit) prog" where
  "d_rename io ctx old new d =
     (case io ctx of
        Some (m, e) \<Rightarrow> (Inl (SystemError e ctx), d)
      | None \<Rightarrow>
          (case d_ino d old of
             None \<Rightarrow> (Inl (SystemError ENOENT ctx), d)
           | Some i \<Rightarrow>
               (Inr (), d\<lparr>dents := (new, i) #
                  filter (\<lambda>(n, _). n \<noteq> old \<and> n \<noteq> new) (dents d)\<rparr>)))"

text \<open>\<open>fsync_dir\<close>: two calls that may fail; the directory itself is already up to date.\<close>

definition fsync_dir :: "io \<Rightarrow> (disk, unit) prog" where
  "fsync_dir io d =
     (case io ''fsync_dir open'' of
        Some (m, e) \<Rightarrow> (Inl (SystemError e ''fsync_dir open''), d)
      | None \<Rightarrow>
          (case io ''fsync_dir'' of
             Some (m, e) \<Rightarrow> (Inl (SystemError e ''fsync_dir''), d)
           | None \<Rightarrow> (Inr (), d)))"

text \<open>
  \<open>write_file_sync\<close>, which the SSTable builder and the manifest share up to the texts of
  their error messages: create or truncate, write everything, fsync.
\<close>

definition write_file_sync ::
  "io \<Rightarrow> string \<Rightarrow> string \<Rightarrow> string \<Rightarrow> bytes \<Rightarrow> bytes \<Rightarrow> (disk, unit) prog" where
  "write_file_sync io ctx_open ctx_write ctx_fsync path contents d =
     (case io ctx_open of
        Some (m, e) \<Rightarrow> (Inl (SystemError e ctx_open), d)
      | None \<Rightarrow>
          (let (i, d1) = d_create path d; d2 = d_truncate i d1 in
           case io ctx_write of
             Some (m, e) \<Rightarrow> (Inl (SystemError e ctx_write), d_append i (take m contents) d2)
           | None \<Rightarrow>
               (let d3 = d_append i contents d2 in
                case io ctx_fsync of
                  Some (m, e) \<Rightarrow> (Inl (SystemError e ctx_fsync), d3)
                | None \<Rightarrow> (Inr (), d_fsync i d3))))"

text \<open>A crash keeps the directory and cuts each file at or after its durable prefix.\<close>

definition crash_cut :: "disk \<Rightarrow> disk \<Rightarrow> bool" where
  "crash_cut d d' \<longleftrightarrow>
     dents d' = dents d \<and> next_ino d' = next_ino d \<and>
     (\<forall>i. \<exists>n. synced d i \<le> n \<and> blobs d' i = take n (blobs d i) \<and> synced d' i = length (blobs d' i))"

subsection \<open>The retry loops have the outcomes the rest of the model uses\<close>

lemma write_all_steps:
  "\<not> written < length dat \<Longrightarrow> write_all ctx sch dat written fl = (fl, Some (Inr ()))"
  "written < length dat \<Longrightarrow> write_all ctx [] dat written fl = (fl, None)"
  "written < length dat \<Longrightarrow> write_all ctx (SysErr e # sch) dat written fl =
     (if e = EINTR then write_all ctx sch dat written fl else (fl, Some (Inl (SystemError e ctx))))"
  "written < length dat \<Longrightarrow> write_all ctx (SysOk n # sch) dat written fl =
     write_all ctx sch dat (written + n) (fl @ take n (drop written dat))"
  by (simp_all add: write_all.simps)

lemma write_all_cases:
  assumes "write_all ctx sch dat written fl = (fl', r)"
  shows "(r = Some (Inr ()) \<longrightarrow> fl' = fl @ drop written dat) \<and>
    (\<exists>m. fl' = fl @ take m (drop written dat)) \<and>
    (\<forall>e. r = Some (Inl e) \<longrightarrow> (\<exists>n. e = SystemError n ctx \<and> n \<noteq> EINTR \<and> SysErr n \<in> set sch))"
  using assms
proof (induction sch arbitrary: written fl)
  case Nil
  then show ?case
    by (cases "written < length dat") (auto simp: write_all_steps intro: exI [of _ 0])
next
  case (Cons a sch)
  show ?case
  proof (cases "written < length dat")
    case False
    with Cons.prems show ?thesis by (auto simp: write_all_steps intro: exI [of _ 0])
  next
    case run: True
    show ?thesis
    proof (cases a)
      case (SysErr e)
      with Cons.prems run Cons.IH [of written fl] show ?thesis
        by (auto simp: write_all_steps split: if_splits intro: exI [of _ 0])
    next
      case (SysOk n)
      have step: "write_all ctx sch dat (written + n) (fl @ take n (drop written dat)) = (fl', r)"
        using Cons.prems run SysOk by (simp add: write_all_steps)
      have join: "take n (drop written dat) @ take m (drop (written + n) dat)
        = take (n + m) (drop written dat)" for m
        by (simp add: take_add add.commute [of written])
      have full: "take n (drop written dat) @ drop (written + n) dat = drop written dat"
        by (metis add.commute append_take_drop_id drop_drop)
      show ?thesis
        using Cons.IH [OF step] join full by auto
    qed
  qed
qed

text \<open>A loop of successful calls that each transfer something returns.\<close>

lemma write_all_returns:
  assumes "length dat - written \<le> length sch" and "\<forall>r\<in>set sch. \<exists>n. r = SysOk (Suc n)"
  shows "write_all ctx sch dat written fl = (fl @ drop written dat, Some (Inr ()))"
proof -
  have "snd (write_all ctx sch dat written fl) = Some (Inr ())"
    using assms
  proof (induction sch arbitrary: written fl)
    case Nil
    then show ?case by (simp add: write_all.simps)
  next
    case (Cons a sch)
    then obtain n where "a = SysOk (Suc n)" by auto
    with Cons show ?case
      by (subst write_all.simps) auto
  qed
  then show ?thesis
    using write_all_cases [of ctx sch dat written fl] by (metis prod.collapse)
qed

lemma pread_loop_steps:
  "\<not> length buf < len \<Longrightarrow> pread_loop ctx sch fl off len buf = Some (Inr buf)"
  "length buf < len \<Longrightarrow> pread_loop ctx [] fl off len buf = None"
  "length buf < len \<Longrightarrow> pread_loop ctx (SysErr e # sch) fl off len buf =
     (if e = EINTR then pread_loop ctx sch fl off len buf else Some (Inl (SystemError e ctx)))"
  "length buf < len \<Longrightarrow> pread_loop ctx (SysOk n # sch) fl off len buf =
     (let got = take (min n (len - length buf)) (drop (off + length buf) fl) in
      if got = [] then Some (Inl (RuntimeError ctx)) else pread_loop ctx sch fl off len (buf @ got))"
  by (simp_all add: pread_loop.simps)

lemma pread_loop_cases:
  assumes "pread_loop ctx sch fl off len buf = Some r"
    and "buf = take (length buf) (drop off fl)" and "length buf \<le> len"
    and "SysOk 0 \<notin> set sch"
  shows "r = Inr (take len (drop off fl)) \<and> (len = 0 \<or> length (take len (drop off fl)) = len)
    \<or> r = Inl (RuntimeError ctx) \<and> length fl < off + len
    \<or> (\<exists>e. r = Inl (SystemError e ctx) \<and> SysErr e \<in> set sch)"
  using assms
proof (induction sch arbitrary: buf)
  case Nil
  then have "length buf = len"
    using pread_loop_steps(2) [of buf len ctx fl off] by (cases "length buf < len") auto
  with Nil show ?case by (auto simp: pread_loop_steps)
next
  case (Cons a sch)
  show ?case
  proof (cases "length buf < len")
    case False
    with Cons.prems(1-3) show ?thesis by (auto simp: pread_loop_steps)
  next
    case run: True
    show ?thesis
    proof (cases a)
      case (SysErr e)
      with Cons.prems run Cons.IH [of buf] show ?thesis
        by (auto simp: pread_loop_steps split: if_splits)
    next
      case (SysOk n)
      define got where "got = take (min n (len - length buf)) (drop (off + length buf) fl)"
      have n: "0 < n" using Cons.prems(4) SysOk by (cases n) auto
      have eq: "pread_loop ctx (a # sch) fl off len buf =
        (if got = [] then Some (Inl (RuntimeError ctx)) else pread_loop ctx sch fl off len (buf @ got))"
        unfolding SysOk pread_loop_steps(4) [OF run] got_def Let_def by (rule refl)
      show ?thesis
      proof (cases "got = []")
        case True
        then have "length fl \<le> off + length buf"
          using n run by (auto simp: got_def)
        with True eq Cons.prems(1) run show ?thesis by auto
      next
        case False
        then have rec: "pread_loop ctx sch fl off len (buf @ got) = Some r"
          using eq Cons.prems(1) by simp
        have "got = take (length got) (drop (length buf) (drop off fl))"
          unfolding got_def drop_drop add.commute [of off] by (rule take_length_take [symmetric])
        then have pre: "buf @ got = take (length (buf @ got)) (drop off fl)"
          using Cons.prems(2) by (metis length_append take_add)
        have le: "length (buf @ got) \<le> len" using run by (auto simp: got_def)
        have "SysOk 0 \<notin> set sch" using Cons.prems(4) by simp
        from Cons.IH [OF rec pre le this] show ?thesis by auto
      qed
    qed
  qed
qed

text \<open>Whatever the kernel's schedule, a positioned read has an outcome of \<open>pread_exact\<close>.\<close>

lemma pread_loop_exact:
  assumes "pread_loop ctx sch fl off len [] = Some r" and "SysOk 0 \<notin> set sch"
  shows "\<exists>io. r = pread_exact io ctx fl off len"
proof -
  have fits: "len = 0 \<or> off + len \<le> length fl" if "length (take len (drop off fl)) = len"
    using that unfolding length_take length_drop by linarith
  from pread_loop_cases [OF assms(1) _ _ assms(2)] fits
  consider "r = Inr (take len (drop off fl))" "len = 0 \<or> off + len \<le> length fl"
    | "r = Inl (RuntimeError ctx)" "length fl < off + len"
    | e where "r = Inl (SystemError e ctx)" by auto
  then show ?thesis
  proof cases
    case 1
    then have "r = pread_exact no_faults ctx fl off len"
      by (auto simp: pread_exact_def no_faults_def)
    then show ?thesis by blast
  next
    case 2
    show ?thesis
    proof (cases "len = 0")
      case True
      then have "r = Inr []" using assms(1) by (simp add: pread_loop.simps)
      with 2 show ?thesis by simp
    next
      case False
      with 2 have "r = pread_exact no_faults ctx fl off len"
        by (simp add: pread_exact_def no_faults_def)
      then show ?thesis by blast
    qed
  next
    case 3
    have "len \<noteq> 0"
      using 3 assms(1) by (auto simp: pread_loop.simps split: if_splits)
    with 3 have "r = pread_exact (\<lambda>_. Some (0, e)) ctx fl off len"
      by (simp add: pread_exact_def)
    then show ?thesis by blast
  qed
qed

text \<open>The crash that loses nothing.\<close>

lemma crash_cut_intact: "crash_cut d (d\<lparr>synced := (\<lambda>i. length (blobs d i))\<rparr>)"
proof -
  have "\<exists>n. synced d i \<le> n \<and> blobs d i = take n (blobs d i)" for i
    by (rule exI [of _ "max (synced d i) (length (blobs d i))"]) simp
  then show ?thesis by (simp add: crash_cut_def)
qed

subsection \<open>What successful calls do to the directory\<close>

text \<open>The effect of a successful \<open>write_file_sync\<close>: the name refers to a durable file with the contents.\<close>

definition ino_of :: "bytes \<Rightarrow> disk \<Rightarrow> nat" where
  "ino_of path d = (case d_ino d path of Some i \<Rightarrow> i | None \<Rightarrow> next_ino d)"

definition d_store :: "bytes \<Rightarrow> bytes \<Rightarrow> disk \<Rightarrow> disk" where
  "d_store path contents d =
     (let (i, d1) = d_create path d in d_fsync i (d_append i contents (d_truncate i d1)))"

lemma write_file_sync_ok:
  "write_file_sync no_faults a b c path contents d = (Inr (), d_store path contents d)"
  by (simp add: write_file_sync_def no_faults_def d_store_def Let_def split: prod.split)

lemma d_create_eqs:
  "fst (d_create path d) = ino_of path d"
  "d_ino (snd (d_create path d)) n = (if n = path then Some (ino_of path d) else d_ino d n)"
  "blobs (snd (d_create path d)) j = (if j = ino_of path d \<and> d_ino d path = None then [] else blobs d j)"
  "next_ino (snd (d_create path d)) = (if d_ino d path = None then Suc (next_ino d) else next_ino d)"
  by (auto simp: d_create_def ino_of_def d_ino_def split: option.split)

lemma d_store_eqs:
  "d_ino (d_store path contents d) n = (if n = path then Some (ino_of path d) else d_ino d n)"
  "blobs (d_store path contents d) j = (if j = ino_of path d then contents else blobs d j)"
  "synced (d_store path contents d) (ino_of path d) = length contents"
  "next_ino (d_store path contents d) = (if d_ino d path = None then Suc (next_ino d) else next_ino d)"
  by (auto simp: d_store_def d_create_def ino_of_def d_ino_def d_fsync_def d_append_def d_set_def
      d_truncate_def Let_def split: option.split prod.split)

lemma d_store_read: "d_read (d_store path contents d) path = Some contents"
  by (simp add: d_read_def d_store_eqs)

definition d_moved :: "bytes \<Rightarrow> bytes \<Rightarrow> disk \<Rightarrow> disk" where
  "d_moved old new d = snd (d_rename no_faults [] old new d)"

lemma map_of_filter_key:
  "map_of (filter (\<lambda>(n, _). P n) xs) n = (if P n then map_of xs n else None)"
  by (induction xs) auto

lemma d_rename_ok:
  assumes "d_ino d old = Some i"
  shows "d_rename no_faults ctx old new d = (Inr (), d_moved old new d)"
  using assms by (simp add: d_rename_def no_faults_def d_moved_def)

lemma d_moved_eqs:
  assumes "d_ino d old = Some i"
  shows "d_ino (d_moved old new d) n = (if n = new then Some i else if n = old then None else d_ino d n)"
    and "blobs (d_moved old new d) = blobs d" and "next_ino (d_moved old new d) = next_ino d"
    and "synced (d_moved old new d) = synced d"
  using assms map_of_filter_key [of "\<lambda>n. n \<noteq> old \<and> n \<noteq> new" "dents d" n]
  by (simp_all add: d_moved_def d_rename_def no_faults_def d_ino_def)

lemma d_unlink_eqs:
  "d_ino (d_unlink path d) n = (if n = path then None else d_ino d n)"
  "blobs (d_unlink path d) = blobs d" "next_ino (d_unlink path d) = next_ino d"
  "synced (d_unlink path d) = synced d"
  using map_of_filter_key [of "\<lambda>n. n \<noteq> path" "dents d" n]
  by (simp_all add: d_unlink_def d_ino_def)

lemma fsync_dir_ok: "fsync_dir no_faults d = (Inr (), d)"
  by (simp add: fsync_dir_def no_faults_def)

lemma fsync_dir_disk: "snd (fsync_dir io d) = d"
  by (simp add: fsync_dir_def split: option.split)

subsection \<open>Files that a call does not touch\<close>

text \<open>No hard links, and inode numbers below the next free one.\<close>

definition disk_wf :: "disk \<Rightarrow> bool" where
  "disk_wf d \<longleftrightarrow>
     (\<forall>n i. d_ino d n = Some i \<longrightarrow> i < next_ino d) \<and>
     (\<forall>n n' i. d_ino d n = Some i \<and> d_ino d n' = Some i \<longrightarrow> n = n')"

definition durable :: "disk \<Rightarrow> bytes \<Rightarrow> bool" where
  "durable d n \<longleftrightarrow> (\<forall>i. d_ino d n = Some i \<longrightarrow> length (blobs d i) \<le> synced d i)"

lemma ino_of_other:
  assumes "disk_wf d" and "d_ino d n = Some i" and "n \<noteq> path"
  shows "i \<noteq> ino_of path d"
proof (cases "d_ino d path")
  case None
  have "i < next_ino d" using assms(1,2) unfolding disk_wf_def by blast
  with None show ?thesis by (simp add: ino_of_def)
next
  case (Some j)
  then have "i \<noteq> j" using assms unfolding disk_wf_def by blast
  with Some show ?thesis by (simp add: ino_of_def)
qed

lemma write_file_sync_ino:
  assumes "write_file_sync io a b c path contents d = (r, d')" and "n \<noteq> path"
  shows "d_ino d' n = d_ino d n"
  using assms
  by (auto simp: write_file_sync_def d_create_def d_ino_def d_append_def d_set_def d_truncate_def d_fsync_def
      Let_def split: option.splits prod.splits)

lemma write_file_sync_inode:
  assumes "write_file_sync io a b c path contents d = (r, d')" and "i \<noteq> ino_of path d"
  shows "blobs d' i = blobs d i \<and> synced d' i = synced d i"
  using assms
  by (auto simp: write_file_sync_def d_create_def ino_of_def d_append_def d_set_def d_truncate_def d_fsync_def
      Let_def split: option.splits prod.splits)

lemma write_file_sync_done:
  assumes "write_file_sync io a b c path contents d = (Inr u, d')"
  shows "d' = d_store path contents d"
  using assms by (auto simp: write_file_sync_def d_store_def Let_def split: option.splits prod.splits)

lemma crash_read:
  assumes "crash_cut d d'" and "durable d n"
  shows "d_read d' n = d_read d n"
proof -
  have "blobs d' i = blobs d i" if "d_ino d n = Some i" for i
    using assms that unfolding crash_cut_def durable_def by (metis order_trans take_all)
  moreover have "d_ino d' n = d_ino d n" using assms by (simp add: crash_cut_def d_ino_def)
  ultimately show ?thesis by (cases "d_ino d n") (simp_all add: d_read_def)
qed

end
