(* ===== verification/Wal.thy ===== *)
theory Wal
  imports Kv_Record Posix_Io
begin

text \<open>
  The write-ahead log (\<open>include/lsmkv/wal.h\<close>, \<open>src/wal.cpp\<close>): opening, appending with or
  without fsync, and replay. The descriptor of a \<open>Wal\<close> is the inode it refers to.
\<close>

definition kLenSize :: nat where
  "kLenSize = 4"

record wal =
  wal_path :: bytes
  wal_fd :: "nat option"

definition EBADF :: nat where
  "EBADF = 9"

definition wal_open :: "io \<Rightarrow> bytes \<Rightarrow> bool \<Rightarrow> (disk, wal) prog" where
  "wal_open io path trunc d =
     (case io ''WAL open'' of
        Some (m, e) \<Rightarrow> (Inl (SystemError e ''WAL open''), d)
      | None \<Rightarrow>
          (let (i, d1) = d_create path d in
           (Inr \<lparr>wal_path = path, wal_fd = Some i\<rparr>, if trunc then d_truncate i d1 else d1)))"

definition wal_close_fd :: "wal \<Rightarrow> wal" where
  "wal_close_fd w = w\<lparr>wal_fd := None\<rparr>"

text \<open>Move construction and move assignment of distinct objects: the new object and the source.\<close>

definition wal_move :: "wal \<Rightarrow> wal \<times> wal" where
  "wal_move other = (other, other\<lparr>wal_fd := None\<rparr>)"

definition wal_move_assign :: "wal \<Rightarrow> wal \<Rightarrow> wal \<times> wal" where
  "wal_move_assign this other =
     ((wal_close_fd this)\<lparr>wal_path := wal_path other, wal_fd := wal_fd other\<rparr>,
      other\<lparr>wal_fd := None\<rparr>)"

definition wal_sync :: "io \<Rightarrow> wal \<Rightarrow> (disk, unit) prog" where
  "wal_sync io w d =
     (case wal_fd w of
        None \<Rightarrow> (Inl (SystemError EBADF ''WAL fsync''), d)
      | Some i \<Rightarrow>
          (case io ''WAL fsync'' of
             Some (m, e) \<Rightarrow> (Inl (SystemError e ''WAL fsync''), d)
           | None \<Rightarrow> (Inr (), d_fsync i d)))"

definition wal_encode :: "kv_record \<Rightarrow> bytes" where
  "wal_encode r =
     (let buf = [];
          buf = buf @ [op_byte (rec_op r)];
          buf = put_u32_le buf (of_nat (length (rec_key r)));
          buf = buf @ rec_key r;
          buf = put_u32_le buf (of_nat (length (rec_value r)))
      in buf @ rec_value r)"

definition wal_append :: "io \<Rightarrow> kv_record \<Rightarrow> bool \<Rightarrow> wal \<Rightarrow> (disk, unit) prog" where
  "wal_append io r sync w d =
     (if length (rec_key r) > UINT32_MAX \<or> length (rec_value r) > UINT32_MAX
      then (Inl (LengthError ''WAL record field exceeds 4 GiB''), d)
      else case wal_fd w of
        None \<Rightarrow> (Inl (SystemError EBADF ''WAL write''), d)
      | Some i \<Rightarrow>
          (let buf = wal_encode r in
           case io ''WAL write'' of
             Some (m, e) \<Rightarrow> (Inl (SystemError e ''WAL write''), d_append i (take m buf) d)
           | None \<Rightarrow>
               (let d1 = d_append i buf d in
                if sync then wal_sync io w d1 else (Inr (), d1))))"

text \<open>
  The body of the replay loop at position \<open>pos\<close>: \<open>None\<close> where it breaks out of the loop on a
  torn record, otherwise the record it pushes and the next position.
\<close>

definition replay_one :: "bytes \<Rightarrow> nat \<Rightarrow> (kv_record \<times> nat) option" where
  "replay_one dat pos =
     (if pos + 1 + kLenSize > length dat then None
      else
        let x = byte_op (dat ! pos); p = pos + 1;
            klen = unat (read_u32_le (drop p dat)); p = p + kLenSize in
        if p + klen > length dat then None
        else
          let key = take klen (drop p dat); p = p + klen in
          if p + kLenSize > length dat then None
          else
            let vlen = unat (read_u32_le (drop p dat)); p = p + kLenSize in
            if p + vlen > length dat then None
            else
              let val = take vlen (drop p dat); p = p + vlen in
              Some (mk_record x key val, p))"

lemma replay_one_advances: "replay_one dat pos = Some (r, p) \<Longrightarrow> pos < p \<and> p \<le> length dat"
  by (auto simp: replay_one_def Let_def kLenSize_def split: if_splits)

function replay_loop :: "bytes \<Rightarrow> nat \<Rightarrow> kv_record list \<Rightarrow> kv_record list" where
  "replay_loop dat pos records =
     (if pos < length dat then
        (case replay_one dat pos of
           None \<Rightarrow> records
         | Some (r, p) \<Rightarrow> replay_loop dat p (records @ [r]))
      else records)"
  by pat_completeness auto
termination
  by (relation "measure (\<lambda>(dat, pos, records). length dat - pos)")
     (auto dest!: replay_one_advances)

declare replay_loop.simps [simp del]

definition wal_replay :: "io \<Rightarrow> bytes \<Rightarrow> disk \<Rightarrow> kv_record list res" where
  "wal_replay io path d =
     (case io ''WAL replay open'' of
        Some (m, e) \<Rightarrow> if e = ENOENT then Inr [] else Inl (SystemError e ''WAL replay open'')
      | None \<Rightarrow>
          (case d_read d path of
             None \<Rightarrow> Inr []
           | Some dat \<Rightarrow>
               (case io ''WAL read'' of
                  Some (m, e) \<Rightarrow> Inl (SystemError e ''WAL read'')
                | None \<Rightarrow> Inr (replay_loop dat 0 []))))"

subsection \<open>Encoding one record\<close>

lemma wal_encode_eq:
  "wal_encode r = op_byte (rec_op r) # put_u32_le [] (of_nat (length (rec_key r))) @ rec_key r
     @ put_u32_le [] (of_nat (length (rec_value r))) @ rec_value r"
  by (simp add: wal_encode_def Let_def put_u32_append [of "_ # _"] put_u32_append [of "_ @ _"])

lemma length_wal_encode [simp, enc_simps]:
  "length (wal_encode r) = 9 + length (rec_key r) + length (rec_value r)"
  by (simp add: wal_encode_eq)

text \<open>A record that the log can hold: known operation, inline value, 32-bit lengths.\<close>

definition wal_ok :: "kv_record \<Rightarrow> bool" where
  "wal_ok r \<longleftrightarrow> known_op (rec_op r) \<and> inline_rec r \<and>
     length (rec_key r) \<le> UINT32_MAX \<and> length (rec_value r) \<le> UINT32_MAX"

definition wal_bytes :: "kv_record list \<Rightarrow> bytes" where
  "wal_bytes rs = concat (map wal_encode rs)"

lemma wal_bytes_simps [simp]:
  "wal_bytes [] = []" "wal_bytes (r # rs) = wal_encode r @ wal_bytes rs"
  "wal_bytes (xs @ ys) = wal_bytes xs @ wal_bytes ys"
  by (simp_all add: wal_bytes_def)

subsection \<open>Replay\<close>

text \<open>
  The loop depends on the bytes from its position only, and adds to its accumulator; so it
  is a parser that splits one record off the front of the remaining bytes.
\<close>

definition wal_parse :: "bytes \<Rightarrow> (kv_record \<times> nat) option" where
  "wal_parse b =
     (if length b < 5 then None
      else let klen = unat (read_u32_le (drop 1 b)) in
        if length b < 9 + klen then None
        else let vlen = unat (read_u32_le (drop (5 + klen) b)) in
          if length b < 9 + klen + vlen then None
          else Some (mk_record (byte_op (b ! 0)) (take klen (drop 5 b)) (take vlen (drop (9 + klen) b)),
                     9 + klen + vlen))"

lemma replay_loop_parse:
  assumes "pos \<le> length dat"
  shows "replay_loop dat pos acc =
    (case wal_parse (drop pos dat) of
       None \<Rightarrow> acc
     | Some (r, n) \<Rightarrow> replay_loop dat (pos + n) (acc @ [r]))"
  using assms
  by (subst replay_loop.simps)
     (auto simp: replay_one_def wal_parse_def Let_def kLenSize_def add.assoc add.left_commute
        add.commute nth_via_drop split: if_splits)

lemma wal_parse_len: "wal_parse b = Some (r, n) \<Longrightarrow> 0 < n \<and> n \<le> length b"
  by (auto simp: wal_parse_def Let_def split: if_splits)

function wal_records :: "bytes \<Rightarrow> kv_record list" where
  "wal_records b = (case wal_parse b of None \<Rightarrow> [] | Some (r, n) \<Rightarrow> r # wal_records (drop n b))"
  by pat_completeness auto
termination
  by (relation "measure length") (auto dest!: wal_parse_len)

declare wal_records.simps [simp del]

lemma replay_loop_records:
  "pos \<le> length dat \<Longrightarrow> replay_loop dat pos acc = acc @ wal_records (drop pos dat)"
proof (induction "drop pos dat" arbitrary: pos acc rule: wal_records.induct)
  case 1
  show ?case
  proof (cases "wal_parse (drop pos dat)")
    case None
    with "1.prems" show ?thesis
      by (simp add: replay_loop_parse wal_records.simps [of "drop pos dat"])
  next
    case (Some rn)
    then obtain r n where rn: "wal_parse (drop pos dat) = Some (r, n)" by (cases rn) auto
    then have "pos + n \<le> length dat" using wal_parse_len "1.prems" by fastforce
    then have "replay_loop dat (pos + n) (acc @ [r]) = (acc @ [r]) @ wal_records (drop (pos + n) dat)"
      using "1.hyps" [of "(r, n)" r n "pos + n"] rn by (simp add: add.commute)
    with rn "1.prems" show ?thesis
      by (simp add: replay_loop_parse wal_records.simps [of "drop pos dat"] add.commute)
  qed
qed

lemma wal_parse_header:
  assumes "length k \<le> UINT32_MAX" and "v \<le> UINT32_MAX"
  shows "wal_parse (x # put_u32_le [] (of_nat (length k)) @ k @ put_u32_le [] (of_nat v) @ t) =
    (if length t < v then None else Some (mk_record (byte_op x) k (take v t), 9 + length k + v))"
proof -
  let ?b = "x # put_u32_le [] (of_nat (length k)) @ k @ put_u32_le [] (of_nat v) @ t"
  have d1: "drop 1 ?b = put_u32_le [] (of_nat (length k)) @ k @ put_u32_le [] (of_nat v) @ t"
    by simp
  have d5: "drop 5 ?b = k @ put_u32_le [] (of_nat v) @ t"
    using drop_exact [of "x # put_u32_le [] (of_nat (length k))" 5 "k @ put_u32_le [] (of_nat v) @ t"] by simp
  have dk: "drop (5 + length k) ?b = put_u32_le [] (of_nat v) @ t"
    using drop_exact [of "x # put_u32_le [] (of_nat (length k)) @ k" "5 + length k" "put_u32_le [] (of_nat v) @ t"]
    by simp
  have dv: "drop (9 + length k) ?b = t"
    using drop_exact [of "x # put_u32_le [] (of_nat (length k)) @ k @ put_u32_le [] (of_nat v)" "9 + length k" t]
    by simp
  have "unat (read_u32_le (drop 1 ?b)) = length k" using assms unfolding d1 by simp
  moreover have "unat (read_u32_le (drop (5 + length k) ?b)) = v" using assms unfolding dk by simp
  moreover have "take (length k) (drop 5 ?b) = k" unfolding d5 by simp
  moreover have "take v (drop (9 + length k) ?b) = take v t" unfolding dv ..
  moreover have "length ?b = 9 + length k + length t" by simp
  moreover have "?b ! 0 = x" by simp
  ultimately show ?thesis
    unfolding wal_parse_def Let_def by (simp only: if_False if_True) (simp del: drop_Cons')
qed

lemma wal_parse_encode:
  assumes "wal_ok r"
  shows "wal_parse (wal_encode r @ rest) = Some (r, length (wal_encode r))"
  using assms wal_parse_header [of "rec_key r" "length (rec_value r)" "op_byte (rec_op r)" "rec_value r @ rest"]
  by (simp add: wal_ok_def wal_encode_eq inline_rec_eq)

lemma wal_parse_extend:
  assumes "wal_parse b = Some (r, n)"
  shows "wal_parse (b @ c) = Some (r, n)"
proof -
  define klen where "klen = unat (read_u32_le (drop 1 b))"
  define vlen where "vlen = unat (read_u32_le (drop (5 + klen) b))"
  have l: "9 + klen + vlen \<le> length b"
    using assms by (auto simp: wal_parse_def Let_def klen_def vlen_def split: if_splits)
  have k: "unat (read_u32_le (drop 1 (b @ c))) = klen"
    using l by (simp add: drop_append_le read_u32_append klen_def)
  have v: "unat (read_u32_le (drop (5 + klen) (b @ c))) = vlen"
    using l by (simp add: drop_append_le read_u32_append vlen_def)
  have "(b @ c) ! 0 = b ! 0" using l by (auto simp: nth_append)
  moreover have "take klen (drop 5 (b @ c)) = take klen (drop 5 b)"
    "take vlen (drop (9 + klen) (b @ c)) = take vlen (drop (9 + klen) b)"
    using l by simp_all
  ultimately show ?thesis
    using assms l k v unfolding wal_parse_def Let_def klen_def [symmetric] vlen_def [symmetric] by simp
qed

lemma wal_parse_torn:
  assumes "wal_ok r" and "n < length (wal_encode r)"
  shows "wal_parse (take n (wal_encode r)) = None"
proof (rule ccontr)
  assume "wal_parse (take n (wal_encode r)) \<noteq> None"
  then obtain r' m where p: "wal_parse (take n (wal_encode r)) = Some (r', m)" by auto
  then have "wal_parse (wal_encode r) = Some (r', m)"
    using wal_parse_extend [OF p, of "drop n (wal_encode r)"] by simp
  then have "m = length (wal_encode r)" using wal_parse_encode [OF assms(1), of "[]"] by simp
  then show False using wal_parse_len [OF p] assms(2) by simp
qed

lemma wal_parse_sound:
  assumes "wal_parse b = Some (r, n)"
  shows "take n b = wal_encode r"
proof -
  define kw where "kw = read_u32_le (drop 1 b)"
  define vw where "vw = read_u32_le (drop (5 + unat kw) b)"
  have l: "9 + unat kw + unat vw \<le> length b"
    and n: "n = 9 + unat kw + unat vw"
    and r: "r = mk_record (byte_op (b ! 0)) (take (unat kw) (drop 5 b)) (take (unat vw) (drop (9 + unat kw) b))"
    using assms by (auto simp: wal_parse_def Let_def kw_def vw_def split: if_splits)
  have hd: "take 1 b = [b ! 0]" using l by (cases b) auto
  have k4: "put_u32_le [] kw = take 4 (drop 1 b)" "put_u32_le [] vw = take 4 (drop (5 + unat kw) b)"
    using l by (simp_all add: kw_def vw_def put_read_u32)
  have "take n b = take 1 b @ take 4 (drop 1 b) @ take (unat kw) (drop 5 b)
      @ take 4 (drop (5 + unat kw) b) @ take (unat vw) (drop (9 + unat kw) b)"
    using take_add [of 1 4 b] take_add [of 5 "unat kw" b] take_add [of "5 + unat kw" 4 b]
      take_add [of "9 + unat kw" "unat vw" b] by (simp add: n)
  moreover have "length (take (unat kw) (drop 5 b)) = unat kw"
    "length (take (unat vw) (drop (9 + unat kw) b)) = unat vw"
    using l by simp_all
  ultimately show ?thesis
    unfolding wal_encode_eq r hd mk_record_sel op_byte_byte_op by (simp add: k4 del: length_take)
qed

lemma wal_records_bytes:
  "list_all wal_ok rs \<Longrightarrow> wal_records (wal_bytes rs @ tail) = rs @ wal_records tail"
proof (induction rs)
  case (Cons r rs)
  then have "wal_parse (wal_encode r @ wal_bytes rs @ tail) = Some (r, length (wal_encode r))"
    by (simp add: wal_parse_encode)
  moreover have "drop (length (wal_encode r)) (wal_encode r @ wal_bytes rs @ tail) = wal_bytes rs @ tail"
    by (rule drop_exact) simp
  ultimately show ?case
    using Cons by (subst wal_records.simps) simp
qed simp

lemma wal_records_none: "wal_parse b = None \<Longrightarrow> wal_records b = []"
  by (simp add: wal_records.simps)

lemma wal_records_sound:
  "\<exists>tail. b = wal_bytes (wal_records b) @ tail \<and> wal_parse tail = None"
proof (induction b rule: wal_records.induct)
  case (1 b)
  show ?case
  proof (cases "wal_parse b")
    case None
    then show ?thesis by (simp add: wal_records_none)
  next
    case (Some rn)
    then obtain r n where rn: "wal_parse b = Some (r, n)" by (cases rn) auto
    then obtain tail where "drop n b = wal_bytes (wal_records (drop n b)) @ tail" "wal_parse tail = None"
      using "1.IH" [of "(r, n)" r n] by auto
    moreover have "b = wal_encode r @ drop n b"
      using wal_parse_sound [OF rn] by (metis append_take_drop_id)
    ultimately have "b = wal_encode r @ wal_bytes (wal_records (drop n b)) @ tail" by simp
    with rn \<open>wal_parse tail = None\<close> show ?thesis
      by (auto simp: wal_records.simps [of b])
  qed
qed

text \<open>Cutting the encoding of a sequence of records leaves whole records and a torn one.\<close>

lemma wal_cut:
  assumes "list_all wal_ok rs"
  obtains m where "m \<le> length rs" and "wal_records (take n (wal_bytes rs)) = take m rs"
    and "length (wal_bytes (take m rs)) \<le> n \<or> m = 0"
    and "m < length rs \<Longrightarrow> n < length (wal_bytes (take (Suc m) rs))"
proof -
  have "\<exists>m\<le>length rs. wal_records (take n (wal_bytes rs)) = take m rs \<and>
      length (wal_bytes (take m rs)) \<le> n \<and>
      (m < length rs \<longrightarrow> n < length (wal_bytes (take (Suc m) rs)))"
    using assms
  proof (induction rs arbitrary: n)
    case Nil
    show ?case by (simp add: wal_records_none wal_parse_def)
  next
    case (Cons r rs)
    have ok: "wal_ok r" "list_all wal_ok rs" using Cons.prems by auto
    show ?case
    proof (cases "n < length (wal_encode r)")
      case True
      then have "wal_records (take n (wal_bytes (r # rs))) = []"
        using wal_parse_torn [OF ok(1) True] by (simp add: wal_records_none)
      with True show ?thesis by (auto intro: exI [of _ 0])
    next
      case False
      let ?n = "n - length (wal_encode r)"
      obtain m where m: "m \<le> length rs" "wal_records (take ?n (wal_bytes rs)) = take m rs"
        "length (wal_bytes (take m rs)) \<le> ?n"
        "m < length rs \<longrightarrow> ?n < length (wal_bytes (take (Suc m) rs))"
        using Cons.IH [OF ok(2)] by blast
      have "take n (wal_bytes (r # rs)) = wal_bytes [r] @ take ?n (wal_bytes rs)"
        using False by simp
      then have "wal_records (take n (wal_bytes (r # rs))) = take (Suc m) (r # rs)"
        using wal_records_bytes [of "[r]"] ok(1) m(2) by simp
      with m False show ?thesis
        by (intro exI [of _ "Suc m"]) (auto simp: less_diff_conv2)
    qed
  qed
  then show thesis using that by blast
qed

lemma replay_one_0: "replay_one b 0 = wal_parse b"
  by (auto simp: replay_one_def wal_parse_def Let_def kLenSize_def add.commute split: if_splits)

lemma replay_records: "replay_loop dat 0 [] = wal_records dat"
  by (simp add: replay_loop_records)

lemma wal_append_ok:
  assumes "wal_append no_faults r sync w d = (Inr (), d')" and "wal_fd w = Some i"
  shows "blobs d' i = blobs d i @ wal_encode r \<and> dents d' = dents d \<and>
    (if sync then synced d' i = length (blobs d' i) else synced d' i = synced d i)"
  using assms
  by (auto simp: wal_append_def wal_sync_def no_faults_def Let_def d_append_def d_set_def
      d_fsync_def split: if_splits)

text \<open>A sequence of appends, each with its own sync flag, as the write path issues them.\<close>

definition wal_appends :: "io \<Rightarrow> wal \<Rightarrow> (kv_record \<times> bool) list \<Rightarrow> (disk, unit) prog" where
  "wal_appends io w xs = sfold (\<lambda>(r, sync) _. wal_append io r sync w) xs ()"

lemma wal_appends_simps [simp]:
  "wal_appends io w [] d = (Inr (), d)"
  "wal_appends io w ((r, sync) # xs) d = sbind (wal_append io r sync w) (\<lambda>_. wal_appends io w xs) d"
  by (simp_all add: wal_appends_def sbind_def)

lemma wal_appends_append:
  "wal_appends io w (xs @ ys) d = sbind (wal_appends io w xs) (\<lambda>_. wal_appends io w ys) d"
proof (induction xs arbitrary: d)
  case (Cons x xs)
  then show ?case by (cases x) (auto simp: sbind_def split: prod.splits sum.splits)
qed (simp add: sbind_def)

lemma wal_appends_ok:
  assumes "wal_appends no_faults w xs d = (Inr (), d')" and "wal_fd w = Some i"
    and "synced d i \<le> length (blobs d i)"
  shows "blobs d' i = blobs d i @ wal_bytes (map fst xs) \<and> dents d' = dents d \<and>
    synced d i \<le> synced d' i \<and> synced d' i \<le> length (blobs d' i)"
  using assms
proof (induction xs arbitrary: d)
  case (Cons x xs)
  obtain r sync where x: "x = (r, sync)" by (cases x)
  with Cons.prems(1) obtain d1 where d1: "wal_append no_faults r sync w d = (Inr (), d1)"
    and rest: "wal_appends no_faults w xs d1 = (Inr (), d')"
    by (auto simp: sbind_eq_Inr)
  have a: "blobs d1 i = blobs d i @ wal_encode r \<and> dents d1 = dents d \<and>
    synced d i \<le> synced d1 i \<and> synced d1 i \<le> length (blobs d1 i)"
    using wal_append_ok [OF d1 Cons.prems(2)] Cons.prems(3) by (cases sync) auto
  with Cons.IH [OF rest Cons.prems(2)] show ?case by (auto simp: x)
qed simp

subsection \<open>Properties\<close>

text \<open>
  Property C31: replay of a log that ends in a torn record returns exactly the records before
  it, for every way in which the last record can be cut; with \<open>n = 0\<close> this is the
  round trip of an intact log.
\<close>

theorem replay_torn_tail:
  assumes "list_all wal_ok rs" and "wal_ok r" and "n < length (wal_encode r)"
  shows "replay_loop (wal_bytes rs @ take n (wal_encode r)) 0 [] = rs"
  using assms by (simp add: replay_records wal_records_bytes wal_records_none wal_parse_torn)

theorem replay_torn_tail_witness:
  "replay_loop (wal_bytes [mk_record Put [107] [118]] @ take 9 (wal_encode (mk_record Delete [107] []))) 0 []
     = [mk_record Put [107] [118]]"
proof (rule replay_torn_tail)
  show "list_all wal_ok [mk_record Put [107] [118]]" by (simp add: wal_ok_def UINT32_MAX_def)
  show "wal_ok (mk_record Delete [107] [])" by (simp add: wal_ok_def UINT32_MAX_def)
  show "9 < length (wal_encode (mk_record Delete [107] []))" by simp
qed


text \<open>
  Property C21: group commit is durable. After any sequence of appends of which the last one
  in \<open>xs\<close> was synced, and after any further unsynced or synced appends \<open>ys\<close>, a crash
  leaves a log whose replay returns everything up to that sync and then a prefix of the
  rest, in write order.
\<close>

theorem wal_group_commit:
  assumes fd: "wal_fd w = Some i" and ino: "d_ino d path = Some i"
    and old: "blobs d i = wal_bytes rs0" and syn: "synced d i \<le> length (blobs d i)"
    and ok: "list_all wal_ok (rs0 @ map fst xs @ map fst ys)"
    and xs: "xs = zs @ [(r, True)]"
    and run: "wal_appends no_faults w (xs @ ys) d = (Inr (), d1)"
    and crash: "crash_cut d1 d2"
  shows "\<exists>m. wal_replay no_faults path d2 = Inr (rs0 @ map fst xs @ take m (map fst ys))"
proof -
  let ?A = "rs0 @ map fst xs" and ?Y = "map fst ys"
  obtain da db where da: "wal_appends no_faults w zs d = (Inr (), da)"
    and db: "wal_append no_faults r True w da = (Inr (), db)"
    and rest: "wal_appends no_faults w ys db = (Inr (), d1)"
    using run by (auto simp: xs wal_appends_append sbind_eq_Inr)
  have a: "blobs da i = wal_bytes (rs0 @ map fst zs)" "dents da = dents d"
    using wal_appends_ok [OF da fd syn] old by auto
  have b: "blobs db i = wal_bytes ?A" "dents db = dents d" "synced db i = length (wal_bytes ?A)"
    using wal_append_ok [OF db fd] a by (auto simp: xs)
  have c: "blobs d1 i = wal_bytes ?A @ wal_bytes ?Y" "dents d1 = dents d" "length (wal_bytes ?A) \<le> synced d1 i"
    using wal_appends_ok [OF rest fd] b by auto
  obtain n where n: "synced d1 i \<le> n" "blobs d2 i = take n (blobs d1 i)" "dents d2 = dents d1"
    using crash by (auto simp: crash_cut_def)
  have cut: "blobs d2 i = wal_bytes ?A @ take (n - length (wal_bytes ?A)) (wal_bytes ?Y)"
    using n c by simp
  obtain m where "wal_records (take (n - length (wal_bytes ?A)) (wal_bytes ?Y)) = take m ?Y"
    using ok wal_cut [of ?Y "n - length (wal_bytes ?A)"] by (metis list_all_append)
  then have "wal_records (blobs d2 i) = ?A @ take m ?Y"
    using ok unfolding cut by (subst wal_records_bytes) auto
  moreover have "d_read d2 path = Some (blobs d2 i)"
    using ino n(3) c(2) by (simp add: d_read_def d_ino_def)
  ultimately show ?thesis
    by (auto simp: wal_replay_def no_faults_def replay_records)
qed

theorem wal_group_commit_witness:
  "\<exists>d1 m. wal_appends no_faults \<lparr>wal_path = [119], wal_fd = Some 0\<rparr>
        [(mk_record Put [107] [118], True), (mk_record Delete [107] [], False)]
        \<lparr>dents = [([119], 0)], blobs = (\<lambda>_. []), synced = (\<lambda>_. 0), next_ino = 1\<rparr> = (Inr (), d1) \<and>
     wal_replay no_faults [119] (d1\<lparr>synced := (\<lambda>i. length (blobs d1 i))\<rparr>)
       = Inr ([mk_record Put [107] [118]] @ take m [mk_record Delete [107] []])"
proof -
  let ?w = "\<lparr>wal_path = [119], wal_fd = Some 0\<rparr> :: wal"
  let ?d = "\<lparr>dents = [([119], 0)], blobs = (\<lambda>_. []), synced = (\<lambda>_. 0), next_ino = 1\<rparr> :: disk"
  let ?xs = "[(mk_record Put [107] [118], True)]" and ?ys = "[(mk_record Delete [107] [], False)]"
  obtain d1 where run: "wal_appends no_faults ?w (?xs @ ?ys) ?d = (Inr (), d1)"
    by (simp add: sbind_def wal_append_def wal_sync_def no_faults_def UINT32_MAX_def Let_def)
  let ?d2 = "d1\<lparr>synced := (\<lambda>i. length (blobs d1 i))\<rparr>"
  have cut: "crash_cut d1 ?d2" by (rule crash_cut_intact)
  have "\<exists>m. wal_replay no_faults [119] ?d2 = Inr ([] @ map fst ?xs @ take m (map fst ?ys))"
    by (rule wal_group_commit [OF _ _ _ _ _ _ run cut, where i = 0 and zs = "[]" and r = "mk_record Put [107] [118]"])
       (simp_all add: d_ino_def wal_ok_def UINT32_MAX_def)
  with run show ?thesis by auto
qed



end
