(* ===== verification/Record_Source.thy ===== *)
theory Record_Source
  imports Kv_Record
begin

text \<open>
  The interface through which a read sees one layer of the store, be it the active
  memtable, the sealed memtable or an SSTable: a strictly sorted run of records, of which
  a range query returns a contiguous part. \<open>DB::scan\<close> merges such runs.
\<close>

definition in_range :: "bytes \<Rightarrow> bytes \<Rightarrow> kv_record \<Rightarrow> bool" where
  "in_range a b r \<longleftrightarrow> a \<le> rec_key r \<and> rec_key r < b"

locale record_source =
  fixes recs :: "'s \<Rightarrow> kv_record list"
    and rng :: "'s \<Rightarrow> bytes \<Rightarrow> bytes \<Rightarrow> kv_record list res"
    and inv :: "'s \<Rightarrow> bool"
  assumes recs_sorted: "inv s \<Longrightarrow> ssorted (map rec_key (recs s))"
    and rng_recs: "inv s \<Longrightarrow> rng s a b = Inr (filter (in_range a b) (recs s))"
begin

lemma rng_sorted: "inv s \<Longrightarrow> rng s a b = Inr rs \<Longrightarrow> ssorted (map rec_key rs)"
  by (auto simp: rng_recs recs_sorted ssorted_filter)

lemma rng_find:
  assumes "inv s" and "rng s a b = Inr rs"
  shows "find_rec k rs = (if a \<le> k \<and> k < b then find_rec k (recs s) else None)"
proof -
  have "rs = filter (\<lambda>r. a \<le> rec_key r \<and> rec_key r < b) (recs s)"
    using assms by (simp add: rng_recs in_range_def [abs_def])
  then show ?thesis
    by (auto simp: find_rec_filter [of "\<lambda>k. a \<le> k \<and> k < b"]
        find_rec_filter_out [of "\<lambda>k. a \<le> k \<and> k < b"])
qed

lemma rng_member:
  assumes "inv s" and "rng s a b = Inr rs"
  shows "r \<in> set rs \<longleftrightarrow> r \<in> set (recs s) \<and> a \<le> rec_key r \<and> rec_key r < b"
  using assms by (auto simp: rng_recs in_range_def)

lemma rng_total: "inv s \<Longrightarrow> \<exists>rs. rng s a b = Inr rs"
  by (simp add: rng_recs)

end

end
