(* ===== verification/Memtable.thy ===== *)
theory Memtable
  imports Record_Source
begin

text \<open>
  The in-memory sorted table of recent writes (\<open>include/lsmkv/memtable.h\<close>,
  \<open>src/memtable.cpp\<close>). \<open>std::map\<close> is an association list kept strictly sorted by key, so
  that iteration order is list order; \<open>size_bytes_\<close> is a 64-bit counter.
\<close>

record mt_entry =
  ent_value :: bytes
  ent_tombstone :: bool

record memtable =
  mt_entries :: "(bytes \<times> mt_entry) list"
  mt_size :: u64

definition memtable0 :: memtable where
  "memtable0 = \<lparr>mt_entries = [], mt_size = 0\<rparr>"

text \<open>\<open>std::map\<close>: overwrite the entry of a key, or emplace it at its place in the order.\<close>

fun omap_put :: "bytes \<Rightarrow> 'e \<Rightarrow> (bytes \<times> 'e) list \<Rightarrow> (bytes \<times> 'e) list" where
  "omap_put k e [] = [(k, e)]"
| "omap_put k e ((a, x) # ps) =
     (if k < a then (k, e) # (a, x) # ps
      else if k = a then (k, e) # ps
      else (a, x) # omap_put k e ps)"

definition entry_bytes :: "bytes \<Rightarrow> bytes \<Rightarrow> u64" where
  "entry_bytes k v = of_nat (length k + length v)"

definition mt_put :: "bytes \<Rightarrow> bytes \<Rightarrow> memtable \<Rightarrow> memtable" where
  "mt_put k v m =
     (case map_of (mt_entries m) k of
        Some e \<Rightarrow>
          (let sz = mt_size m - entry_bytes k (ent_value e);
               e' = e\<lparr>ent_value := v, ent_tombstone := False\<rparr>
           in \<lparr>mt_entries = omap_put k e' (mt_entries m), mt_size = sz + entry_bytes k (ent_value e')\<rparr>)
      | None \<Rightarrow>
          (let e' = \<lparr>ent_value = v, ent_tombstone = False\<rparr>
           in \<lparr>mt_entries = omap_put k e' (mt_entries m),
               mt_size = mt_size m + entry_bytes k (ent_value e')\<rparr>))"

definition mt_del :: "bytes \<Rightarrow> memtable \<Rightarrow> memtable" where
  "mt_del k m =
     (case map_of (mt_entries m) k of
        Some e \<Rightarrow>
          (let sz = mt_size m - entry_bytes k (ent_value e);
               e' = e\<lparr>ent_value := [], ent_tombstone := True\<rparr>
           in \<lparr>mt_entries = omap_put k e' (mt_entries m), mt_size = sz + of_nat (length k)\<rparr>)
      | None \<Rightarrow>
          (let e' = \<lparr>ent_value = [], ent_tombstone = True\<rparr>
           in \<lparr>mt_entries = omap_put k e' (mt_entries m),
               mt_size = mt_size m + of_nat (length k)\<rparr>))"

definition mt_get :: "memtable \<Rightarrow> bytes \<Rightarrow> bytes option" where
  "mt_get m k =
     (case map_of (mt_entries m) k of
        None \<Rightarrow> None
      | Some e \<Rightarrow> if ent_tombstone e then None else Some (ent_value e))"

definition mt_is_tombstone :: "memtable \<Rightarrow> bytes \<Rightarrow> bool" where
  "mt_is_tombstone m k =
     (case map_of (mt_entries m) k of None \<Rightarrow> False | Some e \<Rightarrow> ent_tombstone e)"

definition mt_tombstone_count :: "memtable \<Rightarrow> nat" where
  "mt_tombstone_count m = fold (\<lambda>(k, e) n. if ent_tombstone e then Suc n else n) (mt_entries m) 0"

definition mt_entry_count :: "memtable \<Rightarrow> nat" where
  "mt_entry_count m = length (mt_entries m)"

definition mt_empty :: "memtable \<Rightarrow> bool" where
  "mt_empty m \<longleftrightarrow> mt_entries m = []"

definition entry_record :: "bytes \<times> mt_entry \<Rightarrow> kv_record" where
  "entry_record p =
     mk_record (if ent_tombstone (snd p) then Delete else Put) (fst p) (ent_value (snd p))"

definition mt_snapshot :: "memtable \<Rightarrow> kv_record list" where
  "mt_snapshot m = fold (\<lambda>p out. out @ [entry_record p]) (mt_entries m) []"

text \<open>\<open>lower_bound\<close> skips the keys below the start; the loop ends at the first key not below the end.\<close>

definition lower_bound :: "bytes \<Rightarrow> (bytes \<times> 'e) list \<Rightarrow> (bytes \<times> 'e) list" where
  "lower_bound start ps = dropWhile (\<lambda>(k, _). k < start) ps"

definition mt_range :: "memtable \<Rightarrow> bytes \<Rightarrow> bytes \<Rightarrow> kv_record list" where
  "mt_range m start end1 =
     map entry_record (takeWhile (\<lambda>(k, _). k < end1) (lower_bound start (mt_entries m)))"

subsection \<open>Invariant\<close>

definition entries_bytes :: "(bytes \<times> mt_entry) list \<Rightarrow> nat" where
  "entries_bytes ps = (\<Sum>(k, e) \<leftarrow> ps. length k + length (ent_value e))"

definition mt_inv :: "memtable \<Rightarrow> bool" where
  "mt_inv m \<longleftrightarrow>
     ssorted (map fst (mt_entries m)) \<and>
     (\<forall>(k, e) \<in> set (mt_entries m). ent_tombstone e \<longrightarrow> ent_value e = []) \<and>
     mt_size m = of_nat (entries_bytes (mt_entries m))"

lemma set_omap_put:
  "set (omap_put k e ps) \<subseteq> insert (k, e) (set ps)" "(k, e) \<in> set (omap_put k e ps)"
  by (induction ps) (auto split: if_splits)

lemma fst_set_omap_put [simp]: "fst ` set (omap_put k e ps) = insert k (fst ` set ps)"
proof (induction ps)
  case (Cons p ps)
  then show ?case by (cases p) (simp add: insert_commute)
qed simp

lemma omap_put_sorted: "ssorted (map fst ps) \<Longrightarrow> ssorted (map fst (omap_put k e ps))"
proof (induction ps)
  case (Cons p ps)
  obtain a x where p: "p = (a, x)" by (cases p)
  have "set (map fst (omap_put k e ps)) = insert k (fst ` set ps)" by simp
  with Cons show ?case by (auto simp: p)
qed simp

lemma map_of_omap_put:
  "ssorted (map fst ps) \<Longrightarrow> map_of (omap_put k e ps) = (map_of ps)(k \<mapsto> e)"
  by (induction ps) auto

lemma entries_bytes_simps [simp]:
  "entries_bytes [] = 0"
  "entries_bytes ((k, e) # ps) = length k + length (ent_value e) + entries_bytes ps"
  by (simp_all add: entries_bytes_def)

lemma entries_bytes_new:
  "map_of ps k = None \<Longrightarrow>
     entries_bytes (omap_put k e ps) = length k + length (ent_value e) + entries_bytes ps"
  by (induction ps) (auto split: if_splits)

lemma entries_bytes_old:
  "ssorted (map fst ps) \<Longrightarrow> map_of ps k = Some x \<Longrightarrow>
     entries_bytes (omap_put k e ps) + (length k + length (ent_value x))
       = length k + length (ent_value e) + entries_bytes ps"
proof (induction ps)
  case (Cons p ps)
  then show ?case
    by (cases p) (fastforce simp: map_of_eq_None_iff dest: map_of_SomeD split: if_splits)
qed simp

lemma mt_size_old:
  assumes "ssorted (map fst ps)" and "map_of ps k = Some x" and "sz = (of_nat (entries_bytes ps) :: u64)"
  shows "sz - entry_bytes k (ent_value x) + entry_bytes k (ent_value e)
    = of_nat (entries_bytes (omap_put k e ps))"
proof -
  have "of_nat (entries_bytes (omap_put k e ps)) + entry_bytes k (ent_value x)
      = (entry_bytes k (ent_value e) + of_nat (entries_bytes ps) :: u64)"
    using arg_cong [OF entries_bytes_old [OF assms(1,2), of e], of "of_nat :: nat \<Rightarrow> u64"]
    by (simp add: entry_bytes_def)
  then show ?thesis using assms(3) by (simp add: algebra_simps)
qed

lemma mt_inv_empty [simp]: "mt_inv memtable0"
  by (simp add: mt_inv_def memtable0_def)


text \<open>Both writes store one entry and move the byte count by the same amount.\<close>

definition mt_store :: "bytes \<Rightarrow> mt_entry \<Rightarrow> memtable \<Rightarrow> memtable" where
  "mt_store k e m =
     \<lparr>mt_entries = omap_put k e (mt_entries m),
      mt_size = (case map_of (mt_entries m) k of
                   None \<Rightarrow> mt_size m
                 | Some x \<Rightarrow> mt_size m - entry_bytes k (ent_value x)) + entry_bytes k (ent_value e)\<rparr>"

lemma entry_upd: "e\<lparr>ent_value := v, ent_tombstone := t\<rparr> = \<lparr>ent_value = v, ent_tombstone = t\<rparr>"
  by (cases e) simp

lemma mt_put_store: "mt_put k v m = mt_store k \<lparr>ent_value = v, ent_tombstone = False\<rparr> m"
  by (auto simp: mt_put_def mt_store_def Let_def entry_upd split: option.splits)

lemma mt_del_store: "mt_del k m = mt_store k \<lparr>ent_value = [], ent_tombstone = True\<rparr> m"
  by (auto simp: mt_del_def mt_store_def Let_def entry_upd entry_bytes_def [of k "[]"] split: option.splits)

lemma mt_store_inv:
  assumes "mt_inv m" and "ent_tombstone e \<Longrightarrow> ent_value e = []"
  shows "mt_inv (mt_store k e m)"
proof -
  let ?es = "mt_entries m"
  have srt: "ssorted (map fst ?es)" and sz: "mt_size m = of_nat (entries_bytes ?es)"
    and tomb: "\<forall>(k, e) \<in> set ?es. ent_tombstone e \<longrightarrow> ent_value e = []"
    using assms(1) by (auto simp: mt_inv_def)
  have "\<forall>(k', e') \<in> set (omap_put k e ?es). ent_tombstone e' \<longrightarrow> ent_value e' = []"
    using tomb assms(2) set_omap_put(1) [of k e ?es] by blast
  moreover have "mt_size (mt_store k e m) = of_nat (entries_bytes (omap_put k e ?es))"
    using sz mt_size_old [OF srt _ sz]
    by (auto simp: mt_store_def entries_bytes_new entry_bytes_def split: option.splits)
  ultimately show ?thesis
    using omap_put_sorted [OF srt] by (simp add: mt_inv_def mt_store_def)
qed

lemma mt_put_inv: "mt_inv m \<Longrightarrow> mt_inv (mt_put k v m)"
  unfolding mt_put_store by (rule mt_store_inv) simp_all

lemma mt_del_inv: "mt_inv m \<Longrightarrow> mt_inv (mt_del k m)"
  unfolding mt_del_store by (rule mt_store_inv) simp_all

subsection \<open>What the table means\<close>

text \<open>
  A memtable answers a key in one of three ways: not at all, with a tombstone, or with a
  live value. The record of the snapshot carries the same answer.
\<close>

definition mt_lookup :: "memtable \<Rightarrow> bytes \<Rightarrow> bytes option option" where
  "mt_lookup m k = map_option (\<lambda>e. if ent_tombstone e then None else Some (ent_value e)) (map_of (mt_entries m) k)"

lemma mt_lookup_store:
  "mt_inv m \<Longrightarrow> mt_lookup (mt_store k e m) =
     (mt_lookup m)(k \<mapsto> (if ent_tombstone e then None else Some (ent_value e)))"
  by (auto simp: mt_lookup_def mt_store_def mt_inv_def map_of_omap_put)

lemma mt_lookup_put: "mt_inv m \<Longrightarrow> mt_lookup (mt_put k v m) = (mt_lookup m)(k \<mapsto> Some v)"
  by (simp add: mt_put_store mt_lookup_store)

lemma mt_lookup_del: "mt_inv m \<Longrightarrow> mt_lookup (mt_del k m) = (mt_lookup m)(k \<mapsto> None)"
  by (simp add: mt_del_store mt_lookup_store)

lemma mt_lookup_empty [simp]: "mt_lookup memtable0 k = None"
  by (simp add: mt_lookup_def memtable0_def)

lemma mt_get_lookup: "mt_get m k = (case mt_lookup m k of Some (Some v) \<Rightarrow> Some v | _ \<Rightarrow> None)"
  by (auto simp: mt_get_def mt_lookup_def split: option.splits)

lemma mt_is_tombstone_lookup: "mt_is_tombstone m k \<longleftrightarrow> mt_lookup m k = Some None"
  by (auto simp: mt_is_tombstone_def mt_lookup_def split: option.splits)

lemma fold_snoc_map: "fold (\<lambda>p out. out @ [f p]) ps acc = acc @ map f ps"
  by (induction ps arbitrary: acc) auto

lemma mt_snapshot_map: "mt_snapshot m = map entry_record (mt_entries m)"
  by (simp add: mt_snapshot_def fold_snoc_map)

lemma entry_record_sel [simp]:
  "rec_key (entry_record p) = fst p" "rec_value (entry_record p) = ent_value (snd p)"
  "rec_separated (entry_record p) = False" "inline_rec (entry_record p)"
  "rec_op (entry_record p) = (if ent_tombstone (snd p) then Delete else Put)"
  by (simp_all add: entry_record_def)

lemma mt_snapshot_keys: "map rec_key (mt_snapshot m) = map fst (mt_entries m)"
  by (simp add: mt_snapshot_map)

lemma mt_snapshot_sorted: "mt_inv m \<Longrightarrow> ssorted (map rec_key (mt_snapshot m))"
  by (simp add: mt_snapshot_keys mt_inv_def)

lemma mt_snapshot_find:
  "find_rec k (mt_snapshot m) = map_option (\<lambda>e. entry_record (k, e)) (map_of (mt_entries m) k)"
proof -
  have "find_rec k (map entry_record ps) = map_option (\<lambda>e. entry_record (k, e)) (map_of ps k)" for ps
    by (induction ps) auto
  then show ?thesis by (simp add: mt_snapshot_map)
qed

lemma mt_range_snapshot:
  assumes "mt_inv m"
  shows "mt_range m a b = filter (in_range a b) (mt_snapshot m)"
proof -
  let ?es = "mt_entries m"
  have srt: "ssorted (map fst ?es)" using assms by (simp add: mt_inv_def)
  have "lower_bound a ?es = filter (\<lambda>p. a \<le> fst p) ?es"
    using ssorted_dropWhile [OF srt] by (simp add: lower_bound_def case_prod_unfold)
  moreover have "takeWhile (\<lambda>(k, _). k < b) (filter (\<lambda>p. a \<le> fst p) ?es)
      = filter (\<lambda>p. fst p < b) (filter (\<lambda>p. a \<le> fst p) ?es)"
    using ssorted_takeWhile [OF ssorted_filter [OF srt]] by (simp add: case_prod_unfold)
  ultimately show ?thesis
    by (simp add: mt_range_def mt_snapshot_map filter_map in_range_def [abs_def] comp_def conj_commute)
qed

interpretation mt: record_source mt_snapshot "\<lambda>m a b. Inr (mt_range m a b)" mt_inv
  by unfold_locales (auto simp: mt_snapshot_sorted mt_range_snapshot)

subsection \<open>Applying a log\<close>

text \<open>The \<open>apply\<close> closure of the DB constructor: everything but a put is a delete.\<close>

definition apply_rec :: "kv_record \<Rightarrow> memtable \<Rightarrow> memtable" where
  "apply_rec r m =
     (if rec_op r = Put then mt_put (rec_key r) (rec_value r) m else mt_del (rec_key r) m)"

definition rec_answer :: "kv_record \<Rightarrow> bytes option" where
  "rec_answer r = (if rec_op r = Put then Some (rec_value r) else None)"

lemma apply_rec_inv: "mt_inv m \<Longrightarrow> mt_inv (apply_rec r m)"
  by (simp add: apply_rec_def mt_put_inv mt_del_inv)

lemma apply_recs_inv: "mt_inv m \<Longrightarrow> mt_inv (fold apply_rec rs m)"
  by (induction rs arbitrary: m) (auto simp: apply_rec_inv)

lemma mt_lookup_apply:
  "mt_inv m \<Longrightarrow> mt_lookup (apply_rec r m) = (mt_lookup m)(rec_key r \<mapsto> rec_answer r)"
  by (simp add: apply_rec_def rec_answer_def mt_lookup_put mt_lookup_del)

lemma mt_lookup_applies:
  "mt_inv m \<Longrightarrow> mt_lookup (fold apply_rec rs m) k =
     (case find_rec k (rev rs) of None \<Rightarrow> mt_lookup m k | Some r \<Rightarrow> Some (rec_answer r))"
  by (induction rs arbitrary: m)
     (auto simp: apply_rec_inv mt_lookup_apply find_rec_append split: option.splits)

lemma mt_lookup_snapshot:
  "mt_lookup m k = map_option rec_answer (find_rec k (mt_snapshot m))"
  by (cases "map_of (mt_entries m) k")
     (auto simp: mt_lookup_def mt_snapshot_find rec_answer_def entry_record_def)

subsection \<open>Properties\<close>

text \<open>
  Property C35: the memtable is a map with tombstones. On every branch of \<open>put\<close> and
  \<open>del\<close> (new key, overwrite, tombstone over a value and back) a lookup afterwards sees the
  write at its key and nothing else changed, a deleted key is a tombstone and not absent,
  and the representation invariant is kept.
\<close>

theorem memtable_write_spec:
  assumes "mt_inv m"
  shows "mt_get (mt_put k v m) j = (if j = k then Some v else mt_get m j) \<and>
    mt_get (mt_del k m) j = (if j = k then None else mt_get m j) \<and>
    mt_is_tombstone (mt_put k v m) j = (j \<noteq> k \<and> mt_is_tombstone m j) \<and>
    mt_is_tombstone (mt_del k m) j = (j = k \<or> mt_is_tombstone m j) \<and>
    mt_inv (mt_put k v m) \<and> mt_inv (mt_del k m)"
  using assms
  by (auto simp: mt_get_lookup mt_is_tombstone_lookup mt_lookup_put mt_lookup_del mt_put_inv mt_del_inv)

theorem memtable_write_spec_witness:
  "mt_inv (mt_put [97] [1] memtable0) \<and>
   mt_get (mt_del [97] (mt_put [97] [1] memtable0)) [97] = None \<and>
   mt_is_tombstone (mt_del [97] (mt_put [97] [1] memtable0)) [97]"
  using memtable_write_spec [of "mt_put [97] [1] memtable0" "[97]" "[]" "[97]"]
    memtable_write_spec [OF mt_inv_empty, of "[97]" "[1]" "[97]"] by simp

text \<open>
  Property C36: replaying a log into an empty memtable gives, for each key, the answer of the
  last record of that key in the log, and the byte counter that drives the flush threshold
  is exact: the sum of key and value lengths held, as long as that sum fits 64 bits.
\<close>

theorem memtable_replay_newest_wins:
  "mt_lookup (fold apply_rec rs memtable0) k = map_option rec_answer (find_rec k (rev rs)) \<and>
   mt_size (fold apply_rec rs memtable0) = of_nat (entries_bytes (mt_entries (fold apply_rec rs memtable0))) \<and>
   ssorted (map rec_key (mt_snapshot (fold apply_rec rs memtable0)))"
  using apply_recs_inv [OF mt_inv_empty, of rs] mt_lookup_applies [OF mt_inv_empty, of rs k]
  by (auto simp: mt_inv_def mt_snapshot_keys split: option.splits)

end
