(* ===== verification/Value_Log.thy ===== *)
theory Value_Log
  imports Kv_Record Posix_Io
begin

text \<open>
  The value log (\<open>include/lsmkv/vlog.h\<close>, \<open>src/vlog.cpp\<close>): an append-only file per
  generation that holds the separated values. Positions are 64-bit words. The descriptor
  of a log is the inode it refers to, so a log stays readable after its name is unlinked.
\<close>

record vlog =
  vl_path :: bytes
  vl_gen :: u32
  vl_fd :: nat
  vl_append_off :: u64
  vl_obsolete :: bool

definition vlog_open :: "io \<Rightarrow> bytes \<Rightarrow> u32 \<Rightarrow> (disk, vlog) prog" where
  "vlog_open io path gen d =
     (case io ''vlog open'' of
        Some (m, e) \<Rightarrow> (Inl (SystemError e ''vlog open''), d)
      | None \<Rightarrow>
          (let (i, d1) = d_create path d in
           case io ''vlog fstat'' of
             Some (m, e) \<Rightarrow> (Inl (SystemError e ''vlog fstat''), d1)
           | None \<Rightarrow>
               (Inr \<lparr>vl_path = path, vl_gen = gen, vl_fd = i,
                     vl_append_off = of_nat (length (blobs d1 i)), vl_obsolete = False\<rparr>, d1)))"

definition vlog_entry :: "bytes \<Rightarrow> bytes \<Rightarrow> bytes" where
  "vlog_entry key val =
     (let r = [];
          r = put_u32_le r (of_nat (length key));
          r = r @ key;
          r = put_u32_le r (of_nat (length val))
      in r @ val)"

definition vlog_append :: "io \<Rightarrow> bytes \<Rightarrow> bytes \<Rightarrow> vlog \<Rightarrow> (disk, value_ptr \<times> vlog) prog" where
  "vlog_append io key val v d =
     (if length key > UINT32_MAX \<or> length val > UINT32_MAX
      then (Inl (LengthError ''vlog entry field exceeds 4 GiB''), d)
      else
        let r = vlog_entry key val; rec_off = vl_append_off v; i = vl_fd v in
        case io ''vlog pwrite'' of
          Some (m, e) \<Rightarrow>
            (Inl (SystemError e ''vlog pwrite''),
             d_set i (pwrite_at (blobs d i) (unat rec_off) (take m r)) d)
        | None \<Rightarrow>
            (Inr (\<lparr>vp_gen = vl_gen v,
                   vp_offset = rec_off + 4 + of_nat (length key) + 4,
                   vp_len = of_nat (length val)\<rparr>,
                  v\<lparr>vl_append_off := rec_off + of_nat (length r)\<rparr>),
             d_set i (pwrite_at (blobs d i) (unat rec_off) r) d))"

definition vlog_sync :: "io \<Rightarrow> vlog \<Rightarrow> (disk, unit) prog" where
  "vlog_sync io v d =
     (case io ''vlog fsync'' of
        Some (m, e) \<Rightarrow> (Inl (SystemError e ''vlog fsync''), d)
      | None \<Rightarrow> (Inr (), d_fsync (vl_fd v) d))"

definition vlog_read :: "io \<Rightarrow> value_ptr \<Rightarrow> vlog \<Rightarrow> disk \<Rightarrow> bytes res" where
  "vlog_read io p v d =
     pread_exact io ''vlog pread'' (blobs d (vl_fd v)) (unat (vp_offset p)) (unat (vp_len p))"

definition vlog_mark_obsolete :: "vlog \<Rightarrow> vlog" where
  "vlog_mark_obsolete v = v\<lparr>vl_obsolete := True\<rparr>"

definition vlog_size_bytes :: "vlog \<Rightarrow> u64" where
  "vlog_size_bytes v = vl_append_off v"

text \<open>The destructor closes the descriptor and unlinks the file of an obsolete log.\<close>

definition vlog_destroy :: "vlog \<Rightarrow> disk \<Rightarrow> disk" where
  "vlog_destroy v d = (if vl_obsolete v then d_unlink (vl_path v) d else d)"

subsection \<open>Appending keeps what is there\<close>

definition vlog_inv :: "vlog \<Rightarrow> disk \<Rightarrow> bool" where
  "vlog_inv v d \<longleftrightarrow> unat (vl_append_off v) = length (blobs d (vl_fd v))"

definition vlog_fits :: "bytes \<Rightarrow> bytes \<Rightarrow> vlog \<Rightarrow> disk \<Rightarrow> bool" where
  "vlog_fits key val v d \<longleftrightarrow>
     length key \<le> UINT32_MAX \<and> length val \<le> UINT32_MAX \<and>
     length (blobs d (vl_fd v)) + 8 + length key + length val < 2 ^ 64"

lemma length_vlog_entry [simp, enc_simps]: "length (vlog_entry k v) = 8 + length k + length v"
  by (simp add: vlog_entry_def Let_def)

lemma vlog_entry_eq:
  "vlog_entry k v = put_u32_le [] (of_nat (length k)) @ k @ put_u32_le [] (of_nat (length v)) @ v"
  by (simp add: vlog_entry_def Let_def put_u32_append [of "_ @ _"])

lemma pwrite_at_end: "off = length f \<Longrightarrow> pwrite_at f off bs = f @ bs"
  by (simp add: pwrite_at_def)

lemma pread_exact_extend:
  assumes "pread_exact no_faults ctx f off len = Inr x"
  shows "pread_exact no_faults ctx (f @ g) off len = Inr x"
  using assms by (auto simp: pread_exact_def no_faults_def split: if_splits)

lemma vlog_append_effect:
  assumes "vlog_inv v d" and "vlog_fits key val v d"
  obtains p off' v' d' where "vlog_append no_faults key val v d = (Inr (p, v'), d')"
    and "blobs d' = (blobs d)(vl_fd v := blobs d (vl_fd v) @ vlog_entry key val)"
    and "dents d' = dents d" and "next_ino d' = next_ino d" and "synced d' = synced d"
    and "v' = v\<lparr>vl_append_off := off'\<rparr>" and "vlog_inv v' d'"
    and "vp_gen p = vl_gen v" and "vlog_read no_faults p v' d' = Inr val"
proof -
  let ?f = "blobs d (vl_fd v)" and ?e = "vlog_entry key val"
  let ?off = "vl_append_off v"
  let ?p = "\<lparr>vp_gen = vl_gen v, vp_offset = ?off + 4 + of_nat (length key) + 4, vp_len = of_nat (length val)\<rparr>"
  let ?v = "v\<lparr>vl_append_off := ?off + of_nat (length ?e)\<rparr>"
  let ?d = "d_set (vl_fd v) (pwrite_at ?f (unat ?off) ?e) d"
  have off: "unat ?off = length ?f" and fit: "length key \<le> UINT32_MAX" "length val \<le> UINT32_MAX"
    "length ?f + 8 + length key + length val < 2 ^ 64"
    using assms by (auto simp: vlog_inv_def vlog_fits_def)
  have offw: "?off = of_nat (length ?f)" using arg_cong [OF off, of "of_nat :: nat \<Rightarrow> u64"] by simp
  have b: "blobs ?d = (blobs d)(vl_fd v := ?f @ ?e)"
    using pwrite_at_end [OF off, of ?e] by (simp add: d_set_def)
  have o2: "unat (?off + of_nat (length ?e)) = length ?f + length ?e"
    using fit unat_of_nat_u64 [of "length ?f + length ?e"] by (simp add: offw)
  have po: "unat (vp_offset ?p) = length ?f + (8 + length key)"
    using fit unat_of_nat_u64 [of "length ?f + (8 + length key)"] by (simp add: offw algebra_simps)
  have d8: "drop (8 + length key) ?e = val"
    using drop_exact [of "put_u32_le [] (of_nat (length key)) @ key @ put_u32_le [] (of_nat (length val))" "8 + length key" val]
    by (simp add: vlog_entry_eq)
  have "vlog_read no_faults ?p ?v ?d = Inr val"
    using fit po d8 unfolding vlog_read_def pread_exact_def no_faults_def
    by (simp add: b)
  moreover have "vlog_inv ?v ?d" using o2 b by (simp add: vlog_inv_def)
  moreover have "vlog_append no_faults key val v d = (Inr (?p, ?v), ?d)"
    using fit by (simp add: vlog_append_def no_faults_def Let_def)
  ultimately show thesis
    using b by (intro that [of ?p ?v ?d "?off + of_nat (length ?e)"]) (simp_all add: d_set_def)
qed

lemma vlog_read_stable:
  assumes "vlog_read no_faults q v d = Inr x"
    and "vl_fd v' = vl_fd v" and "blobs d' (vl_fd v) = blobs d (vl_fd v) @ g"
  shows "vlog_read no_faults q v' d' = Inr x"
  using assms by (simp add: vlog_read_def pread_exact_extend)

subsection \<open>Properties\<close>

text \<open>
  Property C39: a value appended to the log is read back through the pointer that \<open>append\<close>
  returned, every pointer that could be read before still reads the same value, and the
  append position stays equal to the file length; so a pointer, once valid, is valid for
  the life of the log.
\<close>

theorem vlog_append_read:
  assumes "vlog_inv v d" and "vlog_fits key val v d"
  shows "\<exists>p v' d'. vlog_append no_faults key val v d = (Inr (p, v'), d') \<and>
    vp_gen p = vl_gen v \<and> vlog_inv v' d' \<and> vlog_read no_faults p v' d' = Inr val \<and>
    (\<forall>q x. vlog_read no_faults q v d = Inr x \<longrightarrow> vlog_read no_faults q v' d' = Inr x)"
proof -
  obtain p off' v' d' where a: "vlog_append no_faults key val v d = (Inr (p, v'), d')"
    "blobs d' = (blobs d)(vl_fd v := blobs d (vl_fd v) @ vlog_entry key val)"
    "v' = v\<lparr>vl_append_off := off'\<rparr>" "vlog_inv v' d'"
    "vp_gen p = vl_gen v" "vlog_read no_faults p v' d' = Inr val"
    by (rule vlog_append_effect [OF assms])
  have "vl_fd v' = vl_fd v" using a(3) by simp
  have "vlog_read no_faults q v' d' = Inr x" if "vlog_read no_faults q v d = Inr x" for q x
    using vlog_read_stable [OF that, of v' d' "vlog_entry key val"] a(2) \<open>vl_fd v' = vl_fd v\<close> by simp
  with a show ?thesis by blast
qed

theorem vlog_append_read_witness:
  "\<exists>p v' d'. vlog_append no_faults [107] [1, 2]
       \<lparr>vl_path = [118], vl_gen = 3, vl_fd = 0, vl_append_off = 2, vl_obsolete = False\<rparr>
       \<lparr>dents = [([118], 0)], blobs = (\<lambda>_. [7, 7]), synced = (\<lambda>_. 0), next_ino = 1\<rparr> = (Inr (p, v'), d') \<and>
     vlog_read no_faults p v' d' = Inr [1, 2]"
  using vlog_append_read
    [of "\<lparr>vl_path = [118], vl_gen = 3, vl_fd = 0, vl_append_off = 2, vl_obsolete = False\<rparr>"
        "\<lparr>dents = [([118], 0)], blobs = (\<lambda>_. [7, 7]), synced = (\<lambda>_. 0), next_ino = 1\<rparr>" "[107]" "[1, 2]"]
  by (auto simp: vlog_inv_def vlog_fits_def UINT32_MAX_def)

end
