(* ===== verification/Bloom_Filter.thy ===== *)
theory Bloom_Filter
  imports Complex_Main Encoding
begin

text \<open>
  The Bloom filter of an SSTable (\<open>include/lsmkv/bloom_filter.h\<close>,
  \<open>src/bloom_filter.cpp\<close>). Hashes and bit positions are 64-bit words with wrap-around. An
  access to the bit vector out of its bounds is undefined behaviour in the source and the
  value \<open>Undefined\<close> here.

  Sizing uses \<open>double\<close> arithmetic; it is modelled over the reals with the C library's
  \<open>log\<close> as the parameter \<open>lg\<close>, because its rounding is up to the platform. No property
  depends on the value of \<open>lg\<close>.
\<close>

record bloom =
  bf_num_bits :: u64
  bf_k :: u32
  bf_bits :: bytes

definition fnv1a :: "bytes \<Rightarrow> u64 \<Rightarrow> u64" where
  "fnv1a s seed =
     foldl (\<lambda>h c. (h XOR ucast c) * 1099511628211) (1469598103934665603 XOR seed) s"

definition M_LN2 :: real where
  "M_LN2 = 69314718055994530942 / 10 ^ 20"

definition optimal_bits :: "(real \<Rightarrow> real) \<Rightarrow> nat \<Rightarrow> real \<Rightarrow> u64" where
  "optimal_bits lg n p =
     (let n = (if n = 0 then 1 else n);
          p = (if \<not> p > 0 \<or> \<not> p < 1 then 1 / 100 else p);
          m = - real n * lg p / (M_LN2 * M_LN2);
          m = (if m < 1 then 1 else m)
      in word_of_int \<lceil>m\<rceil>)"

definition lround :: "real \<Rightarrow> int" where
  "lround x = (if 0 \<le> x then \<lfloor>x + 1 / 2\<rfloor> else \<lceil>x - 1 / 2\<rceil>)"

definition optimal_hashes :: "u64 \<Rightarrow> nat \<Rightarrow> u32" where
  "optimal_hashes m n =
     (let n = (if n = 0 then 1 else n);
          k = real (unat m) / real n * M_LN2;
          r = lround k;
          r = (if r < 1 then 1 else r);
          r = (if r > 30 then 30 else r)
      in word_of_int r)"

definition bits_size :: "u64 \<Rightarrow> nat" where
  "bits_size num_bits = unat ((num_bits + 7) div 8)"

definition bloom_new :: "(real \<Rightarrow> real) \<Rightarrow> nat \<Rightarrow> real \<Rightarrow> bloom" where
  "bloom_new lg expected_keys target_fpr =
     (let nb = optimal_bits lg expected_keys target_fpr in
      \<lparr>bf_num_bits = nb, bf_k = optimal_hashes nb expected_keys,
       bf_bits = replicate (bits_size nb) 0\<rparr>)"

definition bloom_sized :: "u64 \<Rightarrow> u32 \<Rightarrow> bloom" where
  "bloom_sized num_bits k =
     (let nb = (if num_bits = 0 then 1 else num_bits) in
      \<lparr>bf_num_bits = nb, bf_k = (if k = 0 then 1 else k), bf_bits = replicate (bits_size nb) 0\<rparr>)"

definition set_bit :: "u64 \<Rightarrow> bloom \<Rightarrow> bloom res" where
  "set_bit i bf =
     (let j = unat (drop_bit 3 i) in
      if j < length (bf_bits bf)
      then Inr (bf\<lparr>bf_bits := (bf_bits bf)[j := bf_bits bf ! j OR ucast (push_bit (unat (i AND 7)) (1 :: u32))]\<rparr>)
      else Inl (Undefined ''bits_''))"

definition get_bit :: "bloom \<Rightarrow> u64 \<Rightarrow> bool res" where
  "get_bit bf i =
     (let j = unat (drop_bit 3 i) in
      if j < length (bf_bits bf)
      then Inr (drop_bit (unat (i AND 7)) (ucast (bf_bits bf ! j) :: u32) AND 1 \<noteq> 0)
      else Inl (Undefined ''bits_''))"

definition bloom_h1 :: "bytes \<Rightarrow> u64" where
  "bloom_h1 key = fnv1a key 0"

definition bloom_h2 :: "bytes \<Rightarrow> u64" where
  "bloom_h2 key = fnv1a key 0x9e3779b97f4a7c15 OR 1"

definition probe :: "bloom \<Rightarrow> bytes \<Rightarrow> nat \<Rightarrow> u64" where
  "probe bf key i = (bloom_h1 key + of_nat i * bloom_h2 key) mod bf_num_bits bf"

fun add_loop :: "bytes \<Rightarrow> nat list \<Rightarrow> bloom \<Rightarrow> bloom res" where
  "add_loop key [] bf = Inr bf"
| "add_loop key (i # is) bf = rbind (set_bit (probe bf key i) bf) (add_loop key is)"

definition bloom_add :: "bytes \<Rightarrow> bloom \<Rightarrow> bloom res" where
  "bloom_add key bf = add_loop key [0..<unat (bf_k bf)] bf"

fun contains_loop :: "bloom \<Rightarrow> bytes \<Rightarrow> nat list \<Rightarrow> bool res" where
  "contains_loop bf key [] = Inr True"
| "contains_loop bf key (i # is) =
     rbind (get_bit bf (probe bf key i)) (\<lambda>b. if \<not> b then Inr False else contains_loop bf key is)"

definition maybe_contains :: "bloom \<Rightarrow> bytes \<Rightarrow> bool res" where
  "maybe_contains bf key = contains_loop bf key [0..<unat (bf_k bf)]"

definition bloom_serialize :: "bloom \<Rightarrow> bytes" where
  "bloom_serialize bf =
     (let out = [];
          out = put_u64_le out (bf_num_bits bf);
          out = put_u32_le out (bf_k bf)
      in out @ bf_bits bf)"

definition bloom_deserialize :: "bytes \<Rightarrow> bloom res" where
  "bloom_deserialize dat =
     (if length dat < 12 then Inl (RuntimeError ''bloom: truncated header'')
      else
        let num_bits = read_u64_le dat;
            k = read_u32_le (drop 8 dat);
            bf = bloom_sized num_bits k;
            want = length (bf_bits bf)
        in if length dat - 12 \<noteq> want then Inl (RuntimeError ''bloom: bit-array size mismatch'')
           else Inr (bf\<lparr>bf_bits := drop 12 dat\<rparr>))"

subsection \<open>Well-formed filters\<close>

definition bloom_wf :: "bloom \<Rightarrow> bool" where
  "bloom_wf bf \<longleftrightarrow>
     bf_num_bits bf \<noteq> 0 \<and> unat (bf_num_bits bf) + 7 < 2 ^ 64 \<and>
     length (bf_bits bf) = bits_size (bf_num_bits bf)"

definition bit_on :: "bloom \<Rightarrow> u64 \<Rightarrow> bool" where
  "bit_on bf i \<longleftrightarrow> bit (bf_bits bf ! unat (drop_bit 3 i)) (unat (i AND 7))"

lemma unat_div_8: "unat (drop_bit 3 (x :: u64)) = unat x div 8"
  by (simp add: drop_bit_eq_div unat_div)

lemma bits_size_nat:
  assumes "unat nb + 7 < 2 ^ 64"
  shows "bits_size nb = (unat nb + 7) div 8"
  using assms by (simp add: bits_size_def unat_div unat_word_ariths)

lemma probe_in_range:
  assumes "bloom_wf bf"
  shows "unat (drop_bit 3 (probe bf key i)) < length (bf_bits bf)"
proof -
  have "unat (probe bf key i) < unat (bf_num_bits bf)"
    using assms by (simp add: probe_def bloom_wf_def unat_mod unat_gt_0)
  then show ?thesis
    using assms by (simp add: unat_div_8 bloom_wf_def bits_size_nat)
qed

lemma low3_less_8: "unat ((i :: u64) AND 7) < 8"
proof -
  have "i AND 7 = take_bit 3 i" by (simp add: take_bit_eq_mask mask_eq_exp_minus_1)
  then show ?thesis using take_bit_nat_less_exp [of 3 "unat i"] by (simp add: unsigned_take_bit_eq)
qed

lemma test_bit_byte:
  assumes "n < 8"
  shows "drop_bit n (ucast (w :: byte) :: u32) AND 1 \<noteq> 0 \<longleftrightarrow> bit w n"
proof -
  have "bit (ucast w :: u32) n \<longleftrightarrow> bit w n" using assms by (simp add: bit_simps)
  moreover have "(drop_bit n (ucast w) :: u32) AND 1 = of_bool (bit (ucast w :: u32) n)"
    by (simp add: and_one_eq mod_2_eq_odd bit_iff_odd_drop_bit)
  ultimately show ?thesis by simp
qed

lemma or_bit_byte:
  assumes "n < 8"
  shows "bit ((w :: byte) OR ucast (push_bit n (1 :: u32))) m \<longleftrightarrow> bit w m \<or> m = n"
  using assms by (auto simp: bit_simps)

lemma get_bit_on:
  "unat (drop_bit 3 i) < length (bf_bits bf) \<Longrightarrow> get_bit bf i = Inr (bit_on bf i)"
  using low3_less_8 [of i] by (simp add: get_bit_def bit_on_def Let_def test_bit_byte)

lemma set_bit_on:
  assumes "unat (drop_bit 3 i) < length (bf_bits bf)"
  obtains bf' where "set_bit i bf = Inr bf'" and "bf_num_bits bf' = bf_num_bits bf" and "bf_k bf' = bf_k bf"
    and "length (bf_bits bf') = length (bf_bits bf)" and "bit_on bf' i"
    and "\<And>j. bit_on bf j \<Longrightarrow> unat (drop_bit 3 j) < length (bf_bits bf) \<Longrightarrow> bit_on bf' j"
proof
  let ?j = "unat (drop_bit 3 i)"
  let ?bf = "bf\<lparr>bf_bits := (bf_bits bf)[?j := bf_bits bf ! ?j OR ucast (push_bit (unat (i AND 7)) (1 :: u32))]\<rparr>"
  show "set_bit i bf = Inr ?bf" using assms by (simp add: set_bit_def Let_def)
  show "bit_on ?bf i"
    using assms low3_less_8 [of i] by (simp add: bit_on_def or_bit_byte del: push_bit_of_1)
  show "bit_on ?bf j" if "bit_on bf j" "unat (drop_bit 3 j) < length (bf_bits bf)" for j
    using that low3_less_8 [of i]
    by (cases "unat (drop_bit 3 j) = ?j") (auto simp: bit_on_def or_bit_byte simp del: push_bit_of_1)
qed simp_all

lemma add_loop_spec:
  assumes "bloom_wf bf"
  shows "\<exists>bf'. add_loop key is bf = Inr bf' \<and> bloom_wf bf' \<and>
    bf_num_bits bf' = bf_num_bits bf \<and> bf_k bf' = bf_k bf \<and>
    (\<forall>i\<in>set is. bit_on bf' (probe bf key i)) \<and>
    (\<forall>j. unat (drop_bit 3 j) < length (bf_bits bf) \<longrightarrow> bit_on bf j \<longrightarrow> bit_on bf' j)"
  using assms
proof (induction "is" arbitrary: bf)
  case (Cons i "is")
  obtain bf1 where s: "set_bit (probe bf key i) bf = Inr bf1" and n: "bf_num_bits bf1 = bf_num_bits bf"
    and k: "bf_k bf1 = bf_k bf" and l: "length (bf_bits bf1) = length (bf_bits bf)"
    and on: "bit_on bf1 (probe bf key i)"
    and keep: "\<And>j. bit_on bf j \<Longrightarrow> unat (drop_bit 3 j) < length (bf_bits bf) \<Longrightarrow> bit_on bf1 j"
    using set_bit_on [OF probe_in_range [OF Cons.prems]] by metis
  have wf: "bloom_wf bf1" using Cons.prems n l by (simp add: bloom_wf_def)
  have same: "probe bf1 key = probe bf key" using n by (simp add: probe_def [abs_def])
  show ?case
    using Cons.IH [OF wf] s n k l on keep same probe_in_range [OF Cons.prems, of key i]
    by (auto simp: same)
qed simp

lemma contains_loop_spec:
  "bloom_wf bf \<Longrightarrow> contains_loop bf key is = Inr (\<forall>i\<in>set is. bit_on bf (probe bf key i))"
  by (induction "is") (simp_all add: get_bit_on probe_in_range)

lemma maybe_contains_spec:
  "bloom_wf bf \<Longrightarrow>
     maybe_contains bf key = Inr (\<forall>i < unat (bf_k bf). bit_on bf (probe bf key i))"
  by (auto simp: maybe_contains_def contains_loop_spec)

text \<open>Adding a key never fails on a well-formed filter, keeps it well-formed and only adds answers.\<close>

lemma bloom_add_spec:
  assumes "bloom_wf bf"
  obtains bf' where "bloom_add key bf = Inr bf'" and "bloom_wf bf'"
    and "bf_num_bits bf' = bf_num_bits bf" and "bf_k bf' = bf_k bf"
    and "maybe_contains bf' key = Inr True"
    and "\<And>j. maybe_contains bf j = Inr True \<Longrightarrow> maybe_contains bf' j = Inr True"
proof -
  obtain bf' where b: "add_loop key [0..<unat (bf_k bf)] bf = Inr bf'" "bloom_wf bf'"
    "bf_num_bits bf' = bf_num_bits bf" "bf_k bf' = bf_k bf"
    and on: "\<forall>i\<in>set [0..<unat (bf_k bf)]. bit_on bf' (probe bf key i)"
    and keep: "\<forall>j. unat (drop_bit 3 j) < length (bf_bits bf) \<longrightarrow> bit_on bf j \<longrightarrow> bit_on bf' j"
    using add_loop_spec [OF assms] by metis
  have same: "probe bf' = probe bf" using b(3) by (simp add: probe_def [abs_def])
  show thesis
  proof (rule that [of bf'])
    show "maybe_contains bf' key = Inr True"
      using b on by (simp add: maybe_contains_spec same)
    show "maybe_contains bf' j = Inr True" if "maybe_contains bf j = Inr True" for j
      using that b keep assms by (simp add: maybe_contains_spec same probe_in_range)
  qed (use b in \<open>simp_all add: bloom_add_def\<close>)
qed

fun bloom_add_all :: "bytes list \<Rightarrow> bloom \<Rightarrow> bloom res" where
  "bloom_add_all [] bf = Inr bf"
| "bloom_add_all (k # ks) bf = rbind (bloom_add k bf) (bloom_add_all ks)"

lemma bloom_add_all_spec:
  assumes "bloom_wf bf"
  shows "\<exists>bf'. bloom_add_all ks bf = Inr bf' \<and> bloom_wf bf' \<and>
    bf_num_bits bf' = bf_num_bits bf \<and> bf_k bf' = bf_k bf \<and>
    (\<forall>k\<in>set ks. maybe_contains bf' k = Inr True) \<and>
    (\<forall>k. maybe_contains bf k = Inr True \<longrightarrow> maybe_contains bf' k = Inr True)"
  using assms
proof (induction ks arbitrary: bf)
  case (Cons k ks)
  obtain bf1 where "bloom_add k bf = Inr bf1" "bloom_wf bf1" "bf_num_bits bf1 = bf_num_bits bf"
    "bf_k bf1 = bf_k bf" "maybe_contains bf1 k = Inr True"
    "\<And>j. maybe_contains bf j = Inr True \<Longrightarrow> maybe_contains bf1 j = Inr True"
    using bloom_add_spec [OF Cons.prems] by metis
  with Cons.IH [of bf1] show ?case by auto
qed simp


lemma bloom_sized_wf: "unat nb + 7 < 2 ^ 64 \<Longrightarrow> bloom_wf (bloom_sized nb k)"
  by (simp add: bloom_sized_def bloom_wf_def Let_def)

text \<open>A fresh filter is well-formed whenever its bit count leaves room for the rounding to bytes.\<close>

lemma bloom_new_wf:
  assumes "optimal_bits lg n p \<noteq> 0" and "unat (optimal_bits lg n p) + 7 < 2 ^ 64"
  shows "bloom_wf (bloom_new lg n p)"
  using assms by (simp add: bloom_new_def bloom_wf_def Let_def)

lemma optimal_hashes_bounds: "1 \<le> unat (optimal_hashes m n) \<and> unat (optimal_hashes m n) \<le> 30"
proof -
  have "unat (word_of_int r :: u32) = nat r" if "1 \<le> r" "r \<le> 30" for r
    using that by (simp add: unat_eq_nat_uint take_bit_int_eq_self uint_word_of_int_eq)
  then show ?thesis by (auto simp: optimal_hashes_def Let_def)
qed

lemma bloom_new_k: "bf_k (bloom_new lg n p) \<noteq> 0"
proof
  assume "bf_k (bloom_new lg n p) = 0"
  then have "unat (optimal_hashes (optimal_bits lg n p) n) = 0" by (simp add: bloom_new_def Let_def)
  then show False using optimal_hashes_bounds [of "optimal_bits lg n p" n] by simp
qed

lemma bloom_serialize_eq:
  "bloom_serialize bf = put_u64_le [] (bf_num_bits bf) @ put_u32_le [] (bf_k bf) @ bf_bits bf"
  by (simp add: bloom_serialize_def Let_def put_u32_append [of "put_u64_le [] _"])

lemma bloom_roundtrip:
  assumes "bloom_wf bf" and "bf_k bf \<noteq> 0"
  shows "bloom_deserialize (bloom_serialize bf) = Inr bf"
proof -
  let ?s = "bloom_serialize bf"
  have d8: "drop 8 ?s = put_u32_le [] (bf_k bf) @ bf_bits bf"
    unfolding bloom_serialize_eq by (rule drop_exact) simp
  have d12: "drop 12 ?s = bf_bits bf"
    using drop_exact [of "put_u64_le [] (bf_num_bits bf) @ put_u32_le [] (bf_k bf)" 12 "bf_bits bf"]
    unfolding bloom_serialize_eq by simp
  have "read_u64_le ?s = bf_num_bits bf" by (simp add: bloom_serialize_eq)
  moreover have "read_u32_le (drop 8 ?s) = bf_k bf" unfolding d8 by simp
  moreover have "length ?s = 12 + length (bf_bits bf)" by (simp add: bloom_serialize_eq)
  ultimately show ?thesis
    using assms d12 by (simp add: bloom_deserialize_def Let_def bloom_sized_def bloom_wf_def)
qed

subsection \<open>Properties\<close>

text \<open>
  Property C37: no false negatives, also after a reload. A filter built by the sizing
  constructor and filled with any keys answers "maybe" for every one of them, no query
  accesses the bit vector out of bounds, the number of hash functions is between 1 and 30,
  and the filter comes back from its serialized bytes unchanged; for any logarithm the
  platform supplies, as long as the bit count it yields fits the size computation.
\<close>

theorem bloom_no_false_negative:
  assumes "optimal_bits lg n p \<noteq> 0" and "unat (optimal_bits lg n p) + 7 < 2 ^ 64"
  shows "\<exists>bf. bloom_add_all ks (bloom_new lg n p) = Inr bf \<and>
    bloom_deserialize (bloom_serialize bf) = Inr bf \<and> 1 \<le> unat (bf_k bf) \<and> unat (bf_k bf) \<le> 30 \<and>
    (\<forall>k\<in>set ks. maybe_contains bf k = Inr True) \<and> (\<forall>k. \<exists>b. maybe_contains bf k = Inr b)"
proof -
  obtain bf where bf: "bloom_add_all ks (bloom_new lg n p) = Inr bf" "bloom_wf bf"
    "bf_k bf = bf_k (bloom_new lg n p)" "\<forall>k\<in>set ks. maybe_contains bf k = Inr True"
    using bloom_add_all_spec [OF bloom_new_wf [OF assms], of ks] by auto
  have k: "1 \<le> unat (bf_k bf)" "unat (bf_k bf) \<le> 30"
    using bf(3) optimal_hashes_bounds by (simp_all add: bloom_new_def Let_def)
  then have "bloom_deserialize (bloom_serialize bf) = Inr bf"
    using bloom_roundtrip [OF bf(2)] by fastforce
  with bf k show ?thesis by (auto simp: maybe_contains_spec)
qed

theorem bloom_no_false_negative_witness:
  "\<exists>bf. bloom_add_all [[97], [98]] (bloom_new (\<lambda>_. - 46 / 10) 2 (1 / 100)) = Inr bf \<and>
    bloom_deserialize (bloom_serialize bf) = Inr bf \<and> 1 \<le> unat (bf_k bf) \<and> unat (bf_k bf) \<le> 30 \<and>
    (\<forall>k\<in>set [[97], [98]]. maybe_contains bf k = Inr True) \<and> (\<forall>k. \<exists>b. maybe_contains bf k = Inr b)"
proof (rule bloom_no_false_negative)
  have "optimal_bits (\<lambda>_. - 46 / 10) 2 (1 / 100) = 20"
    by (simp add: optimal_bits_def M_LN2_def ceiling_eq_iff)
  then show "optimal_bits (\<lambda>_. - 46 / 10) 2 (1 / 100) \<noteq> 0"
    and "unat (optimal_bits (\<lambda>_. - 46 / 10) 2 (1 / 100)) + 7 < 2 ^ 64" by simp_all
qed

text \<open>
  Property C38: the size check of \<open>deserialize\<close> computes \<open>(num_bits + 7) / 8\<close> with
  64-bit wrap-around, so it accepts twelve bytes that claim \<open>2\<^sup>6\<^sup>4 - 1\<close> bits and hold
  none; the first query of the resulting filter then reads outside the vector.
\<close>

theorem bloom_deserialize_wraps:
  "\<exists>bf. bloom_deserialize (replicate 8 255 @ [1, 0, 0, 0]) = Inr bf \<and> bf_bits bf = [] \<and>
    (\<forall>key. maybe_contains bf key = Inl (Undefined ''bits_''))"
proof -
  let ?dat = "replicate 8 255 @ [1, 0, 0, 0] :: bytes"
  have n: "read_u64_le ?dat = - 1" and k: "read_u32_le [1, 0, 0, 0] = 1"
    by code_simp+
  let ?bf = "\<lparr>bf_num_bits = - 1, bf_k = 1, bf_bits = []\<rparr>"
  have "bloom_deserialize ?dat = Inr ?bf"
    by (simp add: bloom_deserialize_def Let_def n k bloom_sized_def bits_size_def)
  moreover have "maybe_contains ?bf key = Inl (Undefined ''bits_'')" for key
    by (simp add: maybe_contains_def get_bit_def)
  ultimately show ?thesis by auto
qed

end
