(* ===== verification/Sstable.thy ===== *)
theory Sstable
  imports Record_Source Bloom_Filter Posix_Io
begin

text \<open>
  Sorted string tables (\<open>include/lsmkv/sstable.h\<close>, \<open>src/sstable.cpp\<close>): the byte format of
  records, blocks, sparse index, Bloom block and footer; the builder; opening a file; point
  lookup, range query and the forward iterator.

  An open table carries the contents of the inode its descriptor refers to. Nothing writes
  to that inode after \<open>build\<close> returned, and the descriptor keeps it alive after an unlink.
  \<open>sst_obj\<close> is the address of the object, by which the engine tells tables apart. The
  process-wide counter of block reads is a benchmarking instrument and is left out.
\<close>

definition kBlockSize :: nat where
  "kBlockSize = 4096"

definition kFooterSize :: nat where
  "kFooterSize = 40"

definition kMagic :: bytes where
  "kMagic = lit ''LSMKVSST''"

definition kSeparatedFlag :: byte where
  "kSeparatedFlag = 0x80"

subsection \<open>Records\<close>

definition append_record :: "bytes \<Rightarrow> kv_record \<Rightarrow> bytes" where
  "append_record buf r =
     (let x = op_byte (rec_op r) in
      if rec_separated r then
        let buf = buf @ [x OR kSeparatedFlag];
            buf = put_u32_le buf (of_nat (length (rec_key r)));
            buf = buf @ rec_key r;
            buf = put_u32_le buf (vp_len (rec_vptr r));
            buf = put_u32_le buf (vp_gen (rec_vptr r))
        in put_u64_le buf (vp_offset (rec_vptr r))
      else
        let buf = buf @ [x];
            buf = put_u32_le buf (of_nat (length (rec_key r)));
            buf = buf @ rec_key r;
            buf = put_u32_le buf (of_nat (length (rec_value r)))
        in buf @ rec_value r)"

definition parse_one :: "bytes \<Rightarrow> nat \<Rightarrow> (kv_record \<times> nat) res" where
  "parse_one b p =
     (if p + 1 + 4 > length b then Inl (RuntimeError ''SSTable: short record header'')
      else
        let opb = b ! p;
            separated = (opb AND kSeparatedFlag \<noteq> 0);
            x = byte_op (opb AND NOT kSeparatedFlag);
            p = p + 1;
            klen = unat (read_u32_le (drop p b));
            p = p + 4
        in
        if p + klen + 4 > length b then Inl (RuntimeError ''SSTable: bad key length'')
        else
          let key = take klen (drop p b);
              p = p + klen;
              vlen = read_u32_le (drop p b);
              p = p + 4
          in
          if separated then
            if p + 12 > length b then Inl (RuntimeError ''SSTable: bad value pointer'')
            else
              let g = read_u32_le (drop p b); p = p + 4;
                  off = read_u64_le (drop p b); p = p + 8
              in Inr (\<lparr>rec_op = x, rec_key = key, rec_value = [], rec_separated = True,
                       rec_vptr = \<lparr>vp_gen = g, vp_offset = off, vp_len = vlen\<rparr>\<rparr>, p)
          else
            if p + unat vlen > length b then Inl (RuntimeError ''SSTable: bad value length'')
            else
              let val = take (unat vlen) (drop p b); p = p + unat vlen
              in Inr (mk_record x key val, p))"

lemma parse_one_advances: "parse_one b p = Inr (r, q) \<Longrightarrow> p < q \<and> q \<le> length b"
  by (auto simp: parse_one_def Let_def split: if_splits)

function parse_block :: "bytes \<Rightarrow> nat \<Rightarrow> kv_record list \<Rightarrow> kv_record list res" where
  "parse_block b p recs =
     (if p < length b
      then rbind (parse_one b p) (\<lambda>(r, q). parse_block b q (recs @ [r]))
      else Inr recs)"
  by pat_completeness auto
termination
  by (relation "measure (\<lambda>(b, p, recs). length b - p)") (auto dest: parse_one_advances)

declare parse_block.simps [simp del]

subsection \<open>Building a file\<close>

record build_state =
  bs_data :: bytes
  bs_index :: bytes
  bs_bloom :: bloom
  bs_num :: u64
  bs_start :: nat
  bs_first :: bytes
  bs_open :: bool

definition close_block :: "bytes \<Rightarrow> nat \<Rightarrow> nat \<Rightarrow> build_state \<Rightarrow> build_state" where
  "close_block fkey start end1 st =
     (let ix = bs_index st;
          ix = put_u32_le ix (of_nat (length fkey));
          ix = ix @ fkey;
          ix = put_u64_le ix (of_nat start);
          ix = put_u64_le ix (of_nat end1 - of_nat start)
      in st\<lparr>bs_index := ix\<rparr>)"

definition build_step :: "kv_record \<Rightarrow> build_state \<Rightarrow> build_state res" where
  "build_step r st =
     (if length (rec_key r) > UINT32_MAX \<or> length (rec_value r) > UINT32_MAX
      then Inl (LengthError ''SSTable record field exceeds 4 GiB'')
      else
        let st = (if \<not> bs_open st
                  then st\<lparr>bs_start := length (bs_data st), bs_first := rec_key r, bs_open := True\<rparr>
                  else st);
            st = st\<lparr>bs_data := append_record (bs_data st) r\<rparr>
        in rbind (bloom_add (rec_key r) (bs_bloom st)) (\<lambda>bf.
             let st = st\<lparr>bs_bloom := bf, bs_num := bs_num st + 1\<rparr> in
             Inr (if length (bs_data st) - bs_start st \<ge> kBlockSize
                  then (close_block (bs_first st) (bs_start st) (length (bs_data st)) st)\<lparr>bs_open := False\<rparr>
                  else st)))"

fun build_loop :: "kv_record list \<Rightarrow> build_state \<Rightarrow> build_state res" where
  "build_loop [] st = Inr st"
| "build_loop (r # rs) st = rbind (build_step r st) (build_loop rs)"

definition build_file :: "(real \<Rightarrow> real) \<Rightarrow> kv_record list \<Rightarrow> bytes res" where
  "build_file lg recs =
     (let bloom = bloom_new lg (if recs = [] then 1 else length recs) (1 / 100);
          st = \<lparr>bs_data = [], bs_index = [], bs_bloom = bloom, bs_num = 0, bs_start = 0,
                bs_first = [], bs_open = False\<rparr>
      in rbind (build_loop recs st) (\<lambda>st.
           let st = (if bs_open st
                     then close_block (bs_first st) (bs_start st) (length (bs_data st)) st else st);
               bloom_bytes = bloom_serialize (bs_bloom st);
               footer = [];
               footer = put_u64_le footer (of_nat (length (bs_data st)));
               footer = put_u64_le footer (of_nat (length (bs_index st)));
               footer = put_u64_le footer (of_nat (length bloom_bytes));
               footer = put_u64_le footer (bs_num st);
               footer = footer @ kMagic
           in Inr (bs_data st @ bs_index st @ bloom_bytes @ footer)))"

text \<open>The copy of \<open>write_file_sync\<close> in \<open>sstable.cpp\<close>.\<close>

abbreviation sst_write_file_sync :: "io \<Rightarrow> bytes \<Rightarrow> bytes \<Rightarrow> (disk, unit) prog" where
  "sst_write_file_sync io \<equiv> write_file_sync io ''SSTable open for write'' ''SSTable write'' ''SSTable fsync''"

definition sst_build :: "io \<Rightarrow> (real \<Rightarrow> real) \<Rightarrow> bytes \<Rightarrow> kv_record list \<Rightarrow> (disk, u64) prog" where
  "sst_build io lg path recs =
     sbind (slift (build_file lg recs)) (\<lambda>contents.
     sbind (sst_write_file_sync io
              path contents) (\<lambda>_.
     sret (of_nat (length contents))))"

subsection \<open>Opening a file\<close>

record index_entry =
  ie_first_key :: bytes
  ie_offset :: u64
  ie_length :: u64

record sstable =
  sst_obj :: nat
  sst_path :: bytes
  sst_file :: bytes
  sst_data_size :: u64
  sst_file_size :: u64
  sst_num_records :: u64
  sst_obsolete :: bool
  sst_min_key :: bytes
  sst_max_key :: bytes
  sst_index :: "index_entry list"
  sst_bloom :: bloom

definition index_one :: "bytes \<Rightarrow> nat \<Rightarrow> (index_entry \<times> nat) res" where
  "index_one idx p =
     (if p + 4 > length idx then Inl (RuntimeError ''SSTable: torn index'')
      else
        let klen = unat (read_u32_le (drop p idx)); p = p + 4 in
        if p + klen + 16 > length idx then Inl (RuntimeError ''SSTable: torn index'')
        else
          let fk = take klen (drop p idx); p = p + klen;
              off = read_u64_le (drop p idx); p = p + 8;
              len = read_u64_le (drop p idx); p = p + 8
          in Inr (\<lparr>ie_first_key = fk, ie_offset = off, ie_length = len\<rparr>, p))"

lemma index_one_advances: "index_one b p = Inr (e, q) \<Longrightarrow> p < q \<and> q \<le> length b"
  by (auto simp: index_one_def Let_def split: if_splits)

function index_loop :: "bytes \<Rightarrow> nat \<Rightarrow> index_entry list \<Rightarrow> index_entry list res" where
  "index_loop idx p es =
     (if p < length idx
      then rbind (index_one idx p) (\<lambda>(e, q). index_loop idx q (es @ [e]))
      else Inr es)"
  by pat_completeness auto
termination
  by (relation "measure (\<lambda>(b, p, es). length b - p)") (auto dest: index_one_advances)

declare index_loop.simps [simp del]

text \<open>\<open>read_block_records\<close>; an index out of range would be undefined behaviour.\<close>

definition read_block :: "io \<Rightarrow> bytes \<Rightarrow> index_entry list \<Rightarrow> nat \<Rightarrow> kv_record list res" where
  "read_block io file1 index i =
     (if i < length index then
        let e = index ! i in
        rbind (pread_exact io ''SSTable pread'' file1 (unat (ie_offset e)) (unat (ie_length e)))
          (\<lambda>bs. parse_block bs 0 [])
      else Inl (Undefined ''index_''))"

definition sst_parse :: "io \<Rightarrow> nat \<Rightarrow> bytes \<Rightarrow> bytes \<Rightarrow> sstable res" where
  "sst_parse io obj path file1 =
     (let file_size = length file1 in
      if file_size < kFooterSize then Inl (RuntimeError ''SSTable: file smaller than footer'')
      else
        rbind (pread_exact io ''SSTable pread'' file1 (file_size - kFooterSize) kFooterSize) (\<lambda>footer.
        if take 8 (drop 32 footer) \<noteq> kMagic then Inl (RuntimeError ''SSTable: bad magic'')
        else
          let data_size = read_u64_le footer;
              index_size = read_u64_le (drop 8 footer);
              bloom_size = read_u64_le (drop 16 footer);
              num_records = read_u64_le (drop 24 footer)
          in
          if data_size + index_size + bloom_size + of_nat kFooterSize \<noteq> (of_nat file_size :: u64)
          then Inl (RuntimeError ''SSTable: block sizes disagree with file'')
          else
            rbind (pread_exact io ''SSTable pread'' file1 (unat data_size) (unat index_size)) (\<lambda>idx.
            rbind (index_loop idx 0 []) (\<lambda>index.
            rbind (if index = [] then Inr ([], [])
                   else rbind (read_block io file1 index (length index - 1)) (\<lambda>last1.
                     Inr (ie_first_key (hd index), if last1 = [] then [] else rec_key (last last1))))
              (\<lambda>(min_key, max_key).
            rbind (pread_exact io ''SSTable pread'' file1 (unat (data_size + index_size)) (unat bloom_size))
              (\<lambda>bloom_bytes.
            rbind (bloom_deserialize bloom_bytes) (\<lambda>bloom.
            Inr \<lparr>sst_obj = obj, sst_path = path, sst_file = file1, sst_data_size = data_size,
                 sst_file_size = of_nat file_size, sst_num_records = num_records,
                 sst_obsolete = False, sst_min_key = min_key, sst_max_key = max_key,
                 sst_index = index, sst_bloom = bloom\<rparr>)))))))"

definition sst_open :: "io \<Rightarrow> nat \<Rightarrow> bytes \<Rightarrow> disk \<Rightarrow> sstable res" where
  "sst_open io obj path d =
     (case io ''SSTable open'' of
        Some (m, e) \<Rightarrow> Inl (SystemError e ''SSTable open'')
      | None \<Rightarrow>
          (case d_read d path of
             None \<Rightarrow> Inl (SystemError ENOENT ''SSTable open'')
           | Some file1 \<Rightarrow>
               (case io ''SSTable fstat'' of
                  Some (m, e) \<Rightarrow> Inl (SystemError e ''SSTable fstat'')
                | None \<Rightarrow> sst_parse io obj path file1)))"

text \<open>The destructor unlinks the file of an obsolete table.\<close>

definition sst_destroy :: "sstable \<Rightarrow> disk \<Rightarrow> disk" where
  "sst_destroy t d = (if sst_obsolete t then d_unlink (sst_path t) d else d)"

definition sst_mark_obsolete :: "sstable \<Rightarrow> sstable" where
  "sst_mark_obsolete t = t\<lparr>sst_obsolete := True\<rparr>"

subsection \<open>Queries\<close>

definition sst_read_block :: "io \<Rightarrow> sstable \<Rightarrow> nat \<Rightarrow> kv_record list res" where
  "sst_read_block io t i = read_block io (sst_file t) (sst_index t) i"

definition may_contain :: "sstable \<Rightarrow> bytes \<Rightarrow> bool res" where
  "may_contain t key = maybe_contains (sst_bloom t) key"

text \<open>\<open>std::upper_bound\<close> over the sparse index: binary search by halving the remaining length.\<close>

function ub_loop :: "index_entry list \<Rightarrow> bytes \<Rightarrow> nat \<Rightarrow> nat \<Rightarrow> nat" where
  "ub_loop index key first len =
     (if len > 0 then
        let half = len div 2; middle = first + half in
        if key < ie_first_key (index ! middle) then ub_loop index key first half
        else ub_loop index key (middle + 1) (len - half - 1)
      else first)"
  by pat_completeness auto
termination
  by (relation "measure (\<lambda>(index, key, first, len). len)") auto

declare ub_loop.simps [simp del]

definition upper_bound :: "index_entry list \<Rightarrow> bytes \<Rightarrow> nat" where
  "upper_bound index key = ub_loop index key 0 (length index)"

fun block_scan :: "bytes \<Rightarrow> kv_record list \<Rightarrow> kv_record option" where
  "block_scan key [] = None"
| "block_scan key (r # rs) =
     (if rec_key r = key then Some r else if rec_key r > key then None else block_scan key rs)"

definition get_no_bloom :: "io \<Rightarrow> sstable \<Rightarrow> bytes \<Rightarrow> kv_record option res" where
  "get_no_bloom io t key =
     (if sst_index t = [] then Inr None
      else
        let it = upper_bound (sst_index t) key in
        if it = 0 then Inr None
        else rbind (sst_read_block io t (it - 1)) (\<lambda>recs. Inr (block_scan key recs)))"

definition sst_get :: "io \<Rightarrow> sstable \<Rightarrow> bytes \<Rightarrow> kv_record option res" where
  "sst_get io t key = rbind (may_contain t key) (\<lambda>b. if \<not> b then Inr None else get_no_bloom io t key)"

text \<open>The inner loop of \<open>range\<close>: the flag says that the function returned from inside it.\<close>

fun range_block :: "bytes \<Rightarrow> bytes \<Rightarrow> kv_record list \<Rightarrow> kv_record list \<Rightarrow> bool \<times> kv_record list" where
  "range_block start end1 [] out = (False, out)"
| "range_block start end1 (r # rs) out =
     (if rec_key r < start then range_block start end1 rs out
      else if rec_key r \<ge> end1 then (True, out)
      else range_block start end1 rs (out @ [r]))"

fun range_loop ::
  "io \<Rightarrow> sstable \<Rightarrow> bytes \<Rightarrow> bytes \<Rightarrow> nat list \<Rightarrow> kv_record list \<Rightarrow> kv_record list res" where
  "range_loop io t start end1 [] out = Inr out"
| "range_loop io t start end1 (i # is) out =
     (if ie_first_key (sst_index t ! i) \<ge> end1 then Inr out
      else rbind (sst_read_block io t i) (\<lambda>recs.
        case range_block start end1 recs out of
          (True, out) \<Rightarrow> Inr out
        | (False, out) \<Rightarrow> range_loop io t start end1 is out))"

definition sst_range :: "io \<Rightarrow> sstable \<Rightarrow> bytes \<Rightarrow> bytes \<Rightarrow> kv_record list res" where
  "sst_range io t start end1 =
     (if sst_index t = [] \<or> \<not> start < end1 then Inr []
      else
        let it = upper_bound (sst_index t) start;
            bi = (if it = 0 then 0 else it - 1)
        in range_loop io t start end1 [bi..<length (sst_index t)] [])"

subsection \<open>Iterator\<close>

record sst_iter =
  it_sst :: sstable
  it_block_idx :: nat
  it_pos :: nat
  it_block :: "kv_record list"

definition iter_load :: "io \<Rightarrow> nat \<Rightarrow> sst_iter \<Rightarrow> sst_iter res" where
  "iter_load io i it =
     rbind (sst_read_block io (it_sst it) i) (\<lambda>recs.
       Inr (it\<lparr>it_block_idx := i, it_block := recs, it_pos := 0\<rparr>))"

definition iter_new :: "io \<Rightarrow> sstable \<Rightarrow> sst_iter res" where
  "iter_new io t =
     (let it = \<lparr>it_sst = t, it_block_idx = 0, it_pos = 0, it_block = []\<rparr> in
      if sst_index t \<noteq> [] then iter_load io 0 it else Inr it)"

definition iter_valid :: "sst_iter \<Rightarrow> bool" where
  "iter_valid it \<longleftrightarrow> it_block_idx it < length (sst_index (it_sst it)) \<and> it_pos it < length (it_block it)"

definition iter_record :: "sst_iter \<Rightarrow> kv_record" where
  "iter_record it = it_block it ! it_pos it"

definition iter_key :: "sst_iter \<Rightarrow> bytes" where
  "iter_key it = rec_key (it_block it ! it_pos it)"

definition iter_next :: "io \<Rightarrow> sst_iter \<Rightarrow> sst_iter res" where
  "iter_next io it =
     (let it = it\<lparr>it_pos := it_pos it + 1\<rparr> in
      if it_pos it \<ge> length (it_block it) then
        if it_block_idx it + 1 < length (sst_index (it_sst it))
        then iter_load io (it_block_idx it + 1) it
        else Inr (it\<lparr>it_block_idx := length (sst_index (it_sst it))\<rparr>)
      else Inr it)"

end
