(* ===== verification/Sstable_Format.thy ===== *)
theory Sstable_Format
  imports Sstable
begin

text \<open>
  Correctness of the SSTable byte format: a record is read back from its encoding, a block
  is the sequence of its records, and a file built from sorted records opens to a table
  whose index, blocks, key range and Bloom filter describe exactly those records.
\<close>

subsection \<open>Records\<close>

definition sst_rec_ok :: "kv_record \<Rightarrow> bool" where
  "sst_rec_ok r \<longleftrightarrow>
     known_op (rec_op r) \<and> length (rec_key r) \<le> UINT32_MAX \<and> length (rec_value r) \<le> UINT32_MAX \<and>
     (if rec_separated r then rec_value r = [] else rec_vptr r = vptr0)"

definition enc_rec :: "kv_record \<Rightarrow> bytes" where
  "enc_rec r = append_record [] r"

definition enc_recs :: "kv_record list \<Rightarrow> bytes" where
  "enc_recs rs = concat (map enc_rec rs)"

lemma enc_recs_simps [simp]:
  "enc_recs [] = []" "enc_recs (r # rs) = enc_rec r @ enc_recs rs"
  "enc_recs (xs @ ys) = enc_recs xs @ enc_recs ys"
  by (simp_all add: enc_recs_def)

lemma enc_rec_inline:
  "\<not> rec_separated r \<Longrightarrow> enc_rec r = op_byte (rec_op r) #
     put_u32_le [] (of_nat (length (rec_key r))) @ rec_key r
     @ put_u32_le [] (of_nat (length (rec_value r))) @ rec_value r"
  by (simp add: enc_rec_def append_record_def Let_def put_u32_append [of "_ # _"] put_u32_append [of "_ @ _"])

lemma enc_rec_separated:
  "rec_separated r \<Longrightarrow> enc_rec r = (op_byte (rec_op r) OR kSeparatedFlag) #
     put_u32_le [] (of_nat (length (rec_key r))) @ rec_key r
     @ put_u32_le [] (vp_len (rec_vptr r)) @ put_u32_le [] (vp_gen (rec_vptr r))
     @ put_u64_le [] (vp_offset (rec_vptr r))"
  by (simp add: enc_rec_def append_record_def Let_def put_u32_append [of "_ # _"]
      put_u32_append [of "_ @ _"] put_u64_append [of "_ # _"] put_u64_append [of "_ @ _"])

lemma append_record_eq: "append_record buf r = buf @ enc_rec r"
proof (cases "rec_separated r")
  case True
  then show ?thesis
    unfolding enc_rec_separated [OF True]
    by (simp add: append_record_def Let_def put_u32_append [of "_ # _"] put_u32_append [of "_ @ _"]
        put_u64_append [of "_ # _"] put_u64_append [of "_ @ _"])
next
  case False
  then show ?thesis
    unfolding enc_rec_inline [OF False]
    by (simp add: append_record_def Let_def put_u32_append [of "_ # _"] put_u32_append [of "_ @ _"])
qed

lemma length_enc_rec: "9 \<le> length (enc_rec r)"
  by (cases "rec_separated r") (simp_all add: enc_rec_inline enc_rec_separated)

lemma enc_rec_not_Nil [simp]: "enc_rec r \<noteq> []"
  using length_enc_rec [of r] by auto

lemma parse_one_header:
  assumes "length k \<le> UINT32_MAX"
  shows "parse_one (pre @ x # put_u32_le [] (of_nat (length k)) @ k @ put_u32_le [] v @ t) (length pre) =
    (if x AND kSeparatedFlag \<noteq> 0 then
       if length t < 12 then Inl (RuntimeError ''SSTable: bad value pointer'')
       else Inr (\<lparr>rec_op = byte_op (x AND NOT kSeparatedFlag), rec_key = k, rec_value = [],
                  rec_separated = True,
                  rec_vptr = \<lparr>vp_gen = read_u32_le t, vp_offset = read_u64_le (drop 4 t), vp_len = v\<rparr>\<rparr>,
                 length pre + 21 + length k)
     else
       if length t < unat v then Inl (RuntimeError ''SSTable: bad value length'')
       else Inr (mk_record (byte_op (x AND NOT kSeparatedFlag)) k (take (unat v) t),
                 length pre + 9 + length k + unat v))"
proof -
  let ?b = "pre @ x # put_u32_le [] (of_nat (length k)) @ k @ put_u32_le [] v @ t"
  let ?p = "length pre"
  have e1: "drop (?p + 1) ?b = put_u32_le [] (of_nat (length k)) @ k @ put_u32_le [] v @ t"
    using drop_exact [of "pre @ [x]" "?p + 1"] by simp
  have e2: "drop (?p + 1 + 4) ?b = k @ put_u32_le [] v @ t"
    using drop_exact [of "pre @ x # put_u32_le [] (of_nat (length k))" "?p + 1 + 4"] by simp
  have e3: "drop (?p + 1 + 4 + length k) ?b = put_u32_le [] v @ t"
    using drop_exact [of "pre @ x # put_u32_le [] (of_nat (length k)) @ k" "?p + 1 + 4 + length k"] by simp
  have e4: "drop (?p + 1 + 4 + length k + 4) ?b = t"
    using drop_exact [of "pre @ x # put_u32_le [] (of_nat (length k)) @ k @ put_u32_le [] v"
        "?p + 1 + 4 + length k + 4" t] by simp
  have e5: "drop (?p + 1 + 4 + length k + 4 + 4) ?b = drop 4 t"
    using drop_drop [of 4 "?p + 1 + 4 + length k + 4" ?b] unfolding e4 by (simp add: add.commute)
  have x: "?b ! ?p = x" by simp
  have len: "length ?b = ?p + 9 + length k + length t" by simp
  have kl: "unat (read_u32_le (drop (?p + 1) ?b)) = length k" unfolding e1 using assms by simp
  have vl: "read_u32_le (drop (?p + 1 + 4 + length k) ?b) = v" unfolding e3 by simp
  have key: "take (length k) (drop (?p + 1 + 4) ?b) = k" unfolding e2 by simp
  show ?thesis
    unfolding parse_one_def Let_def kl vl key x e4 e5 len by simp
qed

lemma op_flag:
  assumes "known_op x"
  shows "op_byte x AND kSeparatedFlag = 0" "op_byte x AND NOT kSeparatedFlag = op_byte x"
    and "(op_byte x OR kSeparatedFlag) AND kSeparatedFlag \<noteq> 0"
    and "(op_byte x OR kSeparatedFlag) AND NOT kSeparatedFlag = op_byte x"
  using assms by (auto simp: known_op_def op_byte_def kSeparatedFlag_def)

lemma flag_nonzero [simp]: "kSeparatedFlag \<noteq> 0"
  by (simp add: kSeparatedFlag_def)

lemma separated_rec_eq:
  assumes "rec_separated r" and "rec_value r = []"
  shows "\<lparr>rec_op = rec_op r, rec_key = rec_key r, rec_value = [], rec_separated = True,
    rec_vptr = \<lparr>vp_gen = vp_gen (rec_vptr r), vp_offset = vp_offset (rec_vptr r), vp_len = vp_len (rec_vptr r)\<rparr>\<rparr> = r"
  using assms by (cases r; cases "rec_vptr r") simp

lemma parse_one_enc:
  assumes "sst_rec_ok r"
  shows "parse_one (pre @ enc_rec r @ rest) (length pre) = Inr (r, length pre + length (enc_rec r))"
proof (cases "rec_separated r")
  case True
  have "read_u64_le (drop 4 (put_u32_le [] g @ put_u64_le [] off @ rest)) = off" for g off
    using drop_exact [of "put_u32_le [] g" 4 "put_u64_le [] off @ rest"] by simp
  then show ?thesis
    using assms True
      parse_one_header [of "rec_key r" pre "op_byte (rec_op r) OR kSeparatedFlag" "vp_len (rec_vptr r)"
        "put_u32_le [] (vp_gen (rec_vptr r)) @ put_u64_le [] (vp_offset (rec_vptr r)) @ rest"]
    by (simp add: enc_rec_separated sst_rec_ok_def op_flag separated_rec_eq)
next
  case False
  then show ?thesis
    using assms parse_one_header [of "rec_key r" pre "op_byte (rec_op r)" "of_nat (length (rec_value r))" "rec_value r @ rest"]
    by (simp add: enc_rec_inline sst_rec_ok_def op_flag inline_rec_eq inline_rec_def)
qed

lemma parse_block_enc:
  "list_all sst_rec_ok rs \<Longrightarrow> parse_block (pre @ enc_recs rs) (length pre) acc = Inr (acc @ rs)"
proof (induction rs arbitrary: pre acc)
  case Nil
  then show ?case by (subst parse_block.simps) simp
next
  case (Cons r rs)
  have "parse_block ((pre @ enc_rec r) @ enc_recs rs) (length (pre @ enc_rec r)) (acc @ [r])
      = Inr ((acc @ [r]) @ rs)"
    by (rule Cons.IH) (use Cons.prems in simp)
  then show ?case
    using Cons.prems parse_one_enc [of r pre "enc_recs rs"] by (subst parse_block.simps) simp
qed

subsection \<open>Index entries\<close>

definition enc_entry :: "bytes \<Rightarrow> nat \<Rightarrow> nat \<Rightarrow> bytes" where
  "enc_entry k off len =
     put_u32_le [] (of_nat (length k)) @ k @ put_u64_le [] (of_nat off) @ put_u64_le [] (of_nat len)"

lemma length_enc_entry [simp, enc_simps]: "length (enc_entry k off len) = 20 + length k"
  by (simp add: enc_entry_def)

lemma index_one_enc:
  assumes "length k \<le> UINT32_MAX"
  shows "index_one (pre @ enc_entry k off len @ rest) (length pre) =
    Inr (\<lparr>ie_first_key = k, ie_offset = of_nat off, ie_length = of_nat len\<rparr>, length pre + 20 + length k)"
proof -
  let ?b = "pre @ enc_entry k off len @ rest" and ?p = "length pre"
  let ?o = "put_u64_le [] (of_nat off)" and ?l = "put_u64_le [] (of_nat len)"
  have e0: "drop ?p ?b = put_u32_le [] (of_nat (length k)) @ k @ ?o @ ?l @ rest"
    by (simp add: enc_entry_def)
  have e1: "drop (?p + 4) ?b = k @ ?o @ ?l @ rest"
    using drop_exact [of "pre @ put_u32_le [] (of_nat (length k))" "?p + 4"] by (simp add: enc_entry_def)
  have e2: "drop (?p + 4 + length k) ?b = ?o @ ?l @ rest"
    using drop_exact [of "pre @ put_u32_le [] (of_nat (length k)) @ k" "?p + 4 + length k"]
    by (simp add: enc_entry_def)
  have e3: "drop (?p + 4 + length k + 8) ?b = ?l @ rest"
    using drop_exact [of "pre @ put_u32_le [] (of_nat (length k)) @ k @ ?o" "?p + 4 + length k + 8"]
    by (simp add: enc_entry_def)
  have kl: "unat (read_u32_le (drop ?p ?b)) = length k" unfolding e0 using assms by simp
  have key: "take (length k) (drop (?p + 4) ?b) = k" unfolding e1 by simp
  have len: "length ?b = ?p + 20 + length k + length rest" by simp
  show ?thesis
    unfolding index_one_def Let_def kl key e2 e3 len by simp
qed

text \<open>
  The index of a sequence of blocks whose data starts at offset \<open>off\<close>: as bytes and as
  entries.
\<close>

fun index_bytes :: "nat \<Rightarrow> kv_record list list \<Rightarrow> bytes" where
  "index_bytes off [] = []"
| "index_bytes off (b # bs) =
     enc_entry (rec_key (hd b)) off (length (enc_recs b)) @ index_bytes (off + length (enc_recs b)) bs"

fun index_of :: "nat \<Rightarrow> kv_record list list \<Rightarrow> index_entry list" where
  "index_of off [] = []"
| "index_of off (b # bs) =
     \<lparr>ie_first_key = rec_key (hd b), ie_offset = of_nat off, ie_length = of_nat (length (enc_recs b))\<rparr>
       # index_of (off + length (enc_recs b)) bs"

definition block_ok :: "kv_record list \<Rightarrow> bool" where
  "block_ok b \<longleftrightarrow> b \<noteq> [] \<and> list_all sst_rec_ok b"

lemma block_ok_hd: "block_ok b \<Longrightarrow> length (rec_key (hd b)) \<le> UINT32_MAX"
  by (cases b) (auto simp: block_ok_def sst_rec_ok_def)

lemma index_loop_enc:
  "list_all block_ok bs \<Longrightarrow>
     index_loop (pre @ index_bytes off bs) (length pre) acc = Inr (acc @ index_of off bs)"
proof (induction bs arbitrary: pre off acc)
  case Nil
  then show ?case by (subst index_loop.simps) simp
next
  case (Cons b bs)
  let ?e = "enc_entry (rec_key (hd b)) off (length (enc_recs b))"
  let ?x = "\<lparr>ie_first_key = rec_key (hd b), ie_offset = of_nat off, ie_length = of_nat (length (enc_recs b))\<rparr>"
  let ?off = "off + length (enc_recs b)"
  have "index_loop ((pre @ ?e) @ index_bytes ?off bs) (length (pre @ ?e)) (acc @ [?x])
      = Inr ((acc @ [?x]) @ index_of ?off bs)"
    by (rule Cons.IH) (use Cons.prems in simp)
  moreover have "index_one (pre @ ?e @ index_bytes ?off bs) (length pre) = Inr (?x, length (pre @ ?e))"
    using index_one_enc [of "rec_key (hd b)" pre off "length (enc_recs b)"] Cons.prems block_ok_hd
    by (simp add: add.assoc)
  ultimately show ?case
    by (subst index_loop.simps) simp
qed

lemma length_index_of [simp]: "length (index_of off bs) = length bs"
  by (induction bs arbitrary: off) auto

lemma index_of_nth:
  "i < length bs \<Longrightarrow> index_of off bs ! i =
     \<lparr>ie_first_key = rec_key (hd (bs ! i)),
      ie_offset = of_nat (off + length (enc_recs (concat (take i bs)))),
      ie_length = of_nat (length (enc_recs (bs ! i)))\<rparr>"
proof (induction bs arbitrary: off i)
  case (Cons b bs)
  then show ?case by (cases i) (simp_all add: add.assoc)
qed simp

subsection \<open>What the builder writes\<close>

text \<open>
  The grouping of records into blocks: a block is closed by the record that brings it to
  the target size.
\<close>

fun group_blocks :: "kv_record list \<Rightarrow> kv_record list \<Rightarrow> kv_record list list" where
  "group_blocks cur [] = (if cur = [] then [] else [cur])"
| "group_blocks cur (r # rs) =
     (if length (enc_recs (cur @ [r])) \<ge> kBlockSize then (cur @ [r]) # group_blocks [] rs
      else group_blocks (cur @ [r]) rs)"

lemma concat_group_blocks: "concat (group_blocks cur rs) = cur @ rs"
  by (induction cur rs rule: group_blocks.induct) auto

lemma group_blocks_ok:
  "list_all sst_rec_ok (cur @ rs) \<Longrightarrow> list_all block_ok (group_blocks cur rs)"
  by (induction cur rs rule: group_blocks.induct) (auto simp: block_ok_def)

definition finish_block :: "build_state \<Rightarrow> build_state" where
  "finish_block st =
     (if bs_open st then close_block (bs_first st) (bs_start st) (length (bs_data st)) st else st)"

lemma close_block_eq:
  "start \<le> end1 \<Longrightarrow>
     close_block k start end1 st = st\<lparr>bs_index := bs_index st @ enc_entry k start (end1 - start)\<rparr>"
  by (simp add: close_block_def Let_def enc_entry_def put_u32_append [of "bs_index st"]
      put_u64_append [of "_ @ _"] of_nat_diff)

text \<open>The builder between two records: closed data \<open>D\<close> and the records \<open>cur\<close> of the open block.\<close>

definition building :: "bytes \<Rightarrow> kv_record list \<Rightarrow> build_state \<Rightarrow> bool" where
  "building D cur st \<longleftrightarrow>
     bs_data st = D @ enc_recs cur \<and> (bs_open st \<longleftrightarrow> cur \<noteq> []) \<and>
     (cur \<noteq> [] \<longrightarrow> bs_start st = length D \<and> bs_first st = rec_key (hd cur))"

lemma build_step_spec:
  assumes "building D cur st" and "sst_rec_ok r" and "bloom_add (rec_key r) (bs_bloom st) = Inr bf"
  shows "\<exists>st'. build_step r st = Inr st' \<and> bs_bloom st' = bf \<and> bs_num st' = bs_num st + 1 \<and>
    (if length (enc_recs (cur @ [r])) \<ge> kBlockSize
     then building (D @ enc_recs (cur @ [r])) [] st' \<and>
       bs_index st' = bs_index st @ enc_entry (rec_key (hd (cur @ [r]))) (length D) (length (enc_recs (cur @ [r])))
     else building D (cur @ [r]) st' \<and> bs_index st' = bs_index st)"
proof -
  have len: "\<not> length (rec_key r) > UINT32_MAX" "\<not> length (rec_value r) > UINT32_MAX"
    using assms(2) by (auto simp: sst_rec_ok_def)
  show ?thesis
  proof (cases "cur = []")
    case True
    then show ?thesis
      using assms(1,3) len
      by (auto simp: build_step_def building_def Let_def append_record_eq close_block_eq)
  next
    case False
    then show ?thesis
      using assms(1,3) len
      by (auto simp: build_step_def building_def Let_def append_record_eq close_block_eq)
  qed
qed

lemma build_loop_spec:
  assumes "building D cur st" and "list_all sst_rec_ok rs" and "bloom_wf (bs_bloom st)"
  shows "\<exists>st'. build_loop rs st = Inr st' \<and>
    bloom_add_all (map rec_key rs) (bs_bloom st) = Inr (bs_bloom st') \<and>
    bs_num st' = bs_num st + of_nat (length rs) \<and>
    bs_data st' = D @ enc_recs (cur @ rs) \<and>
    bs_index (finish_block st') = bs_index st @ index_bytes (length D) (group_blocks cur rs)"
  using assms
proof (induction rs arbitrary: D cur st)
  case Nil
  then show ?case
    by (auto simp: building_def finish_block_def close_block_eq)
next
  case (Cons r rs)
  obtain bf where bf: "bloom_add (rec_key r) (bs_bloom st) = Inr bf" "bloom_wf bf"
    using bloom_add_spec [OF Cons.prems(3)] by metis
  have r: "sst_rec_ok r" and rs: "list_all sst_rec_ok rs" using Cons.prems(2) by auto
  obtain st1 where st1: "build_step r st = Inr st1" "bs_bloom st1 = bf" "bs_num st1 = bs_num st + 1"
    and blk: "if length (enc_recs (cur @ [r])) \<ge> kBlockSize
     then building (D @ enc_recs (cur @ [r])) [] st1 \<and>
       bs_index st1 = bs_index st @ enc_entry (rec_key (hd (cur @ [r]))) (length D) (length (enc_recs (cur @ [r])))
     else building D (cur @ [r]) st1 \<and> bs_index st1 = bs_index st"
    using build_step_spec [OF Cons.prems(1) r bf(1)] by blast
  show ?case
  proof (cases "length (enc_recs (cur @ [r])) \<ge> kBlockSize")
    case True
    with blk have b: "building (D @ enc_recs (cur @ [r])) [] st1" by simp
    show ?thesis
      using Cons.IH [OF b rs] st1 bf True blk by (auto simp: algebra_simps)
  next
    case False
    with blk have b: "building D (cur @ [r]) st1" by simp
    show ?thesis
      using Cons.IH [OF b rs] st1 bf False blk by (auto simp: algebra_simps)
  qed
qed

subsection \<open>A built file opens to its records\<close>

definition bloom_fits :: "(real \<Rightarrow> real) \<Rightarrow> kv_record list \<Rightarrow> bool" where
  "bloom_fits lg rs \<longleftrightarrow>
     (let nb = optimal_bits lg (if rs = [] then 1 else length rs) (1 / 100)
      in nb \<noteq> 0 \<and> unat nb + 7 < 2 ^ 64)"

definition footer_bytes :: "nat \<Rightarrow> nat \<Rightarrow> nat \<Rightarrow> nat \<Rightarrow> bytes" where
  "footer_bytes dn xn bn n =
     put_u64_le [] (of_nat dn) @ put_u64_le [] (of_nat xn) @ put_u64_le [] (of_nat bn)
     @ put_u64_le [] (of_nat n) @ kMagic"

lemma length_footer [simp]: "length (footer_bytes dn xn bn n) = kFooterSize"
  by (simp add: footer_bytes_def kFooterSize_def kMagic_def lit_def)

lemma footer_fields:
  "read_u64_le (footer_bytes dn xn bn n) = of_nat dn"
  "read_u64_le (drop 8 (footer_bytes dn xn bn n)) = of_nat xn"
  "read_u64_le (drop 16 (footer_bytes dn xn bn n)) = of_nat bn"
  "read_u64_le (drop 24 (footer_bytes dn xn bn n)) = of_nat n"
  "take 8 (drop 32 (footer_bytes dn xn bn n)) = kMagic"
proof -
  let ?a = "put_u64_le [] (of_nat dn)" and ?b = "put_u64_le [] (of_nat xn)"
  let ?c = "put_u64_le [] (of_nat bn)" and ?d = "put_u64_le [] (of_nat n)"
  have "drop 8 (footer_bytes dn xn bn n) = ?b @ ?c @ ?d @ kMagic"
    "drop 16 (footer_bytes dn xn bn n) = ?c @ ?d @ kMagic"
    "drop 24 (footer_bytes dn xn bn n) = ?d @ kMagic"
    "drop 32 (footer_bytes dn xn bn n) = kMagic"
    using drop_exact [of ?a 8] drop_exact [of "?a @ ?b" 16] drop_exact [of "?a @ ?b @ ?c" 24]
      drop_exact [of "?a @ ?b @ ?c @ ?d" 32] by (simp_all add: footer_bytes_def)
  moreover have "length kMagic = 8" by (simp add: kMagic_def lit_def)
  ultimately show "read_u64_le (drop 8 (footer_bytes dn xn bn n)) = of_nat xn"
    "read_u64_le (drop 16 (footer_bytes dn xn bn n)) = of_nat bn"
    "read_u64_le (drop 24 (footer_bytes dn xn bn n)) = of_nat n"
    "take 8 (drop 32 (footer_bytes dn xn bn n)) = kMagic"
    by simp_all
  show "read_u64_le (footer_bytes dn xn bn n) = of_nat dn" by (simp add: footer_bytes_def)
qed

lemma pread_exact_mid:
  "off = length a \<Longrightarrow> len = length x \<Longrightarrow> pread_exact no_faults ctx (a @ x @ c) off len = Inr x"
  by (simp add: pread_exact_def no_faults_def)

text \<open>The four regions of a built file.\<close>

lemma build_file_layout:
  assumes "list_all sst_rec_ok rs" and "bloom_fits lg rs"
  obtains bf where "build_file lg rs = Inr (enc_recs rs @ index_bytes 0 (group_blocks [] rs)
      @ bloom_serialize bf @ footer_bytes (length (enc_recs rs))
          (length (index_bytes 0 (group_blocks [] rs))) (length (bloom_serialize bf)) (length rs))"
    and "bloom_wf bf" and "bf_k bf \<noteq> 0" and "\<forall>r\<in>set rs. maybe_contains bf (rec_key r) = Inr True"
proof -
  define bf0 where "bf0 = bloom_new lg (if rs = [] then 1 else length rs) (1 / 100)"
  define st0 where "st0 = \<lparr>bs_data = [], bs_index = [], bs_bloom = bf0, bs_num = 0, bs_start = 0,
    bs_first = [], bs_open = False\<rparr>"
  have wf0: "bloom_wf bf0"
    using assms(2) unfolding bf0_def by (intro bloom_new_wf) (simp_all add: bloom_fits_def Let_def)
  have "building [] [] st0" by (simp add: building_def st0_def)
  then obtain st where st: "build_loop rs st0 = Inr st"
    "bloom_add_all (map rec_key rs) bf0 = Inr (bs_bloom st)" "bs_num st = of_nat (length rs)"
    "bs_data st = enc_recs rs" "bs_index (finish_block st) = index_bytes 0 (group_blocks [] rs)"
    using build_loop_spec [of "[]" "[]" st0 rs] assms(1) wf0 by (auto simp: st0_def)
  have bl: "bloom_wf (bs_bloom st)" "bf_k (bs_bloom st) = bf_k bf0"
    "\<forall>r\<in>set rs. maybe_contains (bs_bloom st) (rec_key r) = Inr True"
    using bloom_add_all_spec [OF wf0, of "map rec_key rs"] st(2) by auto
  have "bf_k (bs_bloom st) \<noteq> 0"
    using bl(2) by (simp add: bf0_def bloom_new_k)
  moreover have fin: "bs_data (finish_block st) = bs_data st" "bs_bloom (finish_block st) = bs_bloom st"
    "bs_num (finish_block st) = bs_num st"
    by (simp_all add: finish_block_def close_block_def Let_def)
  have "build_file lg rs = Inr (bs_data (finish_block st) @ bs_index (finish_block st)
      @ bloom_serialize (bs_bloom (finish_block st)) @ footer_bytes (length (bs_data (finish_block st)))
          (length (bs_index (finish_block st))) (length (bloom_serialize (bs_bloom (finish_block st)))) (length rs))"
    using st(1,3) fin(3)
    by (simp add: build_file_def bf0_def [symmetric] st0_def [symmetric] finish_block_def [symmetric] Let_def
        footer_bytes_def put_u64_append [of "put_u64_le _ _"])
  ultimately show thesis
    using that [of "bs_bloom st"] bl st(4,5) fin by simp
qed

definition sst_records :: "sstable \<Rightarrow> kv_record list" where
  "sst_records t =
     concat (map (\<lambda>i. case sst_read_block no_faults t i of Inr b \<Rightarrow> b | Inl _ \<Rightarrow> []) [0..<length (sst_index t)])"

text \<open>
  The invariant of an open table: every indexed block can be read, is not empty and starts
  with the key of its index entry; the records are strictly sorted and well-formed; the
  Bloom filter is well-formed and knows every key; the cached key range is that of the
  records.
\<close>

definition sst_inv :: "sstable \<Rightarrow> bool" where
  "sst_inv t \<longleftrightarrow>
     (\<forall>i < length (sst_index t). case sst_read_block no_faults t i of
        Inl _ \<Rightarrow> False
      | Inr b \<Rightarrow> b \<noteq> [] \<and> ie_first_key (sst_index t ! i) = rec_key (hd b)) \<and>
     ssorted (map rec_key (sst_records t)) \<and>
     list_all sst_rec_ok (sst_records t) \<and>
     bloom_wf (sst_bloom t) \<and>
     (\<forall>r \<in> set (sst_records t). may_contain t (rec_key r) = Inr True) \<and>
     (sst_records t \<noteq> [] \<longrightarrow>
        sst_min_key t = rec_key (hd (sst_records t)) \<and> sst_max_key t = rec_key (last (sst_records t)))"

lemma enc_recs_concat: "enc_recs (concat bs) = concat (map enc_recs bs)"
  by (induction bs) auto

lemma read_block_built:
  assumes fl: "file1 = enc_recs (concat bs) @ rest" and fits: "length file1 < 2 ^ 64"
    and ok: "list_all block_ok bs" and i: "i < length bs"
  shows "read_block no_faults file1 (index_of 0 bs) i = Inr (bs ! i)"
proof -
  let ?a = "enc_recs (concat (take i bs))" and ?x = "enc_recs (bs ! i)"
  let ?c = "enc_recs (concat (drop (Suc i) bs)) @ rest"
  have "concat bs = concat (take i bs) @ bs ! i @ concat (drop (Suc i) bs)"
    using i by (metis concat.simps(2) concat_append id_take_nth_drop)
  then have f: "file1 = ?a @ ?x @ ?c" unfolding fl by (metis append.assoc enc_recs_simps(3))
  then have l: "length ?a < 2 ^ 64" "length ?x < 2 ^ 64" using fits by auto
  have "pread_exact no_faults ''SSTable pread'' file1 (length ?a) (length ?x) = Inr ?x"
    unfolding f by (rule pread_exact_mid) simp_all
  moreover have "parse_block ?x 0 [] = Inr (bs ! i)"
    using parse_block_enc [of "bs ! i" "[]" "[]"] ok i by (simp add: list_all_length block_ok_def)
  ultimately show ?thesis
    using i l by (simp add: read_block_def index_of_nth unat_of_nat_u64)
qed

lemma sst_parse_built:
  assumes "list_all sst_rec_ok rs" and "bloom_fits lg rs"
    and "build_file lg rs = Inr file1" and "length file1 < 2 ^ 64"
  obtains bf where "sst_parse no_faults obj path file1 = Inr
      \<lparr>sst_obj = obj, sst_path = path, sst_file = file1, sst_data_size = of_nat (length (enc_recs rs)),
       sst_file_size = of_nat (length file1), sst_num_records = of_nat (length rs), sst_obsolete = False,
       sst_min_key = (if rs = [] then [] else rec_key (hd rs)),
       sst_max_key = (if rs = [] then [] else rec_key (last rs)),
       sst_index = index_of 0 (group_blocks [] rs), sst_bloom = bf\<rparr>"
    and "bloom_wf bf" and "\<forall>r\<in>set rs. maybe_contains bf (rec_key r) = Inr True"
    and "\<exists>rest. file1 = enc_recs rs @ rest"
proof -
  let ?bs = "group_blocks [] rs" and ?D = "enc_recs rs"
  let ?I = "index_bytes 0 ?bs"
  obtain bf where bf: "build_file lg rs = Inr (?D @ ?I @ bloom_serialize bf
      @ footer_bytes (length ?D) (length ?I) (length (bloom_serialize bf)) (length rs))"
    "bloom_wf bf" "bf_k bf \<noteq> 0" "\<forall>r\<in>set rs. maybe_contains bf (rec_key r) = Inr True"
    by (rule build_file_layout [OF assms(1,2)])
  let ?B = "bloom_serialize bf"
  let ?F = "footer_bytes (length ?D) (length ?I) (length ?B) (length rs)"
  have fl: "file1 = ?D @ ?I @ ?B @ ?F" using bf(1) assms(3) by simp
  have fits: "length ?D + length ?I + length ?B + kFooterSize < 2 ^ 64" using assms(4) fl by simp
  have w: "unat (of_nat (length ?D) :: u64) = length ?D" "unat (of_nat (length ?I) :: u64) = length ?I"
    "unat (of_nat (length ?B) :: u64) = length ?B"
    "unat (of_nat (length ?D) + of_nat (length ?I) :: u64) = length ?D + length ?I"
    using fits unat_of_nat_u64 [of "length ?D + length ?I"] by (simp_all add: unat_of_nat_u64)
  have foot: "pread_exact no_faults ''SSTable pread'' file1 (length file1 - kFooterSize) kFooterSize = Inr ?F"
    using pread_exact_mid [of "length file1 - kFooterSize" "?D @ ?I @ ?B" kFooterSize ?F _ "[]"] fl by simp
  have idx: "pread_exact no_faults ''SSTable pread'' file1 (length ?D) (length ?I) = Inr ?I"
    unfolding fl by (rule pread_exact_mid) simp_all
  have blm: "pread_exact no_faults ''SSTable pread'' file1 (length ?D + length ?I) (length ?B) = Inr ?B"
    using pread_exact_mid [of _ "?D @ ?I" _ ?B _ ?F] fl by simp
  have ok: "list_all block_ok ?bs" using group_blocks_ok [of "[]" rs] assms(1) by simp
  have parsed: "index_loop ?I 0 [] = Inr (index_of 0 ?bs)"
    using index_loop_enc [OF ok, of "[]" 0 "[]"] by simp
  have cat: "concat ?bs = rs" using concat_group_blocks [of "[]" rs] by simp
  have range: "(if index_of 0 ?bs = [] then Inr ([], [])
      else rbind (read_block no_faults file1 (index_of 0 ?bs) (length (index_of 0 ?bs) - 1)) (\<lambda>last1.
        Inr (ie_first_key (hd (index_of 0 ?bs)), if last1 = [] then [] else rec_key (last last1))))
    = Inr (if rs = [] then [] else rec_key (hd rs), if rs = [] then [] else rec_key (last rs))"
  proof (cases "?bs = []")
    case True
    then show ?thesis using cat by auto
  next
    case False
    then obtain b bs' where b: "?bs = b # bs'" by (cases ?bs) auto
    have "b \<noteq> []" "last ?bs \<noteq> []" using ok b by (auto simp: block_ok_def list_all_iff)
    have "hd rs = hd b" using cat b \<open>b \<noteq> []\<close> by auto
    moreover have "last rs = last (last ?bs)"
      using cat False \<open>last ?bs \<noteq> []\<close> by (metis append_butlast_last_id concat.simps concat_append last_append append_Nil2)
    moreover have "rs \<noteq> []" using cat b \<open>b \<noteq> []\<close> by auto
    moreover have "read_block no_faults file1 (index_of 0 ?bs) (length ?bs - 1) = Inr (last ?bs)"
      using read_block_built [of file1 ?bs "?I @ ?B @ ?F" "length ?bs - 1"] fl cat ok assms(4) False
      by (simp add: last_conv_nth)
    ultimately show ?thesis
      using False b \<open>last ?bs \<noteq> []\<close> by simp
  qed
  have "sst_parse no_faults obj path file1 = Inr
      \<lparr>sst_obj = obj, sst_path = path, sst_file = file1, sst_data_size = of_nat (length ?D),
       sst_file_size = of_nat (length file1), sst_num_records = of_nat (length rs), sst_obsolete = False,
       sst_min_key = (if rs = [] then [] else rec_key (hd rs)),
       sst_max_key = (if rs = [] then [] else rec_key (last rs)),
       sst_index = index_of 0 ?bs, sst_bloom = bf\<rparr>"
    using fl unfolding sst_parse_def Let_def foot rbind_Inr footer_fields w idx parsed range blm
    by (simp add: bloom_roundtrip [OF bf(2,3)])
  then show thesis using that bf fl by blast
qed

end
