(* ===== verification/Sstable_Query.thy ===== *)
theory Sstable_Query
  imports Sstable_Format
begin

text \<open>
  Correctness of the queries on an open SSTable that satisfies its invariant: the binary
  search over the sparse index, the point lookup with and without the Bloom filter, the
  range query, and the iterator that compaction merges.
\<close>

subsection \<open>A built table satisfies the invariant\<close>

definition blk :: "sstable \<Rightarrow> nat \<Rightarrow> kv_record list" where
  "blk t i = (case sst_read_block no_faults t i of Inr b \<Rightarrow> b | Inl _ \<Rightarrow> [])"

lemma sst_records_blk: "sst_records t = concat (map (blk t) [0..<length (sst_index t)])"
  by (simp add: sst_records_def blk_def [abs_def])

lemma sst_built:
  assumes "list_all sst_rec_ok rs" and "bloom_fits lg rs" and "ssorted (map rec_key rs)"
    and "build_file lg rs = Inr file1" and "length file1 < 2 ^ 64"
  obtains t where "sst_parse no_faults obj path file1 = Inr t" and "sst_inv t" and "sst_records t = rs"
    and "sst_obj t = obj" and "sst_path t = path" and "\<not> sst_obsolete t"
    and "sst_file_size t = of_nat (length file1)" and "sst_num_records t = of_nat (length rs)"
proof -
  let ?bs = "group_blocks [] rs"
  obtain bf where t: "sst_parse no_faults obj path file1 = Inr
      \<lparr>sst_obj = obj, sst_path = path, sst_file = file1, sst_data_size = of_nat (length (enc_recs rs)),
       sst_file_size = of_nat (length file1), sst_num_records = of_nat (length rs), sst_obsolete = False,
       sst_min_key = (if rs = [] then [] else rec_key (hd rs)),
       sst_max_key = (if rs = [] then [] else rec_key (last rs)),
       sst_index = index_of 0 ?bs, sst_bloom = bf\<rparr>" (is "_ = Inr ?t")
    and bf: "bloom_wf bf" "\<forall>r\<in>set rs. maybe_contains bf (rec_key r) = Inr True"
    and rest: "\<exists>rest. file1 = enc_recs rs @ rest"
    by (rule sst_parse_built [OF assms(1,2,4,5)])
  define t where "t = ?t"
  have sel: "sst_index t = index_of 0 ?bs" "sst_bloom t = bf" "sst_file t = file1"
    "rs \<noteq> [] \<Longrightarrow> sst_min_key t = rec_key (hd rs)" "rs \<noteq> [] \<Longrightarrow> sst_max_key t = rec_key (last rs)"
    by (simp_all add: t_def)
  have cat: "concat ?bs = rs" using concat_group_blocks [of "[]" rs] by simp
  have ok: "list_all block_ok ?bs" using group_blocks_ok [of "[]" rs] assms(1) by simp
  have rd: "sst_read_block no_faults t i = Inr (?bs ! i)" if "i < length ?bs" for i
    using rest read_block_built [OF _ assms(5) ok that] cat by (auto simp: sst_read_block_def sel)
  have "map (blk t) [0..<length ?bs] = ?bs"
    by (rule nth_equalityI) (simp_all add: blk_def rd)
  then have recs: "sst_records t = rs" by (simp add: sst_records_blk sel cat)
  have "\<forall>i < length ?bs. ?bs ! i \<noteq> []" using ok by (auto simp: list_all_length block_ok_def)
  then have "sst_inv t"
    using assms(1,3) bf by (simp add: sst_inv_def recs sel rd index_of_nth may_contain_def)
  then show thesis using that [of t] t recs by (simp add: t_def)
qed

subsection \<open>Blocks of a table\<close>

lemma sst_inv_blk:
  assumes "sst_inv t" and "i < length (sst_index t)"
  shows "sst_read_block no_faults t i = Inr (blk t i)" and "blk t i \<noteq> []"
    and "ie_first_key (sst_index t ! i) = rec_key (hd (blk t i))"
  using assms by (auto simp: sst_inv_def blk_def split: sum.splits)

lemma sst_records_split:
  assumes "i < length (sst_index t)"
  shows "sst_records t = concat (map (blk t) [0..<i]) @ blk t i @ concat (map (blk t) [Suc i..<length (sst_index t)])"
proof -
  have "[0..<length (sst_index t)] = [0..<i] @ i # [Suc i..<length (sst_index t)]"
    using assms upt_add_eq_append [of 0 i "length (sst_index t) - i"] by (simp add: upt_conv_Cons)
  then show ?thesis by (simp add: sst_records_blk)
qed

lemma sst_blk_sorted:
  assumes "sst_inv t" and "i < length (sst_index t)"
  shows "ssorted (map rec_key (blk t i))"
  using assms sst_records_split [OF assms(2)] by (auto simp: sst_inv_def ssorted_append)

lemma sst_blk_less:
  assumes "sst_inv t" and "i < j" and "j < length (sst_index t)" and "r \<in> set (blk t i)" and "s \<in> set (blk t j)"
  shows "rec_key r < rec_key s"
proof -
  have "s \<in> set (concat (map (blk t) [Suc i..<length (sst_index t)]))"
    using assms by auto
  then show ?thesis
    using assms sst_records_split [of i t] by (auto simp: sst_inv_def ssorted_append)
qed

lemma sst_first_key_le:
  assumes "sst_inv t" and "i < length (sst_index t)" and "r \<in> set (blk t i)"
  shows "ie_first_key (sst_index t ! i) \<le> rec_key r"
proof -
  have "blk t i \<noteq> []" using sst_inv_blk(2) [OF assms(1,2)] .
  then obtain x xs where x: "blk t i = x # xs" by (cases "blk t i") auto
  then show ?thesis
    using sst_blk_sorted [OF assms(1,2)] assms(3) sst_inv_blk(3) [OF assms(1,2)] by auto
qed

lemma sst_first_key_less:
  assumes "sst_inv t" and "i < j" and "j < length (sst_index t)"
  shows "\<And>r. r \<in> set (blk t i) \<Longrightarrow> rec_key r < ie_first_key (sst_index t ! j)"
    and "ie_first_key (sst_index t ! i) < ie_first_key (sst_index t ! j)"
proof -
  have hd: "hd (blk t j) \<in> set (blk t j)" "hd (blk t i) \<in> set (blk t i)"
    using sst_inv_blk(2) [OF assms(1)] assms by auto
  then show "\<And>r. r \<in> set (blk t i) \<Longrightarrow> rec_key r < ie_first_key (sst_index t ! j)"
    using sst_blk_less [OF assms] assms by (auto simp: sst_inv_blk(3))
  then show "ie_first_key (sst_index t ! i) < ie_first_key (sst_index t ! j)"
    using hd assms by (auto simp: sst_inv_blk(3))
qed

subsection \<open>Binary search\<close>

text \<open>The contract of \<open>std::upper_bound\<close> on a sorted index: the split point.\<close>

definition is_split :: "index_entry list \<Rightarrow> bytes \<Rightarrow> nat \<Rightarrow> bool" where
  "is_split index key n \<longleftrightarrow> n \<le> length index \<and>
     (\<forall>i < n. ie_first_key (index ! i) \<le> key) \<and>
     (\<forall>i. n \<le> i \<and> i < length index \<longrightarrow> key < ie_first_key (index ! i))"

lemma ub_loop_split:
  assumes "sorted_wrt (\<lambda>a b. ie_first_key a \<le> ie_first_key b) index"
    and "first + len \<le> length index"
    and "\<forall>i < first. ie_first_key (index ! i) \<le> key"
    and "\<forall>i. first + len \<le> i \<and> i < length index \<longrightarrow> key < ie_first_key (index ! i)"
  shows "is_split index key (ub_loop index key first len)"
  using assms
proof (induction index key first len rule: ub_loop.induct)
  case (1 index key first len)
  show ?case
  proof (cases "len > 0")
    case False
    with "1.prems" show ?thesis by (subst ub_loop.simps) (simp add: is_split_def)
  next
    case True
    let ?h = "len div 2"
    let ?m = "first + ?h"
    have m: "?m < length index" using True "1.prems"(2) by linarith
    have mono: "ie_first_key (index ! i) \<le> ie_first_key (index ! j)" if "i \<le> j" "j < length index" for i j
      using "1.prems"(1) that by (cases "i = j") (auto simp: sorted_wrt_iff_nth_less)
    show ?thesis
    proof (cases "key < ie_first_key (index ! ?m)")
      case less: True
      have above: "\<forall>i. ?m \<le> i \<and> i < length index \<longrightarrow> key < ie_first_key (index ! i)"
        using mono less by (blast intro: less_le_trans)
      have "is_split index key (ub_loop index key first ?h)"
        by (rule "1.IH"(1) [OF True refl refl less "1.prems"(1) _ "1.prems"(3) above]) (use m in simp)
      then show ?thesis using True less by (simp add: ub_loop.simps [of index key first len] Let_def)
    next
      case ge: False
      have "\<forall>i < ?m + 1. ie_first_key (index ! i) \<le> key"
        using mono [OF _ m] ge by (auto simp: less_Suc_eq_le not_less intro: order_trans)
      then have "is_split index key (ub_loop index key (?m + 1) (len - ?h - 1))"
        using "1.IH"(2) [OF True refl refl ge] "1.prems" True by (simp add: add.assoc)
      then show ?thesis using True ge by (simp add: ub_loop.simps [of index key first len] Let_def)
    qed
  qed
qed

lemma upper_bound_split:
  "sst_inv t \<Longrightarrow> is_split (sst_index t) key (upper_bound (sst_index t) key)"
  unfolding upper_bound_def
  by (rule ub_loop_split) (auto simp: sorted_wrt_iff_nth_less intro: less_imp_le sst_first_key_less(2))

subsection \<open>Point lookup\<close>

lemma block_scan_find: "ssorted (map rec_key rs) \<Longrightarrow> block_scan k rs = find_rec k rs"
proof (induction rs)
  case (Cons r rs)
  then have "rec_key r > k \<Longrightarrow> find_rec k rs = None" by (force simp: find_rec_None)
  with Cons show ?case by auto
qed simp

lemma get_no_bloom_find:
  assumes inv: "sst_inv t"
  shows "get_no_bloom no_faults t key = Inr (find_rec key (sst_records t))"
proof -
  let ?n = "length (sst_index t)"
  define it where "it = upper_bound (sst_index t) key"
  have it: "it \<le> ?n" "\<forall>i < it. ie_first_key (sst_index t ! i) \<le> key"
    "\<forall>i. it \<le> i \<and> i < ?n \<longrightarrow> key < ie_first_key (sst_index t ! i)"
    using upper_bound_split [OF inv, of key] by (auto simp: is_split_def it_def)
  have later: "find_rec key (concat (map (blk t) [it..<?n])) = None"
    using it(3) sst_first_key_le [OF inv] by (fastforce simp: find_rec_None)
  show ?thesis
  proof (cases "it = 0")
    case True
    then show ?thesis
      using later by (auto simp: get_no_bloom_def it_def [symmetric] Let_def sst_records_blk)
  next
    case False
    then have i: "it - 1 < ?n" "Suc (it - 1) = it" using it(1) by auto
    have earlier: "find_rec key (concat (map (blk t) [0..<it - 1])) = None"
    proof -
      have "rec_key r < key" if "j < it - 1" "r \<in> set (blk t j)" for j r
      proof -
        have "ie_first_key (sst_index t ! (it - 1)) \<le> key" using it(2) i by simp
        with sst_first_key_less(1) [OF inv that(1) i(1) that(2)] show ?thesis by (rule less_le_trans)
      qed
      then show ?thesis by (fastforce simp: find_rec_None)
    qed
    have "find_rec key (sst_records t) = find_rec key (blk t (it - 1))"
      using sst_records_split [OF i(1)] earlier later i(2)
      by (simp add: find_rec_append split: option.split)
    moreover have "sst_index t \<noteq> []" using i by auto
    ultimately show ?thesis
      using False sst_inv_blk(1) [OF inv i(1)] block_scan_find [OF sst_blk_sorted [OF inv i(1)]]
      by (simp add: get_no_bloom_def it_def [symmetric] Let_def)
  qed
qed

lemma may_contain_total: "sst_inv t \<Longrightarrow> \<exists>b. may_contain t key = Inr b"
  by (simp add: sst_inv_def may_contain_def maybe_contains_spec)

lemma may_contain_find:
  assumes "sst_inv t" and "may_contain t key = Inr False"
  shows "find_rec key (sst_records t) = None"
  using assms by (auto simp: find_rec_None sst_inv_def)

lemma sst_get_find: "sst_inv t \<Longrightarrow> sst_get no_faults t key = Inr (find_rec key (sst_records t))"
  using may_contain_total [of t key]
  by (auto simp: sst_get_def get_no_bloom_find may_contain_find)

subsection \<open>Range query\<close>

lemma range_block_spec:
  assumes "ssorted (map rec_key rs)" and "a < b"
  shows "range_block a b rs out = ((\<exists>r\<in>set rs. b \<le> rec_key r), out @ filter (in_range a b) rs)"
  using assms(1)
proof (induction rs arbitrary: out)
  case (Cons r rs)
  have later: "\<forall>s\<in>set rs. rec_key r < rec_key s" using Cons.prems by auto
  have "rec_key r \<ge> b \<Longrightarrow> filter (in_range a b) rs = []"
    using later by (fastforce simp: filter_empty_conv in_range_def)
  moreover have "in_range a b r \<longleftrightarrow> \<not> rec_key r < a \<and> \<not> b \<le> rec_key r"
    by (auto simp: in_range_def)
  moreover have "rec_key r < a \<Longrightarrow> \<not> b \<le> rec_key r" using assms(2) by auto
  ultimately show ?case using Cons by simp
qed simp

lemma range_loop_spec:
  assumes inv: "sst_inv t" and ab: "a < b"
  shows "i \<le> length (sst_index t) \<Longrightarrow>
    range_loop no_faults t a b [i..<length (sst_index t)] out =
      Inr (out @ filter (in_range a b) (concat (map (blk t) [i..<length (sst_index t)])))"
proof (induction "length (sst_index t) - i" arbitrary: i out)
  case 0
  then show ?case by simp
next
  case (Suc n)
  let ?N = "length (sst_index t)"
  have i: "i < ?N" using Suc.hyps(2) by simp
  then have up: "[i..<?N] = i # [Suc i..<?N]" by (rule upt_conv_Cons)
  have rec: "range_loop no_faults t a b [Suc i..<?N] out' =
      Inr (out' @ filter (in_range a b) (concat (map (blk t) [Suc i..<?N])))" for out'
    using Suc.hyps i by simp
  have none: "filter (in_range a b) (concat (map (blk t) [Suc i..<?N])) = []" if "\<exists>r\<in>set (blk t i). b \<le> rec_key r"
  proof -
    from that obtain r where r: "r \<in> set (blk t i)" "b \<le> rec_key r" by blast
    have "\<not> in_range a b s" if "j \<in> set [Suc i..<?N]" "s \<in> set (blk t j)" for j s
    proof -
      have "rec_key r < rec_key s"
        by (rule sst_blk_less [OF inv _ _ r(1) that(2)]) (use that(1) in auto)
      with r(2) show ?thesis by (auto simp: in_range_def)
    qed
    then show ?thesis by (auto simp: filter_empty_conv)
  qed
  show ?case
  proof (cases "ie_first_key (sst_index t ! i) \<ge> b")
    case True
    then have "b \<le> rec_key r" if "r \<in> set (blk t i)" for r
      using sst_first_key_le [OF inv i that] by simp
    moreover have "hd (blk t i) \<in> set (blk t i)" using sst_inv_blk(2) [OF inv i] by simp
    ultimately have "filter (in_range a b) (blk t i) = []" "\<exists>r\<in>set (blk t i). b \<le> rec_key r"
      by (auto simp: filter_empty_conv in_range_def not_less)
    then show ?thesis using True none by (simp add: up)
  next
    case False
    then show ?thesis
      using sst_inv_blk(1) [OF inv i] range_block_spec [OF sst_blk_sorted [OF inv i] ab] rec none
      by (cases "\<exists>r\<in>set (blk t i). b \<le> rec_key r") (simp_all add: up)
  qed
qed

lemma sst_range_filter:
  assumes inv: "sst_inv t"
  shows "sst_range no_faults t a b = Inr (filter (in_range a b) (sst_records t))"
proof -
  let ?N = "length (sst_index t)"
  define it where "it = upper_bound (sst_index t) a"
  define bi where "bi = (if it = 0 then 0 else it - 1)"
  have it: "it \<le> ?N" "\<forall>i < it. ie_first_key (sst_index t ! i) \<le> a"
    using upper_bound_split [OF inv, of a] by (auto simp: is_split_def it_def)
  show ?thesis
  proof (cases "sst_index t = [] \<or> \<not> a < b")
    case True
    then have "filter (in_range a b) (sst_records t) = []"
      by (auto simp: filter_empty_conv in_range_def sst_records_blk)
    with True show ?thesis by (simp add: sst_range_def)
  next
    case False
    then have bi: "bi < ?N" using it(1) by (auto simp: bi_def)
    have "filter (in_range a b) (concat (map (blk t) [0..<bi])) = []"
    proof (cases "it = 0")
      case nz: False
      have "rec_key r < a" if "j < bi" "r \<in> set (blk t j)" for j r
      proof -
        have "ie_first_key (sst_index t ! bi) \<le> a" using it(2) nz by (simp add: bi_def)
        with sst_first_key_less(1) [OF inv that(1) bi that(2)] show ?thesis by (rule less_le_trans)
      qed
      then show ?thesis by (fastforce simp: filter_empty_conv in_range_def)
    qed (simp add: bi_def)
    moreover have "sst_records t = concat (map (blk t) [0..<bi]) @ concat (map (blk t) [bi..<?N])"
      using sst_records_split [OF bi] upt_conv_Cons [OF bi] by simp
    moreover have "sst_range no_faults t a b = range_loop no_faults t a b [bi..<?N] []"
      using False by (simp add: sst_range_def it_def bi_def Let_def)
    ultimately show ?thesis
      using range_loop_spec [OF inv, of a b bi "[]"] False bi by simp
  qed
qed

interpretation sst: record_source sst_records "sst_range no_faults" sst_inv
  by unfold_locales (auto simp: sst_range_filter, simp add: sst_inv_def)

subsection \<open>Iterator\<close>

text \<open>What an iterator has still to yield, and the states \<open>iter_new\<close> and \<open>iter_next\<close> produce.\<close>

definition it_rest :: "sst_iter \<Rightarrow> kv_record list" where
  "it_rest it =
     (if iter_valid it
      then drop (it_pos it) (it_block it) @
           concat (map (blk (it_sst it)) [Suc (it_block_idx it)..<length (sst_index (it_sst it))])
      else [])"

definition it_inv :: "sst_iter \<Rightarrow> bool" where
  "it_inv it \<longleftrightarrow> sst_inv (it_sst it) \<and> ssorted (map rec_key (it_rest it)) \<and>
     (\<exists>done. sst_records (it_sst it) = done @ it_rest it)"

lemma it_rest_valid: "iter_valid it \<longleftrightarrow> it_rest it \<noteq> []"
  by (auto simp: it_rest_def iter_valid_def)

lemma it_rest_record: "iter_valid it \<Longrightarrow> iter_record it = hd (it_rest it)"
  by (auto simp: it_rest_def iter_record_def iter_valid_def hd_append hd_drop_conv_nth)

lemma iter_load_rest:
  assumes "sst_inv (it_sst it)" and "i < length (sst_index (it_sst it))"
  obtains it' where "iter_load no_faults i it = Inr it'" and "it_sst it' = it_sst it"
    and "it_rest it' = concat (map (blk (it_sst it)) [i..<length (sst_index (it_sst it))])"
  using that [of "it\<lparr>it_block_idx := i, it_block := blk (it_sst it) i, it_pos := 0\<rparr>"] assms
    sst_inv_blk [OF assms] upt_conv_Cons [OF assms(2)]
  by (simp add: iter_load_def it_rest_def iter_valid_def)

lemma iter_new_spec:
  assumes inv: "sst_inv t"
  obtains it where "iter_new no_faults t = Inr it" and "it_inv it" and "it_rest it = sst_records t"
    and "it_sst it = t"
proof -
  let ?it = "\<lparr>it_sst = t, it_block_idx = 0, it_pos = 0, it_block = []\<rparr>"
  have sorted: "ssorted (map rec_key (sst_records t))" using inv by (simp add: sst_inv_def)
  show thesis
  proof (cases "sst_index t = []")
    case True
    then show ?thesis
      using that [of ?it] inv
      by (simp add: iter_new_def it_inv_def it_rest_def iter_valid_def sst_records_blk)
  next
    case False
    then obtain it' where "iter_load no_faults 0 ?it = Inr it'" "it_sst it' = t" "it_rest it' = sst_records t"
      using iter_load_rest [of ?it 0] inv by (auto simp: sst_records_blk)
    then show ?thesis using that [of it'] False inv sorted by (simp add: iter_new_def it_inv_def)
  qed
qed

lemma iter_next_rest:
  assumes inv: "sst_inv (it_sst it)" and valid: "iter_valid it"
  obtains it' where "iter_next no_faults it = Inr it'" and "it_sst it' = it_sst it"
    and "it_rest it' = tl (it_rest it)"
proof (cases "it_pos it + 1 \<ge> length (it_block it)")
  case False
  then have "drop (it_pos it) (it_block it) \<noteq> []" by simp
  then show ?thesis
    using that [of "it\<lparr>it_pos := it_pos it + 1\<rparr>"] valid False
    by (simp add: iter_next_def it_rest_def iter_valid_def drop_Suc tl_drop)
next
  case True
  let ?N = "length (sst_index (it_sst it))"
  let ?i = "it_block_idx it"
  let ?it = "it\<lparr>it_pos := it_pos it + 1\<rparr>"
  have "drop (it_pos it) (it_block it) = [it_block it ! it_pos it]"
    using True valid by (simp add: iter_valid_def Cons_nth_drop_Suc [symmetric])
  then have tl: "tl (it_rest it) = concat (map (blk (it_sst it)) [Suc ?i..<?N])"
    using valid by (simp add: it_rest_def)
  show ?thesis
  proof (cases "Suc ?i < ?N")
    case more: True
    then obtain it' where "iter_load no_faults (Suc ?i) ?it = Inr it'" "it_sst it' = it_sst it"
      "it_rest it' = tl (it_rest it)"
      using iter_load_rest [of ?it "Suc ?i"] inv tl by auto
    then show ?thesis using that [of it'] True more by (simp add: iter_next_def)
  next
    case last: False
    then show ?thesis
      using that [of "?it\<lparr>it_block_idx := ?N\<rparr>"] True tl
      by (simp add: iter_next_def it_rest_def iter_valid_def)
  qed
qed

lemma iter_next_spec:
  assumes inv: "it_inv it" and valid: "iter_valid it"
  obtains it' where "iter_next no_faults it = Inr it'" and "it_inv it'" and "it_sst it' = it_sst it"
    and "it_rest it' = tl (it_rest it)"
proof -
  obtain it' where it': "iter_next no_faults it = Inr it'" "it_sst it' = it_sst it" "it_rest it' = tl (it_rest it)"
    using iter_next_rest [OF _ valid] inv by (auto simp: it_inv_def)
  obtain x xs where x: "it_rest it = x # xs" using valid by (cases "it_rest it") (auto simp: it_rest_valid)
  obtain pre where pre: "sst_records (it_sst it) = pre @ it_rest it" using inv by (auto simp: it_inv_def)
  have "sst_records (it_sst it) = (pre @ [x]) @ xs" using pre x by simp
  then have "it_inv it'" using inv it' x unfolding it_inv_def by fastforce
  with it' show thesis using that by blast
qed

subsection \<open>Building and opening on the file system\<close>

text \<open>Sizes that 64-bit positions can express; every other table is refused or misread.\<close>

definition sst_fits :: "(real \<Rightarrow> real) \<Rightarrow> kv_record list \<Rightarrow> bool" where
  "sst_fits lg rs \<longleftrightarrow> bloom_fits lg rs \<and>
     (case build_file lg rs of Inl _ \<Rightarrow> False | Inr file1 \<Rightarrow> length file1 < 2 ^ 64)"

definition buildable :: "(real \<Rightarrow> real) \<Rightarrow> kv_record list \<Rightarrow> bool" where
  "buildable lg rs \<longleftrightarrow> list_all sst_rec_ok rs \<and> ssorted (map rec_key rs) \<and> sst_fits lg rs"

lemma buildable_open:
  assumes "buildable lg rs"
  obtains file1 t where "build_file lg rs = Inr file1" and "sst_parse no_faults obj path file1 = Inr t"
    and "sst_inv t" and "sst_records t = rs" and "sst_obj t = obj" and "sst_path t = path"
    and "\<not> sst_obsolete t" and "sst_file_size t = of_nat (length file1)"
    and "sst_num_records t = of_nat (length rs)"
proof -
  obtain file1 where f: "build_file lg rs = Inr file1" "length file1 < 2 ^ 64"
    using assms by (auto simp: buildable_def sst_fits_def split: sum.splits)
  have a: "list_all sst_rec_ok rs" "bloom_fits lg rs" "ssorted (map rec_key rs)"
    using assms by (auto simp: buildable_def sst_fits_def)
  show thesis by (rule sst_built [OF a f, of obj path]) (rule that [OF f(1)])
qed

lemma bloom_serialize_bound:
  "bloom_wf bf \<Longrightarrow> length (bloom_serialize bf) \<le> 12 + 2 ^ 61"
  using unsigned_less [of "bf_num_bits bf + 7", where 'a = nat]
  by (simp add: bloom_serialize_eq bloom_wf_def bits_size_def unat_div_distrib)

lemma small_buildable:
  assumes "list_all sst_rec_ok rs" and "ssorted (map rec_key rs)" and "bloom_fits lg rs"
    and "length (enc_recs rs) + length (index_bytes 0 (group_blocks [] rs)) \<le> 2 ^ 61"
  shows "buildable lg rs"
proof -
  obtain bf where bf: "build_file lg rs = Inr (enc_recs rs @ index_bytes 0 (group_blocks [] rs)
      @ bloom_serialize bf @ footer_bytes (length (enc_recs rs))
          (length (index_bytes 0 (group_blocks [] rs))) (length (bloom_serialize bf)) (length rs))"
    "bloom_wf bf" using build_file_layout [OF assms(1,3)] .
  then show ?thesis
    using assms bloom_serialize_bound [OF bf(2)] by (simp add: buildable_def sst_fits_def kFooterSize_def)
qed

lemma length_enc_rec_le: "length (enc_rec r) \<le> 21 + length (rec_key r) + length (rec_value r)"
  by (cases "rec_separated r") (simp_all add: enc_rec_inline enc_rec_separated)

definition lg_const :: "real \<Rightarrow> real" where
  "lg_const x = - 46 / 10"

lemma one_record_buildable:
  assumes "sst_rec_ok r" and "length (rec_key r) \<le> 100" and "length (rec_value r) \<le> 100"
  shows "buildable lg_const [r]"
proof (rule small_buildable)
  have "optimal_bits lg_const 1 (1 / 100) = 10"
    by (simp add: optimal_bits_def lg_const_def M_LN2_def ceiling_eq_iff)
  then show "bloom_fits lg_const [r]" by (simp add: bloom_fits_def)
  show "length (enc_recs [r]) + length (index_bytes 0 (group_blocks [] [r])) \<le> 2 ^ 61"
    using assms(2,3) length_enc_rec_le [of r] by simp
qed (use assms(1) in simp_all)

lemma no_record_buildable: "buildable lg_const []"
proof (rule small_buildable)
  have "optimal_bits lg_const 1 (1 / 100) = 10"
    by (simp add: optimal_bits_def lg_const_def M_LN2_def ceiling_eq_iff)
  then show "bloom_fits lg_const []" by (simp add: bloom_fits_def)
qed simp_all

lemma one_record_table:
  assumes "sst_rec_ok r" and "length (rec_key r) \<le> 100" and "length (rec_value r) \<le> 100"
  shows "\<exists>t. sst_inv t \<and> sst_records t = [r]"
  using buildable_open [OF one_record_buildable [OF assms], of 0 "[]"] by metis

lemma sst_build_ok:
  assumes "build_file lg rs = Inr file1"
  shows "sst_build no_faults lg path rs d = (Inr (of_nat (length file1)), d_store path file1 d)"
  using assms by (simp add: sst_build_def sbind_def write_file_sync_ok)

subsection \<open>Properties\<close>

text \<open>
  Property C22: building a table and opening it again loses nothing and invents nothing. For
  every sorted run of records that the format can hold, \<open>build\<close> leaves a durable file, the
  file opens, and on the open table the Bloom-filtered lookup and the plain lookup both
  return exactly the record of the key, a range query returns exactly the records of the
  range in order, and the iterator starts with the whole run ahead of it.
\<close>

theorem sst_build_open_query:
  assumes "buildable lg rs"
  shows "\<exists>file1 t. sst_build no_faults lg path rs d = (Inr (of_nat (length file1)), d_store path file1 d) \<and>
    sst_open no_faults obj path (d_store path file1 d) = Inr t \<and>
    sst_num_records t = of_nat (length rs) \<and> sst_file_size t = of_nat (length file1) \<and>
    (rs \<noteq> [] \<longrightarrow> sst_min_key t = rec_key (hd rs) \<and> sst_max_key t = rec_key (last rs)) \<and>
    (\<forall>k. sst_get no_faults t k = Inr (find_rec k rs)) \<and>
    (\<forall>k. get_no_bloom no_faults t k = Inr (find_rec k rs)) \<and>
    (\<forall>a b. sst_range no_faults t a b = Inr (filter (in_range a b) rs)) \<and>
    (\<exists>it. iter_new no_faults t = Inr it \<and> it_rest it = rs)"
proof -
  obtain file1 t where f: "build_file lg rs = Inr file1" "sst_parse no_faults obj path file1 = Inr t"
    "sst_inv t" "sst_records t = rs" "sst_obj t = obj" "sst_path t = path" "\<not> sst_obsolete t"
    "sst_file_size t = of_nat (length file1)" "sst_num_records t = of_nat (length rs)"
    by (rule buildable_open [OF assms, of obj path])
  have "sst_open no_faults obj path (d_store path file1 d) = Inr t"
    using f(2) by (simp add: sst_open_def no_faults_def d_store_read)
  moreover have "rs \<noteq> [] \<longrightarrow> sst_min_key t = rec_key (hd rs) \<and> sst_max_key t = rec_key (last rs)"
    using f(3,4) by (simp add: sst_inv_def)
  moreover obtain it where "iter_new no_faults t = Inr it" "it_rest it = rs"
    using iter_new_spec [OF f(3)] f(4) by metis
  ultimately show ?thesis
    using f sst_build_ok [OF f(1)] sst_get_find [OF f(3)] get_no_bloom_find [OF f(3)]
      sst.rng_recs [OF f(3)] by auto
qed

theorem sst_build_open_query_witness:
  "\<exists>file1 t. sst_build no_faults lg_const [115] [mk_record Put [107] [1]]
      \<lparr>dents = [], blobs = (\<lambda>_. []), synced = (\<lambda>_. 0), next_ino = 0\<rparr> = (Inr (of_nat (length file1)),
        d_store [115] file1 \<lparr>dents = [], blobs = (\<lambda>_. []), synced = (\<lambda>_. 0), next_ino = 0\<rparr>) \<and>
     sst_open no_faults 0 [115]
       (d_store [115] file1 \<lparr>dents = [], blobs = (\<lambda>_. []), synced = (\<lambda>_. 0), next_ino = 0\<rparr>) = Inr t \<and>
     sst_get no_faults t [107] = Inr (Some (mk_record Put [107] [1])) \<and> sst_get no_faults t [108] = Inr None"
proof -
  have "sst_rec_ok (mk_record Put [107] [1])" by (simp add: sst_rec_ok_def UINT32_MAX_def)
  then have "buildable lg_const [mk_record Put [107] [1]]" by (rule one_record_buildable) simp_all
  from sst_build_open_query [OF this] show ?thesis by fastforce
qed

end
