(* ===== verification/Kway_Merge.thy ===== *)
theory Kway_Merge
  imports Record_Source
begin

text \<open>
  The k-way merge that \<open>merge_records\<close> (\<open>src/compaction.cpp\<close>) and \<open>DB::scan\<close>
  (\<open>src/db.cpp\<close>) both perform over cursors ordered newest first: the loops that find the
  smallest key, the newest cursor holding it, and that step every cursor past it. The
  locale \<open>cursor\<close> states what they need of a cursor; the abstract result of a merge is
  \<open>merge_spec\<close>: every key once, in ascending order, with the record of the newest source.
\<close>

subsection \<open>The three loops\<close>

fun kmin :: "('c \<Rightarrow> bool) \<Rightarrow> ('c \<Rightarrow> kv_record) \<Rightarrow> 'c list \<Rightarrow> bytes option \<Rightarrow> bytes option" where
  "kmin valid rec [] acc = acc"
| "kmin valid rec (c # cs) acc =
     (if \<not> valid c then kmin valid rec cs acc
      else
        let k = rec_key (rec c) in
        kmin valid rec cs
          (case acc of None \<Rightarrow> Some k | Some m \<Rightarrow> if k < m then Some k else Some m))"

fun knewest :: "('c \<Rightarrow> bool) \<Rightarrow> ('c \<Rightarrow> kv_record) \<Rightarrow> bytes \<Rightarrow> 'c list \<Rightarrow> 'c option" where
  "knewest valid rec k [] = None"
| "knewest valid rec k (c # cs) =
     (if valid c \<and> rec_key (rec c) = k then Some c else knewest valid rec k cs)"

fun kadvance ::
  "('c \<Rightarrow> bool) \<Rightarrow> ('c \<Rightarrow> kv_record) \<Rightarrow> ('c \<Rightarrow> 'c res) \<Rightarrow> bytes \<Rightarrow> 'c list \<Rightarrow> 'c list res" where
  "kadvance valid rec nxt k [] = Inr []"
| "kadvance valid rec nxt k (c # cs) =
     (if valid c \<and> rec_key (rec c) = k
      then rbind (nxt c) (\<lambda>c'. rbind (kadvance valid rec nxt k cs) (\<lambda>cs'. Inr (c' # cs')))
      else rbind (kadvance valid rec nxt k cs) (\<lambda>cs'. Inr (c # cs')))"

subsection \<open>Progress\<close>

text \<open>Whatever the cursors are, a round that found a key steps one of them at least.\<close>

lemma kmin_Some:
  "kmin valid rec cs acc = Some k \<Longrightarrow> acc = Some k \<or> (\<exists>c\<in>set cs. valid c \<and> rec_key (rec c) = k)"
  by (induction cs arbitrary: acc) (fastforce simp: Let_def split: if_splits option.splits)+

lemma knewest_Some:
  "knewest valid rec k cs = Some c \<Longrightarrow> c \<in> set cs \<and> valid c \<and> rec_key (rec c) = k"
  by (induction cs) (auto split: if_splits)

lemma kmin_knewest:
  assumes "kmin valid rec cs None = Some k"
  obtains c where "knewest valid rec k cs = Some c"
proof -
  obtain c where "c \<in> set cs" "valid c" "rec_key (rec c) = k" using kmin_Some [OF assms] by auto
  then have "knewest valid rec k cs \<noteq> None" by (induction cs) auto
  then show thesis using that by auto
qed

lemma kadvance_decreases:
  assumes "kadvance valid rec nxt k cs = Inr cs'"
    and dec: "\<And>c c'. valid c \<Longrightarrow> nxt c = Inr c' \<Longrightarrow> (m c' :: nat) < m c"
  shows "sum_list (map m cs') \<le> sum_list (map m cs) \<and>
    ((\<exists>c\<in>set cs. valid c \<and> rec_key (rec c) = k) \<longrightarrow> sum_list (map m cs') < sum_list (map m cs))"
  using assms(1)
proof (induction cs arbitrary: cs')
  case (Cons c cs)
  show ?case
  proof (cases "valid c \<and> rec_key (rec c) = k")
    case True
    then obtain c1 cs1 where c1: "nxt c = Inr c1" "kadvance valid rec nxt k cs = Inr cs1" "cs' = c1 # cs1"
      using Cons.prems by (auto simp: rbind_eq_Inr)
    have "m c1 < m c" using dec True c1(1) by blast
    moreover have "sum_list (map m cs1) \<le> sum_list (map m cs)" using Cons.IH [OF c1(2)] by simp
    ultimately show ?thesis by (simp add: c1(3))
  next
    case False
    then obtain cs1 where c1: "kadvance valid rec nxt k cs = Inr cs1" "cs' = c # cs1"
      using Cons.prems by (auto simp: rbind_eq_Inr split: if_splits)
    with Cons.IH [OF c1(1)] False show ?thesis by auto
  qed
qed simp

subsection \<open>The abstract merge\<close>

definition src_keys :: "kv_record list list \<Rightarrow> bytes set" where
  "src_keys srcs = rec_key ` set (concat srcs)"

definition merge_spec :: "kv_record list list \<Rightarrow> kv_record list" where
  "merge_spec srcs =
     map (\<lambda>k. the (find_rec k (concat srcs))) (sorted_list_of_set (src_keys srcs))"

definition pop_key :: "bytes \<Rightarrow> kv_record list \<Rightarrow> kv_record list" where
  "pop_key k rs = (case rs of [] \<Rightarrow> [] | r # rs' \<Rightarrow> if rec_key r = k then rs' else rs)"

lemma finite_src_keys [simp]: "finite (src_keys srcs)"
  by (simp add: src_keys_def)

lemma find_rec_src_keys: "find_rec k (concat srcs) = None \<longleftrightarrow> k \<notin> src_keys srcs"
  by (simp add: find_rec_None src_keys_def)

lemma find_rec_src_key:
  assumes "k \<in> src_keys srcs"
  shows "rec_key (the (find_rec k (concat srcs))) = k"
  using assms find_rec_src_keys [of k srcs] find_rec_key [of k "concat srcs"] by auto

lemma merge_spec_keys: "map rec_key (merge_spec srcs) = sorted_list_of_set (src_keys srcs)"
  by (auto simp: merge_spec_def find_rec_src_key intro!: map_idI)

lemma merge_spec_sorted: "ssorted (map rec_key (merge_spec srcs))"
  by (simp add: merge_spec_keys strict_sorted_list_of_set)

lemma merge_spec_mem:
  "r \<in> set (merge_spec srcs) \<longleftrightarrow> find_rec (rec_key r) (concat srcs) = Some r"
proof
  assume "r \<in> set (merge_spec srcs)"
  then obtain k where "k \<in> src_keys srcs" "r = the (find_rec k (concat srcs))"
    by (auto simp: merge_spec_def)
  then show "find_rec (rec_key r) (concat srcs) = Some r"
    using find_rec_src_key [of k srcs] find_rec_src_keys [of k srcs] by auto
next
  assume r: "find_rec (rec_key r) (concat srcs) = Some r"
  then have "rec_key r \<in> src_keys srcs" using find_rec_src_keys [of "rec_key r" srcs] by simp
  with r show "r \<in> set (merge_spec srcs)"
    by (auto simp: merge_spec_def intro!: rev_image_eqI [where x = "rec_key r"])
qed

lemma merge_spec_find: "find_rec k (merge_spec srcs) = find_rec k (concat srcs)"
proof (cases "find_rec k (concat srcs)")
  case None
  then have "k \<notin> set (map rec_key (merge_spec srcs))"
    by (simp add: merge_spec_keys find_rec_src_keys)
  then have "find_rec k (merge_spec srcs) = None" by (simp add: find_rec_None)
  with None show ?thesis by simp
next
  case (Some r)
  then have "rec_key r = k" "r \<in> set (merge_spec srcs)"
    using find_rec_key by (auto simp: merge_spec_mem)
  with Some show ?thesis
    using find_rec_in [OF ssorted_distinct [OF merge_spec_sorted], of r srcs] by simp
qed

lemma merge_spec_empty: "src_keys srcs = {} \<Longrightarrow> merge_spec srcs = []"
  by (simp add: merge_spec_def)

subsection \<open>One round of the merge\<close>

lemma find_rec_ssorted_hd:
  assumes "ssorted (map rec_key rs)" and "\<forall>r\<in>set rs. k \<le> rec_key r"
  shows "find_rec k rs = (case rs of [] \<Rightarrow> None | r # rs' \<Rightarrow> if rec_key r = k then Some r else None)"
  using assms by (cases rs) (auto simp: find_rec_None)

lemma find_rec_pop_key:
  assumes "ssorted (map rec_key rs)"
  shows "k' \<noteq> k \<Longrightarrow> find_rec k' (pop_key k rs) = find_rec k' rs"
    and "\<forall>r\<in>set rs. k \<le> rec_key r \<Longrightarrow> find_rec k (pop_key k rs) = None"
proof -
  show "find_rec k' (pop_key k rs) = find_rec k' rs" if "k' \<noteq> k"
    using that by (auto simp: pop_key_def split: list.split)
  show "find_rec k (pop_key k rs) = None" if "\<forall>r\<in>set rs. k \<le> rec_key r"
    using assms that by (cases rs) (fastforce simp: pop_key_def find_rec_None)+
qed

lemma find_rec_concat_cong:
  assumes "\<And>rs. rs \<in> set srcs \<Longrightarrow> find_rec k (f rs) = find_rec k rs"
  shows "find_rec k (concat (map f srcs)) = find_rec k (concat srcs)"
  using assms by (induction srcs) (auto simp: find_rec_append split: option.splits)

lemma merge_spec_round:
  assumes sorted: "\<forall>rs\<in>set srcs. ssorted (map rec_key rs)"
    and k: "k \<in> src_keys srcs" and least: "\<forall>k'\<in>src_keys srcs. k \<le> k'"
  shows "merge_spec srcs = the (find_rec k (concat srcs)) # merge_spec (map (pop_key k) srcs)"
proof -
  let ?pop = "map (pop_key k) srcs"
  have ge: "k \<le> rec_key r" if "rs \<in> set srcs" "r \<in> set rs" for rs r
    using least that by (auto simp: src_keys_def)
  have same: "find_rec k' (concat ?pop) = find_rec k' (concat srcs)" if "k' \<noteq> k" for k'
    using sorted that by (intro find_rec_concat_cong) (simp add: find_rec_pop_key)
  have "find_rec k (pop_key k rs) = None" if "rs \<in> set srcs" for rs
    using sorted that ge by (simp add: find_rec_pop_key)
  then have "find_rec k (concat ?pop) = None" by (auto simp: find_rec_None)
  then have "k' \<in> src_keys ?pop \<longleftrightarrow> k' \<in> src_keys srcs - {k}" for k'
    using same [of k'] find_rec_src_keys [of k' ?pop] find_rec_src_keys [of k' srcs]
    by (cases "k' = k") auto
  then have keys: "src_keys ?pop = src_keys srcs - {k}" by blast
  have "Min (src_keys srcs) = k" using k least by (intro Min_eqI) auto
  then have "sorted_list_of_set (src_keys srcs) = k # sorted_list_of_set (src_keys ?pop)"
    using k keys by (subst sorted_list_of_set_nonempty) auto
  moreover have "map (\<lambda>k. the (find_rec k (concat srcs))) (sorted_list_of_set (src_keys ?pop)) = merge_spec ?pop"
    using keys same by (auto simp: merge_spec_def)
  ultimately show ?thesis by (simp add: merge_spec_def)
qed

subsection \<open>Cursors\<close>

locale cursor =
  fixes valid :: "'c \<Rightarrow> bool"
    and rec :: "'c \<Rightarrow> kv_record"
    and nxt :: "'c \<Rightarrow> 'c res"
    and rest :: "'c \<Rightarrow> kv_record list"
    and inv :: "'c \<Rightarrow> bool"
  assumes valid_rest: "inv c \<Longrightarrow> valid c \<longleftrightarrow> rest c \<noteq> []"
    and rec_rest: "inv c \<Longrightarrow> valid c \<Longrightarrow> rec c = hd (rest c)"
    and nxt_rest: "inv c \<Longrightarrow> valid c \<Longrightarrow> \<exists>c'. nxt c = Inr c' \<and> inv c' \<and> rest c' = tl (rest c)"
    and rest_sorted: "inv c \<Longrightarrow> ssorted (map rec_key (rest c))"
begin

lemma rest_cases:
  assumes "inv c"
  obtains "\<not> valid c" and "rest c = []"
  | r rs where "valid c" and "rest c = r # rs" and "rec c = r" and "\<forall>s\<in>set rs. rec_key r < rec_key s"
  using assms valid_rest [of c] rec_rest [of c] rest_sorted [of c] by (cases "rest c") auto

lemma kmin_least:
  assumes "\<forall>c\<in>set cs. inv c"
  shows "kmin valid rec cs acc =
    (let S = src_keys (map rest cs) \<union> set_option acc in if S = {} then None else Some (Min S))"
  using assms
proof (induction cs arbitrary: acc)
  case Nil
  show ?case by (auto simp: src_keys_def Let_def split: option.splits)
next
  case (Cons c cs)
  then have inv: "inv c" and IH: "\<And>acc. kmin valid rec cs acc =
    (let S = src_keys (map rest cs) \<union> set_option acc in if S = {} then None else Some (Min S))" by auto
  from inv show ?case
  proof (cases rule: rest_cases)
    case 1
    then show ?thesis using IH [of acc] by (simp add: src_keys_def)
  next
    case (2 r rs)
    define acc' where "acc' = (case acc of None \<Rightarrow> Some (rec_key r)
      | Some m \<Rightarrow> if rec_key r < m then Some (rec_key r) else Some m)"
    let ?S = "src_keys (map rest (c # cs)) \<union> set_option acc"
    let ?S' = "src_keys (map rest cs) \<union> set_option acc'"
    have "kmin valid rec (c # cs) acc = Some (Min ?S')"
      using 2 IH [of acc'] by (auto simp: Let_def acc'_def split: option.splits if_splits)
    moreover have "Min ?S = Min ?S'"
    proof (rule Min_eqI)
      have fin: "finite ?S'" by simp
      have ne: "?S' \<noteq> {}" by (auto simp: acc'_def split: option.splits)
      have "?S' \<subseteq> ?S" using 2 by (auto simp: acc'_def src_keys_def split: option.splits if_splits)
      then show "Min ?S' \<in> ?S" using Min_in [OF fin ne] by blast
      have m: "Min ?S' \<le> m" if "m \<in> set_option acc'" for m using that fin by simp
      have low: "\<exists>m\<in>?S'. m \<le> y" if "y \<in> ?S" for y
        using that 2 by (force simp: acc'_def src_keys_def not_less split: option.splits if_splits)
      show "Min ?S' \<le> y" if "y \<in> ?S" for y
        using low [OF that] Min_le [OF fin] order_trans by blast
    qed simp
    moreover have "?S \<noteq> {}" using 2 by (auto simp: src_keys_def)
    ultimately show ?thesis by (simp add: Let_def)
  qed
qed

lemma kmin_None:
  "\<forall>c\<in>set cs. inv c \<Longrightarrow> kmin valid rec cs None = None \<longleftrightarrow> src_keys (map rest cs) = {}"
  by (simp add: kmin_least Let_def)

lemma kmin_Min:
  assumes "\<forall>c\<in>set cs. inv c" and "kmin valid rec cs None = Some k"
  shows "k \<in> src_keys (map rest cs)" and "\<forall>k'\<in>src_keys (map rest cs). k \<le> k'"
proof -
  have "src_keys (map rest cs) \<noteq> {}" "k = Min (src_keys (map rest cs))"
    using assms by (auto simp: kmin_least Let_def split: if_splits)
  then show "k \<in> src_keys (map rest cs)" "\<forall>k'\<in>src_keys (map rest cs). k \<le> k'"
    using Min_in [of "src_keys (map rest cs)"] by simp_all
qed

lemma knewest_find:
  assumes "\<forall>c\<in>set cs. inv c" and "\<forall>k'\<in>src_keys (map rest cs). k \<le> k'"
  shows "map_option rec (knewest valid rec k cs) = find_rec k (concat (map rest cs))"
  using assms
proof (induction cs)
  case (Cons c cs)
  then have inv: "inv c" and IH: "map_option rec (knewest valid rec k cs) = find_rec k (concat (map rest cs))"
    and ge: "\<forall>r\<in>set (rest c). k \<le> rec_key r"
    by (auto simp: src_keys_def)
  from inv show ?case
  proof (cases rule: rest_cases)
    case 1
    then show ?thesis using IH by simp
  next
    case (2 r rs)
    have "find_rec k (rest c) = (if rec_key r = k then Some r else None)"
      using find_rec_ssorted_hd [OF rest_sorted [OF inv] ge] 2 by simp
    then show ?thesis using 2(1,3) IH by (simp add: find_rec_append)
  qed
qed simp

lemma kadvance_pop:
  assumes "\<forall>c\<in>set cs. inv c"
  shows "\<exists>cs'. kadvance valid rec nxt k cs = Inr cs' \<and> (\<forall>c\<in>set cs'. inv c) \<and>
    map rest cs' = map (pop_key k) (map rest cs)"
  using assms
proof (induction cs)
  case (Cons c cs)
  then obtain cs' where IH: "kadvance valid rec nxt k cs = Inr cs'" "\<forall>c\<in>set cs'. inv c"
    "map rest cs' = map (pop_key k) (map rest cs)" by auto
  have inv: "inv c" using Cons.prems by simp
  then show ?case
  proof (cases rule: rest_cases)
    case 1
    with IH inv show ?thesis by (auto simp: pop_key_def intro!: exI [of _ "c # cs'"])
  next
    case (2 r rs)
    then obtain c' where "nxt c = Inr c'" "inv c'" "rest c' = rs" using nxt_rest [OF inv] by auto
    with 2 IH inv show ?thesis
      by (auto simp: pop_key_def intro!: exI [of _ "c' # cs'"] exI [of _ "c # cs'"])
  qed
qed simp

text \<open>The whole round: what the loops compute is one step of the abstract merge.\<close>

lemma round:
  assumes inv: "\<forall>c\<in>set cs. inv c" and k: "kmin valid rec cs None = Some k"
  obtains c cs' where "knewest valid rec k cs = Some c" and "kadvance valid rec nxt k cs = Inr cs'"
    and "\<forall>c\<in>set cs'. inv c" and "find_rec k (concat (map rest cs)) = Some (rec c)"
    and "merge_spec (map rest cs) = rec c # merge_spec (map rest cs')"
proof -
  note km = kmin_Min [OF inv k]
  obtain cs' where cs': "kadvance valid rec nxt k cs = Inr cs'" "\<forall>c\<in>set cs'. inv c"
    "map rest cs' = map (pop_key k) (map rest cs)" using kadvance_pop [OF inv] by blast
  obtain c where c: "knewest valid rec k cs = Some c" using k by (rule kmin_knewest)
  then have f: "find_rec k (concat (map rest cs)) = Some (rec c)"
    using knewest_find [OF inv km(2)] by simp
  have "\<forall>rs\<in>set (map rest cs). ssorted (map rec_key rs)" using inv rest_sorted by auto
  from merge_spec_round [OF this km] have "merge_spec (map rest cs) = rec c # merge_spec (map rest cs')"
    using f cs'(3) by simp
  with c cs'(1,2) f show thesis by (rule that)
qed

end

end
