(* ===== verification/Compaction.thy ===== *)
theory Compaction
  imports Sstable_Query Kway_Merge
begin

text \<open>
  Size-tiered selection and the streaming merge of SSTables
  (\<open>include/lsmkv/compaction.h\<close>, \<open>src/compaction.cpp\<close>).

  \<open>std::log\<close> is the parameter \<open>lg\<close>, over the reals; the properties hold for every
  function. A size ratio of 1, for which the source divides by zero before it casts to
  \<open>long\<close>, is not a setting the model speaks about.
\<close>

subsection \<open>Selection\<close>

definition size_bucket :: "(real \<Rightarrow> real) \<Rightarrow> u64 \<Rightarrow> real \<Rightarrow> int" where
  "size_bucket lg sz ratio =
     (let s = (if sz < 1 then 1 else real (unat sz)) in \<lfloor>lg s / lg ratio\<rfloor>)"

definition contiguous_to_oldest :: "nat list \<Rightarrow> nat \<Rightarrow> bool" where
  "contiguous_to_oldest sorted_indices total1 \<longleftrightarrow>
     sorted_indices \<noteq> [] \<and> last sorted_indices = total1 - 1 \<and>
     list_all (\<lambda>k. sorted_indices ! k = hd sorted_indices + k) [0..<length sorted_indices]"

record compaction_pick =
  cp_indices :: "nat list"
  cp_drop_tombstones :: bool

function run_end :: "(nat \<Rightarrow> int) \<Rightarrow> nat \<Rightarrow> int \<Rightarrow> nat \<Rightarrow> nat" where
  "run_end bk n b j = (if j < n \<and> bk j = b then run_end bk n b (j + 1) else j)"
  by pat_completeness auto
termination
  by (relation "measure (\<lambda>(bk, n, b, j). n - j)") auto

declare run_end.simps [simp del]

lemma run_end_ge: "j \<le> run_end bk n b j"
proof (induction bk n b j rule: run_end.induct)
  case (1 bk n b j)
  then show ?case by (subst run_end.simps) (auto dest: Suc_leD)
qed

lemma run_end_gt: "i < n \<Longrightarrow> i < run_end bk n (bk i) i"
  using run_end_ge [of "i + 1" bk n "bk i"] by (subst run_end.simps) simp

function pick_loop ::
  "(nat \<Rightarrow> int) \<Rightarrow> nat \<Rightarrow> nat \<Rightarrow> nat \<Rightarrow> compaction_pick option \<Rightarrow> int \<Rightarrow> compaction_pick option" where
  "pick_loop bk n min_merge i best best_bucket =
     (if i < n then
        let b = bk i; j = run_end bk n b i in
        if j - i \<ge> min_merge \<and> (best = None \<or> b < best_bucket) then
          let indices = [i..<j] in
          pick_loop bk n min_merge j
            (Some \<lparr>cp_indices = indices, cp_drop_tombstones = contiguous_to_oldest indices n\<rparr>) b
        else pick_loop bk n min_merge j best best_bucket
      else best)"
  by pat_completeness auto
termination
proof (relation "measure (\<lambda>(bk, n, min_merge, i, best, best_bucket). n - i)", goal_cases)
  case 1
  show ?case by simp
next
  case (2 bk n min_merge i best best_bucket b j)
  then show ?case using run_end_gt [of i n bk] by auto
next
  case (3 bk n min_merge i best best_bucket b j)
  then show ?case using run_end_gt [of i n bk] by auto
qed

declare pick_loop.simps [simp del]

definition bucket_at :: "(real \<Rightarrow> real) \<Rightarrow> sstable list \<Rightarrow> real \<Rightarrow> nat \<Rightarrow> int" where
  "bucket_at lg tables size_ratio i = size_bucket lg (sst_file_size (tables ! i)) size_ratio"

definition pick_compaction ::
  "(real \<Rightarrow> real) \<Rightarrow> sstable list \<Rightarrow> nat \<Rightarrow> real \<Rightarrow> compaction_pick option" where
  "pick_compaction lg tables min_merge size_ratio =
     (if min_merge < 2 \<or> length tables < min_merge then None
      else pick_loop (bucket_at lg tables size_ratio) (length tables) min_merge 0 None 0)"

subsection \<open>Merging\<close>

fun open_cursors :: "io \<Rightarrow> sstable list \<Rightarrow> sst_iter list res" where
  "open_cursors io [] = Inr []"
| "open_cursors io (t # ts) =
     rbind (iter_new io t) (\<lambda>it. rbind (open_cursors io ts) (\<lambda>its. Inr (it # its)))"

text \<open>
  The number of records and blocks a cursor can still pass, whatever the file holds. It
  bounds the rounds of the merge.
\<close>

definition iter_left :: "io \<Rightarrow> sst_iter \<Rightarrow> nat" where
  "iter_left io it =
     (if iter_valid it
      then length (it_block it) - it_pos it +
           sum_list (map (\<lambda>j. case sst_read_block io (it_sst it) j of Inr b \<Rightarrow> length b + 1 | Inl _ \<Rightarrow> 0)
             [Suc (it_block_idx it)..<length (sst_index (it_sst it))])
      else 0)"

lemma iter_next_left:
  assumes "iter_valid it" and "iter_next io it = Inr it'"
  shows "iter_left io it' < iter_left io it"
proof (cases "it_pos it + 1 \<ge> length (it_block it)")
  case False
  then show ?thesis using assms by (auto simp: iter_next_def iter_left_def iter_valid_def)
next
  case True
  let ?i = "it_block_idx it"
  let ?N = "length (sst_index (it_sst it))"
  show ?thesis
  proof (cases "Suc ?i < ?N")
    case more: True
    then obtain b where b: "sst_read_block io (it_sst it) (Suc ?i) = Inr b"
      "it' = it\<lparr>it_pos := 0, it_block_idx := Suc ?i, it_block := b\<rparr>"
      using True assms(2) by (auto simp: iter_next_def iter_load_def rbind_eq_Inr)
    then show ?thesis
      using assms(1) upt_conv_Cons [OF more] by (auto simp: iter_left_def iter_valid_def)
  next
    case False
    then show ?thesis using True assms by (auto simp: iter_next_def iter_left_def iter_valid_def)
  qed
qed

function merge_loop :: "io \<Rightarrow> bool \<Rightarrow> sst_iter list \<Rightarrow> kv_record list \<Rightarrow> kv_record list res" where
  "merge_loop io drop_tombstones cs out =
     (case kmin iter_valid iter_record cs None of
        None \<Rightarrow> Inr out
      | Some min_key \<Rightarrow>
          (case knewest iter_valid iter_record min_key cs of
             None \<Rightarrow> Inl (Undefined ''cursor[newest]'')
           | Some c \<Rightarrow>
               let rec = iter_record c in
               rbind (kadvance iter_valid iter_record (iter_next io) min_key cs) (\<lambda>cs'.
                 merge_loop io drop_tombstones cs'
                   (if \<not> (drop_tombstones \<and> rec_op rec = Delete) then out @ [rec] else out))))"
  by pat_completeness auto
termination
proof (relation "measure (\<lambda>(io, d, cs, out). sum_list (map (iter_left io) cs))", goal_cases)
  case 1
  show ?case by simp
next
  case (2 io drop_tombstones cs out min_key c rec cs')
  have "\<exists>c\<in>set cs. iter_valid c \<and> rec_key (iter_record c) = min_key"
    using kmin_Some [OF 2(1)] by simp
  then show ?case using kadvance_decreases [OF 2(4) iter_next_left [of _ io]] by simp
qed

declare merge_loop.simps [simp del]

definition merge_records :: "io \<Rightarrow> sstable list \<Rightarrow> bool \<Rightarrow> kv_record list res" where
  "merge_records io inputs drop_tombstones =
     rbind (open_cursors io inputs) (\<lambda>cs. merge_loop io drop_tombstones cs [])"

subsection \<open>What a merge yields\<close>

definition live_filter :: "bool \<Rightarrow> kv_record list \<Rightarrow> kv_record list" where
  "live_filter d rs = filter (\<lambda>r. \<not> (d \<and> rec_op r = Delete)) rs"

interpretation sit: cursor iter_valid iter_record "iter_next no_faults" it_rest it_inv
proof unfold_locales
  fix it assume inv: "it_inv it"
  show "iter_valid it \<longleftrightarrow> it_rest it \<noteq> []" by (rule it_rest_valid)
  show "ssorted (map rec_key (it_rest it))" using inv by (simp add: it_inv_def)
  assume valid: "iter_valid it"
  show "iter_record it = hd (it_rest it)" by (rule it_rest_record [OF valid])
  show "\<exists>it'. iter_next no_faults it = Inr it' \<and> it_inv it' \<and> it_rest it' = tl (it_rest it)"
    by (rule iter_next_spec [OF inv valid]) blast
qed

lemma open_cursors_spec:
  assumes "\<forall>t\<in>set ts. sst_inv t"
  obtains cs where "open_cursors no_faults ts = Inr cs" and "\<forall>c\<in>set cs. it_inv c"
    and "map it_rest cs = map sst_records ts"
  using assms
proof (induction ts arbitrary: thesis)
  case (Cons t ts)
  obtain cs where cs: "open_cursors no_faults ts = Inr cs" "\<forall>c\<in>set cs. it_inv c"
    "map it_rest cs = map sst_records ts" using Cons.IH Cons.prems(2) by auto
  obtain it where "iter_new no_faults t = Inr it" "it_inv it" "it_rest it = sst_records t"
    using iter_new_spec [of t] Cons.prems(2) by auto
  with cs show ?case using Cons.prems(1) [of "it # cs"] by simp
qed simp

lemma merge_loop_spec:
  assumes "\<forall>c\<in>set cs. it_inv c" and "io = no_faults"
  shows "merge_loop io d cs out = Inr (out @ live_filter d (merge_spec (map it_rest cs)))"
  using assms
proof (induction io d cs out rule: merge_loop.induct)
  case (1 io d cs out)
  note inv = "1.prems"(1) and io = "1.prems"(2)
  show ?case
  proof (cases "kmin iter_valid iter_record cs None")
    case None
    then have "src_keys (map it_rest cs) = {}" using sit.kmin_None [OF inv] by simp
    then show ?thesis
      using None by (simp add: merge_loop.simps [of io d cs out] merge_spec_empty live_filter_def)
  next
    case (Some k)
    obtain c cs' where r: "knewest iter_valid iter_record k cs = Some c"
      "kadvance iter_valid iter_record (iter_next io) k cs = Inr cs'" "\<forall>c\<in>set cs'. it_inv c"
      "find_rec k (concat (map it_rest cs)) = Some (iter_record c)"
      "merge_spec (map it_rest cs) = iter_record c # merge_spec (map it_rest cs')"
      by (rule sit.round [OF inv Some, folded io])
    have "merge_loop io d cs out =
        merge_loop io d cs' (if \<not> (d \<and> rec_op (iter_record c) = Delete) then out @ [iter_record c] else out)"
      using Some r(1,2) by (subst merge_loop.simps) simp
    then show ?thesis
      using "1.IH" [OF Some r(1) refl r(2,3) io] r(5) by (simp add: live_filter_def)
  qed
qed

lemma merge_records_spec:
  assumes "\<forall>t\<in>set ts. sst_inv t"
  shows "merge_records no_faults ts d = Inr (live_filter d (merge_spec (map sst_records ts)))"
proof -
  obtain cs where "open_cursors no_faults ts = Inr cs" "\<forall>c\<in>set cs. it_inv c"
    "map it_rest cs = map sst_records ts" using open_cursors_spec [OF assms] .
  then show ?thesis by (simp add: merge_records_def merge_loop_spec)
qed

lemma live_filter_find:
  assumes "distinct (map rec_key rs)"
  shows "find_rec k (live_filter d rs) =
    (case find_rec k rs of Some r \<Rightarrow> if d \<and> rec_op r = Delete then None else Some r | None \<Rightarrow> None)"
  using assms
proof (induction rs)
  case (Cons r rs)
  have "rec_key r = k \<Longrightarrow> find_rec k (live_filter d rs) = None \<and> find_rec k rs = None"
    using Cons.prems by (auto simp: find_rec_None live_filter_def)
  with Cons show ?case by (auto simp: live_filter_def)
qed (simp add: live_filter_def)

lemma live_filter_sorted: "ssorted (map rec_key rs) \<Longrightarrow> ssorted (map rec_key (live_filter d rs))"
  by (simp add: live_filter_def ssorted_filter)

subsection \<open>What a selection is\<close>

text \<open>A maximal run of neighbouring tables in one size bucket.\<close>

definition is_run :: "(nat \<Rightarrow> int) \<Rightarrow> nat \<Rightarrow> nat \<Rightarrow> nat \<Rightarrow> bool" where
  "is_run bk n i j \<longleftrightarrow> i < j \<and> j \<le> n \<and> (\<forall>k. i \<le> k \<and> k < j \<longrightarrow> bk k = bk i) \<and>
     (j < n \<longrightarrow> bk j \<noteq> bk i) \<and> (0 < i \<longrightarrow> bk (i - 1) \<noteq> bk i)"

lemma run_end_spec:
  assumes "j \<le> n"
  shows "run_end bk n b j \<le> n \<and> (\<forall>k. j \<le> k \<and> k < run_end bk n b j \<longrightarrow> bk k = b) \<and>
    (run_end bk n b j < n \<longrightarrow> bk (run_end bk n b j) \<noteq> b)"
  using assms
proof (induction bk n b j rule: run_end.induct)
  case (1 bk n b j)
  show ?case
  proof (cases "j < n \<and> bk j = b")
    case True
    have IH: "run_end bk n b (j + 1) \<le> n" "\<forall>k. j + 1 \<le> k \<and> k < run_end bk n b (j + 1) \<longrightarrow> bk k = b"
      "run_end bk n b (j + 1) < n \<longrightarrow> bk (run_end bk n b (j + 1)) \<noteq> b"
      using "1.IH" [OF True] True by auto
    have "bk k = b" if "j \<le> k" "k < run_end bk n b (j + 1)" for k
      using IH(2) that True by (cases "k = j") auto
    with IH True show ?thesis by (simp add: run_end.simps [of bk n b j])
  next
    case False
    with "1.prems" show ?thesis by (subst (1 2 3 4) run_end.simps) auto
  qed
qed

lemma is_run_run_end:
  assumes "i < n" and "i = 0 \<or> bk (i - 1) \<noteq> bk i"
  shows "is_run bk n i (run_end bk n (bk i) i)"
proof -
  have "i \<le> n" using assms(1) by simp
  from run_end_spec [OF this, of bk "bk i"] run_end_gt [OF assms(1), of bk] assms(2) show ?thesis
    unfolding is_run_def by blast
qed

lemma is_run_bucket: "is_run bk n i j \<Longrightarrow> i \<le> k \<Longrightarrow> k < j \<Longrightarrow> bk k = bk i"
  unfolding is_run_def by blast

lemma is_run_bounds:
  assumes "is_run bk n i j"
  shows "i < j" and "j \<le> n" and "j < n \<Longrightarrow> bk j \<noteq> bk i" and "0 < i \<Longrightarrow> bk (i - 1) \<noteq> bk i"
  using assms unfolding is_run_def by blast+

lemma is_run_disjoint:
  assumes "is_run bk n i j" and "is_run bk n i' j'" and "i \<le> i'" and "i' < j"
  shows "i' = i \<and> j' = j"
proof -
  have "i' = i"
  proof (rule ccontr)
    assume "i' \<noteq> i"
    then have "i \<le> i' - 1" "i' - 1 < j" "0 < i'" using assms(3,4) by auto
    then have "bk (i' - 1) = bk i" "bk i' = bk i"
      using is_run_bucket [OF assms(1)] assms(3,4) by blast+
    then show False using is_run_bounds(4) [OF assms(2) \<open>0 < i'\<close>] by simp
  qed
  moreover have "j' = j"
  proof (rule ccontr)
    assume "j' \<noteq> j"
    then consider "j < j'" | "j' < j" by linarith
    then show False
    proof cases
      case 1
      then have "bk j = bk i" "j < n"
        using is_run_bucket [OF assms(2), of j] is_run_bounds [OF assms(1)] is_run_bounds [OF assms(2)] \<open>i' = i\<close>
        by auto
      then show False using is_run_bounds(3) [OF assms(1)] by simp
    next
      case 2
      then have "bk j' = bk i" "j' < n"
        using is_run_bucket [OF assms(1), of j'] is_run_bounds [OF assms(1)] is_run_bounds [OF assms(2)] \<open>i' = i\<close>
        by auto
      then show False using is_run_bounds(3) [OF assms(2)] \<open>i' = i\<close> by simp
    qed
  qed
  ultimately show ?thesis by simp
qed

lemma contiguous_upt: "i < j \<Longrightarrow> j \<le> n \<Longrightarrow> contiguous_to_oldest [i..<j] n \<longleftrightarrow> j = n"
  by (auto simp: contiguous_to_oldest_def list_all_iff hd_upt)

text \<open>
  The pick that is right for the runs that start below \<open>i\<close>: the smallest bucket with a run
  that is long enough, and of several such runs the newest.
\<close>

definition best_run :: "(nat \<Rightarrow> int) \<Rightarrow> nat \<Rightarrow> nat \<Rightarrow> nat \<Rightarrow> nat \<Rightarrow> nat \<Rightarrow> bool" where
  "best_run bk n m i a b \<longleftrightarrow> is_run bk n a b \<and> m \<le> b - a \<and> a < i \<and>
     (\<forall>a' b'. is_run bk n a' b' \<and> m \<le> b' - a' \<and> a' < i \<longrightarrow> bk a \<le> bk a' \<and> (bk a' = bk a \<longrightarrow> a \<le> a'))"

definition pick_of :: "nat \<Rightarrow> nat \<Rightarrow> nat \<Rightarrow> compaction_pick" where
  "pick_of n a b = \<lparr>cp_indices = [a..<b], cp_drop_tombstones = (b = n)\<rparr>"

definition pick_upto ::
  "(nat \<Rightarrow> int) \<Rightarrow> nat \<Rightarrow> nat \<Rightarrow> nat \<Rightarrow> compaction_pick option \<Rightarrow> int \<Rightarrow> bool" where
  "pick_upto bk n m i best bb \<longleftrightarrow> (case best of
       None \<Rightarrow> \<not> (\<exists>a b. is_run bk n a b \<and> m \<le> b - a \<and> a < i)
     | Some p \<Rightarrow> \<exists>a b. best_run bk n m i a b \<and> bb = bk a \<and> p = pick_of n a b)"

lemma run_below:
  assumes "is_run bk n i j" and "is_run bk n a b" and "a < j"
  shows "a < i \<or> a = i \<and> b = j"
  using is_run_disjoint [OF assms(1,2)] assms(3) by linarith

lemma pick_upto_step:
  assumes up: "pick_upto bk n m i best bb" and run: "is_run bk n i j"
  shows "m \<le> j - i \<and> (best = None \<or> bk i < bb) \<Longrightarrow> pick_upto bk n m j (Some (pick_of n i j)) (bk i)"
    and "\<not> (m \<le> j - i \<and> (best = None \<or> bk i < bb)) \<Longrightarrow> pick_upto bk n m j best bb"
proof -
  have ij: "i < j" using is_run_bounds(1) [OF run] .
  show "pick_upto bk n m j (Some (pick_of n i j)) (bk i)" if c: "m \<le> j - i \<and> (best = None \<or> bk i < bb)"
  proof -
    have low: "bk i < bk a" if "is_run bk n a b" "m \<le> b - a" "a < i" for a b
      using up c that by (force simp: pick_upto_def best_run_def split: option.splits)
    have "bk i \<le> bk a \<and> (bk a = bk i \<longrightarrow> i \<le> a)" if "is_run bk n a b" "m \<le> b - a" "a < j" for a b
      using run_below [OF run that(1,3)] low [OF that(1,2)] by auto
    then have "best_run bk n m j i j" using run c ij unfolding best_run_def by blast
    then show ?thesis by (auto simp: pick_upto_def)
  qed
  show "pick_upto bk n m j best bb" if c: "\<not> (m \<le> j - i \<and> (best = None \<or> bk i < bb))"
  proof (cases best)
    case None
    have "\<not> (is_run bk n a b \<and> m \<le> b - a)" if "a < j" for a b
      using run_below [OF run _ that] up c None by (auto simp: pick_upto_def)
    then show ?thesis using None by (auto simp: pick_upto_def)
  next
    case (Some p)
    then obtain a b where ab: "best_run bk n m i a b" "bb = bk a" "p = pick_of n a b"
      using up by (auto simp: pick_upto_def)
    have "bk a \<le> bk a' \<and> (bk a' = bk a \<longrightarrow> a \<le> a')" if "is_run bk n a' b'" "m \<le> b' - a'" "a' < j" for a' b'
      using run_below [OF run that(1,3)] that ab c Some by (auto simp: best_run_def)
    then have "best_run bk n m j a b" using ab ij by (auto simp: best_run_def)
    then show ?thesis using ab Some by (auto simp: pick_upto_def)
  qed
qed

lemma pick_loop_spec:
  assumes "pick_upto bk n m i best bb" and "i \<le> n" and "i = 0 \<or> i = n \<or> bk (i - 1) \<noteq> bk i"
  shows "\<exists>bb'. pick_upto bk n m n (pick_loop bk n m i best bb) bb'"
  using assms
proof (induction bk n m i best bb rule: pick_loop.induct)
  case (1 bk n m i best bb)
  show ?case
  proof (cases "i < n")
    case False
    then show ?thesis using "1.prems" by (subst pick_loop.simps) auto
  next
    case True
    define j where "j = run_end bk n (bk i) i"
    have run: "is_run bk n i j"
      using "1.prems"(3) True is_run_run_end [of i n bk] by (auto simp: j_def)
    have "bk (j - 1) = bk i" using is_run_bucket [OF run, of "j - 1"] is_run_bounds(1) [OF run] by simp
    then have j: "j \<le> n" "j = 0 \<or> j = n \<or> bk (j - 1) \<noteq> bk j"
      using is_run_bounds(2,3) [OF run] by (auto simp: le_less)
    have pk: "\<lparr>cp_indices = [i..<j], cp_drop_tombstones = contiguous_to_oldest [i..<j] n\<rparr> = pick_of n i j"
      using contiguous_upt [OF is_run_bounds(1,2) [OF run]] by (simp add: pick_of_def)
    show ?thesis
    proof (cases "m \<le> j - i \<and> (best = None \<or> bk i < bb)")
      case c: True
      show ?thesis
        using "1.IH"(1) [OF True refl j_def c refl] pick_upto_step(1) [OF "1.prems"(1) run c] j True c pk
        by (simp add: pick_loop.simps [of bk n m i] Let_def j_def [symmetric])
    next
      case c: False
      show ?thesis
        using "1.IH"(2) [OF True refl j_def c] pick_upto_step(2) [OF "1.prems"(1) run c] j True c
        by (auto simp: pick_loop.simps [of bk n m i] Let_def j_def [symmetric])
    qed
  qed
qed

lemma pick_compaction_cases:
  assumes "2 \<le> min_merge" and "min_merge \<le> length tables"
  obtains (none) "pick_compaction lg tables min_merge ratio = None"
      and "\<not> (\<exists>a b. is_run (bucket_at lg tables ratio) (length tables) a b \<and> min_merge \<le> b - a)"
  | (some) a b where "pick_compaction lg tables min_merge ratio = Some (pick_of (length tables) a b)"
      and "best_run (bucket_at lg tables ratio) (length tables) min_merge (length tables) a b"
proof -
  let ?bk = "bucket_at lg tables ratio" and ?n = "length tables"
  have "pick_upto ?bk ?n min_merge 0 None 0" by (simp add: pick_upto_def)
  from pick_loop_spec [OF this]
  obtain bb where "pick_upto ?bk ?n min_merge ?n (pick_compaction lg tables min_merge ratio) bb"
    using assms by (auto simp: pick_compaction_def)
  then show thesis
    using none some is_run_bounds(1,2) by (fastforce simp: pick_upto_def split: option.splits)
qed

subsection \<open>Properties\<close>

text \<open>
  Property C24: \<open>pick_compaction\<close> chooses a maximal run of neighbouring tables of one size
  bucket that has at least \<open>min_merge\<close> members, the one of the smallest bucket and among
  those the newest; it chooses nothing only if there is no such run (or the settings rule
  compaction out). The indices are consecutive, so no other table lies between two chosen
  ones in age, and tombstones may be dropped exactly when the run reaches the oldest table.
\<close>

theorem pick_compaction_contiguous:
  "case pick_compaction lg tables min_merge ratio of
     None \<Rightarrow> \<not> (2 \<le> min_merge \<and> (\<exists>a b. is_run (bucket_at lg tables ratio) (length tables) a b \<and> min_merge \<le> b - a))
   | Some p \<Rightarrow> 2 \<le> min_merge \<and> (\<exists>a b. cp_indices p = [a..<b] \<and> a + min_merge \<le> b \<and> b \<le> length tables \<and>
       cp_drop_tombstones p = (b = length tables) \<and>
       best_run (bucket_at lg tables ratio) (length tables) min_merge (length tables) a b)"
proof (cases "2 \<le> min_merge \<and> min_merge \<le> length tables")
  case True
  then have "2 \<le> min_merge" "min_merge \<le> length tables" by simp_all
  then show ?thesis
  proof (cases rule: pick_compaction_cases [where lg = lg and ratio = ratio])
    case none
    then show ?thesis by simp
  next
    case (some a b)
    have "a + min_merge \<le> b" "b \<le> length tables"
      using some(2) True is_run_bounds(1,2) [of "bucket_at lg tables ratio" "length tables" a b]
      by (auto simp: best_run_def)
    then show ?thesis using some True by (auto simp: pick_of_def)
  qed
next
  case False
  have "\<not> min_merge \<le> b - a" if "is_run (bucket_at lg tables ratio) (length tables) a b" "2 \<le> min_merge" for a b
    using False is_run_bounds(2) [OF that(1)] that(2) by auto
  with False show ?thesis by (auto simp: pick_compaction_def)
qed

text \<open>
  Property C23: \<open>merge_records\<close> on well-formed tables always returns. Its output has
  strictly ascending keys, and a lookup in it gives the record of the newest input that has
  the key; a key whose newest record is a tombstone is absent exactly when
  \<open>drop_tombstones\<close> is set.
\<close>

theorem merge_records_newest_wins:
  assumes "\<forall>t\<in>set inputs. sst_inv t"
  shows "\<exists>out. merge_records no_faults inputs dt = Inr out \<and> ssorted (map rec_key out) \<and>
    (\<forall>k. find_rec k out =
       (case find_rec k (concat (map sst_records inputs)) of
          None \<Rightarrow> None
        | Some r \<Rightarrow> if dt \<and> rec_op r = Delete then None else Some r))"
proof -
  let ?m = "merge_spec (map sst_records inputs)"
  have "find_rec k (live_filter dt ?m) =
      (case find_rec k (concat (map sst_records inputs)) of
          None \<Rightarrow> None | Some r \<Rightarrow> if dt \<and> rec_op r = Delete then None else Some r)" for k
    using live_filter_find [OF ssorted_distinct [OF merge_spec_sorted], of k dt "map sst_records inputs"]
    by (simp add: merge_spec_find split: option.splits)
  then show ?thesis
    using merge_records_spec [OF assms] live_filter_sorted [OF merge_spec_sorted] by auto
qed

text \<open>Two one-record tables, the newer of which deletes the key of the older.\<close>

lemma small_tables_exist:
  "\<exists>t1 t2. sst_inv t1 \<and> sst_inv t2 \<and> sst_records t1 = [mk_record Delete [107] []] \<and>
     sst_records t2 = [mk_record Put [107] [1]]"
  using one_record_table [of "mk_record Delete [107] []"] one_record_table [of "mk_record Put [107] [1]"]
  by (auto simp: sst_rec_ok_def UINT32_MAX_def)

theorem merge_records_newest_wins_witness:
  "\<exists>t1 t2 out. merge_records no_faults [t1, t2] True = Inr out \<and> find_rec [107] out = None \<and>
     find_rec [107] (sst_records t2) = Some (mk_record Put [107] [1])"
proof -
  obtain t1 t2 where t: "sst_inv t1" "sst_inv t2" "sst_records t1 = [mk_record Delete [107] []]"
    "sst_records t2 = [mk_record Put [107] [1]]" using small_tables_exist by blast
  then have "\<forall>t\<in>set [t1, t2]. sst_inv t" by simp
  from merge_records_newest_wins [OF this, of True] t show ?thesis by force
qed

end
