(* ===== verification/Naming.thy ===== *)
theory Naming
  imports Prelude
begin

text \<open>
  File names of the engine (\<open>src/db.cpp\<close>). A store lives in one directory, so a path is
  modelled by its last component. \<open>snprintf\<close> with \<open>%06llu\<close> pads the decimal numeral to six
  digits; \<open>std::stoul\<close> and \<open>std::stoull\<close> throw \<open>out_of_range\<close> when the number does not fit
  64 bits.
\<close>

function dec_digits :: "nat \<Rightarrow> bytes" where
  "dec_digits n = (if n < 10 then [48 + of_nat n] else dec_digits (n div 10) @ [48 + of_nat (n mod 10)])"
  by pat_completeness auto
termination
  by (relation "measure id") auto

declare dec_digits.simps [simp del]

definition pad6 :: "bytes \<Rightarrow> bytes" where
  "pad6 ds = replicate (6 - length ds) 48 @ ds"

definition is_digit :: "byte \<Rightarrow> bool" where
  "is_digit c \<longleftrightarrow> 48 \<le> c \<and> c \<le> 57"

definition digits_val :: "bytes \<Rightarrow> nat" where
  "digits_val ds = foldl (\<lambda>acc c. acc * 10 + (unat c - 48)) 0 ds"

definition stoull :: "bytes \<Rightarrow> u64 res" where
  "stoull ds = (let n = digits_val ds in if n < 2 ^ 64 then Inr (of_nat n) else Inl (OutOfRange ''stoull''))"

definition wal_name :: bytes where
  "wal_name = lit ''wal.log''"

definition flushing_wal_name :: bytes where
  "flushing_wal_name = lit ''wal-flushing.log''"

definition tmp_suffix :: bytes where
  "tmp_suffix = lit ''.tmp''"

definition vlog_name :: "u32 \<Rightarrow> bytes" where
  "vlog_name gen = lit ''vlog-'' @ pad6 (dec_digits (unat gen)) @ lit ''.log''"

definition sst_name :: "u64 \<Rightarrow> bytes" where
  "sst_name seq = lit ''sst-'' @ pad6 (dec_digits (unat seq)) @ lit ''.sst''"

definition parse_vlog_gen :: "bytes \<Rightarrow> u32 option res" where
  "parse_vlog_gen name =
     (let prefix = lit ''vlog-''; suffix = lit ''.log'' in
      if length name \<le> length prefix + length suffix then Inr None
      else if take (length prefix) name \<noteq> prefix then Inr None
      else if drop (length name - length suffix) name \<noteq> suffix then Inr None
      else
        let digits = take (length name - length prefix - length suffix) (drop (length prefix) name) in
        if digits = [] then Inr None
        else if \<not> list_all is_digit digits then Inr None
        else rbind (stoull digits) (\<lambda>n. Inr (Some (ucast n))))"

definition parse_seq :: "bytes \<Rightarrow> u64 option res" where
  "parse_seq name =
     (let prefix = lit ''sst-''; suffix = lit ''.sst'' in
      if length name \<le> length prefix + length suffix then Inr None
      else if take (length prefix) name \<noteq> prefix then Inr None
      else if drop (length name - length suffix) name \<noteq> suffix then Inr None
      else
        let digits = take (length name - length prefix - length suffix) (drop (length prefix) name) in
        if digits = [] then Inr None
        else if \<not> list_all is_digit digits then Inr None
        else rbind (stoull digits) (\<lambda>n. Inr (Some n)))"

definition seq_of_path :: "bytes \<Rightarrow> u64 res" where
  "seq_of_path path = rbind (parse_seq path) (\<lambda>s. case s of Some n \<Rightarrow> Inr n | None \<Rightarrow> Inr 0)"

definition has_tmp_suffix :: "bytes \<Rightarrow> bool" where
  "has_tmp_suffix name \<longleftrightarrow> length name \<ge> 4 \<and> drop (length name - 4) name = tmp_suffix"

subsection \<open>Numerals\<close>

lemma digit_unat: "n < 10 \<Longrightarrow> unat (48 + of_nat n :: byte) = 48 + n"
  by (simp add: unat_word_ariths unat_of_nat)

lemma digit_is_digit: "n < 10 \<Longrightarrow> is_digit (48 + of_nat n)"
  by (simp add: is_digit_def word_le_nat_alt digit_unat)

lemma dec_digits_digit: "list_all is_digit (dec_digits n)"
proof (induction n rule: dec_digits.induct)
  case (1 n)
  then show ?case by (subst dec_digits.simps) (simp add: digit_is_digit)
qed

lemma digits_val_append: "digits_val (xs @ [c]) = digits_val xs * 10 + (unat c - 48)"
  by (simp add: digits_val_def)

lemma digits_val_dec: "digits_val (dec_digits n) = n"
proof (induction n rule: dec_digits.induct)
  case (1 n)
  show ?case
  proof (cases "n < 10")
    case True
    then have "unat (48 + of_nat n :: byte) - 48 = n" using digit_unat [OF True] by simp
    then show ?thesis using True by (simp add: dec_digits.simps [of n] digits_val_def)
  next
    case False
    have "unat (48 + of_nat (n mod 10) :: byte) - 48 = n mod 10" using digit_unat [of "n mod 10"] by simp
    then show ?thesis
      using 1 [OF False] False by (simp add: dec_digits.simps [of n] digits_val_append del: of_nat_mod)
  qed
qed

lemma dec_digits_not_Nil [simp]: "dec_digits n \<noteq> []"
  by (subst dec_digits.simps) simp

lemma digits_val_pad: "digits_val (replicate k 48 @ ds) = digits_val ds"
  by (induction k) (simp_all add: digits_val_def)

lemma pad6_dec:
  "digits_val (pad6 (dec_digits n)) = n" "list_all is_digit (pad6 (dec_digits n))" "pad6 (dec_digits n) \<noteq> []"
  by (simp_all add: pad6_def digits_val_pad digits_val_dec dec_digits_digit list_all_length is_digit_def)
     (use dec_digits_digit [of n] in \<open>simp add: list_all_length nth_append is_digit_def\<close>)

lemma stoull_pad6: "n < 2 ^ 64 \<Longrightarrow> stoull (pad6 (dec_digits n)) = Inr (of_nat n)"
  by (simp add: stoull_def pad6_dec)

subsection \<open>Names\<close>

lemma lit_eqs [simp]:
  "lit ''vlog-'' = [118, 108, 111, 103, 45]" "lit ''.log'' = [46, 108, 111, 103]"
  "lit ''sst-'' = [115, 115, 116, 45]" "lit ''.sst'' = [46, 115, 115, 116]"
  "lit ''.tmp'' = [46, 116, 109, 112]" "lit ''wal.log'' = [119, 97, 108, 46, 108, 111, 103]"
  "lit ''wal-flushing.log'' = [119, 97, 108, 45, 102, 108, 117, 115, 104, 105, 110, 103, 46, 108, 111, 103]"
  by (simp_all add: lit_def)

lemma parse_seq_sst_name: "parse_seq (sst_name s) = Inr (Some s)"
proof -
  have "unat s < 2 ^ 64" using unsigned_less [of s, where 'a = nat] by simp
  then show ?thesis
    using stoull_pad6 [of "unat s"] pad6_dec [of "unat s"]
    by (simp add: parse_seq_def sst_name_def Let_def)
qed

lemma parse_vlog_gen_vlog_name: "parse_vlog_gen (vlog_name g) = Inr (Some g)"
proof -
  have g: "unat g < 2 ^ 32" using unsigned_less [of g, where 'a = nat] by simp
  then have "ucast (of_nat (unat g) :: u64) = g"
    by (intro word_unat_eq_iff [THEN iffD2]) (simp add: unsigned_ucast_eq unat_of_nat take_bit_word_eq_self)
  then show ?thesis
    using g stoull_pad6 [of "unat g"] pad6_dec [of "unat g"]
    by (simp add: parse_vlog_gen_def vlog_name_def Let_def)
qed

lemma sst_name_inj: "sst_name s = sst_name s' \<longleftrightarrow> s = s'"
  by (metis parse_seq_sst_name sum.inject(2) option.inject)

lemma vlog_name_inj: "vlog_name g = vlog_name g' \<longleftrightarrow> g = g'"
  by (metis parse_vlog_gen_vlog_name sum.inject(2) option.inject)

text \<open>The first byte tells the kinds of files apart.\<close>

lemma name_hds [simp]:
  "hd (sst_name s) = 115" "hd (sst_name s @ x) = 115" "hd (vlog_name g) = 118" "hd wal_name = 119"
  "hd flushing_wal_name = 119"
  by (simp_all add: sst_name_def vlog_name_def wal_name_def flushing_wal_name_def)

lemma name_neqs [simp]:
  "sst_name s \<noteq> vlog_name g" "vlog_name g \<noteq> sst_name s" "sst_name s @ x \<noteq> vlog_name g"
  "wal_name \<noteq> vlog_name g" "flushing_wal_name \<noteq> vlog_name g"
  "vlog_name g \<noteq> wal_name" "vlog_name g \<noteq> flushing_wal_name"
  "wal_name \<noteq> flushing_wal_name" "flushing_wal_name \<noteq> wal_name"
  "sst_name s \<noteq> wal_name" "sst_name s \<noteq> flushing_wal_name" "sst_name s @ tmp_suffix \<noteq> sst_name s"
  by (simp_all add: sst_name_def vlog_name_def wal_name_def flushing_wal_name_def tmp_suffix_def)

lemma tmp_names:
  "has_tmp_suffix (n @ tmp_suffix)" "\<not> has_tmp_suffix (sst_name s)" "\<not> has_tmp_suffix (vlog_name g)"
  by (simp_all add: has_tmp_suffix_def sst_name_def vlog_name_def tmp_suffix_def)

lemma parse_other_kind: "parse_seq (vlog_name g) = Inr None" "parse_vlog_gen (sst_name s) = Inr None"
  by (simp_all add: parse_seq_def parse_vlog_gen_def sst_name_def vlog_name_def Let_def)

subsection \<open>Properties\<close>

text \<open>
  Property C40: file names are unambiguous. The parsers invert the printers for every
  64-bit sequence number and every 32-bit generation (numbers of more than six digits
  included), different numbers have different names, neither parser accepts the other
  kind's names, and no table or log has a name that the clean-up of temporary files would
  remove, while every temporary name has one.
\<close>

theorem file_names_roundtrip:
  "parse_seq (sst_name s) = Inr (Some s) \<and> parse_vlog_gen (vlog_name g) = Inr (Some g) \<and>
   seq_of_path (sst_name s) = Inr s \<and> (sst_name s = sst_name s' \<longleftrightarrow> s = s') \<and>
   (vlog_name g = vlog_name g' \<longleftrightarrow> g = g') \<and>
   parse_seq (vlog_name g) = Inr None \<and> parse_vlog_gen (sst_name s) = Inr None \<and>
   \<not> has_tmp_suffix (sst_name s) \<and> \<not> has_tmp_suffix (vlog_name g) \<and> has_tmp_suffix (sst_name s @ tmp_suffix)"
  by (simp add: parse_seq_sst_name parse_vlog_gen_vlog_name seq_of_path_def sst_name_inj vlog_name_inj
      parse_other_kind tmp_names)

end
