(* ===== verification/Manifest.thy ===== *)
theory Manifest
  imports Naming Encoding Posix_Io
begin

text \<open>
  The manifest (\<open>src/db.cpp\<close>): the durable record of the live tables, newest first, with
  the next sequence number and the current value-log generation; its byte format, the
  atomic replacement by write, fsync and rename, and reading it back.
\<close>

definition kManMagic :: bytes where
  "kManMagic = lit ''LSMKVMN2''"

definition man_name :: bytes where
  "man_name = lit ''MANIFEST''"

definition man_tmp_name :: bytes where
  "man_tmp_name = lit ''MANIFEST.tmp''"

text \<open>\<open>level\<close> is an \<open>int32_t\<close>: an integer here, cast to 32 bits where the source casts.\<close>

record manifest_entry =
  me_name :: bytes
  me_level :: int

record manifest_data =
  man_next_seq :: u64
  man_current_gen :: u32
  man_tables :: "manifest_entry list"

fun put_entries :: "bytes \<Rightarrow> manifest_entry list \<Rightarrow> bytes" where
  "put_entries buf [] = buf"
| "put_entries buf (e # es) =
     (let buf = put_u32_le buf (of_nat (length (me_name e)));
          buf = buf @ me_name e;
          buf = put_u32_le buf (of_int (me_level e))
      in put_entries buf es)"

definition manifest_bytes :: "manifest_data \<Rightarrow> bytes" where
  "manifest_bytes m =
     (let buf = kManMagic;
          buf = put_u64_le buf (man_next_seq m);
          buf = put_u32_le buf (man_current_gen m);
          buf = put_u32_le buf (of_nat (length (man_tables m)))
      in put_entries buf (man_tables m))"

definition manifest_write :: "io \<Rightarrow> manifest_data \<Rightarrow> (disk, unit) prog" where
  "manifest_write io m =
     sbind (write_file_sync io ''manifest open'' ''manifest write'' ''manifest fsync''
              man_tmp_name (manifest_bytes m)) (\<lambda>_.
     sbind (d_rename io ''manifest rename'' man_tmp_name man_name) (\<lambda>_.
     fsync_dir io))"

definition need :: "bytes \<Rightarrow> nat \<Rightarrow> nat \<Rightarrow> unit res" where
  "need b p n = (if p + n > length b then Inl (RuntimeError ''manifest: truncated'') else Inr ())"

fun read_entries :: "bytes \<Rightarrow> nat \<Rightarrow> nat \<Rightarrow> manifest_entry list \<Rightarrow> manifest_entry list res" where
  "read_entries b 0 p es = Inr es"
| "read_entries b (Suc n) p es =
     rbind (need b p 4) (\<lambda>_.
     let len = unat (read_u32_le (drop p b)); p = p + 4 in
     rbind (need b p len) (\<lambda>_.
     let name = take len (drop p b); p = p + len in
     rbind (need b p 4) (\<lambda>_.
     let lv = sint (read_u32_le (drop p b)); p = p + 4 in
     read_entries b n p (es @ [\<lparr>me_name = name, me_level = lv\<rparr>]))))"

definition manifest_parse :: "bytes \<Rightarrow> manifest_data option res" where
  "manifest_parse b =
     rbind (need b 0 8) (\<lambda>_.
     if take 8 b \<noteq> kManMagic then Inr None
     else
       rbind (need b 8 8) (\<lambda>_.
       let ns = read_u64_le (drop 8 b) in
       rbind (need b 16 4) (\<lambda>_.
       let cg = read_u32_le (drop 16 b) in
       rbind (need b 20 4) (\<lambda>_.
       let count = read_u32_le (drop 20 b) in
       rbind (read_entries b (unat count) 24 []) (\<lambda>es.
       Inr (Some \<lparr>man_next_seq = ns, man_current_gen = cg, man_tables = es\<rparr>))))))"

definition manifest_read :: "io \<Rightarrow> disk \<Rightarrow> manifest_data option res" where
  "manifest_read io d =
     (case d_read d man_name of
        None \<Rightarrow> Inr None
      | Some b \<Rightarrow>
          (case io ''manifest open'' of
             Some (m, e) \<Rightarrow> Inl (SystemError e ''manifest open'')
           | None \<Rightarrow>
               (case io ''manifest read'' of
                  Some (m, e) \<Rightarrow> Inl (SystemError e ''manifest read'')
                | None \<Rightarrow> manifest_parse b)))"

subsection \<open>Round trip\<close>

definition entry_ok :: "manifest_entry \<Rightarrow> bool" where
  "entry_ok e \<longleftrightarrow> length (me_name e) \<le> UINT32_MAX \<and> - (2 ^ 31) \<le> me_level e \<and> me_level e < 2 ^ 31"

definition manifest_ok :: "manifest_data \<Rightarrow> bool" where
  "manifest_ok m \<longleftrightarrow> length (man_tables m) \<le> UINT32_MAX \<and> list_all entry_ok (man_tables m)"

definition enc_man_entry :: "manifest_entry \<Rightarrow> bytes" where
  "enc_man_entry e = put_u32_le [] (of_nat (length (me_name e))) @ me_name e @ put_u32_le [] (of_int (me_level e))"

lemma put_entries_eq: "put_entries buf es = buf @ concat (map enc_man_entry es)"
proof (induction es arbitrary: buf)
  case (Cons e es)
  let ?k = "of_nat (length (me_name e))"
  have "put_u32_le (put_u32_le buf ?k @ me_name e) (of_int (me_level e)) = buf @ enc_man_entry e"
    using put_u32_append [of buf ?k] put_u32_append [of "put_u32_le buf ?k @ me_name e"]
    by (simp add: enc_man_entry_def)
  with Cons show ?case by (simp add: Let_def)
qed simp

lemma sint_level: "- (2 ^ 31) \<le> i \<Longrightarrow> i < 2 ^ 31 \<Longrightarrow> sint (of_int i :: u32) = i"
  by (simp add: signed_of_int signed_take_bit_int_eq_self)

lemma read_entries_enc:
  assumes "list_all entry_ok es"
  shows "read_entries (pre @ concat (map enc_man_entry es)) (length es) (length pre) acc = Inr (acc @ es)"
  using assms
proof (induction es arbitrary: pre acc)
  case (Cons e es)
  let ?k = "put_u32_le [] (of_nat (length (me_name e)))" and ?l = "put_u32_le [] (of_int (me_level e))"
  let ?t = "concat (map enc_man_entry es)"
  let ?b = "pre @ ?k @ me_name e @ ?l @ ?t"
  have ok: "length (me_name e) \<le> UINT32_MAX" "sint (of_int (me_level e) :: u32) = me_level e"
    using Cons.prems sint_level by (auto simp: entry_ok_def)
  have e: "\<lparr>me_name = me_name e, me_level = me_level e\<rparr> = e" by simp
  have d4: "drop (length pre + 4) ?b = me_name e @ ?l @ ?t"
    using drop_exact [of "pre @ ?k" "length pre + 4" "me_name e @ ?l @ ?t"] by simp
  have dl: "drop (length pre + 4 + length (me_name e)) ?b = ?l @ ?t"
    using drop_exact [of "pre @ ?k @ me_name e" "length pre + 4 + length (me_name e)" "?l @ ?t"] by simp
  have step: "read_entries ?b (Suc (length es)) (length pre) acc =
      read_entries ?b (length es) (length pre + 4 + length (me_name e) + 4) (acc @ [e])"
    using ok d4 dl by (simp add: need_def Let_def e)
  have "read_entries (((pre @ ?k) @ me_name e @ ?l) @ ?t) (length es)
      (length ((pre @ ?k) @ me_name e @ ?l)) (acc @ [e]) = Inr ((acc @ [e]) @ es)"
    by (rule Cons.IH) (use Cons.prems in simp)
  then have "read_entries ?b (length es) (length pre + 4 + length (me_name e) + 4) (acc @ [e]) = Inr (acc @ e # es)"
    by (simp add: add.assoc)
  with step show ?case by (simp add: enc_man_entry_def [of e] del: read_entries.simps)
qed simp

lemma manifest_bytes_eq:
  "manifest_bytes m = (kManMagic @ put_u64_le [] (man_next_seq m) @ put_u32_le [] (man_current_gen m)
     @ put_u32_le [] (of_nat (length (man_tables m)))) @ concat (map enc_man_entry (man_tables m))"
  by (simp add: manifest_bytes_def Let_def put_entries_eq put_u64_append [of kManMagic]
      put_u32_append [of "_ @ _"] put_u32_append [of "put_u64_le _ _"])

lemma length_kManMagic [simp]: "length kManMagic = 8"
  by (simp add: kManMagic_def lit_def)

lemma manifest_parse_bytes:
  assumes "manifest_ok m"
  shows "manifest_parse (manifest_bytes m) = Inr (Some m)"
proof -
  let ?s = "put_u64_le [] (man_next_seq m)" and ?g = "put_u32_le [] (man_current_gen m)"
  let ?n = "put_u32_le [] (of_nat (length (man_tables m)))" and ?t = "concat (map enc_man_entry (man_tables m))"
  let ?b = "(kManMagic @ ?s @ ?g @ ?n) @ ?t"
  have d: "drop 8 ?b = ?s @ ?g @ ?n @ ?t" "drop 16 ?b = ?g @ ?n @ ?t" "drop 20 ?b = ?n @ ?t"
    using drop_exact [of kManMagic 8 "?s @ ?g @ ?n @ ?t"] drop_exact [of "kManMagic @ ?s" 16 "?g @ ?n @ ?t"]
      drop_exact [of "kManMagic @ ?s @ ?g" 20 "?n @ ?t"] by simp_all
  have ok: "list_all entry_ok (man_tables m)" "length (man_tables m) \<le> UINT32_MAX"
    using assms by (simp_all add: manifest_ok_def)
  have "read_entries ?b (length (man_tables m)) (length (kManMagic @ ?s @ ?g @ ?n)) [] = Inr ([] @ man_tables m)"
    by (rule read_entries_enc [OF ok(1)])
  then have r: "read_entries ?b (length (man_tables m)) 24 [] = Inr (man_tables m)" by simp
  have t: "take 8 ?b = kManMagic" by simp
  show ?thesis
    unfolding manifest_bytes_eq manifest_parse_def t d
    using ok(2) r by (simp add: need_def Let_def read_u64_append read_u32_append)
qed

subsection \<open>Atomic replacement\<close>

lemma man_names [simp]: "man_name \<noteq> man_tmp_name" "man_tmp_name \<noteq> man_name" "hd man_name = 77" "hd man_tmp_name = 77"
  by (simp_all add: man_name_def man_tmp_name_def lit_def)

lemma durable_cong:
  assumes "d_ino d' n = d_ino d n"
    and "\<And>i. d_ino d n = Some i \<Longrightarrow> blobs d' i = blobs d i \<and> synced d' i = synced d i"
  shows "d_read d' n = d_read d n" and "durable d n \<Longrightarrow> durable d' n"
  using assms by (cases "d_ino d n"; simp add: d_read_def durable_def)+

lemma manifest_write_cases:
  assumes wf: "disk_wf d" and dur: "durable d man_name" and run: "manifest_write io m d = (r, d')"
  shows "durable d' man_name \<and> (d_read d' man_name = d_read d man_name \<or> d_read d' man_name = Some (manifest_bytes m)) \<and>
    (r = Inr () \<longrightarrow> d_read d' man_name = Some (manifest_bytes m))"
proof -
  let ?w = "write_file_sync io ''manifest open'' ''manifest write'' ''manifest fsync'' man_tmp_name (manifest_bytes m)"
  obtain r1 d1 where w: "?w d = (r1, d1)" by (cases "?w d")
  have same: "d_ino d1 man_name = d_ino d man_name"
    using write_file_sync_ino [OF w] by simp
  have blob: "blobs d1 i = blobs d i \<and> synced d1 i = synced d i" if "d_ino d man_name = Some i" for i
    using write_file_sync_inode [OF w] ino_of_other [OF wf that, of man_tmp_name] by simp
  note old = durable_cong [of d1 man_name d, OF same blob]
  show ?thesis
  proof (cases r1)
    case (Inl e)
    then have "r = Inl e" "d' = d1" using run w by (simp_all add: manifest_write_def sbind_def)
    then show ?thesis using old dur by simp
  next
    case (Inr u)
    let ?i = "ino_of man_tmp_name d"
    have d1: "d1 = d_store man_tmp_name (manifest_bytes m) d" using write_file_sync_done w Inr by simp
    then have tmp: "d_ino d1 man_tmp_name = Some ?i" "blobs d1 ?i = manifest_bytes m"
      "synced d1 ?i = length (manifest_bytes m)" by (simp_all add: d_store_eqs)
    obtain r2 d2 where mv: "d_rename io ''manifest rename'' man_tmp_name man_name d1 = (r2, d2)"
      by (cases "d_rename io ''manifest rename'' man_tmp_name man_name d1")
    show ?thesis
    proof (cases r2)
      case (Inl e)
      then have "d2 = d1" using mv tmp(1) by (auto simp: d_rename_def split: option.splits)
      moreover have "r = Inl e" "d' = d2"
        using run w mv \<open>r1 = Inr u\<close> Inl by (simp_all add: manifest_write_def sbind_def)
      ultimately show ?thesis using old dur by simp
    next
      case (Inr u2)
      then have "d2 = d_moved man_tmp_name man_name d1"
        using mv tmp(1) by (auto simp: d_rename_def d_moved_def no_faults_def split: option.splits)
      moreover have "d' = d2"
        using run w mv \<open>r1 = Inr u\<close> Inr fsync_dir_disk [of io d2] by (simp add: manifest_write_def sbind_def)
      ultimately have "d_ino d' man_name = Some ?i" "blobs d' = blobs d1" "synced d' = synced d1"
        using d_moved_eqs [OF tmp(1)] by simp_all
      then show ?thesis using tmp by (simp add: d_read_def durable_def)
    qed
  qed
qed

subsection \<open>Properties\<close>

text \<open>
  Property C26: what \<open>manifest_write\<close> writes, \<open>manifest_read\<close> reads back unchanged: the
  sequence number, the generation, and every table with its name, its level and its place
  in the age order.
\<close>

theorem manifest_roundtrip:
  assumes "manifest_ok m"
  shows "\<exists>d'. manifest_write no_faults m d = (Inr (), d') \<and> manifest_read no_faults d' = Inr (Some m)"
proof -
  let ?d = "d_store man_tmp_name (manifest_bytes m) d"
  have i: "d_ino ?d man_tmp_name = Some (ino_of man_tmp_name d)" by (simp add: d_store_eqs)
  have "manifest_write no_faults m d = (Inr (), d_moved man_tmp_name man_name ?d)"
    by (simp add: manifest_write_def sbind_def write_file_sync_ok d_rename_ok [OF i] fsync_dir_ok)
  moreover have "d_read (d_moved man_tmp_name man_name ?d) man_name = Some (manifest_bytes m)"
    by (simp add: d_read_def d_moved_eqs [OF i] d_store_eqs)
  then have "manifest_read no_faults (d_moved man_tmp_name man_name ?d) = Inr (Some m)"
    by (simp add: manifest_read_def no_faults_def manifest_parse_bytes [OF assms])
  ultimately show ?thesis by blast
qed

theorem manifest_roundtrip_witness:
  "\<exists>d'. manifest_write no_faults
      \<lparr>man_next_seq = 7, man_current_gen = 1,
       man_tables = [\<lparr>me_name = [115, 49], me_level = - 1\<rparr>, \<lparr>me_name = [115], me_level = 2\<rparr>]\<rparr>
      \<lparr>dents = [], blobs = (\<lambda>_. []), synced = (\<lambda>_. 0), next_ino = 0\<rparr> = (Inr (), d') \<and>
    manifest_read no_faults d' = Inr (Some
      \<lparr>man_next_seq = 7, man_current_gen = 1,
       man_tables = [\<lparr>me_name = [115, 49], me_level = - 1\<rparr>, \<lparr>me_name = [115], me_level = 2\<rparr>]\<rparr>)"
  by (rule manifest_roundtrip) (simp add: manifest_ok_def entry_ok_def UINT32_MAX_def)

text \<open>
  Property C25: replacing the manifest is atomic. Whichever system call fails, and wherever
  a crash then cuts the files, the manifest found afterwards is the complete old one or the
  complete new one; when \<open>manifest_write\<close> returned it is the new one.
\<close>

theorem manifest_write_atomic:
  assumes "disk_wf d" and "durable d man_name" and "crash_cut (snd (manifest_write io m d)) d'"
  shows "(d_read d' man_name = d_read d man_name \<or> d_read d' man_name = Some (manifest_bytes m)) \<and>
    (fst (manifest_write io m d) = Inr () \<longrightarrow> d_read d' man_name = Some (manifest_bytes m))"
proof -
  obtain r d1 where run: "manifest_write io m d = (r, d1)" by (cases "manifest_write io m d")
  from manifest_write_cases [OF assms(1,2) run] crash_read [of d1 d' man_name] assms(3) run show ?thesis by auto
qed

text \<open>The witness: the fsync of the temporary file fails.\<close>

definition ex_disk :: disk where
  "ex_disk = \<lparr>dents = [(man_name, 0)], blobs = (\<lambda>_. [1, 2, 3]), synced = (\<lambda>_. 3), next_ino = 1\<rparr>"

definition ex_fsync_fault :: io where
  "ex_fsync_fault ctx = (if ctx = ''manifest fsync'' then Some (0, 5) else None)"

lemma ex_disk_wf: "disk_wf ex_disk" "durable ex_disk man_name"
  by (auto simp: disk_wf_def durable_def ex_disk_def d_ino_def split: if_splits)

lemma ex_disk_read: "d_read ex_disk man_name = Some [1, 2, 3]"
  by (simp add: ex_disk_def d_read_def d_ino_def)

theorem manifest_write_atomic_witness:
  "\<exists>d'. crash_cut (snd (manifest_write ex_fsync_fault
        \<lparr>man_next_seq = 7, man_current_gen = 1, man_tables = []\<rparr> ex_disk)) d' \<and>
     (d_read d' man_name = Some [1, 2, 3] \<or>
      d_read d' man_name = Some (manifest_bytes \<lparr>man_next_seq = 7, man_current_gen = 1, man_tables = []\<rparr>))"
  (is "\<exists>d'. crash_cut ?d d' \<and> _")
  using manifest_write_atomic [OF ex_disk_wf crash_cut_intact [of ?d]] crash_cut_intact [of ?d] ex_disk_read
  by auto

end
