(* ===== verification/Db_Core.thy ===== *)
theory Db_Core
  imports Wal Memtable Value_Log Compaction Manifest
begin

text \<open>
  The engine object (\<open>include/lsmkv/db.h\<close>, \<open>src/db.cpp\<close>): its state, and the operations
  that write it: put, delete, sealing, and the synchronous and the background flush.

  Every definition is one critical section or one piece of work that a thread does without
  the lock, so the interleavings of the threads are sequences of these pieces.
  \<open>cv_.wait\<close> splits an operation: \<open>maybe_seal\<close> counts the writer as waiting, and
  \<open>maybe_seal_wake\<close> is what the writer does once it is woken with its condition true.

  An object behind a \<open>shared_ptr\<close> lives until its last owner releases it. A table or a
  value log that was marked obsolete goes to \<open>db_dead_ssts\<close> or \<open>db_dead_vlogs\<close>, and
  \<open>reap_sst\<close>, \<open>reap_vlog\<close> run its destructor at some later moment.
\<close>

record db_stats =
  st_user_bytes :: u64
  st_wal_bytes :: u64
  st_flush_bytes :: u64
  st_compaction_bytes :: u64
  st_vlog_bytes :: u64
  st_writes :: u64
  st_deletes :: u64
  st_reads :: u64
  st_bloom_checks :: u64
  st_bloom_skips :: u64
  st_bloom_fps :: u64
  st_compactions :: u64

definition stats0 :: db_stats where
  "stats0 = \<lparr>st_user_bytes = 0, st_wal_bytes = 0, st_flush_bytes = 0, st_compaction_bytes = 0,
     st_vlog_bytes = 0, st_writes = 0, st_deletes = 0, st_reads = 0, st_bloom_checks = 0,
     st_bloom_skips = 0, st_bloom_fps = 0, st_compactions = 0\<rparr>"

record db =
  db_threshold :: nat
  db_min_merge :: nat
  db_size_ratio :: real
  db_sep_threshold :: nat
  db_leveled :: bool
  db_target_bytes :: u64
  db_l1_bytes :: u64
  db_wal :: wal
  db_mem :: memtable
  db_fmem :: memtable
  db_ssts :: "sstable list"
  db_level :: "nat \<Rightarrow> int option"
  db_vlogs :: "(u32 \<times> vlog) list"
  db_gen :: u32
  db_seq :: u64
  db_bloom_on :: bool
  db_stop :: bool
  db_compacting :: bool
  db_has_flushing :: bool
  db_fseq :: u64
  db_stat :: db_stats
  db_disk :: disk
  db_next_obj :: nat
  db_waiters :: nat
  db_dead_ssts :: "sstable list"
  db_dead_vlogs :: "vlog list"

definition on_disk :: "(disk, 'a) prog \<Rightarrow> (db, 'a) prog" where
  "on_disk m s = (case m (db_disk s) of (r, d) \<Rightarrow> (r, s\<lparr>db_disk := d\<rparr>))"

definition add_stats :: "(db_stats \<Rightarrow> db_stats) \<Rightarrow> (db, unit) prog" where
  "add_stats f = supd (\<lambda>s. s\<lparr>db_stat := f (db_stat s)\<rparr>)"

definition wal_record_bytes :: "bytes \<Rightarrow> bytes \<Rightarrow> u64" where
  "wal_record_bytes key val = 1 + 4 + of_nat (length key) + 4 + of_nat (length val)"

text \<open>\<open>vlogs_[gen] = v\<close>.\<close>

definition vlogs_set :: "u32 \<Rightarrow> vlog \<Rightarrow> (u32 \<times> vlog) list \<Rightarrow> (u32 \<times> vlog) list" where
  "vlogs_set g v vs = (g, v) # filter (\<lambda>(h, _). h \<noteq> g) vs"

subsection \<open>Manifest of the current state\<close>

definition db_manifest :: "db \<Rightarrow> manifest_data" where
  "db_manifest s =
     \<lparr>man_next_seq = db_seq s, man_current_gen = db_gen s,
      man_tables = map (\<lambda>t. \<lparr>me_name = sst_path t,
         me_level = (case db_level s (sst_obj t) of None \<Rightarrow> 0 | Some l \<Rightarrow> l)\<rparr>) (db_ssts s)\<rparr>"

definition write_manifest_locked :: "io \<Rightarrow> (db, unit) prog" where
  "write_manifest_locked io = sbind (sget db_manifest) (\<lambda>m. on_disk (manifest_write io m))"

subsection \<open>Tables and value logs as objects\<close>

text \<open>\<open>std::make_shared<SSTable>(path)\<close>: a fresh object.\<close>

definition make_sst :: "io \<Rightarrow> bytes \<Rightarrow> (db, sstable) prog" where
  "make_sst io path s =
     (case sst_open io (db_next_obj s) path (db_disk s) of
        Inl e \<Rightarrow> (Inl e, s)
      | Inr t \<Rightarrow> (Inr t, s\<lparr>db_next_obj := Suc (db_next_obj s)\<rparr>))"

text \<open>\<open>SSTable::build\<close> under the temporary name, then \<open>rename\<close> to the final name.\<close>

definition build_rename :: "io \<Rightarrow> (real \<Rightarrow> real) \<Rightarrow> string \<Rightarrow> u64 \<Rightarrow> kv_record list \<Rightarrow> (db, u64) prog" where
  "build_rename io lg ctx seq recs =
     (let final_path = sst_name seq; tmp_path = final_path @ tmp_suffix in
      sbind (on_disk (sst_build io lg tmp_path recs)) (\<lambda>bytes.
      sbind (on_disk (d_rename io ctx tmp_path final_path)) (\<lambda>_.
      sret bytes)))"

text \<open>Append through the log object of a generation, which the map and the flusher share.\<close>

definition db_vlog_append :: "io \<Rightarrow> u32 \<Rightarrow> bytes \<Rightarrow> bytes \<Rightarrow> (db, value_ptr) prog" where
  "db_vlog_append io gen key val s =
     (case map_of (db_vlogs s) gen of
        None \<Rightarrow> (Inl (Undefined ''vlogs_[gen]''), s)
      | Some v \<Rightarrow>
          (case vlog_append io key val v (db_disk s) of
             (Inl e, d) \<Rightarrow> (Inl e, s\<lparr>db_disk := d\<rparr>)
           | (Inr (p, v'), d) \<Rightarrow> (Inr p, s\<lparr>db_disk := d, db_vlogs := vlogs_set gen v' (db_vlogs s)\<rparr>)))"

definition db_vlog_sync :: "io \<Rightarrow> u32 \<Rightarrow> (db, unit) prog" where
  "db_vlog_sync io gen s =
     (case map_of (db_vlogs s) gen of
        None \<Rightarrow> (Inl (Undefined ''vlogs_[gen]''), s)
      | Some v \<Rightarrow> on_disk (vlog_sync io v) s)"

text \<open>The separation loop of both flushes: the rewritten records and the bytes written.\<close>

definition separate_step ::
  "io \<Rightarrow> nat \<Rightarrow> u32 \<Rightarrow> kv_record \<Rightarrow> kv_record list \<times> u64 \<Rightarrow> (db, kv_record list \<times> u64) prog" where
  "separate_step io sep gen r acc =
     (case acc of (out, written) \<Rightarrow>
        if rec_op r = Put \<and> length (rec_value r) \<ge> sep then
          sbind (db_vlog_append io gen (rec_key r) (rec_value r)) (\<lambda>p.
          sret (out @ [r\<lparr>rec_separated := True, rec_vptr := p, rec_value := []\<rparr>],
                written + (4 + of_nat (length (rec_key r)) + 4 + of_nat (length (rec_value r)))))
        else sret (out @ [r], written))"

definition separate :: "io \<Rightarrow> nat \<Rightarrow> u32 \<Rightarrow> kv_record list \<Rightarrow> (db, kv_record list \<times> u64) prog" where
  "separate io sep gen recs =
     sbind (sfold (separate_step io sep gen) recs ([], 0)) (\<lambda>(out, written).
     sbind (if written \<noteq> 0 then db_vlog_sync io gen else sret ()) (\<lambda>_.
     sret (out, written)))"

subsection \<open>Flushing\<close>

definition take_seq :: "(db, u64) prog" where
  "take_seq s = (Inr (db_seq s), s\<lparr>db_seq := db_seq s + 1\<rparr>)"

definition open_wal :: "io \<Rightarrow> bool \<Rightarrow> (db, unit) prog" where
  "open_wal io trunc =
     sbind (on_disk (wal_open io wal_name trunc)) (\<lambda>w.
     supd (\<lambda>s. s\<lparr>db_wal := fst (wal_move_assign (db_wal s) w)\<rparr>))"

text \<open>A fresh table goes to level 0 and to the front of the list.\<close>

definition insert_flushed :: "sstable \<Rightarrow> db \<Rightarrow> db" where
  "insert_flushed t s =
     s\<lparr>db_level := (db_level s)(sst_obj t \<mapsto> 0), db_ssts := t # db_ssts s\<rparr>"

definition flush_locked :: "io \<Rightarrow> (real \<Rightarrow> real) \<Rightarrow> (db, unit) prog" where
  "flush_locked io lg =
     sbind (sget (\<lambda>s. mt_empty (db_mem s))) (\<lambda>empty.
     if empty then sret ()
     else
       sbind take_seq (\<lambda>seq.
       sbind (sget (\<lambda>s. (mt_snapshot (db_mem s), db_sep_threshold s, db_gen s))) (\<lambda>(recs, sep, gen).
       sbind (separate io sep gen recs) (\<lambda>(recs, vlog_written).
       sbind (build_rename io lg ''SSTable rename'' seq recs) (\<lambda>bytes.
       sbind (on_disk (fsync_dir io)) (\<lambda>_.
       sbind (add_stats (\<lambda>st. st\<lparr>st_flush_bytes := st_flush_bytes st + bytes,
                                 st_vlog_bytes := st_vlog_bytes st + vlog_written\<rparr>)) (\<lambda>_.
       sbind (make_sst io (sst_name seq)) (\<lambda>flushed.
       sbind (supd (insert_flushed flushed)) (\<lambda>_.
       sbind (write_manifest_locked io) (\<lambda>_.
       sbind (supd (\<lambda>s. s\<lparr>db_mem := memtable0\<rparr>)) (\<lambda>_.
       open_wal io True)))))))))))"

definition seal_locked :: "io \<Rightarrow> (db, unit) prog" where
  "seal_locked io =
     sbind (sget (\<lambda>s. mt_empty (db_mem s))) (\<lambda>empty.
     if empty then sret ()
     else
       sbind (sget db_wal) (\<lambda>w.
       sbind (on_disk (wal_sync io w)) (\<lambda>_.
       sbind (on_disk (d_rename io ''seal WAL rename'' wal_name flushing_wal_name)) (\<lambda>_.
       sbind (on_disk (fsync_dir io)) (\<lambda>_.
       sbind (open_wal io True) (\<lambda>_.
       sbind take_seq (\<lambda>seq.
       supd (\<lambda>s. s\<lparr>db_fseq := seq, db_fmem := db_mem s, db_mem := memtable0,
                    db_has_flushing := True\<rparr>))))))))"

text \<open>The wait condition of \<open>maybe_seal\<close> and \<open>flush\<close>.\<close>

definition slot_free :: "db \<Rightarrow> bool" where
  "slot_free s \<longleftrightarrow> \<not> db_has_flushing s \<or> db_stop s"

definition maybe_seal :: "io \<Rightarrow> (db, unit) prog" where
  "maybe_seal io s =
     (if unat (mt_size (db_mem s)) < db_threshold s then (Inr (), s)
      else if \<not> slot_free s then (Inr (), s\<lparr>db_waiters := Suc (db_waiters s)\<rparr>)
      else if db_stop s then (Inr (), s)
      else seal_locked io s)"

definition maybe_seal_wake :: "io \<Rightarrow> (db, unit) prog" where
  "maybe_seal_wake io s =
     (let s = s\<lparr>db_waiters := db_waiters s - 1\<rparr> in
      if db_stop s then (Inr (), s) else seal_locked io s)"

subsection \<open>Writes\<close>

definition db_put :: "io \<Rightarrow> bytes \<Rightarrow> bytes \<Rightarrow> bool \<Rightarrow> (db, unit) prog" where
  "db_put io key val sync =
     sbind (sget db_wal) (\<lambda>w.
     sbind (on_disk (wal_append io (mk_record Put key val) sync w)) (\<lambda>_.
     sbind (supd (\<lambda>s. s\<lparr>db_mem := mt_put key val (db_mem s)\<rparr>)) (\<lambda>_.
     sbind (add_stats (\<lambda>st. st\<lparr>st_writes := st_writes st + 1,
              st_user_bytes := st_user_bytes st + (of_nat (length key) + of_nat (length val)),
              st_wal_bytes := st_wal_bytes st + wal_record_bytes key val\<rparr>)) (\<lambda>_.
     maybe_seal io))))"

definition db_del :: "io \<Rightarrow> bytes \<Rightarrow> bool \<Rightarrow> (db, unit) prog" where
  "db_del io key sync =
     sbind (sget db_wal) (\<lambda>w.
     sbind (on_disk (wal_append io (mk_record Delete key []) sync w)) (\<lambda>_.
     sbind (supd (\<lambda>s. s\<lparr>db_mem := mt_del key (db_mem s)\<rparr>)) (\<lambda>_.
     sbind (add_stats (\<lambda>st. st\<lparr>st_deletes := st_deletes st + 1,
              st_user_bytes := st_user_bytes st + of_nat (length key),
              st_wal_bytes := st_wal_bytes st + wal_record_bytes key []\<rparr>)) (\<lambda>_.
     maybe_seal io))))"

definition db_sync :: "io \<Rightarrow> (db, unit) prog" where
  "db_sync io = sbind (sget db_wal) (\<lambda>w. on_disk (wal_sync io w))"

text \<open>\<open>flush\<close> once its wait condition \<open>slot_free\<close> holds.\<close>

definition db_flush :: "io \<Rightarrow> (real \<Rightarrow> real) \<Rightarrow> (db, unit) prog" where
  "db_flush io lg =
     sbind (sget db_stop) (\<lambda>stop. if stop then sret () else flush_locked io lg)"

definition set_bloom_enabled :: "bool \<Rightarrow> (db, unit) prog" where
  "set_bloom_enabled on = supd (\<lambda>s. s\<lparr>db_bloom_on := on\<rparr>)"

subsection \<open>The background flusher\<close>

record flush_job =
  fj_records :: "kv_record list"
  fj_gen :: u32
  fj_seq :: u64

text \<open>The first critical section; the thread waits until a memtable is sealed.\<close>

definition flush_begin :: "db \<Rightarrow> flush_job" where
  "flush_begin s = \<lparr>fj_records = mt_snapshot (db_fmem s), fj_gen = db_gen s, fj_seq = db_fseq s\<rparr>"

text \<open>Off the lock: separate the values, build, rename, open.\<close>

definition flush_work :: "io \<Rightarrow> (real \<Rightarrow> real) \<Rightarrow> flush_job \<Rightarrow> (db, sstable \<times> u64 \<times> u64) prog" where
  "flush_work io lg j =
     sbind (sget db_sep_threshold) (\<lambda>sep.
     sbind (separate io sep (fj_gen j) (fj_records j)) (\<lambda>(recs, vlog_written).
     sbind (build_rename io lg ''flush rename'' (fj_seq j) recs) (\<lambda>bytes.
     sbind (on_disk (fsync_dir io)) (\<lambda>_.
     sbind (make_sst io (sst_name (fj_seq j))) (\<lambda>output.
     sret (output, bytes, vlog_written))))))"

text \<open>The second critical section. The removal of the sealed log ignores errors.\<close>

definition flush_install :: "io \<Rightarrow> sstable \<times> u64 \<times> u64 \<Rightarrow> (db, unit) prog" where
  "flush_install io res =
     (case res of (output, bytes, vlog_written) \<Rightarrow>
        sbind (supd (insert_flushed output)) (\<lambda>_.
        sbind (write_manifest_locked io) (\<lambda>_.
        sbind (add_stats (\<lambda>st. st\<lparr>st_flush_bytes := st_flush_bytes st + bytes,
                                  st_vlog_bytes := st_vlog_bytes st + vlog_written\<rparr>)) (\<lambda>_.
        sbind (supd (\<lambda>s. s\<lparr>db_fmem := memtable0, db_has_flushing := False\<rparr>)) (\<lambda>_.
        supd (\<lambda>s. case io ''remove wal-flushing'' of
                     Some _ \<Rightarrow> s
                   | None \<Rightarrow> s\<lparr>db_disk := d_unlink flushing_wal_name (db_disk s)\<rparr>))))))"

subsection \<open>Destructors\<close>

definition reap_sst :: "db \<Rightarrow> db" where
  "reap_sst s = (case db_dead_ssts s of [] \<Rightarrow> s
     | t # ts \<Rightarrow> s\<lparr>db_dead_ssts := ts, db_disk := sst_destroy t (db_disk s)\<rparr>)"

definition reap_vlog :: "db \<Rightarrow> db" where
  "reap_vlog s = (case db_dead_vlogs s of [] \<Rightarrow> s
     | v # vs \<Rightarrow> s\<lparr>db_dead_vlogs := vs, db_disk := vlog_destroy v (db_disk s)\<rparr>)"

text \<open>\<open>~DB\<close>: no thread runs any more, and every object dies.\<close>

definition db_close :: "db \<Rightarrow> disk" where
  "db_close s =
     (let s = s\<lparr>db_stop := True\<rparr> in
      fold vlog_destroy (db_dead_vlogs s @ map snd (db_vlogs s))
        (fold sst_destroy (db_dead_ssts s @ db_ssts s) (db_disk s)))"

end
