(* ===== verification/Db_Read.thy ===== *)
theory Db_Read
  imports Db_Core
begin

text \<open>
  Reading: \<open>get\<close> and \<open>scan\<close> of \<open>src/db.cpp\<close>. Both have a critical section that looks into
  the memtables and copies the list of tables and the map of value logs, and a search over
  that snapshot without the lock. The search is a separate definition that takes the
  snapshot and the disk as it is when the search runs.
\<close>

record snapshot =
  sn_ssts :: "sstable list"
  sn_vlogs :: "(u32 \<times> vlog) list"
  sn_bloom :: bool

definition take_snapshot :: "db \<Rightarrow> snapshot" where
  "take_snapshot s = \<lparr>sn_ssts = db_ssts s, sn_vlogs = db_vlogs s, sn_bloom = db_bloom_on s\<rparr>"

text \<open>\<open>vlog_snap.at(ptr.gen)->read(ptr)\<close>.\<close>

definition vlog_deref :: "io \<Rightarrow> (u32 \<times> vlog) list \<Rightarrow> disk \<Rightarrow> value_ptr \<Rightarrow> bytes res" where
  "vlog_deref io vlogs d p =
     (case map_of vlogs (vp_gen p) of
        None \<Rightarrow> Inl (OutOfRange ''map::at'')
      | Some v \<Rightarrow> vlog_read io p v d)"

definition rec_value_of :: "io \<Rightarrow> (u32 \<times> vlog) list \<Rightarrow> disk \<Rightarrow> kv_record \<Rightarrow> bytes res" where
  "rec_value_of io vlogs d r =
     (if rec_separated r then vlog_deref io vlogs d (rec_vptr r) else Inr (rec_value r))"

subsection \<open>get\<close>

datatype get_phase = Answer "bytes option" | Search snapshot

definition get_locked :: "bytes \<Rightarrow> db \<Rightarrow> get_phase" where
  "get_locked key s =
     (case mt_get (db_mem s) key of
        Some v \<Rightarrow> Answer (Some v)
      | None \<Rightarrow>
          if mt_is_tombstone (db_mem s) key then Answer None
          else if db_has_flushing s then
            (case mt_get (db_fmem s) key of
               Some v \<Rightarrow> Answer (Some v)
             | None \<Rightarrow>
                 if mt_is_tombstone (db_fmem s) key then Answer None
                 else Search (take_snapshot s))
          else Search (take_snapshot s))"

text \<open>The search over the tables, newest first; its state is the counters it bumps.\<close>

fun get_search ::
  "io \<Rightarrow> (u32 \<times> vlog) list \<Rightarrow> bool \<Rightarrow> disk \<Rightarrow> bytes \<Rightarrow> sstable list \<Rightarrow> (db_stats, bytes option) prog" where
  "get_search io vlogs use_bloom d key [] = sret None"
| "get_search io vlogs use_bloom d key (t # ts) =
     (let probe =
        sbind (slift (get_no_bloom io t key)) (\<lambda>r.
          case r of
            None \<Rightarrow>
              sbind (supd (\<lambda>st. if use_bloom then st\<lparr>st_bloom_fps := st_bloom_fps st + 1\<rparr> else st)) (\<lambda>_.
              get_search io vlogs use_bloom d key ts)
          | Some r \<Rightarrow>
              if rec_op r = Delete then sret None
              else sbind (slift (rec_value_of io vlogs d r)) (\<lambda>v. sret (Some v)))
      in
      if use_bloom then
        sbind (supd (\<lambda>st. st\<lparr>st_bloom_checks := st_bloom_checks st + 1\<rparr>)) (\<lambda>_.
        sbind (slift (may_contain t key)) (\<lambda>maybe1.
        if \<not> maybe1 then
          sbind (supd (\<lambda>st. st\<lparr>st_bloom_skips := st_bloom_skips st + 1\<rparr>)) (\<lambda>_.
          get_search io vlogs use_bloom d key ts)
        else probe))
      else probe)"

definition on_stats :: "(db_stats, 'a) prog \<Rightarrow> (db, 'a) prog" where
  "on_stats m s = (case m (db_stat s) of (r, st) \<Rightarrow> (r, s\<lparr>db_stat := st\<rparr>))"

definition get_finish :: "io \<Rightarrow> bytes \<Rightarrow> get_phase \<Rightarrow> (db, bytes option) prog" where
  "get_finish io key ph s =
     (case ph of
        Answer a \<Rightarrow> (Inr a, s)
      | Search sn \<Rightarrow> on_stats (get_search io (sn_vlogs sn) (sn_bloom sn) (db_disk s) key (sn_ssts sn)) s)"

definition db_get :: "io \<Rightarrow> bytes \<Rightarrow> (db, bytes option) prog" where
  "db_get io key =
     sbind (add_stats (\<lambda>st. st\<lparr>st_reads := st_reads st + 1\<rparr>)) (\<lambda>_.
     sbind (sget (get_locked key)) (get_finish io key))"

subsection \<open>scan\<close>

text \<open>The position of \<open>scan\<close> in one sorted source: the source and the index into it.\<close>

record scan_cursor =
  sc_source :: "kv_record list"
  sc_cur :: nat

definition sc_valid :: "scan_cursor \<Rightarrow> bool" where
  "sc_valid c \<longleftrightarrow> sc_cur c < length (sc_source c)"

definition sc_record :: "scan_cursor \<Rightarrow> kv_record" where
  "sc_record c = sc_source c ! sc_cur c"

definition sc_next :: "scan_cursor \<Rightarrow> scan_cursor res" where
  "sc_next c = Inr (c\<lparr>sc_cur := sc_cur c + 1\<rparr>)"

function scan_loop ::
  "io \<Rightarrow> (u32 \<times> vlog) list \<Rightarrow> disk \<Rightarrow> scan_cursor list \<Rightarrow> (bytes \<times> bytes) list \<Rightarrow> (bytes \<times> bytes) list res" where
  "scan_loop io vlogs d cs out =
     (case kmin sc_valid sc_record cs None of
        None \<Rightarrow> Inr out
      | Some min_key \<Rightarrow>
          (case knewest sc_valid sc_record min_key cs of
             None \<Rightarrow> Inl (Undefined ''sources[newest]'')
           | Some c \<Rightarrow>
               let rec = sc_record c; live = (rec_op rec = Put) in
               rbind (if live then rec_value_of io vlogs d rec else Inr []) (\<lambda>val.
               rbind (kadvance sc_valid sc_record sc_next min_key cs) (\<lambda>cs'.
               scan_loop io vlogs d cs' (if live then out @ [(min_key, val)] else out)))))"
  by pat_completeness auto
termination
proof (relation "measure (\<lambda>(io, vlogs, d, cs, out). sum_list (map (\<lambda>c. length (sc_source c) - sc_cur c) cs))", goal_cases)
  case 1
  show ?case by simp
next
  case (2 io vlogs d cs out min_key c rec live val cs')
  have ex: "\<exists>c\<in>set cs. sc_valid c \<and> rec_key (sc_record c) = min_key"
    using kmin_Some [OF 2(1)] by simp
  have dec: "length (sc_source c') - sc_cur c' < length (sc_source c) - sc_cur c"
    if "sc_valid c" "sc_next c = Inr c'" for c c'
    using that by (auto simp: sc_valid_def sc_next_def)
  show ?case
    using kadvance_decreases [OF 2(6) dec] ex by simp
qed

declare scan_loop.simps [simp del]

fun range_all :: "io \<Rightarrow> sstable list \<Rightarrow> bytes \<Rightarrow> bytes \<Rightarrow> kv_record list list res" where
  "range_all io [] a b = Inr []"
| "range_all io (t # ts) a b =
     rbind (sst_range io t a b) (\<lambda>rs. rbind (range_all io ts a b) (\<lambda>rss. Inr (rs # rss)))"

text \<open>The critical section: the ranges of the memtables, and the snapshot.\<close>

definition scan_locked :: "bytes \<Rightarrow> bytes \<Rightarrow> db \<Rightarrow> kv_record list list \<times> snapshot" where
  "scan_locked a b s =
     ([mt_range (db_mem s) a b] @ (if db_has_flushing s then [mt_range (db_fmem s) a b] else []),
      take_snapshot s)"

definition scan_finish ::
  "io \<Rightarrow> bytes \<Rightarrow> bytes \<Rightarrow> kv_record list list \<times> snapshot \<Rightarrow> disk \<Rightarrow> (bytes \<times> bytes) list res" where
  "scan_finish io a b st d =
     (case st of (sources, sn) \<Rightarrow>
        rbind (range_all io (sn_ssts sn) a b) (\<lambda>rss.
        scan_loop io (sn_vlogs sn) d
          (map (\<lambda>src. \<lparr>sc_source = src, sc_cur = 0\<rparr>) (sources @ rss)) []))"

definition db_scan :: "io \<Rightarrow> bytes \<Rightarrow> bytes \<Rightarrow> (db, (bytes \<times> bytes) list) prog" where
  "db_scan io a b =
     sbind (add_stats (\<lambda>st. st\<lparr>st_reads := st_reads st + 1\<rparr>)) (\<lambda>_.
     sbind (sget (\<lambda>s. scan_finish io a b (scan_locked a b s) (db_disk s))) slift)"

subsection \<open>Accessors\<close>

definition memtable_entry_count :: "db \<Rightarrow> nat" where
  "memtable_entry_count s = mt_entry_count (db_mem s)"

definition memtable_bytes :: "db \<Rightarrow> u64" where
  "memtable_bytes s = mt_size (db_mem s)"

definition memtable_tombstones :: "db \<Rightarrow> nat" where
  "memtable_tombstones s = mt_tombstone_count (db_mem s)"

definition sstable_count :: "db \<Rightarrow> nat" where
  "sstable_count s = length (db_ssts s)"

definition disk_bytes :: "db \<Rightarrow> u64" where
  "disk_bytes s = fold (\<lambda>t total1. total1 + sst_file_size t) (db_ssts s) 0"

record sstable_info =
  si_size_bytes :: u64
  si_records :: u64
  si_min_key :: bytes
  si_max_key :: bytes
  si_tier :: int

definition sstable_infos :: "(real \<Rightarrow> real) \<Rightarrow> db \<Rightarrow> sstable_info list" where
  "sstable_infos lg s =
     map (\<lambda>t. \<lparr>si_size_bytes = sst_file_size t, si_records = sst_num_records t,
               si_min_key = sst_min_key t, si_max_key = sst_max_key t,
               si_tier = (if db_leveled s
                          then (case db_level s (sst_obj t) of None \<Rightarrow> 0 | Some l \<Rightarrow> l)
                          else \<lfloor>lg (real (unat (max (sst_file_size t) 1))) / lg (db_size_ratio s)\<rfloor>)\<rparr>)
       (db_ssts s)"

definition db_stats_of :: "db \<Rightarrow> db_stats" where
  "db_stats_of s = db_stat s"

end
