(* ===== verification/Db_Compact.thy ===== *)
theory Db_Compact
  imports Db_Read
begin

text \<open>
  Compaction and value-log garbage collection (\<open>src/db.cpp\<close>). A compaction is a critical
  section that chooses its inputs, work without the lock, and a critical section that
  installs the result; each is one definition.
\<close>

subsection \<open>Size-tiered\<close>

record merge_job =
  mj_inputs :: "sstable list"
  mj_drop :: bool
  mj_seq :: u64

text \<open>Replace the inputs, matched by identity, by the output in the slot of the newest input.\<close>

fun replace_inputs :: "nat list \<Rightarrow> sstable \<Rightarrow> bool \<Rightarrow> sstable list \<Rightarrow> sstable list" where
  "replace_inputs inputs output inserted [] = (if \<not> inserted then [output] else [])"
| "replace_inputs inputs output inserted (t # ts) =
     (if sst_obj t \<in> set inputs then
        if \<not> inserted then output # replace_inputs inputs output True ts
        else replace_inputs inputs output inserted ts
      else t # replace_inputs inputs output inserted ts)"

definition erase_levels :: "sstable list \<Rightarrow> (nat \<Rightarrow> int option) \<Rightarrow> nat \<Rightarrow> int option" where
  "erase_levels ts lv = fold (\<lambda>t m. m(sst_obj t := None)) ts lv"

text \<open>\<open>mark_obsolete\<close> on every input; the engine keeps no other reference to them.\<close>

definition retire :: "sstable list \<Rightarrow> db \<Rightarrow> db" where
  "retire ts s = s\<lparr>db_dead_ssts := db_dead_ssts s @ map sst_mark_obsolete ts\<rparr>"

definition install_merge_result :: "io \<Rightarrow> sstable list \<Rightarrow> sstable \<Rightarrow> (db, unit) prog" where
  "install_merge_result io inputs output =
     sbind (supd (\<lambda>s. s\<lparr>db_ssts := replace_inputs (map sst_obj inputs) output False (db_ssts s),
                        db_level := (erase_levels inputs (db_level s))(sst_obj output \<mapsto> 0)\<rparr>)) (\<lambda>_.
     sbind (write_manifest_locked io) (\<lambda>_.
     supd (retire inputs)))"

definition pick_inputs :: "sstable list \<Rightarrow> nat list \<Rightarrow> sstable list" where
  "pick_inputs ts is = map (\<lambda>i. ts ! i) is"

definition size_tiered_begin :: "(real \<Rightarrow> real) \<Rightarrow> (db, merge_job option) prog" where
  "size_tiered_begin lg s =
     (case pick_compaction lg (db_ssts s) (db_min_merge s) (db_size_ratio s) of
        None \<Rightarrow> (Inr None, s)
      | Some pick \<Rightarrow>
          (Inr (Some \<lparr>mj_inputs = pick_inputs (db_ssts s) (cp_indices pick),
                     mj_drop = cp_drop_tombstones pick, mj_seq = db_seq s\<rparr>),
           s\<lparr>db_seq := db_seq s + 1, db_compacting := True\<rparr>))"

definition merge_work :: "io \<Rightarrow> (real \<Rightarrow> real) \<Rightarrow> string \<Rightarrow> merge_job \<Rightarrow> (db, u64 \<times> sstable) prog" where
  "merge_work io lg ctx j =
     sbind (slift (merge_records io (mj_inputs j) (mj_drop j))) (\<lambda>merged.
     sbind (build_rename io lg ctx (mj_seq j) merged) (\<lambda>bytes.
     sbind (on_disk (fsync_dir io)) (\<lambda>_.
     sbind (make_sst io (sst_name (mj_seq j))) (\<lambda>output.
     sret (bytes, output)))))"

definition merge_install :: "io \<Rightarrow> merge_job \<Rightarrow> u64 \<times> sstable \<Rightarrow> (db, unit) prog" where
  "merge_install io j res =
     (case res of (bytes, output) \<Rightarrow>
        sbind (add_stats (\<lambda>st. st\<lparr>st_compaction_bytes := st_compaction_bytes st + bytes,
                                  st_compactions := st_compactions st + 1\<rparr>)) (\<lambda>_.
        sbind (install_merge_result io (mj_inputs j) output) (\<lambda>_.
        supd (\<lambda>s. s\<lparr>db_compacting := False\<rparr>))))"

definition do_size_tiered_compaction :: "io \<Rightarrow> (real \<Rightarrow> real) \<Rightarrow> (db, unit) prog" where
  "do_size_tiered_compaction io lg =
     sbind (size_tiered_begin lg) (\<lambda>job.
     case job of
       None \<Rightarrow> sret ()
     | Some j \<Rightarrow> sbind (merge_work io lg ''compaction rename'' j) (merge_install io j))"

subsection \<open>Major compaction\<close>

definition compact_all_begin :: "(db, merge_job option) prog" where
  "compact_all_begin s =
     (if length (db_ssts s) \<le> 1 then (Inr None, s)
      else (Inr (Some \<lparr>mj_inputs = db_ssts s, mj_drop = True, mj_seq = db_seq s\<rparr>),
            s\<lparr>db_seq := db_seq s + 1, db_compacting := True\<rparr>))"

definition compact_all :: "io \<Rightarrow> (real \<Rightarrow> real) \<Rightarrow> (db, unit) prog" where
  "compact_all io lg =
     sbind compact_all_begin (\<lambda>job.
     case job of
       None \<Rightarrow> sret ()
     | Some j \<Rightarrow> sbind (merge_work io lg ''compact_all rename'' j) (merge_install io j))"

subsection \<open>Leveled\<close>

text \<open>\<open>level_of_.at\<close> throws for a table that the map does not hold.\<close>

fun levels_of :: "(nat \<Rightarrow> int option) \<Rightarrow> sstable list \<Rightarrow> (int \<times> sstable) list res" where
  "levels_of lv [] = Inr []"
| "levels_of lv (t # ts) =
     (case lv (sst_obj t) of
        None \<Rightarrow> Inl (OutOfRange ''level_of_'')
      | Some l \<Rightarrow> rbind (levels_of lv ts) (\<lambda>ps. Inr ((l, t) # ps)))"

text \<open>\<open>static_cast<int>\<close> of a \<open>size_t\<close>.\<close>

definition int_of_size :: "nat \<Rightarrow> int" where
  "int_of_size n = sint (of_nat n :: u32)"

definition level_budget :: "db \<Rightarrow> int \<Rightarrow> u64" where
  "level_budget s lv = of_int \<lfloor>real (unat (db_l1_bytes s)) * db_size_ratio s ^ nat (lv - 1)\<rfloor>"

definition at_level :: "int \<Rightarrow> (int \<times> sstable) list \<Rightarrow> sstable list" where
  "at_level l ps = map snd (filter (\<lambda>(m, _). m = l) ps)"

definition total_bytes :: "sstable list \<Rightarrow> u64" where
  "total_bytes ts = fold (\<lambda>t n. n + sst_file_size t) ts 0"

definition max_level_of :: "(int \<times> sstable) list \<Rightarrow> int" where
  "max_level_of ps = fold (\<lambda>(l, _) m. max m l) ps 0"

text \<open>The levels that hold a table, other than level 0: the keys of \<open>level_bytes\<close>.\<close>

definition leveled_pending_locked :: "db \<Rightarrow> bool res" where
  "leveled_pending_locked s =
     rbind (levels_of (db_level s) (db_ssts s)) (\<lambda>ps.
     Inr (int (length (at_level 0 ps)) \<ge> int_of_size (db_min_merge s) \<or>
          list_ex (\<lambda>lv. total_bytes (at_level lv ps) > level_budget s lv)
            (filter (\<lambda>l. l \<noteq> 0) (map fst ps))))"

definition compaction_pending :: "(real \<Rightarrow> real) \<Rightarrow> db \<Rightarrow> bool res" where
  "compaction_pending lg s =
     (if db_leveled s then leveled_pending_locked s
      else Inr (pick_compaction lg (db_ssts s) (db_min_merge s) (db_size_ratio s) \<noteq> None))"

text \<open>The wait condition of \<open>wait_for_idle\<close>.\<close>

definition idle :: "(real \<Rightarrow> real) \<Rightarrow> db \<Rightarrow> bool res" where
  "idle lg s =
     (if db_compacting s then Inr False
      else rbind (compaction_pending lg s) (\<lambda>p. Inr (\<not> p \<and> \<not> db_has_flushing s)))"

fun stable_insert :: "('a \<Rightarrow> 'a \<Rightarrow> bool) \<Rightarrow> 'a \<Rightarrow> 'a list \<Rightarrow> 'a list" where
  "stable_insert lt x [] = [x]"
| "stable_insert lt x (y # ys) = (if lt y x then y # stable_insert lt x ys else x # y # ys)"

text \<open>\<open>std::stable_sort\<close>: for a strict weak order there is one stable sorted permutation.\<close>

definition stable_sort :: "('a \<Rightarrow> 'a \<Rightarrow> bool) \<Rightarrow> 'a list \<Rightarrow> 'a list" where
  "stable_sort lt xs = foldr (stable_insert lt) xs []"

fun seqs_of :: "sstable list \<Rightarrow> u64 list res" where
  "seqs_of [] = Inr []"
| "seqs_of (t # ts) = rbind (seq_of_path (sst_path t)) (\<lambda>n. rbind (seqs_of ts) (\<lambda>ns. Inr (n # ns)))"

definition seq_or_0 :: "sstable \<Rightarrow> u64" where
  "seq_or_0 t = (case seq_of_path (sst_path t) of Inr n \<Rightarrow> n | Inl _ \<Rightarrow> 0)"

definition level_less :: "int \<times> sstable \<Rightarrow> int \<times> sstable \<Rightarrow> bool" where
  "level_less a b =
     (if fst a \<noteq> fst b then fst a < fst b
      else if fst a = 0 then seq_or_0 (snd a) > seq_or_0 (snd b)
      else sst_min_key (snd a) < sst_min_key (snd b))"

text \<open>
  The comparator runs only when there are two tables to compare, and it parses the names of
  level-0 tables only when it compares two of them.
\<close>

definition reorder_sstables_locked :: "(db, unit) prog" where
  "reorder_sstables_locked s =
     (if length (db_ssts s) \<le> 1 then (Inr (), s)
      else
        case rbind (levels_of (db_level s) (db_ssts s)) (\<lambda>ps.
               rbind (if length (at_level 0 ps) \<le> 1 then Inr [] else seqs_of (at_level 0 ps)) (\<lambda>_.
               Inr (map snd (stable_sort level_less ps)))) of
          Inl e \<Rightarrow> (Inl e, s)
        | Inr ts \<Rightarrow> (Inr (), s\<lparr>db_ssts := ts\<rparr>))"

record level_job =
  lj_inputs :: "sstable list"
  lj_dest :: int
  lj_drop :: bool

definition find_source_level :: "db \<Rightarrow> (int \<times> sstable) list \<Rightarrow> int option" where
  "find_source_level s ps =
     (if int_of_size (length (at_level 0 ps)) \<ge> int_of_size (db_min_merge s) then Some 0
      else find (\<lambda>lv. total_bytes (at_level lv ps) > level_budget s lv) [1..max_level_of ps])"

text \<open>\<open>std::min_element\<close>: the first table with the smallest \<open>min_key\<close>.\<close>

fun min_table :: "sstable list \<Rightarrow> sstable option" where
  "min_table [] = None"
| "min_table (t # ts) =
     (case min_table ts of
        None \<Rightarrow> Some t
      | Some u \<Rightarrow> if sst_min_key u < sst_min_key t then Some u else Some t)"

definition key_lo :: "sstable list \<Rightarrow> bytes \<Rightarrow> bytes" where
  "key_lo ts lo = fold (\<lambda>t lo. if sst_min_key t < lo then sst_min_key t else lo) ts lo"

definition key_hi :: "sstable list \<Rightarrow> bytes \<Rightarrow> bytes" where
  "key_hi ts hi = fold (\<lambda>t hi. if sst_max_key t > hi then sst_max_key t else hi) ts hi"

definition source_tables :: "int \<Rightarrow> (int \<times> sstable) list \<Rightarrow> sstable list" where
  "source_tables src ps =
     (if src = 0 then at_level 0 ps
      else case min_table (at_level src ps) of None \<Rightarrow> [] | Some t \<Rightarrow> [t])"

definition leveled_begin :: "(db, level_job option) prog" where
  "leveled_begin s =
     (case leveled_pending_locked s of
        Inl e \<Rightarrow> (Inl e, s)
      | Inr pending \<Rightarrow>
          if \<not> pending then (Inr None, s)
          else
            (case levels_of (db_level s) (db_ssts s) of
               Inl e \<Rightarrow> (Inl e, s)
             | Inr ps \<Rightarrow>
                 (case find_source_level s ps of
                    None \<Rightarrow> (Inr None, s)
                  | Some src \<Rightarrow>
                      let dest_level = src + 1; src_tables = source_tables src ps in
                      if src_tables = [] then (Inl (Undefined ''src_tables.front()''), s)
                      else
                        let lo = key_lo src_tables (sst_min_key (hd src_tables));
                            hi = key_hi src_tables (sst_max_key (hd src_tables));
                            dest_tables = filter (\<lambda>t. \<not> (sst_max_key t < lo \<or> sst_min_key t > hi))
                              (at_level dest_level ps)
                        in (Inr (Some \<lparr>lj_inputs = src_tables @ dest_tables, lj_dest = dest_level,
                                      lj_drop = (dest_level \<ge> max_level_of ps)\<rparr>),
                            s\<lparr>db_compacting := True\<rparr>))))"

definition group_bytes :: "kv_record \<Rightarrow> u64" where
  "group_bytes r =
     1 + 4 + of_nat (length (rec_key r)) + 4 +
     (if rec_separated r then 12 else of_nat (length (rec_value r)))"

fun split_groups ::
  "u64 \<Rightarrow> kv_record list \<Rightarrow> kv_record list \<Rightarrow> u64 \<Rightarrow> kv_record list list \<Rightarrow> kv_record list list" where
  "split_groups target [] cur cur_bytes groups = (if cur \<noteq> [] then groups @ [cur] else groups)"
| "split_groups target (r # rs) cur cur_bytes groups =
     (let cur_bytes = cur_bytes + group_bytes r; cur = cur @ [r] in
      if cur_bytes \<ge> target then split_groups target rs [] 0 (groups @ [cur])
      else split_groups target rs cur cur_bytes groups)"

definition reserve_seqs :: "nat \<Rightarrow> (db, u64 list) prog" where
  "reserve_seqs n s =
     (Inr (map (\<lambda>i. db_seq s + of_nat i) [0..<n]), s\<lparr>db_seq := db_seq s + of_nat n\<rparr>)"

definition build_group ::
  "io \<Rightarrow> (real \<Rightarrow> real) \<Rightarrow> u64 \<times> kv_record list \<Rightarrow> u64 \<times> sstable list \<Rightarrow> (db, u64 \<times> sstable list) prog" where
  "build_group io lg job acc =
     (case job of (seq, grp) \<Rightarrow> case acc of (total1, outputs) \<Rightarrow>
        sbind (build_rename io lg ''leveled rename'' seq grp) (\<lambda>bytes.
        sbind (make_sst io (sst_name seq)) (\<lambda>t.
        sret (total1 + bytes, outputs @ [t]))))"

definition leveled_work :: "io \<Rightarrow> (real \<Rightarrow> real) \<Rightarrow> level_job \<Rightarrow> (db, u64 \<times> sstable list) prog" where
  "leveled_work io lg j =
     sbind (slift (merge_records io (lj_inputs j) (lj_drop j))) (\<lambda>merged.
     sbind (sget (\<lambda>s. split_groups (db_target_bytes s) merged [] 0 [])) (\<lambda>groups.
     sbind (reserve_seqs (length groups)) (\<lambda>seqs.
     sbind (sfold (build_group io lg) (zip seqs groups) (0, [])) (\<lambda>res.
     sbind (on_disk (fsync_dir io)) (\<lambda>_.
     sret res)))))"

definition add_levels :: "int \<Rightarrow> sstable list \<Rightarrow> (nat \<Rightarrow> int option) \<Rightarrow> nat \<Rightarrow> int option" where
  "add_levels l ts lv = fold (\<lambda>t m. m(sst_obj t \<mapsto> l)) ts lv"

definition leveled_install :: "io \<Rightarrow> level_job \<Rightarrow> u64 \<times> sstable list \<Rightarrow> (db, unit) prog" where
  "leveled_install io j res =
     (case res of (bytes, outputs) \<Rightarrow>
        sbind (supd (\<lambda>s. s\<lparr>
          db_ssts := filter (\<lambda>t. sst_obj t \<notin> sst_obj ` set (lj_inputs j)) (db_ssts s) @ outputs,
          db_level := add_levels (lj_dest j) outputs (erase_levels (lj_inputs j) (db_level s))\<rparr>)) (\<lambda>_.
        sbind reorder_sstables_locked (\<lambda>_.
        sbind (add_stats (\<lambda>st. st\<lparr>st_compaction_bytes := st_compaction_bytes st + bytes,
                                  st_compactions := st_compactions st + 1\<rparr>)) (\<lambda>_.
        sbind (write_manifest_locked io) (\<lambda>_.
        sbind (supd (retire (lj_inputs j))) (\<lambda>_.
        supd (\<lambda>s. s\<lparr>db_compacting := False\<rparr>)))))))"

definition do_leveled_compaction :: "io \<Rightarrow> (real \<Rightarrow> real) \<Rightarrow> (db, unit) prog" where
  "do_leveled_compaction io lg =
     sbind leveled_begin (\<lambda>job.
     case job of
       None \<Rightarrow> sret ()
     | Some j \<Rightarrow> sbind (leveled_work io lg j) (leveled_install io j))"

text \<open>One round of the compactor thread, once its wait condition holds.\<close>

definition compaction_round :: "io \<Rightarrow> (real \<Rightarrow> real) \<Rightarrow> (db, unit) prog" where
  "compaction_round io lg =
     sbind (sget (\<lambda>s. (db_stop s, db_leveled s))) (\<lambda>(stop, leveled).
     if stop then sret ()
     else if leveled then do_leveled_compaction io lg
     else do_size_tiered_compaction io lg)"

subsection \<open>Value-log garbage collection\<close>

text \<open>The wait condition of \<open>gc_value_log\<close>.\<close>

definition gc_ready :: "db \<Rightarrow> bool" where
  "gc_ready s \<longleftrightarrow> \<not> db_compacting s \<and> \<not> db_has_flushing s"

text \<open>The new log is a local object until it is put into the map.\<close>

definition relocate_step ::
  "io \<Rightarrow> kv_record \<Rightarrow> kv_record list \<times> vlog \<times> u64 \<Rightarrow> (db, kv_record list \<times> vlog \<times> u64) prog" where
  "relocate_step io r acc =
     (case acc of (out, new_vlog, relocated) \<Rightarrow>
        if rec_separated r then
          sbind (sget (\<lambda>s. vlog_deref io (db_vlogs s) (db_disk s) (rec_vptr r))) (\<lambda>rv.
          sbind (slift rv) (\<lambda>v.
          sbind (on_disk (vlog_append io (rec_key r) v new_vlog)) (\<lambda>(p, new_vlog).
          sret (out @ [r\<lparr>rec_vptr := p\<rparr>], new_vlog,
                relocated + (4 + of_nat (length (rec_key r)) + 4 + of_nat (length v))))))
        else sret (out @ [r], new_vlog, relocated))"

definition gc_swap :: "u32 \<Rightarrow> vlog \<Rightarrow> sstable \<Rightarrow> db \<Rightarrow> db" where
  "gc_swap new_gen new_vlog output s =
     s\<lparr>db_ssts := [output], db_level := [sst_obj output \<mapsto> 0],
       db_vlogs := vlogs_set new_gen new_vlog (db_vlogs s), db_gen := new_gen\<rparr>"

definition gc_drop_old :: "u32 \<Rightarrow> db \<Rightarrow> db" where
  "gc_drop_old new_gen s =
     s\<lparr>db_dead_vlogs := db_dead_vlogs s @
         map (vlog_mark_obsolete \<circ> snd) (filter (\<lambda>(g, _). g \<noteq> new_gen) (db_vlogs s)),
       db_vlogs := filter (\<lambda>(g, _). g = new_gen) (db_vlogs s)\<rparr>"

definition gc_value_log :: "io \<Rightarrow> (real \<Rightarrow> real) \<Rightarrow> (db, unit) prog" where
  "gc_value_log io lg =
     sbind (supd (\<lambda>s. s\<lparr>db_compacting := True\<rparr>)) (\<lambda>_.
     sbind (flush_locked io lg) (\<lambda>_.
     sbind (sget db_ssts) (\<lambda>inputs.
     if inputs = [] then supd (\<lambda>s. s\<lparr>db_compacting := False\<rparr>)
     else
       sbind (slift (merge_records io inputs True)) (\<lambda>merged.
       sbind (sget (\<lambda>s. db_gen s + 1)) (\<lambda>new_gen.
       sbind (on_disk (vlog_open io (vlog_name new_gen) new_gen)) (\<lambda>new_vlog.
       sbind (sfold (relocate_step io) merged ([], new_vlog, 0)) (\<lambda>(merged, new_vlog, relocated).
       sbind (on_disk (vlog_sync io new_vlog)) (\<lambda>_.
       sbind take_seq (\<lambda>seq.
       sbind (build_rename io lg ''gc rename'' seq merged) (\<lambda>bytes.
       sbind (on_disk (fsync_dir io)) (\<lambda>_.
       sbind (make_sst io (sst_name seq)) (\<lambda>output.
       sbind (supd (gc_swap new_gen new_vlog output)) (\<lambda>_.
       sbind (write_manifest_locked io) (\<lambda>_.
       sbind (supd (retire inputs)) (\<lambda>_.
       sbind (supd (gc_drop_old new_gen)) (\<lambda>_.
       sbind (add_stats (\<lambda>st. st\<lparr>st_compaction_bytes := st_compaction_bytes st + bytes,
                                 st_vlog_bytes := st_vlog_bytes st + relocated,
                                 st_compactions := st_compactions st + 1\<rparr>)) (\<lambda>_.
       supd (\<lambda>s. s\<lparr>db_compacting := False\<rparr>))))))))))))))))))"

end
