(* ===== verification/Db_Open.thy ===== *)
theory Db_Open
  imports Db_Compact
begin

text \<open>
  Opening a store (\<open>src/db.cpp\<close>, the constructor): loading the tables that the manifest
  names or, without a manifest, those that a directory scan finds; removing leftovers;
  replaying the logs; and flushing what a sealed log held. The order in which
  \<open>directory_iterator\<close> yields entries is the order of \<open>dents\<close>.
\<close>

definition dir_names :: "db \<Rightarrow> bytes list" where
  "dir_names s = map fst (dents (db_disk s))"

definition fs_remove :: "io \<Rightarrow> bytes \<Rightarrow> (db, unit) prog" where
  "fs_remove io name =
     (case io ''fs::remove'' of
        Some (m, e) \<Rightarrow> sthrow (SystemError e ''fs::remove'')
      | None \<Rightarrow> on_disk (\<lambda>d. (Inr (), d_unlink name d)))"

definition cleanup_one :: "io \<Rightarrow> bytes list \<Rightarrow> bytes \<Rightarrow> unit \<Rightarrow> (db, unit) prog" where
  "cleanup_one io live name _ =
     (if has_tmp_suffix name then fs_remove io name
      else
        sbind (slift (parse_seq name)) (\<lambda>seq.
        if seq \<noteq> None then (if name \<notin> set live then fs_remove io name else sret ())
        else
          sbind (slift (parse_vlog_gen name)) (\<lambda>g.
          case g of
            None \<Rightarrow> sret ()
          | Some g \<Rightarrow> sbind (sget db_gen) (\<lambda>cur. if g \<noteq> cur then fs_remove io name else sret ()))))"

definition cleanup_orphans :: "io \<Rightarrow> bytes list \<Rightarrow> (db, unit) prog" where
  "cleanup_orphans io live = sbind (sget dir_names) (\<lambda>names. sfold (cleanup_one io live) names ())"

definition load_one ::
  "io \<Rightarrow> bytes \<Rightarrow> (u64 \<times> bytes) list \<times> u64 \<times> bool \<Rightarrow> (db, (u64 \<times> bytes) list \<times> u64 \<times> bool) prog" where
  "load_one io name acc =
     (case acc of (found, max_seq, any) \<Rightarrow>
        if has_tmp_suffix name then sbind (fs_remove io name) (\<lambda>_. sret acc)
        else
          sbind (slift (parse_seq name)) (\<lambda>seq.
          case seq of
            None \<Rightarrow> sret acc
          | Some n \<Rightarrow> sret (found @ [(n, name)], max max_seq n, True)))"

definition push_sst :: "io \<Rightarrow> u64 \<times> bytes \<Rightarrow> unit \<Rightarrow> (db, unit) prog" where
  "push_sst io p _ =
     sbind (make_sst io (snd p)) (\<lambda>t. supd (\<lambda>s. s\<lparr>db_ssts := db_ssts s @ [t]\<rparr>))"

text \<open>\<open>std::sort\<close> by descending sequence; equal sequences are left in directory order.\<close>

definition load_sstables :: "io \<Rightarrow> (db, unit) prog" where
  "load_sstables io =
     sbind (sget dir_names) (\<lambda>names.
     sbind (sfold (load_one io) names ([], 0, False)) (\<lambda>(found, max_seq, any).
     sbind (sfold (push_sst io) (stable_sort (\<lambda>a b. fst a > fst b) found) ()) (\<lambda>_.
     supd (\<lambda>s. s\<lparr>db_seq := (if any then max_seq + 1 else 0)\<rparr>))))"

definition open_vlog :: "io \<Rightarrow> bytes \<Rightarrow> u32 \<Rightarrow> (db, unit) prog" where
  "open_vlog io path gen =
     sbind (on_disk (vlog_open io path gen)) (\<lambda>v.
     supd (\<lambda>s. s\<lparr>db_vlogs := vlogs_set gen v (db_vlogs s)\<rparr>))"

definition load_vlog_one :: "io \<Rightarrow> bytes \<Rightarrow> u32 \<times> bool \<Rightarrow> (db, u32 \<times> bool) prog" where
  "load_vlog_one io name acc =
     (case acc of (max_gen, any) \<Rightarrow>
        sbind (slift (parse_vlog_gen name)) (\<lambda>g.
        case g of
          None \<Rightarrow> sret acc
        | Some n \<Rightarrow> sbind (open_vlog io name n) (\<lambda>_. sret (max max_gen n, True))))"

definition load_vlogs :: "io \<Rightarrow> (db, unit) prog" where
  "load_vlogs io =
     sbind (sget dir_names) (\<lambda>names.
     sbind (sfold (load_vlog_one io) names (0, False)) (\<lambda>(max_gen, any).
     sbind (supd (\<lambda>s. s\<lparr>db_gen := (if any then max_gen else 0)\<rparr>)) (\<lambda>_.
     sbind (sget (\<lambda>s. (db_gen s, map_of (db_vlogs s) (db_gen s)))) (\<lambda>(gen, v).
     if v = None then open_vlog io (vlog_name gen) gen else sret ()))))"

definition load_entry :: "io \<Rightarrow> manifest_entry \<Rightarrow> unit \<Rightarrow> (db, unit) prog" where
  "load_entry io e _ =
     sbind (make_sst io (me_name e)) (\<lambda>t.
     supd (\<lambda>s. s\<lparr>db_level := (db_level s)(sst_obj t \<mapsto> me_level e), db_ssts := db_ssts s @ [t]\<rparr>))"

definition load_committed :: "io \<Rightarrow> manifest_data \<Rightarrow> (db, unit) prog" where
  "load_committed io man =
     sbind (supd (\<lambda>s. s\<lparr>db_seq := man_next_seq man, db_gen := man_current_gen man\<rparr>)) (\<lambda>_.
     sbind (sfold (load_entry io) (man_tables man) ()) (\<lambda>_.
     sbind (open_vlog io (vlog_name (man_current_gen man)) (man_current_gen man)) (\<lambda>_.
     cleanup_orphans io (map me_name (man_tables man)))))"

definition level_all_0 :: "db \<Rightarrow> db" where
  "level_all_0 s = s\<lparr>db_level := add_levels 0 (db_ssts s) (db_level s)\<rparr>"

definition load_tables :: "io \<Rightarrow> manifest_data option \<Rightarrow> (db, unit) prog" where
  "load_tables io man =
     (case man of
        Some m \<Rightarrow> load_committed io m
      | None \<Rightarrow>
          sbind (load_sstables io) (\<lambda>_.
          sbind (load_vlogs io) (\<lambda>_.
          supd level_all_0)))"

definition replay_into :: "io \<Rightarrow> bytes \<Rightarrow> (db, unit) prog" where
  "replay_into io path =
     sbind (sget (\<lambda>s. wal_replay io path (db_disk s))) (\<lambda>r.
     sbind (slift r) (\<lambda>recs.
     supd (\<lambda>s. s\<lparr>db_mem := fold apply_rec recs (db_mem s)\<rparr>)))"

text \<open>The recovery part of the constructor.\<close>

definition recover :: "io \<Rightarrow> (real \<Rightarrow> real) \<Rightarrow> (db, unit) prog" where
  "recover io lg =
     sbind (sget (\<lambda>s. d_ino (db_disk s) flushing_wal_name \<noteq> None)) (\<lambda>had_flushing.
     sbind (if had_flushing then replay_into io flushing_wal_name else sret ()) (\<lambda>_.
     sbind (replay_into io wal_name) (\<lambda>_.
     if had_flushing then
       sbind (flush_locked io lg) (\<lambda>_.
       sbind (fs_remove io flushing_wal_name) (\<lambda>_.
       on_disk (fsync_dir io)))
     else sret ())))"

text \<open>The settings of a store: the parameters of the constructor.\<close>

record db_config =
  cf_threshold :: nat
  cf_min_merge :: nat
  cf_size_ratio :: real
  cf_sep_threshold :: nat
  cf_leveled :: bool

definition db_init :: "db_config \<Rightarrow> disk \<Rightarrow> db" where
  "db_init cf d =
     \<lparr>db_threshold = cf_threshold cf, db_min_merge = cf_min_merge cf, db_size_ratio = cf_size_ratio cf,
      db_sep_threshold = cf_sep_threshold cf, db_leveled = cf_leveled cf,
      db_target_bytes = 2 * of_nat (cf_threshold cf), db_l1_bytes = 16 * of_nat (cf_threshold cf),
      db_wal = \<lparr>wal_path = wal_name, wal_fd = None\<rparr>, db_mem = memtable0, db_fmem = memtable0,
      db_ssts = [], db_level = Map.empty, db_vlogs = [], db_gen = 0, db_seq = 0, db_bloom_on = True,
      db_stop = False, db_compacting = False, db_has_flushing = False, db_fseq = 0, db_stat = stats0,
      db_disk = d, db_next_obj = 0, db_waiters = 0, db_dead_ssts = [], db_dead_vlogs = []\<rparr>"

definition db_ctor :: "io \<Rightarrow> (real \<Rightarrow> real) \<Rightarrow> (db, unit) prog" where
  "db_ctor io lg =
     sbind (open_wal io False) (\<lambda>_.
     sbind (sget (\<lambda>s. manifest_read io (db_disk s))) (\<lambda>rm.
     sbind (slift rm) (\<lambda>man.
     sbind (load_tables io man) (\<lambda>_.
     sbind (recover io lg) (\<lambda>_.
     if man = None then write_manifest_locked io else sret ())))))"

definition db_open :: "io \<Rightarrow> (real \<Rightarrow> real) \<Rightarrow> db_config \<Rightarrow> disk \<Rightarrow> unit res \<times> db" where
  "db_open io lg cf d = db_ctor io lg (db_init cf d)"

end
