(* ===== verification/Db_Store.thy ===== *)
theory Db_Store
  imports Db_Open
begin

text \<open>
  What the engine relies on when it reads separated values: the open value logs and the
  files behind them. \<open>vs_inv\<close> is the invariant; \<open>calm\<close> says that a change of the disk
  leaves every open log as it is. Every file operation the engine performs on a table, on
  the manifest or on a write-ahead log is calm, because no such file shares an inode with
  a value log.
\<close>

definition vs_inv :: "(u32 \<times> vlog) list \<Rightarrow> disk \<Rightarrow> bool" where
  "vs_inv vl d \<longleftrightarrow> disk_wf d \<and> distinct (map fst vl) \<and> distinct (map (vl_fd \<circ> snd) vl) \<and>
     (\<forall>(g, v)\<in>set vl. vl_gen v = g \<and> \<not> vl_obsolete v \<and> vl_path v = vlog_name g \<and> vlog_inv v d \<and> vl_fd v < next_ino d \<and>
        (\<forall>n. d_ino d n = Some (vl_fd v) \<longrightarrow> n = vlog_name g))"

definition fds :: "(u32 \<times> vlog) list \<Rightarrow> nat set" where
  "fds vl = (vl_fd \<circ> snd) ` set vl"

definition calm :: "(u32 \<times> vlog) list \<Rightarrow> disk \<Rightarrow> disk \<Rightarrow> bool" where
  "calm vl d d' \<longleftrightarrow> disk_wf d' \<and> next_ino d \<le> next_ino d' \<and>
     (\<forall>i\<in>fds vl. blobs d' i = blobs d i \<and> (\<forall>n. d_ino d' n = Some i \<longrightarrow> d_ino d n = Some i))"

definition other_name :: "bytes \<Rightarrow> bool" where
  "other_name n \<longleftrightarrow> (\<forall>g. n \<noteq> vlog_name g)"

lemma other_names [simp]:
  "other_name (sst_name s)" "other_name (sst_name s @ x)" "other_name wal_name" "other_name flushing_wal_name"
  "other_name man_name" "other_name man_tmp_name"
  by (simp_all add: other_name_def) (simp_all add: man_name_def man_tmp_name_def vlog_name_def lit_def)

lemma vs_inv_fd:
  assumes "vs_inv vl d" and "i \<in> fds vl"
  shows "i < next_ino d" and "d_ino d n = Some i \<Longrightarrow> \<exists>g. n = vlog_name g"
proof -
  obtain g v where gv: "(g, v) \<in> set vl" "i = vl_fd v" using assms(2) by (auto simp: fds_def)
  then show "i < next_ino d" "d_ino d n = Some i \<Longrightarrow> \<exists>g. n = vlog_name g"
    using assms(1) unfolding vs_inv_def by blast+
qed

lemma calm_refl: "vs_inv vl d \<Longrightarrow> calm vl d d"
  by (simp add: calm_def vs_inv_def)

lemma calm_trans: "calm vl d1 d2 \<Longrightarrow> calm vl d2 d3 \<Longrightarrow> calm vl d1 d3"
  by (auto simp: calm_def)

lemma calm_vs_inv:
  assumes "vs_inv vl d" and "calm vl d d'"
  shows "vs_inv vl d'"
proof -
  have "vlog_inv v d' \<and> vl_fd v < next_ino d' \<and> (\<forall>n. d_ino d' n = Some (vl_fd v) \<longrightarrow> n = vlog_name g)"
    if "(g, v) \<in> set vl" for g v
  proof -
    have "vl_fd v \<in> fds vl" using that by (force simp: fds_def)
    with assms that show ?thesis by (fastforce simp: calm_def vs_inv_def vlog_inv_def)
  qed
  with assms show ?thesis by (auto simp: vs_inv_def calm_def)
qed

lemma calm_deref:
  assumes "calm vl d d'"
  shows "vlog_deref io vl d' p = vlog_deref io vl d p"
proof (cases "map_of vl (vp_gen p)")
  case (Some v)
  then have "vl_fd v \<in> fds vl" by (force simp: fds_def dest: map_of_SomeD)
  then have "blobs d' (vl_fd v) = blobs d (vl_fd v)" using assms by (simp add: calm_def)
  with Some show ?thesis by (simp add: vlog_deref_def vlog_read_def)
qed (simp add: vlog_deref_def)

lemma calm_value: "calm vl d d' \<Longrightarrow> rec_value_of io vl d' r = rec_value_of io vl d r"
  by (simp add: rec_value_of_def calm_deref)

subsection \<open>Calm operations\<close>

lemma ino_of_fd:
  assumes "vs_inv vl d" and "other_name path" and "i \<in> fds vl"
  shows "i \<noteq> ino_of path d"
proof (cases "d_ino d path")
  case None
  with vs_inv_fd(1) [OF assms(1,3)] show ?thesis by (simp add: ino_of_def)
next
  case (Some j)
  with vs_inv_fd(2) [OF assms(1,3), of path] assms(2) show ?thesis
    by (auto simp: ino_of_def other_name_def)
qed

lemma disk_wf_store:
  assumes "disk_wf d"
  shows "disk_wf (d_store path bs d)"
proof -
  have lt: "d_ino d n = Some i \<Longrightarrow> i < next_ino d" for n i using assms unfolding disk_wf_def by blast
  have ne: "i \<noteq> ino_of path d" if "d_ino d n = Some i" "n \<noteq> path" for n i
    using ino_of_other [OF assms that] .
  have "ino_of path d < next_ino (d_store path bs d)"
    using lt by (auto simp: ino_of_def d_store_eqs split: option.split)
  moreover have "next_ino d \<le> next_ino (d_store path bs d)" by (simp add: d_store_eqs)
  moreover have "n = n'" if "d_ino d n = Some i" "d_ino d n' = Some i" for n n' i
    using assms that unfolding disk_wf_def by blast
  ultimately show ?thesis
    unfolding disk_wf_def d_store_eqs(1)
    using lt ne by (smt (verit) option.inject order_less_le_trans)
qed

lemma calm_store:
  assumes "vs_inv vl d" and "other_name path"
  shows "calm vl d (d_store path bs d)"
proof -
  have "disk_wf d" using assms(1) by (simp add: vs_inv_def)
  then show ?thesis
    using disk_wf_store ino_of_fd [OF assms]
    by (auto simp: calm_def d_store_eqs split: if_splits)
qed

lemma calm_moved:
  assumes "vs_inv vl d" and "other_name old" and "d_ino d old = Some i"
  shows "calm vl d (d_moved old new d)"
proof -
  have wf: "disk_wf d" using assms(1) by (simp add: vs_inv_def)
  have "i \<notin> fds vl" using vs_inv_fd(2) [OF assms(1) _ assms(3)] assms(2) by (auto simp: other_name_def)
  moreover have "disk_wf (d_moved old new d)"
    using wf assms(3) unfolding disk_wf_def d_moved_eqs [OF assms(3)] by (smt (verit) option.distinct(1) option.inject)
  ultimately show ?thesis
    by (auto simp: calm_def d_moved_eqs [OF assms(3)] split: if_splits)
qed

lemma calm_unlink: "vs_inv vl d \<Longrightarrow> calm vl d (d_unlink path d)"
  by (auto simp: calm_def vs_inv_def disk_wf_def d_unlink_eqs split: if_splits)

lemma calm_same_names:
  assumes "vs_inv vl d" and "dents d' = dents d" and "next_ino d' = next_ino d"
    and "\<And>i. i \<in> fds vl \<Longrightarrow> blobs d' i = blobs d i"
  shows "calm vl d d'"
  using assms by (auto simp: calm_def vs_inv_def disk_wf_def d_ino_def)

subsection \<open>Growing a log\<close>

text \<open>What appending to a log keeps: the other files, and everything that could be read.\<close>

definition vgrow :: "(u32 \<times> vlog) list \<Rightarrow> disk \<Rightarrow> (u32 \<times> vlog) list \<Rightarrow> disk \<Rightarrow> bool" where
  "vgrow vl d vl' d' \<longleftrightarrow> vs_inv vl' d' \<and> fds vl' = fds vl \<and> fst ` set vl' = fst ` set vl \<and>
     dents d' = dents d \<and> next_ino d' = next_ino d \<and> (\<forall>i. i \<notin> fds vl \<longrightarrow> blobs d' i = blobs d i) \<and>
     synced d' = synced d \<and> (\<forall>i. \<exists>x. blobs d' i = blobs d i @ x) \<and>
     (\<forall>p x. vlog_deref no_faults vl d p = Inr x \<longrightarrow> vlog_deref no_faults vl' d' p = Inr x)"

lemma vgrow_refl: "vs_inv vl d \<Longrightarrow> vgrow vl d vl d"
  by (simp add: vgrow_def)

lemma vgrow_trans: "vgrow vl d vl1 d1 \<Longrightarrow> vgrow vl1 d1 vl2 d2 \<Longrightarrow> vgrow vl d vl2 d2"
  by (simp add: vgrow_def) (metis append_assoc)

lemma vgrow_value:
  "vgrow vl d vl' d' \<Longrightarrow> rec_value_of no_faults vl d r = Inr x \<Longrightarrow> rec_value_of no_faults vl' d' r = Inr x"
  by (auto simp: rec_value_of_def vgrow_def split: if_splits)

lemma map_of_vlogs_set: "map_of (vlogs_set g v vl) h = (if h = g then Some v else map_of vl h)"
  using map_of_filter_key [of "\<lambda>h. h \<noteq> g" vl h] by (simp add: vlogs_set_def)

lemma set_vlogs_set: "set (vlogs_set g v vl) = insert (g, v) {(h, u) \<in> set vl. h \<noteq> g}"
  by (auto simp: vlogs_set_def)

lemma fds_vlogs_set:
  "i \<in> fds (vlogs_set g v vl) \<longleftrightarrow> i = vl_fd v \<or> (\<exists>h u. (h, u) \<in> set vl \<and> h \<noteq> g \<and> i = vl_fd u)"
  by (force simp: fds_def set_vlogs_set)

lemma vs_inv_entry:
  assumes "vs_inv vl d" and "(g, v) \<in> set vl"
  shows "vl_gen v = g" and "vl_path v = vlog_name g" and "vlog_inv v d" and "vl_fd v < next_ino d"
    and "d_ino d n = Some (vl_fd v) \<Longrightarrow> n = vlog_name g" and "vl_fd v \<in> fds vl" and "\<not> vl_obsolete v"
  using assms unfolding vs_inv_def fds_def by (blast, blast, blast, blast, blast, force, blast)

lemma vs_inv_fd_inj:
  assumes "vs_inv vl d" and "(g, v) \<in> set vl" and "(h, u) \<in> set vl" and "h \<noteq> g"
  shows "vl_fd u \<noteq> vl_fd v"
proof -
  have "inj_on (vl_fd \<circ> snd) (set vl)" using assms(1) by (simp add: vs_inv_def distinct_map)
  from inj_onD [OF this, of "(h, u)" "(g, v)"] assms(2-4) show ?thesis by auto
qed

lemma vlog_append_vgrow:
  assumes inv: "vs_inv vl d" and v: "map_of vl g = Some v" and fit: "vlog_fits key val v d"
  obtains p v' d' where "vlog_append no_faults key val v d = (Inr (p, v'), d')"
    and "vgrow vl d (vlogs_set g v' vl) d'" and "vlog_deref no_faults (vlogs_set g v' vl) d' p = Inr val"
    and "vp_gen p = g" and "vl_fd v' = vl_fd v"
    and "blobs d' (vl_fd v) = blobs d (vl_fd v) @ vlog_entry key val"
proof -
  have mem: "(g, v) \<in> set vl" using v by (rule map_of_SomeD)
  note e = vs_inv_entry [OF inv mem]
  obtain p off' v' d' where a: "vlog_append no_faults key val v d = (Inr (p, v'), d')"
    "blobs d' = (blobs d)(vl_fd v := blobs d (vl_fd v) @ vlog_entry key val)"
    "dents d' = dents d" "next_ino d' = next_ino d" "synced d' = synced d"
    "v' = v\<lparr>vl_append_off := off'\<rparr>" "vlog_inv v' d'"
    "vp_gen p = vl_gen v" "vlog_read no_faults p v' d' = Inr val"
    by (rule vlog_append_effect [OF e(3) fit])
  let ?vl = "vlogs_set g v' vl"
  have fd: "vl_fd v' = vl_fd v" "vl_gen v' = vl_gen v" "vl_path v' = vl_path v" "vl_obsolete v' = vl_obsolete v" using a(6) by simp_all
  have names: "d_ino d' n = d_ino d n" for n using a(3) by (simp add: d_ino_def)
  have others: "blobs d' (vl_fd u) = blobs d (vl_fd u)" if "(h, u) \<in> set vl" "h \<noteq> g" for h u
    using vs_inv_fd_inj [OF inv mem that] a(2) by simp
  have keys: "distinct (map fst vl)" and fdd: "distinct (map (vl_fd \<circ> snd) vl)"
    using inv by (simp_all add: vs_inv_def)
  have dist: "distinct (map fst ?vl)" "distinct (map (vl_fd \<circ> snd) ?vl)"
    using distinct_map_filter [OF keys] distinct_map_filter [OF fdd] vs_inv_fd_inj [OF inv mem] fd(1)
    by (fastforce simp: vlogs_set_def)+
  have ent: "vl_gen u = h \<and> \<not> vl_obsolete u \<and> vl_path u = vlog_name h \<and> vlog_inv u d' \<and> vl_fd u < next_ino d' \<and>
      (\<forall>n. d_ino d' n = Some (vl_fd u) \<longrightarrow> n = vlog_name h)" if "(h, u) \<in> set ?vl" for h u
  proof (cases "h = g")
    case True
    then have "u = v'" using that by (auto simp: set_vlogs_set)
    then show ?thesis using e True a(4,7) fd names by simp
  next
    case False
    then have "(h, u) \<in> set vl" using that by (auto simp: set_vlogs_set)
    from vs_inv_entry [OF inv this] others [OF this False] a(4) names show ?thesis
      by (simp add: vlog_inv_def)
  qed
  have fds_eq: "fds ?vl = fds vl"
  proof -
    have "i \<in> fds vl" if i: "i = vl_fd v' \<or> (\<exists>h u. (h, u) \<in> set vl \<and> h \<noteq> g \<and> i = vl_fd u)" for i
      using i mem fd(1) by (force simp: fds_def)
    moreover have "i = vl_fd v' \<or> (\<exists>h u. (h, u) \<in> set vl \<and> h \<noteq> g \<and> i = vl_fd u)" if "i \<in> fds vl" for i
    proof -
      from that obtain h u where hu: "(h, u) \<in> set vl" "i = vl_fd u" by (auto simp: fds_def)
      show ?thesis
      proof (cases "h = g")
        case True
        then have "u = v" using map_of_is_SomeI [OF keys hu(1)] v by simp
        then show ?thesis using hu(2) fd(1) by simp
      qed (use hu in blast)
    qed
    ultimately show ?thesis by (auto simp: fds_vlogs_set)
  qed
  have wf: "disk_wf d'" using inv a(4) names by (simp add: vs_inv_def disk_wf_def)
  have stable: "vlog_deref no_faults ?vl d' q = Inr x" if q: "vlog_deref no_faults vl d q = Inr x" for q x
  proof (cases "vp_gen q = g")
    case True
    then have "vlog_read no_faults q v d = Inr x" using q v by (simp add: vlog_deref_def)
    from vlog_read_stable [OF this fd(1)] a(2) True show ?thesis
      by (simp add: vlog_deref_def map_of_vlogs_set)
  next
    case False
    then obtain u where u: "map_of vl (vp_gen q) = Some u" using q by (auto simp: vlog_deref_def split: option.splits)
    then show ?thesis
      using False q others [OF map_of_SomeD [OF u] False]
      by (simp add: vlog_deref_def map_of_vlogs_set vlog_read_def)
  qed
  have "fst ` set ?vl = fst ` set vl" using mem by (force simp: set_vlogs_set)
  then have "vgrow vl d ?vl d'"
    using dist ent fds_eq wf a(2-5) stable e(6) unfolding vgrow_def vs_inv_def by (auto simp: fun_upd_def)
  moreover have "vp_gen p = g" using a(8) e(1) by simp
  moreover have "vlog_deref no_faults ?vl d' p = Inr val"
    using a(9) \<open>vp_gen p = g\<close> by (simp add: vlog_deref_def map_of_vlogs_set)
  ultimately show thesis using that [OF a(1)] fd(1) a(2) by simp
qed

end
