(* ===== verification/Db_Flush.thy ===== *)
theory Db_Flush
  imports Db_Store
begin

text \<open>
  The engine's invariant and the abstract store: a finite map from keys to values, given by
  the newest record of each key across the active memtable, the sealed memtable and the
  tables. The lemmas show that sealing and flushing move data between the layers and leave
  the map as it is.
\<close>

subsection \<open>The abstract store\<close>

definition layers :: "db \<Rightarrow> kv_record list list" where
  "layers s = mt_snapshot (db_mem s) # (if db_has_flushing s then [mt_snapshot (db_fmem s)] else [])
     @ map sst_records (db_ssts s)"

definition rec_ans :: "(u32 \<times> vlog) list \<Rightarrow> disk \<Rightarrow> kv_record \<Rightarrow> bytes option" where
  "rec_ans vl d r =
     (if rec_op r = Put then (case rec_value_of no_faults vl d r of Inr v \<Rightarrow> Some v | Inl _ \<Rightarrow> None)
      else None)"

definition look :: "(u32 \<times> vlog) list \<Rightarrow> disk \<Rightarrow> kv_record list \<Rightarrow> bytes \<Rightarrow> bytes option option" where
  "look vl d rs k = map_option (rec_ans vl d) (find_rec k rs)"

fun ojoin :: "'a option option \<Rightarrow> 'a option" where
  "ojoin None = None"
| "ojoin (Some a) = a"

definition abs_db :: "db \<Rightarrow> bytes \<rightharpoonup> bytes" where
  "abs_db s k = ojoin (look (db_vlogs s) (db_disk s) (concat (layers s)) k)"

text \<open>A lookup answers from the first source that has the key.\<close>

lemma look_append:
  "look vl d (xs @ ys) k = (case look vl d xs k of None \<Rightarrow> look vl d ys k | Some a \<Rightarrow> Some a)"
  by (simp add: look_def find_rec_append split: option.split)

lemma look_Nil [simp]: "look vl d [] k = None"
  by (simp add: look_def)

definition ptrs_ok :: "(u32 \<times> vlog) list \<Rightarrow> disk \<Rightarrow> kv_record list \<Rightarrow> bool" where
  "ptrs_ok vl d rs \<longleftrightarrow> (\<forall>r\<in>set rs. \<exists>x. rec_value_of no_faults vl d r = Inr x)"

lemma look_cong:
  assumes "\<And>r x. r \<in> set rs \<Longrightarrow> rec_value_of no_faults vl d r = Inr x \<Longrightarrow> rec_value_of no_faults vl' d' r = Inr x"
    and "ptrs_ok vl d rs"
  shows "look vl' d' rs k = look vl d rs k"
proof (cases "find_rec k rs")
  case (Some r)
  then have r: "r \<in> set rs" using find_rec_key by blast
  then obtain x where "rec_value_of no_faults vl d r = Inr x" using assms(2) by (auto simp: ptrs_ok_def)
  with assms(1) [OF r this] Some show ?thesis by (simp add: look_def rec_ans_def)
qed (simp add: look_def)

lemma look_list_all2:
  assumes "list_all2 (\<lambda>r r'. rec_key r' = rec_key r \<and> rec_ans vl' d' r' = rec_ans vl d r) rs rs'"
  shows "look vl' d' rs' k = look vl d rs k"
  using assms
proof (induction rs rs' rule: list_all2_induct)
  case (Cons r rs r' rs')
  then show ?case by (cases "rec_key r = k") (auto simp: look_def)
qed simp

subsection \<open>Invariant\<close>

definition wal_inv :: "db \<Rightarrow> bool" where
  "wal_inv s \<longleftrightarrow> (\<exists>i. wal_fd (db_wal s) = Some i \<and> d_ino (db_disk s) wal_name = Some i \<and> i \<notin> fds (db_vlogs s))"

definition mem_ok :: "memtable \<Rightarrow> bool" where
  "mem_ok m \<longleftrightarrow> mt_inv m \<and> list_all sst_rec_ok (mt_snapshot m)"

definition ssts_ok :: "db \<Rightarrow> bool" where
  "ssts_ok s \<longleftrightarrow> (\<forall>t\<in>set (db_ssts s). sst_inv t \<and> \<not> sst_obsolete t \<and> sst_obj t < db_next_obj s \<and>
       sst_path t \<noteq> wal_name \<and> ptrs_ok (db_vlogs s) (db_disk s) (sst_records t)) \<and>
     distinct (map sst_obj (db_ssts s))"

text \<open>A destructor that has still to run does not unlink the write-ahead log.\<close>

definition dead_ok :: "db \<Rightarrow> bool" where
  "dead_ok s \<longleftrightarrow> (\<forall>t\<in>set (db_dead_ssts s). sst_path t \<noteq> wal_name) \<and> (\<forall>v\<in>set (db_dead_vlogs s). vl_path v \<noteq> wal_name)"

definition db_inv :: "db \<Rightarrow> bool" where
  "db_inv s \<longleftrightarrow> vs_inv (db_vlogs s) (db_disk s) \<and> db_gen s \<in> fst ` set (db_vlogs s) \<and> wal_inv s \<and>
     mem_ok (db_mem s) \<and> mem_ok (db_fmem s) \<and> ssts_ok s \<and> dead_ok s"

lemma mem_ok_empty [simp]: "mem_ok memtable0"
  by (simp add: mem_ok_def mt_snapshot_map memtable0_def) (simp add: memtable0_def [symmetric])

lemma mt_snapshot_inline: "r \<in> set (mt_snapshot m) \<Longrightarrow> \<not> rec_separated r"
  by (auto simp: mt_snapshot_map)

lemma mt_ptrs_ok: "ptrs_ok vl d (mt_snapshot m)"
  using mt_snapshot_inline by (auto simp: ptrs_ok_def rec_value_of_def)

lemma mt_look: "look vl d (mt_snapshot m) k = mt_lookup m k"
proof (cases "find_rec k (mt_snapshot m)")
  case (Some r)
  then have "\<not> rec_separated r" using find_rec_key mt_snapshot_inline by blast
  with Some show ?thesis
    by (simp add: look_def mt_lookup_snapshot rec_ans_def rec_answer_def rec_value_of_def)
qed (simp add: look_def mt_lookup_snapshot)

lemma abs_db_alt:
  "abs_db s k = ojoin
     (case mt_lookup (db_mem s) k of Some a \<Rightarrow> Some a | None \<Rightarrow>
        (case (if db_has_flushing s then mt_lookup (db_fmem s) k else None) of Some a \<Rightarrow> Some a | None \<Rightarrow>
           look (db_vlogs s) (db_disk s) (concat (map sst_records (db_ssts s))) k))"
  by (simp add: abs_db_def layers_def look_append mt_look split: option.split)

text \<open>The part of the contents that the tables hold.\<close>

definition tables_map :: "db \<Rightarrow> bytes \<rightharpoonup> bytes" where
  "tables_map s k = ojoin (look (db_vlogs s) (db_disk s) (concat (map sst_records (db_ssts s))) k)"

lemma ssts_ptrs_ok: "ssts_ok s \<Longrightarrow> ptrs_ok (db_vlogs s) (db_disk s) (concat (map sst_records (db_ssts s)))"
  by (auto simp: ssts_ok_def ptrs_ok_def)

text \<open>
  The storage moved on, the tables stayed: everything that was readable reads the same.
\<close>

definition moved_on :: "(u32 \<times> vlog) list \<Rightarrow> disk \<Rightarrow> (u32 \<times> vlog) list \<Rightarrow> disk \<Rightarrow> bool" where
  "moved_on vl d vl' d' \<longleftrightarrow> vs_inv vl' d' \<and> fds vl' = fds vl \<and> fst ` set vl' = fst ` set vl \<and>
     (\<forall>r x. rec_value_of no_faults vl d r = Inr x \<longrightarrow> rec_value_of no_faults vl' d' r = Inr x)"

lemma moved_on_trans: "moved_on vl d vl1 d1 \<Longrightarrow> moved_on vl1 d1 vl2 d2 \<Longrightarrow> moved_on vl d vl2 d2"
  by (simp add: moved_on_def)

lemma moved_on_calm: "vs_inv vl d \<Longrightarrow> calm vl d d' \<Longrightarrow> moved_on vl d vl d'"
  by (simp add: moved_on_def calm_vs_inv calm_value)

lemma moved_on_vgrow: "vgrow vl d vl' d' \<Longrightarrow> moved_on vl d vl' d'"
  using vgrow_value by (auto simp: moved_on_def vgrow_def)

lemma moved_on_ptrs: "moved_on vl d vl' d' \<Longrightarrow> ptrs_ok vl d rs \<Longrightarrow> ptrs_ok vl' d' rs"
  by (fastforce simp: moved_on_def ptrs_ok_def)

lemma moved_on_look: "moved_on vl d vl' d' \<Longrightarrow> ptrs_ok vl d rs \<Longrightarrow> look vl' d' rs k = look vl d rs k"
  by (rule look_cong) (auto simp: moved_on_def)

subsection \<open>The pieces of a flush\<close>

lemma on_disk_Inr: "m (db_disk s) = (Inr x, d) \<Longrightarrow> on_disk m s = (Inr x, s\<lparr>db_disk := d\<rparr>)"
  by (simp add: on_disk_def)

definition sep_cost :: "nat \<Rightarrow> kv_record \<Rightarrow> nat" where
  "sep_cost sep r =
     (if rec_op r = Put \<and> length (rec_value r) \<ge> sep then 8 + length (rec_key r) + length (rec_value r) else 0)"

text \<open>Room for the values of a flush in the 64-bit offsets of the current log.\<close>

definition vlog_room :: "(u32 \<times> vlog) list \<Rightarrow> disk \<Rightarrow> u32 \<Rightarrow> nat \<Rightarrow> bool" where
  "vlog_room vl d g n \<longleftrightarrow>
     (case map_of vl g of None \<Rightarrow> False | Some v \<Rightarrow> length (blobs d (vl_fd v)) + n < 2 ^ 64)"

definition sep_rel :: "(u32 \<times> vlog) list \<Rightarrow> disk \<Rightarrow> kv_record \<Rightarrow> kv_record \<Rightarrow> bool" where
  "sep_rel vl d r r' \<longleftrightarrow> rec_key r' = rec_key r \<and> rec_op r' = rec_op r \<and> sst_rec_ok r' \<and>
     rec_value_of no_faults vl d r' = Inr (rec_value r)"

lemma db_vlog_append_ok:
  assumes inv: "vs_inv (db_vlogs s) (db_disk s)"
    and room: "vlog_room (db_vlogs s) (db_disk s) g (8 + length key + length val + n)"
    and len: "length key \<le> UINT32_MAX" "length val \<le> UINT32_MAX"
  obtains p vl' d' where "db_vlog_append no_faults g key val s = (Inr p, s\<lparr>db_disk := d', db_vlogs := vl'\<rparr>)"
    and "vgrow (db_vlogs s) (db_disk s) vl' d'" and "vlog_deref no_faults vl' d' p = Inr val"
    and "vlog_room vl' d' g n"
proof -
  obtain v where v: "map_of (db_vlogs s) g = Some v"
    and r: "length (blobs (db_disk s) (vl_fd v)) + (8 + length key + length val + n) < 2 ^ 64"
    using room by (auto simp: vlog_room_def split: option.splits)
  have fit: "vlog_fits key val v (db_disk s)" using r len by (simp add: vlog_fits_def)
  obtain p v' d' where a: "vlog_append no_faults key val v (db_disk s) = (Inr (p, v'), d')"
    "vgrow (db_vlogs s) (db_disk s) (vlogs_set g v' (db_vlogs s)) d'"
    "vlog_deref no_faults (vlogs_set g v' (db_vlogs s)) d' p = Inr val" "vp_gen p = g" "vl_fd v' = vl_fd v"
    "blobs d' (vl_fd v) = blobs (db_disk s) (vl_fd v) @ vlog_entry key val"
    by (rule vlog_append_vgrow [OF inv v fit])
  have "vlog_room (vlogs_set g v' (db_vlogs s)) d' g n"
    using r a(5,6) by (simp add: vlog_room_def map_of_vlogs_set)
  then show thesis using that [OF _ a(2,3)] v a(1) by (simp add: db_vlog_append_def)
qed

lemma separate_step_ok:
  assumes inv: "vs_inv (db_vlogs s) (db_disk s)" and room: "vlog_room (db_vlogs s) (db_disk s) g (sep_cost sep r + n)"
    and r: "sst_rec_ok r" "\<not> rec_separated r"
  obtains r' w' vl' d' where
    "separate_step no_faults sep g r (out, w) s = (Inr (out @ [r'], w'), s\<lparr>db_disk := d', db_vlogs := vl'\<rparr>)"
    and "vgrow (db_vlogs s) (db_disk s) vl' d'" and "sep_rel vl' d' r r'" and "vlog_room vl' d' g n"
proof (cases "rec_op r = Put \<and> length (rec_value r) \<ge> sep")
  case True
  have len: "length (rec_key r) \<le> UINT32_MAX" "length (rec_value r) \<le> UINT32_MAX"
    using r(1) by (simp_all add: sst_rec_ok_def)
  have room': "vlog_room (db_vlogs s) (db_disk s) g (8 + length (rec_key r) + length (rec_value r) + n)"
    using room True by (simp add: sep_cost_def)
  obtain p vl' d' where a: "db_vlog_append no_faults g (rec_key r) (rec_value r) s = (Inr p, s\<lparr>db_disk := d', db_vlogs := vl'\<rparr>)"
    "vgrow (db_vlogs s) (db_disk s) vl' d'" "vlog_deref no_faults vl' d' p = Inr (rec_value r)" "vlog_room vl' d' g n"
    by (rule db_vlog_append_ok [OF inv room' len])
  have "sep_rel vl' d' r (r\<lparr>rec_separated := True, rec_vptr := p, rec_value := []\<rparr>)"
    using r a(3) by (simp add: sep_rel_def sst_rec_ok_def rec_value_of_def)
  then show thesis
    using that [OF _ a(2) _ a(4)] True a(1) by (simp add: separate_step_def sbind_def)
next
  case False
  have "sep_rel (db_vlogs s) (db_disk s) r r" using r by (simp add: sep_rel_def rec_value_of_def)
  moreover have "sep_cost sep r = 0" unfolding sep_cost_def using False by (rule if_not_P)
  ultimately show thesis
    using that [of r w "db_vlogs s" "db_disk s"] False room vgrow_refl [OF inv]
    by (simp add: separate_step_def)
qed

lemma sep_rel_vgrow: "sep_rel vl d r r' \<Longrightarrow> vgrow vl d vl' d' \<Longrightarrow> sep_rel vl' d' r r'"
  by (simp add: sep_rel_def vgrow_value)

lemma separate_loop_ok:
  assumes "vs_inv (db_vlogs s) (db_disk s)" and "vlog_room (db_vlogs s) (db_disk s) g (sum_list (map (sep_cost sep) rs))"
    and "list_all sst_rec_ok rs" and "\<forall>r\<in>set rs. \<not> rec_separated r"
    and "list_all2 (sep_rel (db_vlogs s) (db_disk s)) done1 out"
  shows "\<exists>rs' w' vl' d'. sfold (separate_step no_faults sep g) rs (out, w) s
      = (Inr (rs', w'), s\<lparr>db_disk := d', db_vlogs := vl'\<rparr>) \<and>
    vgrow (db_vlogs s) (db_disk s) vl' d' \<and> list_all2 (sep_rel vl' d') (done1 @ rs) rs'"
  using assms
proof (induction rs arbitrary: s out w done1)
  case Nil
  then have "sfold (separate_step no_faults sep g) [] (out, w) s
      = (Inr (out, w), s\<lparr>db_disk := db_disk s, db_vlogs := db_vlogs s\<rparr>)"
    "vgrow (db_vlogs s) (db_disk s) (db_vlogs s) (db_disk s)"
    "list_all2 (sep_rel (db_vlogs s) (db_disk s)) (done1 @ []) out" by (simp_all add: vgrow_refl)
  then show ?case by blast
next
  case (Cons r rs)
  obtain r' w1 vl1 d1 where a:
    "separate_step no_faults sep g r (out, w) s = (Inr (out @ [r'], w1), s\<lparr>db_disk := d1, db_vlogs := vl1\<rparr>)"
    "vgrow (db_vlogs s) (db_disk s) vl1 d1" "sep_rel vl1 d1 r r'"
    "vlog_room vl1 d1 g (sum_list (map (sep_cost sep) rs))"
  proof (rule separate_step_ok)
    show "vs_inv (db_vlogs s) (db_disk s)" "vlog_room (db_vlogs s) (db_disk s) g (sep_cost sep r + sum_list (map (sep_cost sep) rs))"
      "sst_rec_ok r" "\<not> rec_separated r" using Cons.prems by simp_all
  qed
  let ?s = "s\<lparr>db_disk := d1, db_vlogs := vl1\<rparr>"
  have "list_all2 (sep_rel vl1 d1) done1 out"
    using Cons.prems(5) sep_rel_vgrow [OF _ a(2)] by (rule list_all2_mono)
  then have "list_all2 (sep_rel (db_vlogs ?s) (db_disk ?s)) (done1 @ [r]) (out @ [r'])"
    using a(3) by (simp add: list_all2_appendI)
  moreover have "vs_inv (db_vlogs ?s) (db_disk ?s)" using a(2) by (simp add: vgrow_def)
  ultimately have "\<exists>rs' w' vl' d'. sfold (separate_step no_faults sep g) rs (out @ [r'], w1) ?s
      = (Inr (rs', w'), ?s\<lparr>db_disk := d', db_vlogs := vl'\<rparr>) \<and>
    vgrow (db_vlogs ?s) (db_disk ?s) vl' d' \<and> list_all2 (sep_rel vl' d') ((done1 @ [r]) @ rs) rs'"
    by (intro Cons.IH) (use a(4) Cons.prems(3,4) in simp_all)
  then obtain rs' w' vl' d' where
    "sfold (separate_step no_faults sep g) rs (out @ [r'], w1) ?s = (Inr (rs', w'), ?s\<lparr>db_disk := d', db_vlogs := vl'\<rparr>)"
    "vgrow vl1 d1 vl' d'" "list_all2 (sep_rel vl' d') ((done1 @ [r]) @ rs) rs'" by auto
  then have "sfold (separate_step no_faults sep g) (r # rs) (out, w) s
      = (Inr (rs', w'), s\<lparr>db_disk := d', db_vlogs := vl'\<rparr>)"
    "vgrow (db_vlogs s) (db_disk s) vl' d'" "list_all2 (sep_rel vl' d') (done1 @ r # rs) rs'"
    using a(1) vgrow_trans [OF a(2)] by (simp_all add: sbind_def)
  then show ?case by blast
qed

lemma sep_rel_moved: "sep_rel vl d r r' \<Longrightarrow> moved_on vl d vl' d' \<Longrightarrow> sep_rel vl' d' r r'"
  by (simp add: sep_rel_def moved_on_def)

lemma d_truncate_ino [simp]: "d_ino (d_truncate i d) n = d_ino d n" "next_ino (d_truncate i d) = next_ino d"
  by (simp_all add: d_ino_def d_truncate_def)

lemma separate_ok:
  assumes inv: "vs_inv (db_vlogs s) (db_disk s)" and room: "vlog_room (db_vlogs s) (db_disk s) g (sum_list (map (sep_cost sep) rs))"
    and rs: "list_all sst_rec_ok rs" "\<forall>r\<in>set rs. \<not> rec_separated r"
  obtains rs' w' vl' d' where "separate no_faults sep g rs s = (Inr (rs', w'), s\<lparr>db_disk := d', db_vlogs := vl'\<rparr>)"
    and "moved_on (db_vlogs s) (db_disk s) vl' d'" and "list_all2 (sep_rel vl' d') rs rs'"
    and "dents d' = dents (db_disk s)" and "next_ino d' = next_ino (db_disk s)"
proof -
  obtain rs' w' vl' d1 where a: "sfold (separate_step no_faults sep g) rs ([], 0) s
      = (Inr (rs', w'), s\<lparr>db_disk := d1, db_vlogs := vl'\<rparr>)"
    "vgrow (db_vlogs s) (db_disk s) vl' d1" "list_all2 (sep_rel vl' d1) rs rs'"
    using separate_loop_ok [OF inv room rs, of "[]" "[]" 0] by auto
  have "g \<in> fst ` set (db_vlogs s)"
    using room by (force simp: vlog_room_def split: option.splits dest: map_of_SomeD)
  then have g: "g \<in> fst ` set vl'" "vs_inv vl' d1" using a(2) by (simp_all add: vgrow_def)
  then obtain v where v: "map_of vl' g = Some v" by (metis map_of_eq_None_iff not_None_eq)
  let ?d = "if w' \<noteq> 0 then d_fsync (vl_fd v) d1 else d1"
  have "calm vl' d1 ?d" by (rule calm_same_names [OF g(2)]) (simp_all add: d_fsync_def)
  note calm = moved_on_calm [OF g(2) this]
  have "separate no_faults sep g rs s = (Inr (rs', w'), s\<lparr>db_disk := ?d, db_vlogs := vl'\<rparr>)"
    using a(1) v by (simp add: separate_def sbind_def db_vlog_sync_def vlog_sync_def on_disk_def no_faults_def)
  moreover have "list_all2 (sep_rel vl' ?d) rs rs'"
    using a(3) sep_rel_moved [OF _ calm] by (rule list_all2_mono)
  moreover have "dents ?d = dents (db_disk s)" "next_ino ?d = next_ino (db_disk s)"
    using a(2) by (simp_all add: vgrow_def d_fsync_def)
  ultimately show thesis
    using that moved_on_trans [OF moved_on_vgrow [OF a(2)] calm] by blast
qed

lemma build_rename_ok:
  assumes inv: "vs_inv vl (db_disk s)" and b: "buildable lg rs"
  obtains file1 d' where "build_rename no_faults lg ctx seq rs s = (Inr (of_nat (length file1)), s\<lparr>db_disk := d'\<rparr>)"
    and "build_file lg rs = Inr file1" and "d_read d' (sst_name seq) = Some file1"
    and "calm vl (db_disk s) d'" and "d_ino d' wal_name = d_ino (db_disk s) wal_name"
proof -
  let ?tmp = "sst_name seq @ tmp_suffix" and ?fin = "sst_name seq"
  obtain file1 where f: "build_file lg rs = Inr file1"
    using b by (auto simp: buildable_def sst_fits_def split: sum.splits)
  let ?d1 = "d_store ?tmp file1 (db_disk s)"
  let ?d2 = "d_moved ?tmp ?fin ?d1"
  have c1: "calm vl (db_disk s) ?d1" by (rule calm_store [OF inv]) simp
  have i: "d_ino ?d1 ?tmp = Some (ino_of ?tmp (db_disk s))" by (simp add: d_store_eqs)
  have c2: "calm vl ?d1 ?d2" by (rule calm_moved [OF calm_vs_inv [OF inv c1] _ i]) simp
  have wal: "wal_name \<noteq> ?tmp" "wal_name \<noteq> ?fin"
    by (simp_all add: wal_name_def sst_name_def)
  have "build_rename no_faults lg ctx seq rs s = (Inr (of_nat (length file1)), s\<lparr>db_disk := ?d2\<rparr>)"
    by (simp add: build_rename_def Let_def sbind_def on_disk_def sst_build_ok [OF f] d_rename_ok [OF i])
  moreover have "d_read ?d2 ?fin = Some file1" by (simp add: d_read_def d_moved_eqs [OF i] d_store_eqs)
  moreover have "d_ino ?d2 wal_name = d_ino (db_disk s) wal_name"
    using wal by (simp add: d_moved_eqs [OF i] d_store_eqs)
  ultimately show thesis using that f calm_trans [OF c1 c2] by blast
qed

lemma make_sst_ok:
  assumes b: "buildable lg rs" and f: "build_file lg rs = Inr file1" "d_read (db_disk s) path = Some file1"
  obtains t where "make_sst no_faults path s = (Inr t, s\<lparr>db_next_obj := Suc (db_next_obj s)\<rparr>)"
    and "sst_inv t" and "sst_records t = rs" and "sst_obj t = db_next_obj s" and "sst_path t = path"
    and "\<not> sst_obsolete t"
proof -
  obtain file2 t where t: "build_file lg rs = Inr file2" "sst_parse no_faults (db_next_obj s) path file2 = Inr t"
    "sst_inv t" "sst_records t = rs" "sst_obj t = db_next_obj s" "sst_path t = path"
    "\<not> sst_obsolete t" "sst_file_size t = of_nat (length file2)" "sst_num_records t = of_nat (length rs)"
    by (rule buildable_open [OF b, of "db_next_obj s" path])
  then have "make_sst no_faults path s = (Inr t, s\<lparr>db_next_obj := Suc (db_next_obj s)\<rparr>)"
    using f by (simp add: make_sst_def sst_open_def no_faults_def)
  with t show thesis using that by blast
qed

lemma manifest_write_ok:
  assumes inv: "vs_inv vl d"
  obtains d' where "manifest_write no_faults m d = (Inr (), d')" and "calm vl d d'"
    and "d_ino d' wal_name = d_ino d wal_name" and "d_read d' man_name = Some (manifest_bytes m)"
proof -
  let ?d1 = "d_store man_tmp_name (manifest_bytes m) d"
  let ?d2 = "d_moved man_tmp_name man_name ?d1"
  have c1: "calm vl d ?d1" by (rule calm_store [OF inv]) simp
  have i: "d_ino ?d1 man_tmp_name = Some (ino_of man_tmp_name d)" by (simp add: d_store_eqs)
  have c2: "calm vl ?d1 ?d2" by (rule calm_moved [OF calm_vs_inv [OF inv c1] _ i]) simp
  have wal: "wal_name \<noteq> man_tmp_name" "wal_name \<noteq> man_name"
    by (simp_all add: wal_name_def man_name_def man_tmp_name_def lit_def)
  have "manifest_write no_faults m d = (Inr (), ?d2)"
    by (simp add: manifest_write_def sbind_def write_file_sync_ok d_rename_ok [OF i] fsync_dir_ok)
  moreover have "d_ino ?d2 wal_name = d_ino d wal_name"
    using wal by (simp add: d_moved_eqs [OF i] d_store_eqs)
  moreover have "d_read ?d2 man_name = Some (manifest_bytes m)"
    by (simp add: d_read_def d_moved_eqs [OF i] d_store_eqs)
  ultimately show thesis using that calm_trans [OF c1 c2] by blast
qed

lemma write_manifest_ok:
  assumes inv: "vs_inv vl (db_disk s)"
  obtains d' where "write_manifest_locked no_faults s = (Inr (), s\<lparr>db_disk := d'\<rparr>)"
    and "calm vl (db_disk s) d'" and "d_ino d' wal_name = d_ino (db_disk s) wal_name"
    and "d_read d' man_name = Some (manifest_bytes (db_manifest s))"
proof -
  obtain d' where d': "manifest_write no_faults (db_manifest s) (db_disk s) = (Inr (), d')"
    "calm vl (db_disk s) d'" "d_ino d' wal_name = d_ino (db_disk s) wal_name"
    "d_read d' man_name = Some (manifest_bytes (db_manifest s))"
    by (rule manifest_write_ok [OF inv])
  then have "write_manifest_locked no_faults s = (Inr (), s\<lparr>db_disk := d'\<rparr>)"
    by (simp add: write_manifest_locked_def sbind_def on_disk_def)
  with d' show thesis using that by blast
qed

lemma open_wal_ok:
  assumes inv: "vs_inv vl (db_disk s)"
  obtains d' w i where "open_wal no_faults trunc s = (Inr (), s\<lparr>db_disk := d', db_wal := w\<rparr>)"
    and "wal_fd w = Some i" and "d_ino d' wal_name = Some i" and "i \<notin> fds vl" and "calm vl (db_disk s) d'"
proof -
  let ?i = "ino_of wal_name (db_disk s)" and ?d1 = "snd (d_create wal_name (db_disk s))"
  let ?d2 = "if trunc then d_truncate ?i ?d1 else ?d1"
  let ?w = "\<lparr>wal_path = wal_name, wal_fd = Some ?i\<rparr>"
  have i: "?i \<notin> fds vl" using ino_of_fd [OF inv, of wal_name] by auto
  have wf: "disk_wf (db_disk s)" using inv by (simp add: vs_inv_def)
  have "disk_wf (d_store wal_name [] (db_disk s))" by (rule disk_wf_store [OF wf])
  moreover have n2: "d_ino ?d2 n = d_ino (d_store wal_name [] (db_disk s)) n"
    "next_ino ?d2 = next_ino (d_store wal_name [] (db_disk s))" for n
    using d_create_eqs(2,4) [of wal_name "db_disk s"]
    by (simp_all add: d_store_eqs)
  ultimately have wf2: "disk_wf ?d2" by (simp add: disk_wf_def)
  have b: "blobs ?d2 j = blobs (db_disk s) j" if "j \<noteq> ?i" for j
    using that d_create_eqs(3) [of wal_name "db_disk s" j] by (simp add: d_truncate_def)
  have "blobs ?d2 j = blobs (db_disk s) j \<and> (\<forall>n. d_ino ?d2 n = Some j \<longrightarrow> d_ino (db_disk s) n = Some j)"
    if "j \<in> fds vl" for j
  proof -
    have "j \<noteq> ?i" using that i by blast
    then show ?thesis using b [of j] n2(1) by (auto simp: d_store_eqs)
  qed
  moreover have "next_ino (db_disk s) \<le> next_ino ?d2" by (simp only: n2) (simp add: d_store_eqs)
  ultimately have "calm vl (db_disk s) ?d2" unfolding calm_def using wf2 by blast
  moreover have "open_wal no_faults trunc s = (Inr (), s\<lparr>db_disk := ?d2, db_wal := ?w\<rparr>)"
    using d_create_eqs(1) [of wal_name "db_disk s"]
    by (cases "d_create wal_name (db_disk s)")
       (simp add: open_wal_def sbind_def on_disk_def wal_open_def no_faults_def wal_move_assign_def wal_close_fd_def)
  moreover have "d_ino ?d2 wal_name = Some ?i" using n2 by (simp add: d_store_eqs)
  ultimately show thesis using that [of ?w ?d2 ?i] i by simp
qed

subsection \<open>Flushing\<close>

text \<open>The sizes that a flush of \<open>recs\<close> reaches stay within the 64-bit fields of the formats.\<close>

definition flush_fits :: "(real \<Rightarrow> real) \<Rightarrow> u32 \<Rightarrow> kv_record list \<Rightarrow> db \<Rightarrow> bool" where
  "flush_fits lg gen recs s \<longleftrightarrow>
     vlog_room (db_vlogs s) (db_disk s) gen (sum_list (map (sep_cost (db_sep_threshold s)) recs)) \<and>
     (case separate no_faults (db_sep_threshold s) gen recs s of
        (Inr (recs', _), _) \<Rightarrow> sst_fits lg recs'
      | (Inl _, _) \<Rightarrow> True)"

lemma sep_rel_keys: "list_all2 (sep_rel vl d) rs rs' \<Longrightarrow> map rec_key rs' = map rec_key rs"
  by (induction rs rs' rule: list_all2_induct) (auto simp: sep_rel_def)

lemma sep_rel_ok: "list_all2 (sep_rel vl d) rs rs' \<Longrightarrow> list_all sst_rec_ok rs' \<and> ptrs_ok vl d rs'"
  by (induction rs rs' rule: list_all2_induct) (auto simp: sep_rel_def ptrs_ok_def)

lemma sep_rel_look:
  assumes "list_all2 (sep_rel vl d) (mt_snapshot m) rs'"
  shows "look vl d rs' k = mt_lookup m k"
proof -
  have "list_all2 (\<lambda>r r'. rec_key r' = rec_key r \<and> rec_ans vl d r' = rec_ans vl d r) (mt_snapshot m) rs'"
    using assms mt_snapshot_inline [of _ m]
    by (intro list_all2_all_nthI) (auto simp: list_all2_conv_all_nth sep_rel_def rec_ans_def rec_value_of_def)
  from look_list_all2 [OF this] show ?thesis by (simp add: mt_look)
qed

text \<open>Both flushes write out a memtable in the same way.\<close>

lemma flush_table_ok:
  assumes inv: "vs_inv (db_vlogs s) (db_disk s)" and m: "mem_ok m"
    and fits: "flush_fits lg gen (mt_snapshot m) s"
  obtains rs' w vl' d1 file1 d2 where
    "separate no_faults (db_sep_threshold s) gen (mt_snapshot m) s = (Inr (rs', w), s\<lparr>db_disk := d1, db_vlogs := vl'\<rparr>)"
    and "build_rename no_faults lg ctx seq rs' (s\<lparr>db_disk := d1, db_vlogs := vl'\<rparr>)
      = (Inr (of_nat (length file1)), s\<lparr>db_disk := d2, db_vlogs := vl'\<rparr>)"
    and "buildable lg rs'" and "build_file lg rs' = Inr file1" and "d_read d2 (sst_name seq) = Some file1"
    and "moved_on (db_vlogs s) (db_disk s) vl' d2" and "list_all2 (sep_rel vl' d2) (mt_snapshot m) rs'"
    and "d_ino d2 wal_name = d_ino (db_disk s) wal_name"
proof -
  let ?recs = "mt_snapshot m" and ?sep = "db_sep_threshold s"
  have recs: "list_all sst_rec_ok ?recs" "\<forall>r\<in>set ?recs. \<not> rec_separated r" "ssorted (map rec_key ?recs)"
    using m mt_snapshot_inline mt_snapshot_sorted by (auto simp: mem_ok_def)
  have room: "vlog_room (db_vlogs s) (db_disk s) gen (sum_list (map (sep_cost ?sep) ?recs))"
    using fits by (simp add: flush_fits_def)
  obtain rs' w vl' d1 where a: "separate no_faults ?sep gen ?recs s = (Inr (rs', w), s\<lparr>db_disk := d1, db_vlogs := vl'\<rparr>)"
    "moved_on (db_vlogs s) (db_disk s) vl' d1" "list_all2 (sep_rel vl' d1) ?recs rs'"
    "dents d1 = dents (db_disk s)" "next_ino d1 = next_ino (db_disk s)"
    by (rule separate_ok [OF inv room recs(1,2)])
  have b: "buildable lg rs'"
    using fits a(1) recs(3) sep_rel_keys [OF a(3)] sep_rel_ok [OF a(3)]
    by (simp add: buildable_def flush_fits_def)
  have inv1: "vs_inv vl' (db_disk (s\<lparr>db_disk := d1, db_vlogs := vl'\<rparr>))" using a(2) by (simp add: moved_on_def)
  obtain file1 d2 where c: "build_rename no_faults lg ctx seq rs' (s\<lparr>db_disk := d1, db_vlogs := vl'\<rparr>)
      = (Inr (of_nat (length file1)), s\<lparr>db_disk := d1, db_vlogs := vl'\<rparr>\<lparr>db_disk := d2\<rparr>)"
    "build_file lg rs' = Inr file1" "d_read d2 (sst_name seq) = Some file1"
    "calm vl' (db_disk (s\<lparr>db_disk := d1, db_vlogs := vl'\<rparr>)) d2"
    "d_ino d2 wal_name = d_ino (db_disk (s\<lparr>db_disk := d1, db_vlogs := vl'\<rparr>)) wal_name"
    by (rule build_rename_ok [OF inv1 b])
  have mo: "moved_on vl' d1 vl' d2" using moved_on_calm [OF inv1 c(4)] by simp
  have "list_all2 (sep_rel vl' d2) ?recs rs'" using a(3) sep_rel_moved [OF _ mo] by (rule list_all2_mono)
  moreover have "d_ino d2 wal_name = d_ino (db_disk s) wal_name" using c(5) a(4) by (simp add: d_ino_def)
  moreover have "s\<lparr>db_disk := d1, db_vlogs := vl'\<rparr>\<lparr>db_disk := d2\<rparr> = s\<lparr>db_disk := d2, db_vlogs := vl'\<rparr>" by simp
  ultimately show thesis
    using c(1) by (intro that [OF a(1) _ b c(2,3) moved_on_trans [OF a(2) mo]]) simp_all
qed

text \<open>A new table in front of the list answers for the memtable it was written from.\<close>

lemma ssts_ok_insert:
  assumes ok: "ssts_ok s" and mo: "moved_on (db_vlogs s) (db_disk s) vl' d'"
    and t: "sst_inv t" "\<not> sst_obsolete t" "sst_obj t = db_next_obj s" "sst_path t \<noteq> wal_name" "ptrs_ok vl' d' (sst_records t)"
    and s': "db_ssts s' = t # db_ssts s" "db_vlogs s' = vl'" "db_disk s' = d'" "db_next_obj s' = Suc (db_next_obj s)"
  shows "ssts_ok s'"
proof -
  have old: "sst_inv u \<and> \<not> sst_obsolete u \<and> sst_obj u < db_next_obj s \<and> sst_path u \<noteq> wal_name \<and>
      ptrs_ok vl' d' (sst_records u)"
    if "u \<in> set (db_ssts s)" for u
    using ok that moved_on_ptrs [OF mo] by (auto simp: ssts_ok_def)
  then have "sst_obj t \<notin> sst_obj ` set (db_ssts s)" using t(3) by fastforce
  moreover have "sst_obj u < Suc (db_next_obj s)" if "u \<in> set (db_ssts s)" for u
    using old [OF that] by simp
  ultimately show ?thesis using old ok t s' by (auto simp: ssts_ok_def)
qed

text \<open>
  What an operation of one thread leaves alone of what the others work with: it puts new
  tables in front of the list at most, and does not touch a sealed memtable.
\<close>

definition keeps :: "db \<Rightarrow> db \<Rightarrow> bool" where
  "keeps s s' \<longleftrightarrow>
     (\<exists>new. db_ssts s' = new @ db_ssts s \<and> (\<forall>t\<in>set new. db_next_obj s \<le> sst_obj t)) \<and>
     db_next_obj s \<le> db_next_obj s' \<and> db_gen s' = db_gen s \<and> db_compacting s' = db_compacting s \<and>
     moved_on (db_vlogs s) (db_disk s) (db_vlogs s') (db_disk s') \<and>
     (db_has_flushing s \<longrightarrow> db_has_flushing s' \<and> db_fmem s' = db_fmem s)"

lemma keeps_same_ssts:
  assumes "db_ssts s' = db_ssts s" and "db_next_obj s' = db_next_obj s" and "db_gen s' = db_gen s"
    and "db_compacting s' = db_compacting s" and "moved_on (db_vlogs s) (db_disk s) (db_vlogs s') (db_disk s')"
    and "db_has_flushing s \<Longrightarrow> db_has_flushing s' \<and> db_fmem s' = db_fmem s"
  shows "keeps s s'"
  using assms by (auto simp: keeps_def)

lemma moved_on_refl: "vs_inv vl d \<Longrightarrow> moved_on vl d vl d"
  by (simp add: moved_on_def)

lemma keeps_refl: "db_inv s \<Longrightarrow> keeps s s"
  by (rule keeps_same_ssts) (auto simp: db_inv_def moved_on_refl)

lemma keeps_trans:
  assumes "keeps s1 s2" and "keeps s2 s3"
  shows "keeps s1 s3"
proof -
  obtain n1 n2 where "db_ssts s2 = n1 @ db_ssts s1" "\<forall>t\<in>set n1. db_next_obj s1 \<le> sst_obj t"
    "db_ssts s3 = n2 @ db_ssts s2" "\<forall>t\<in>set n2. db_next_obj s2 \<le> sst_obj t"
    using assms by (auto simp: keeps_def)
  moreover have "db_next_obj s1 \<le> db_next_obj s2" using assms(1) by (simp add: keeps_def)
  ultimately have "db_ssts s3 = (n2 @ n1) @ db_ssts s1 \<and> (\<forall>t\<in>set (n2 @ n1). db_next_obj s1 \<le> sst_obj t)"
    by fastforce
  then have "\<exists>new. db_ssts s3 = new @ db_ssts s1 \<and> (\<forall>t\<in>set new. db_next_obj s1 \<le> sst_obj t)" by blast
  with assms show ?thesis
    using moved_on_trans [of "db_vlogs s1" "db_disk s1" "db_vlogs s2" "db_disk s2"] by (simp add: keeps_def)
qed

lemma flush_locked_ok:
  assumes inv: "db_inv s" and ne: "\<not> mt_empty (db_mem s)"
    and fits: "flush_fits lg (db_gen s) (mt_snapshot (db_mem s)) (s\<lparr>db_seq := db_seq s + 1\<rparr>)"
  obtains s' t where "flush_locked no_faults lg s = (Inr (), s')" and "db_inv s'"
    and "db_mem s' = memtable0" and "db_ssts s' = t # db_ssts s"
    and "look (db_vlogs s') (db_disk s') (sst_records t) = mt_lookup (db_mem s)"
    and "moved_on (db_vlogs s) (db_disk s) (db_vlogs s') (db_disk s')"
    and "db_has_flushing s' = db_has_flushing s" and "db_fmem s' = db_fmem s" and "db_gen s' = db_gen s"
    and "db_compacting s' = db_compacting s" and "db_next_obj s' = Suc (db_next_obj s)" and "keeps s s'"
    and "\<exists>w s1. separate no_faults (db_sep_threshold s) (db_gen s) (mt_snapshot (db_mem s)) (s\<lparr>db_seq := db_seq s + 1\<rparr>)
      = (Inr (sst_records t, w), s1)"
proof -
  let ?s0 = "s\<lparr>db_seq := db_seq s + 1\<rparr>" and ?seq = "db_seq s"
  have vs: "vs_inv (db_vlogs ?s0) (db_disk ?s0)" and m: "mem_ok (db_mem s)" "mem_ok (db_fmem s)" and ok: "ssts_ok s"
    using inv by (simp_all add: db_inv_def)
  obtain rs' w vl' d1 file1 d2 where a:
    "separate no_faults (db_sep_threshold ?s0) (db_gen s) (mt_snapshot (db_mem s)) ?s0 = (Inr (rs', w), ?s0\<lparr>db_disk := d1, db_vlogs := vl'\<rparr>)"
    "build_rename no_faults lg ''SSTable rename'' ?seq rs' (?s0\<lparr>db_disk := d1, db_vlogs := vl'\<rparr>)
      = (Inr (of_nat (length file1)), ?s0\<lparr>db_disk := d2, db_vlogs := vl'\<rparr>)"
    "buildable lg rs'" "build_file lg rs' = Inr file1" "d_read d2 (sst_name ?seq) = Some file1"
    "moved_on (db_vlogs ?s0) (db_disk ?s0) vl' d2" "list_all2 (sep_rel vl' d2) (mt_snapshot (db_mem s)) rs'"
    "d_ino d2 wal_name = d_ino (db_disk ?s0) wal_name"
    by (rule flush_table_ok [OF vs m(1) fits])
  let ?st = "(db_stat s)\<lparr>st_flush_bytes := st_flush_bytes (db_stat s) + of_nat (length file1),
                         st_vlog_bytes := st_vlog_bytes (db_stat s) + w\<rparr>"
  let ?s1 = "?s0\<lparr>db_disk := d2, db_vlogs := vl', db_stat := ?st\<rparr>"
  have rd: "d_read (db_disk ?s1) (sst_name ?seq) = Some file1" using a(5) by simp
  obtain t where t: "make_sst no_faults (sst_name ?seq) ?s1 = (Inr t, ?s1\<lparr>db_next_obj := Suc (db_next_obj ?s1)\<rparr>)"
    "sst_inv t" "sst_records t = rs'" "sst_obj t = db_next_obj ?s1" "sst_path t = sst_name ?seq" "\<not> sst_obsolete t"
    by (rule make_sst_ok [OF a(3,4) rd])
  let ?s2 = "insert_flushed t (?s1\<lparr>db_next_obj := Suc (db_next_obj ?s1)\<rparr>)"
  have vs2: "vs_inv vl' (db_disk ?s2)" using a(6) by (simp add: moved_on_def insert_flushed_def)
  obtain d3 where d3: "write_manifest_locked no_faults ?s2 = (Inr (), ?s2\<lparr>db_disk := d3\<rparr>)"
    "calm vl' (db_disk ?s2) d3" "d_ino d3 wal_name = d_ino (db_disk ?s2) wal_name"
    "d_read d3 man_name = Some (manifest_bytes (db_manifest ?s2))"
    by (rule write_manifest_ok [OF vs2])
  let ?s3 = "?s2\<lparr>db_disk := d3\<rparr>\<lparr>db_mem := memtable0\<rparr>"
  have vs3: "vs_inv vl' (db_disk ?s3)" using calm_vs_inv [OF vs2 d3(2)] by simp
  obtain d4 w4 i where d4: "open_wal no_faults True ?s3 = (Inr (), ?s3\<lparr>db_disk := d4, db_wal := w4\<rparr>)"
    "wal_fd w4 = Some i" "d_ino d4 wal_name = Some i" "i \<notin> fds vl'" "calm vl' (db_disk ?s3) d4"
    by (rule open_wal_ok [OF vs3])
  let ?s4 = "?s3\<lparr>db_disk := d4, db_wal := w4\<rparr>"
  have c: "calm vl' d2 d4" using calm_trans [OF d3(2)] d4(5) by (simp add: insert_flushed_def)
  have vs2': "vs_inv vl' d2" using a(6) by (simp add: moved_on_def)
  have mo: "moved_on (db_vlogs s) (db_disk s) vl' d4"
    using moved_on_trans [OF a(6) moved_on_calm [OF vs2' c]] by simp
  have sep4: "list_all2 (sep_rel vl' d4) (mt_snapshot (db_mem s)) rs'"
    using a(7) sep_rel_moved [OF _ moved_on_calm [OF vs2' c]] by (rule list_all2_mono)
  have run: "flush_locked no_faults lg s = (Inr (), ?s4)"
    using ne a(1,2) t(1) d3(1) d4(1)
    by (simp add: flush_locked_def sbind_def take_seq_def on_disk_def fsync_dir_ok add_stats_def)
  have "ssts_ok ?s4"
    by (rule ssts_ok_insert [OF ok mo t(2,6)]) (use t sep_rel_ok [OF sep4] in \<open>simp_all add: insert_flushed_def\<close>)
  moreover have "wal_inv ?s4" using d4(2-4) by (simp add: wal_inv_def insert_flushed_def)
  moreover have "vs_inv vl' d4" "db_gen s \<in> fst ` set vl'"
    using mo inv by (simp_all add: moved_on_def db_inv_def)
  ultimately have "db_inv ?s4" using m(2) inv by (simp add: db_inv_def dead_ok_def insert_flushed_def)
  moreover have "look vl' d4 (sst_records t) = mt_lookup (db_mem s)"
    using sep_rel_look [OF sep4] t(3) by auto
  moreover have "keeps s ?s4" using mo t(4) by (simp add: keeps_def insert_flushed_def)
  ultimately show thesis using that [OF run] mo a(1) t(3) by (simp add: insert_flushed_def)
qed

lemma flush_locked_abs:
  assumes inv: "db_inv s" and free: "\<not> db_has_flushing s"
    and fits: "\<not> mt_empty (db_mem s) \<Longrightarrow>
      flush_fits lg (db_gen s) (mt_snapshot (db_mem s)) (s\<lparr>db_seq := db_seq s + 1\<rparr>)"
  obtains s' where "flush_locked no_faults lg s = (Inr (), s')" and "db_inv s'" and "abs_db s' = abs_db s"
    and "mt_empty (db_mem s')" and "\<not> db_has_flushing s'" and "db_gen s' = db_gen s"
    and "db_compacting s' = db_compacting s" and "keeps s s'"
proof (cases "mt_empty (db_mem s)")
  case True
  then have "flush_locked no_faults lg s = (Inr (), s)" by (simp add: flush_locked_def sbind_def)
  then show thesis using that [of s] inv free True keeps_refl [OF inv] by simp
next
  case False
  obtain s' t where s': "flush_locked no_faults lg s = (Inr (), s')" "db_inv s'"
    "db_mem s' = memtable0" "db_ssts s' = t # db_ssts s"
    "look (db_vlogs s') (db_disk s') (sst_records t) = mt_lookup (db_mem s)"
    "moved_on (db_vlogs s) (db_disk s) (db_vlogs s') (db_disk s')"
    "db_has_flushing s' = db_has_flushing s" "db_fmem s' = db_fmem s" "db_gen s' = db_gen s"
    "db_compacting s' = db_compacting s" "db_next_obj s' = Suc (db_next_obj s)" "keeps s s'"
    by (rule flush_locked_ok [OF inv False fits [OF False]])
  have "ssts_ok s" using inv by (simp add: db_inv_def)
  then have "abs_db s' k = abs_db s k" for k
    using s' free moved_on_look [OF s'(6) ssts_ptrs_ok]
    by (simp add: abs_db_alt look_append split: option.split)
  then have "abs_db s' = abs_db s" by (rule ext)
  then show thesis using that s' free by (simp add: mt_empty_def memtable0_def)
qed

subsection \<open>Sealing\<close>

lemma flushing_name_neq [simp]: "flushing_wal_name \<noteq> wal_name"
  by (simp add: flushing_wal_name_def wal_name_def)

lemma seal_locked_ok:
  assumes inv: "db_inv s" and free: "\<not> db_has_flushing s"
  obtains s' where "seal_locked no_faults s = (Inr (), s')" and "db_inv s'" and "abs_db s' = abs_db s"
    and "keeps s s'"
proof (cases "mt_empty (db_mem s)")
  case True
  then have "seal_locked no_faults s = (Inr (), s)" by (simp add: seal_locked_def sbind_def)
  then show thesis using that [of s] inv keeps_refl [OF inv] by simp
next
  case False
  have vs: "vs_inv (db_vlogs s) (db_disk s)" and ok: "ssts_ok s" using inv by (simp_all add: db_inv_def)
  obtain i where i: "wal_fd (db_wal s) = Some i" "d_ino (db_disk s) wal_name = Some i" "i \<notin> fds (db_vlogs s)"
    using inv by (auto simp: db_inv_def wal_inv_def)
  let ?d1 = "d_fsync i (db_disk s)"
  have c1: "calm (db_vlogs s) (db_disk s) ?d1" by (rule calm_same_names [OF vs]) (simp_all add: d_fsync_def)
  have i1: "d_ino ?d1 wal_name = Some i" using i(2) by (simp add: d_ino_def d_fsync_def)
  let ?d2 = "d_moved wal_name flushing_wal_name ?d1"
  have c2: "calm (db_vlogs s) ?d1 ?d2" by (rule calm_moved [OF calm_vs_inv [OF vs c1] _ i1]) simp
  let ?s2 = "s\<lparr>db_disk := ?d2\<rparr>"
  have vs2: "vs_inv (db_vlogs s) (db_disk ?s2)" using calm_vs_inv [OF calm_vs_inv [OF vs c1] c2] by simp
  obtain d3 w j where d3: "open_wal no_faults True ?s2 = (Inr (), ?s2\<lparr>db_disk := d3, db_wal := w\<rparr>)"
    "wal_fd w = Some j" "d_ino d3 wal_name = Some j" "j \<notin> fds (db_vlogs s)" "calm (db_vlogs s) (db_disk ?s2) d3"
    by (rule open_wal_ok [OF vs2])
  let ?s4 = "?s2\<lparr>db_disk := d3, db_wal := w, db_seq := db_seq s + 1, db_fseq := db_seq s, db_fmem := db_mem s,
    db_mem := memtable0, db_has_flushing := True\<rparr>"
  have run: "seal_locked no_faults s = (Inr (), ?s4)"
    using False i(1) d3(1) d_rename_ok [OF i1, of _ flushing_wal_name]
    by (simp add: seal_locked_def sbind_def on_disk_def wal_sync_def no_faults_def [of "''WAL fsync''"]
        fsync_dir_ok take_seq_def)
  have mo: "moved_on (db_vlogs s) (db_disk s) (db_vlogs s) d3"
    using moved_on_calm [OF vs] calm_trans [OF calm_trans [OF c1 c2]] d3(5) by simp
  have "ssts_ok ?s4" using ok moved_on_ptrs [OF mo] by (auto simp: ssts_ok_def)
  then have inv4: "db_inv ?s4"
    using inv d3(2-4) mo by (auto simp: db_inv_def wal_inv_def dead_ok_def moved_on_def)
  have "abs_db ?s4 k = abs_db s k" for k
    using free moved_on_look [OF mo ssts_ptrs_ok [OF ok]] by (simp add: abs_db_alt split: option.split)
  then have "abs_db ?s4 = abs_db s" by (rule ext)
  moreover have "keeps s ?s4" by (rule keeps_same_ssts) (use free mo in simp_all)
  ultimately show thesis using that [OF run inv4] by simp
qed

subsection \<open>Writes\<close>

lemma maybe_seal_ok:
  assumes inv: "db_inv s"
  obtains s' where "maybe_seal no_faults s = (Inr (), s')" and "db_inv s'" and "abs_db s' = abs_db s" and "keeps s s'"
proof (cases "unat (mt_size (db_mem s)) < db_threshold s \<or> (slot_free s \<and> db_stop s)")
  case True
  then have "maybe_seal no_faults s = (Inr (), s)" by (auto simp: maybe_seal_def)
  then show thesis using that [of s] inv keeps_refl [OF inv] by simp
next
  case big: False
  show thesis
  proof (cases "slot_free s")
    case True
    then have "\<not> db_has_flushing s" using big by (auto simp: slot_free_def)
    then obtain s' where "seal_locked no_faults s = (Inr (), s')" "db_inv s'" "abs_db s' = abs_db s" "keeps s s'"
      using seal_locked_ok [OF inv] by metis
    then show thesis using that big True by (simp add: maybe_seal_def)
  next
    case False
    let ?s = "s\<lparr>db_waiters := Suc (db_waiters s)\<rparr>"
    have "maybe_seal no_faults s = (Inr (), ?s)" using big False by (simp add: maybe_seal_def)
    moreover have "db_inv ?s" using inv by (simp add: db_inv_def wal_inv_def ssts_ok_def dead_ok_def)
    moreover have "keeps s ?s" by (rule keeps_same_ssts) (use inv moved_on_refl in \<open>simp_all add: db_inv_def\<close>)
    moreover have "abs_db ?s = abs_db s" by (rule ext) (simp add: abs_db_def layers_def)
    ultimately show thesis using that by blast
  qed
qed

text \<open>
  A write record that the log accepts, applied to the memtable: the part of \<open>put\<close> and
  \<open>del\<close> before the threshold test.
\<close>

lemma sst_rec_ok_store:
  assumes "mem_ok m" and "length k \<le> UINT32_MAX" and "length (ent_value e) \<le> UINT32_MAX"
    and "ent_tombstone e \<Longrightarrow> ent_value e = []"
  shows "mem_ok (mt_store k e m)"
proof -
  have "sst_rec_ok (entry_record (k, e))"
    using assms(2,3) by (simp add: sst_rec_ok_def entry_record_def known_op_def)
  moreover have "set (mt_entries (mt_store k e m)) \<subseteq> insert (k, e) (set (mt_entries m))"
    using set_omap_put(1) [of k e "mt_entries m"] by (simp add: mt_store_def)
  ultimately show ?thesis
    using assms mt_store_inv by (auto simp: mem_ok_def mt_snapshot_map list_all_iff)
qed

lemma write_mem_ok:
  assumes inv: "db_inv s" and m: "mem_ok m"
    and s': "s' = s\<lparr>db_disk := d', db_mem := m, db_stat := st\<rparr>" and c: "calm (db_vlogs s) (db_disk s) d'"
    and wal: "d_ino d' wal_name = d_ino (db_disk s) wal_name"
    and lk: "mt_lookup m = (mt_lookup (db_mem s))(k \<mapsto> a)"
  shows "db_inv s'" and "abs_db s' = (abs_db s)(k := a)" and "keeps s s'"
proof -
  have vs: "vs_inv (db_vlogs s) (db_disk s)" and ok: "ssts_ok s" using inv by (simp_all add: db_inv_def)
  note mo = moved_on_calm [OF vs c]
  have "ssts_ok s'" using ok moved_on_ptrs [OF mo] by (auto simp: ssts_ok_def s')
  then show "db_inv s'"
    using inv m wal calm_vs_inv [OF vs c] by (simp add: db_inv_def wal_inv_def dead_ok_def s')
  show "keeps s s'" by (rule keeps_same_ssts) (use mo in \<open>simp_all add: s'\<close>)
  have "look (db_vlogs s) d' (concat (map sst_records (db_ssts s))) j
      = look (db_vlogs s) (db_disk s) (concat (map sst_records (db_ssts s))) j" for j
    by (rule moved_on_look [OF mo ssts_ptrs_ok [OF ok]])
  then show "abs_db s' = (abs_db s)(k := a)"
    by (intro ext) (simp add: abs_db_alt s' lk split: option.split)
qed

lemma db_wal_append_ok:
  assumes inv: "db_inv s" and len: "length (rec_key r) \<le> UINT32_MAX" "length (rec_value r) \<le> UINT32_MAX"
  obtains d' where "wal_append no_faults r sync (db_wal s) (db_disk s) = (Inr (), d')"
    and "calm (db_vlogs s) (db_disk s) d'" and "d_ino d' wal_name = d_ino (db_disk s) wal_name"
proof -
  have vs: "vs_inv (db_vlogs s) (db_disk s)" using inv by (simp add: db_inv_def)
  obtain i where i: "wal_fd (db_wal s) = Some i" "i \<notin> fds (db_vlogs s)"
    using inv by (auto simp: db_inv_def wal_inv_def)
  let ?d1 = "d_append i (wal_encode r) (db_disk s)"
  let ?d = "if sync then d_fsync i ?d1 else ?d1"
  have "wal_append no_faults r sync (db_wal s) (db_disk s) = (Inr (), ?d)"
    using i(1) len by (simp add: wal_append_def wal_sync_def no_faults_def Let_def)
  moreover have "calm (db_vlogs s) (db_disk s) ?d"
    by (rule calm_same_names [OF vs]) (use i(2) in \<open>auto simp: d_fsync_def d_append_def d_set_def\<close>)
  moreover have "d_ino ?d wal_name = d_ino (db_disk s) wal_name"
    by (simp add: d_fsync_def d_append_def d_set_def d_ino_def)
  ultimately show thesis using that by blast
qed

lemma db_put_ok:
  assumes inv: "db_inv s" and len: "length k \<le> UINT32_MAX" "length v \<le> UINT32_MAX"
  obtains s' where "db_put no_faults k v sync s = (Inr (), s')" and "db_inv s'"
    and "abs_db s' = (abs_db s)(k \<mapsto> v)" and "keeps s s'"
proof -
  obtain d' where d': "wal_append no_faults (mk_record Put k v) sync (db_wal s) (db_disk s) = (Inr (), d')"
    "calm (db_vlogs s) (db_disk s) d'" "d_ino d' wal_name = d_ino (db_disk s) wal_name"
    using db_wal_append_ok [OF inv, of "mk_record Put k v"] len by auto
  have m: "mem_ok (db_mem s)" using inv by (simp add: db_inv_def)
  have m': "mem_ok (mt_put k v (db_mem s))"
    unfolding mt_put_store by (rule sst_rec_ok_store [OF m]) (use len in simp_all)
  have lk: "mt_lookup (mt_put k v (db_mem s)) = (mt_lookup (db_mem s))(k \<mapsto> Some v)"
    using m by (simp add: mem_ok_def mt_lookup_put)
  let ?st = "(db_stat s)\<lparr>st_writes := st_writes (db_stat s) + 1,
     st_user_bytes := st_user_bytes (db_stat s) + (of_nat (length k) + of_nat (length v)),
     st_wal_bytes := st_wal_bytes (db_stat s) + wal_record_bytes k v\<rparr>"
  let ?s = "s\<lparr>db_disk := d', db_mem := mt_put k v (db_mem s), db_stat := ?st\<rparr>"
  note w = write_mem_ok [OF inv m' refl d'(2,3) lk, where st = ?st]
  obtain s' where s': "maybe_seal no_faults ?s = (Inr (), s')" "db_inv s'" "abs_db s' = abs_db ?s" "keeps ?s s'"
    by (rule maybe_seal_ok [OF w(1)])
  have "db_put no_faults k v sync s = (Inr (), s')"
    using d'(1) s'(1) by (simp add: db_put_def sbind_def on_disk_def add_stats_def)
  then show thesis using that s'(2,3) w(2) keeps_trans [OF w(3) s'(4)] by simp
qed

lemma db_del_ok:
  assumes inv: "db_inv s" and len: "length k \<le> UINT32_MAX"
  obtains s' where "db_del no_faults k sync s = (Inr (), s')" and "db_inv s'"
    and "abs_db s' = (abs_db s)(k := None)" and "keeps s s'"
proof -
  obtain d' where d': "wal_append no_faults (mk_record Delete k []) sync (db_wal s) (db_disk s) = (Inr (), d')"
    "calm (db_vlogs s) (db_disk s) d'" "d_ino d' wal_name = d_ino (db_disk s) wal_name"
    using db_wal_append_ok [OF inv, of "mk_record Delete k []"] len by auto
  have m: "mem_ok (db_mem s)" using inv by (simp add: db_inv_def)
  have m': "mem_ok (mt_del k (db_mem s))"
    unfolding mt_del_store by (rule sst_rec_ok_store [OF m]) (use len in simp_all)
  have lk: "mt_lookup (mt_del k (db_mem s)) = (mt_lookup (db_mem s))(k \<mapsto> None)"
    using m by (simp add: mem_ok_def mt_lookup_del)
  let ?st = "(db_stat s)\<lparr>st_deletes := st_deletes (db_stat s) + 1,
     st_user_bytes := st_user_bytes (db_stat s) + of_nat (length k),
     st_wal_bytes := st_wal_bytes (db_stat s) + wal_record_bytes k []\<rparr>"
  let ?s = "s\<lparr>db_disk := d', db_mem := mt_del k (db_mem s), db_stat := ?st\<rparr>"
  note w = write_mem_ok [OF inv m' refl d'(2,3) lk, where st = ?st]
  obtain s' where s': "maybe_seal no_faults ?s = (Inr (), s')" "db_inv s'" "abs_db s' = abs_db ?s" "keeps ?s s'"
    by (rule maybe_seal_ok [OF w(1)])
  have "db_del no_faults k sync s = (Inr (), s')"
    using d'(1) s'(1) by (simp add: db_del_def sbind_def on_disk_def add_stats_def)
  then show thesis using that s'(2,3) w(2) keeps_trans [OF w(3) s'(4)] by simp
qed

end
