(* ===== verification/Db_Query.thy ===== *)
theory Db_Query
  imports Db_Flush
begin

text \<open>
  Reads against the abstract store: \<open>get\<close> returns the value of the key in the map, and
  \<open>scan\<close> returns exactly the bindings of the map in the range, in key order.
\<close>

subsection \<open>Point reads\<close>

lemma look_ssts_Cons:
  "look vl d (concat (map sst_records (t # ts))) k =
     (case find_rec k (sst_records t) of
        None \<Rightarrow> look vl d (concat (map sst_records ts)) k
      | Some r \<Rightarrow> Some (rec_ans vl d r))"
  by (simp add: look_append) (simp add: look_def split: option.split)

lemma probe_answer:
  assumes "sst_inv t" and "ptrs_ok vl d (sst_records t)" and "find_rec k (sst_records t) = Some r"
  shows "rec_op r = Delete \<Longrightarrow> rec_ans vl d r = None"
    and "rec_op r \<noteq> Delete \<Longrightarrow> \<exists>x. rec_value_of no_faults vl d r = Inr x \<and> rec_ans vl d r = Some x"
proof -
  have "r \<in> set (sst_records t)" using assms(3) find_rec_key by blast
  then have "known_op (rec_op r)" "\<exists>x. rec_value_of no_faults vl d r = Inr x"
    using assms(1,2) by (auto simp: sst_inv_def list_all_iff sst_rec_ok_def ptrs_ok_def)
  then show "rec_op r = Delete \<Longrightarrow> rec_ans vl d r = None"
    "rec_op r \<noteq> Delete \<Longrightarrow> \<exists>x. rec_value_of no_faults vl d r = Inr x \<and> rec_ans vl d r = Some x"
    by (auto simp: rec_ans_def known_op_def)
qed

lemma get_search_ok:
  assumes "\<forall>t\<in>set ts. sst_inv t \<and> ptrs_ok vl d (sst_records t)"
  shows "\<exists>st'. get_search no_faults vl ub d k ts st =
    (Inr (ojoin (look vl d (concat (map sst_records ts)) k)), st')"
  using assms
proof (induction ts arbitrary: st)
  case (Cons t ts)
  then have t: "sst_inv t" "ptrs_ok vl d (sst_records t)" by simp_all
  have IH: "\<exists>st'. get_search no_faults vl ub d k ts st =
      (Inr (ojoin (look vl d (concat (map sst_records ts)) k)), st')" for st
    by (rule Cons.IH) (use Cons.prems in simp)
  obtain mb where mb: "may_contain t k = Inr mb" using may_contain_total [OF t(1)] by blast
  note g = get_no_bloom_find [OF t(1), of k]
  show ?case
  proof (cases "find_rec k (sst_records t)")
    case None
    then have "look vl d (concat (map sst_records (t # ts))) k = look vl d (concat (map sst_records ts)) k"
      by (simp only: look_ssts_Cons) simp
    moreover have "\<exists>st1. get_search no_faults vl ub d k (t # ts) st = get_search no_faults vl ub d k ts st1"
      using None g mb by (cases ub; cases mb) (auto simp: sbind_def)
    ultimately show ?thesis using IH by auto
  next
    case (Some r)
    then have lk: "look vl d (concat (map sst_records (t # ts))) k = Some (rec_ans vl d r)"
      by (simp only: look_ssts_Cons) simp
    have "ub \<Longrightarrow> mb" using Some may_contain_find [OF t(1)] mb by (cases mb) auto
    then have "\<exists>st1. get_search no_faults vl ub d k (t # ts) st =
        (if rec_op r = Delete then sret None
         else sbind (slift (rec_value_of no_faults vl d r)) (\<lambda>v. sret (Some v))) st1"
      using Some g mb by (cases ub) (auto simp: sbind_def)
    then show ?thesis
      using probe_answer [OF t Some] lk by (cases "rec_op r = Delete") (auto simp: sbind_def)
  qed
qed simp

lemma mt_answer:
  "mt_get m k = Some v \<Longrightarrow> mt_lookup m k = Some (Some v)"
  "mt_get m k = None \<Longrightarrow> mt_is_tombstone m k \<Longrightarrow> mt_lookup m k = Some None"
  "mt_get m k = None \<Longrightarrow> \<not> mt_is_tombstone m k \<Longrightarrow> mt_lookup m k = None"
  by (auto simp: mt_get_lookup mt_is_tombstone_lookup split: option.splits)

lemma get_locked_cases:
  obtains a where "get_locked k s = Answer a" and "abs_db s k = a"
  | "get_locked k s = Search (take_snapshot s)"
    and "abs_db s k = ojoin (look (db_vlogs s) (db_disk s) (concat (map sst_records (db_ssts s))) k)"
proof (cases "mt_get (db_mem s) k")
  case (Some v)
  then show thesis
    using that(1) [of "Some v"] mt_answer(1) [OF Some] by (simp add: get_locked_def abs_db_alt)
next
  case none: None
  note a = mt_answer(2,3) [OF none]
  show thesis
  proof (cases "mt_is_tombstone (db_mem s) k")
    case True
    then show thesis using that(1) [of None] none a(1) by (simp add: get_locked_def abs_db_alt)
  next
    case not_mem: False
    note mem = none not_mem a(2) [OF not_mem]
    show thesis
    proof (cases "db_has_flushing s")
      case False
      then show thesis using that(2) mem by (simp add: get_locked_def abs_db_alt)
    next
      case fl: True
      show thesis
      proof (cases "mt_get (db_fmem s) k")
        case (Some v)
        then show thesis
          using that(1) [of "Some v"] mem fl mt_answer(1) [OF Some] by (simp add: get_locked_def abs_db_alt)
      next
        case None
        note b = mt_answer(2,3) [OF None]
        show thesis
          using that(1) [of None] that(2) mem fl None b
          by (cases "mt_is_tombstone (db_fmem s) k") (simp_all add: get_locked_def abs_db_alt)
      qed
    qed
  qed
qed

text \<open>
  The search may run on a later disk. It finds the same values as long as the logs of the
  snapshot have only grown.
\<close>

definition logs_grown :: "(u32 \<times> vlog) list \<Rightarrow> disk \<Rightarrow> disk \<Rightarrow> bool" where
  "logs_grown vl d d' \<longleftrightarrow> (\<forall>i\<in>fds vl. \<exists>more. blobs d' i = blobs d i @ more)"

lemma logs_grown_value:
  assumes "logs_grown vl d d'" and "rec_value_of no_faults vl d r = Inr x"
  shows "rec_value_of no_faults vl d' r = Inr x"
proof (cases "rec_separated r")
  case True
  then obtain v where v: "map_of vl (vp_gen (rec_vptr r)) = Some v" "vlog_read no_faults (rec_vptr r) v d = Inr x"
    using assms(2) by (auto simp: rec_value_of_def vlog_deref_def split: option.splits)
  then have "vl_fd v \<in> fds vl" by (force simp: fds_def dest: map_of_SomeD)
  then obtain more where "blobs d' (vl_fd v) = blobs d (vl_fd v) @ more" using assms(1) by (auto simp: logs_grown_def)
  from vlog_read_stable [OF v(2) refl this] True v(1) show ?thesis by (simp add: rec_value_of_def vlog_deref_def)
qed (use assms(2) in \<open>simp add: rec_value_of_def\<close>)

lemma get_finish_ok:
  assumes inv: "db_inv s" and grown: "logs_grown (db_vlogs s) (db_disk s) (db_disk s')"
  shows "\<exists>st. get_finish no_faults k (get_locked k s) s' = (Inr (abs_db s k), s'\<lparr>db_stat := st\<rparr>)"
proof (cases rule: get_locked_cases [of k s])
  case (1 a)
  then show ?thesis by (auto simp: get_finish_def intro: exI [of _ "db_stat s'"])
next
  case 2
  let ?vl = "db_vlogs s" and ?d = "db_disk s'"
  have ok: "ssts_ok s" using inv by (simp add: db_inv_def)
  have ptr: "ptrs_ok ?vl ?d rs" if "ptrs_ok ?vl (db_disk s) rs" for rs
    using that logs_grown_value [OF grown] by (fastforce simp: ptrs_ok_def)
  have "look ?vl ?d (concat (map sst_records (db_ssts s))) k
      = look ?vl (db_disk s) (concat (map sst_records (db_ssts s))) k"
    by (rule look_cong [OF _ ssts_ptrs_ok [OF ok]]) (rule logs_grown_value [OF grown])
  moreover have "\<forall>t\<in>set (db_ssts s). sst_inv t \<and> ptrs_ok ?vl ?d (sst_records t)"
    using ok ptr by (auto simp: ssts_ok_def)
  then obtain st' where "get_search no_faults ?vl (db_bloom_on s) ?d k (db_ssts s) (db_stat s') =
      (Inr (ojoin (look ?vl ?d (concat (map sst_records (db_ssts s))) k)), st')"
    using get_search_ok by blast
  ultimately show ?thesis
    using 2 by (auto simp: get_finish_def on_stats_def take_snapshot_def)
qed

lemma logs_grown_refl [simp]: "logs_grown vl d d"
  by (auto simp: logs_grown_def)

subsection \<open>Scans\<close>

definition sc_rest :: "scan_cursor \<Rightarrow> kv_record list" where
  "sc_rest c = drop (sc_cur c) (sc_source c)"

definition sc_inv :: "scan_cursor \<Rightarrow> bool" where
  "sc_inv c \<longleftrightarrow> ssorted (map rec_key (sc_source c))"

interpretation scur: cursor sc_valid sc_record sc_next sc_rest sc_inv
proof unfold_locales
  fix c assume inv: "sc_inv c"
  show "sc_valid c \<longleftrightarrow> sc_rest c \<noteq> []" by (auto simp: sc_valid_def sc_rest_def)
  show "ssorted (map rec_key (sc_rest c))"
    using inv by (simp add: sc_inv_def sc_rest_def drop_map [symmetric] ssorted_drop)
  assume valid: "sc_valid c"
  then show "sc_record c = hd (sc_rest c)" by (simp add: sc_record_def sc_rest_def sc_valid_def hd_drop_conv_nth)
  show "\<exists>c'. sc_next c = Inr c' \<and> sc_inv c' \<and> sc_rest c' = tl (sc_rest c)"
    using inv by (simp add: sc_next_def sc_inv_def sc_rest_def drop_Suc tl_drop)
qed

definition scan_out :: "(u32 \<times> vlog) list \<Rightarrow> disk \<Rightarrow> kv_record list \<Rightarrow> (bytes \<times> bytes) list" where
  "scan_out vl d rs =
     concat (map (\<lambda>r. case rec_ans vl d r of Some v \<Rightarrow> [(rec_key r, v)] | None \<Rightarrow> []) rs)"

lemma scan_loop_ok:
  assumes "\<forall>c\<in>set cs. sc_inv c" and "ptrs_ok vl d (concat (map sc_rest cs))" and "io = no_faults"
  shows "scan_loop io vl d cs out = Inr (out @ scan_out vl d (merge_spec (map sc_rest cs)))"
  using assms
proof (induction io vl d cs out rule: scan_loop.induct)
  case (1 io vl d cs out)
  note inv = "1.prems"(1) and io = "1.prems"(3)
  show ?case
  proof (cases "kmin sc_valid sc_record cs None")
    case None
    then have "src_keys (map sc_rest cs) = {}" using scur.kmin_None [OF inv] by simp
    then show ?thesis
      using None by (simp add: scan_loop.simps [of io vl d cs out] merge_spec_empty scan_out_def)
  next
    case (Some k)
    obtain c cs' where r: "knewest sc_valid sc_record k cs = Some c"
      "kadvance sc_valid sc_record sc_next k cs = Inr cs'" "\<forall>c\<in>set cs'. sc_inv c"
      "find_rec k (concat (map sc_rest cs)) = Some (sc_record c)"
      "merge_spec (map sc_rest cs) = sc_record c # merge_spec (map sc_rest cs')"
      by (rule scur.round [OF inv Some])
    let ?r = "sc_record c"
    have k: "rec_key ?r = k" "?r \<in> set (concat (map sc_rest cs))" using find_rec_key [OF r(4)] by auto
    then obtain x where x: "rec_value_of io vl d ?r = Inr x" using "1.prems"(2) io by (auto simp: ptrs_ok_def)
    have sub: "set (concat (map sc_rest cs')) \<subseteq> set (concat (map sc_rest cs))"
    proof -
      have "map sc_rest cs' = map (pop_key k) (map sc_rest cs)" using scur.kadvance_pop [OF inv, of k] r(2) by simp
      moreover have "set (pop_key k rs) \<subseteq> set rs" for rs by (auto simp: pop_key_def split: list.splits)
      ultimately show ?thesis by fastforce
    qed
    then have ptr: "ptrs_ok vl d (concat (map sc_rest cs'))" using "1.prems"(2) unfolding ptrs_ok_def by blast
    define val where "val = (if rec_op ?r = Put then x else [])"
    have val: "(if rec_op ?r = Put then rec_value_of io vl d ?r else Inr []) = Inr val"
      using x by (simp add: val_def)
    have "scan_loop io vl d cs out = scan_loop io vl d cs' (if rec_op ?r = Put then out @ [(k, val)] else out)"
      using Some r(1,2) x by (subst scan_loop.simps) (simp add: val_def Let_def)
    then show ?thesis
      using "1.IH" [OF Some r(1) refl refl val r(2,3) ptr io] r(5) x k(1) io
      by (simp add: scan_out_def rec_ans_def val_def)
  qed
qed

lemma range_all_ok:
  "\<forall>t\<in>set ts. sst_inv t \<Longrightarrow> range_all no_faults ts a b = Inr (map (\<lambda>t. filter (in_range a b) (sst_records t)) ts)"
  by (induction ts) (simp_all add: sst_range_filter)

lemma scan_out_mem:
  "(k, v) \<in> set (scan_out vl d (merge_spec srcs)) \<longleftrightarrow> look vl d (concat srcs) k = Some (Some v)"
proof -
  have "(k, v) \<in> set (scan_out vl d (merge_spec srcs)) \<longleftrightarrow>
      (\<exists>r\<in>set (merge_spec srcs). rec_key r = k \<and> rec_ans vl d r = Some v)"
    by (auto simp: scan_out_def split: option.splits) force
  also have "\<dots> \<longleftrightarrow> (\<exists>r. find_rec k (concat srcs) = Some r \<and> rec_ans vl d r = Some v)"
    using merge_spec_mem find_rec_key by blast
  also have "\<dots> \<longleftrightarrow> look vl d (concat srcs) k = Some (Some v)" by (auto simp: look_def)
  finally show ?thesis .
qed

lemma scan_out_sorted:
  "ssorted (map rec_key rs) \<Longrightarrow> ssorted (map fst (scan_out vl d rs))"
proof (induction rs)
  case (Cons r rs)
  have "fst ` set (scan_out vl d rs) \<subseteq> rec_key ` set rs"
    by (auto simp: scan_out_def split: option.splits)
  with Cons show ?case by (auto simp: scan_out_def split: option.splits)
qed (simp add: scan_out_def)

lemma find_rec_range:
  "find_rec k (filter (in_range a b) rs) = (if a \<le> k \<and> k < b then find_rec k rs else None)"
  using find_rec_filter [of "\<lambda>k. a \<le> k \<and> k < b" k rs] find_rec_filter_out [of "\<lambda>k. a \<le> k \<and> k < b" k rs]
  by (simp add: in_range_def [abs_def])

lemma scan_finish_ok:
  assumes inv: "db_inv s"
  shows "scan_finish no_faults a b (scan_locked a b s) (db_disk s) =
    Inr (scan_out (db_vlogs s) (db_disk s) (merge_spec (map (filter (in_range a b)) (layers s))))"
proof -
  let ?vl = "db_vlogs s" and ?d = "db_disk s"
  have m: "mt_inv (db_mem s)" "mt_inv (db_fmem s)" and ok: "ssts_ok s" using inv by (auto simp: db_inv_def mem_ok_def)
  define src where "src = map (filter (in_range a b)) (layers s)"
  have src: "fst (scan_locked a b s) @ map (\<lambda>t. filter (in_range a b) (sst_records t)) (db_ssts s) = src"
    using m by (simp add: src_def scan_locked_def layers_def mt_range_snapshot)
  have lay: "ssorted (map rec_key rs) \<and> ptrs_ok ?vl ?d rs" if "rs \<in> set (layers s)" for rs
    using that m ok mt_snapshot_sorted mt_ptrs_ok by (auto simp: layers_def ssts_ok_def sst_inv_def split: if_splits)
  let ?cs = "map (\<lambda>src. \<lparr>sc_source = src, sc_cur = 0\<rparr>) src"
  have "\<forall>c\<in>set ?cs. sc_inv c" using lay by (auto simp: src_def sc_inv_def ssorted_filter)
  moreover have rest: "map sc_rest ?cs = src" by (simp add: sc_rest_def comp_def)
  moreover have "ptrs_ok ?vl ?d (concat src)" using lay by (fastforce simp: src_def ptrs_ok_def)
  ultimately have "scan_loop no_faults ?vl ?d ?cs [] = Inr (scan_out ?vl ?d (merge_spec src))"
    using scan_loop_ok [of ?cs ?vl ?d no_faults "[]"] by simp
  moreover have "range_all no_faults (db_ssts s) a b = Inr (map (\<lambda>t. filter (in_range a b) (sst_records t)) (db_ssts s))"
    using ok by (intro range_all_ok) (simp add: ssts_ok_def)
  moreover have "scan_finish no_faults a b (scan_locked a b s) ?d =
      rbind (range_all no_faults (db_ssts s) a b) (\<lambda>rss. scan_loop no_faults ?vl ?d
        (map (\<lambda>src. \<lparr>sc_source = src, sc_cur = 0\<rparr>) (fst (scan_locked a b s) @ rss)) [])"
    by (simp add: scan_finish_def scan_locked_def take_snapshot_def)
  ultimately show ?thesis using src by (simp add: src_def [symmetric] del: map_append)
qed

lemma look_range:
  "look vl d (concat (map (filter (in_range a b)) rss)) k = (if a \<le> k \<and> k < b then look vl d (concat rss) k else None)"
  by (simp add: look_def filter_concat [symmetric] find_rec_range)

end
