(* ===== verification/Db_Merge.thy ===== *)
theory Db_Merge
  imports Db_Query
begin

text \<open>
  Compaction against the abstract store. The inputs of a merge are a contiguous stretch of
  the table list, also when other threads put new tables in front of it while the merge
  runs; replacing the stretch by the merged table leaves every lookup as it was, and a
  tombstone is dropped only where no older table remains.
\<close>

subsection \<open>Installing a result\<close>

lemma replace_inputs_none:
  "(\<forall>t\<in>set ts. sst_obj t \<notin> set ids) \<Longrightarrow> replace_inputs ids out True ts = ts"
  "(\<forall>t\<in>set ts. sst_obj t \<notin> set ids) \<Longrightarrow> replace_inputs ids out b (ts @ us) = ts @ replace_inputs ids out b us"
  by (induction ts) auto

lemma replace_inputs_all:
  "(\<forall>t\<in>set ts. sst_obj t \<in> set ids) \<Longrightarrow> replace_inputs ids out True (ts @ us) = replace_inputs ids out True us"
  by (induction ts) auto

lemma replace_inputs_stretch:
  assumes "distinct (map sst_obj (pre @ ins @ post))" and "ins \<noteq> []"
  shows "replace_inputs (map sst_obj ins) out False (pre @ ins @ post) = pre @ out # post"
proof -
  let ?ids = "map sst_obj ins"
  have pre: "\<forall>t\<in>set pre. sst_obj t \<notin> set ?ids" and post: "\<forall>t\<in>set post. sst_obj t \<notin> set ?ids"
    using assms(1) by auto
  obtain u us where ins: "ins = u # us" using assms(2) by (cases ins) auto
  have "replace_inputs ?ids out True (us @ post) = post"
    using replace_inputs_all [of us ?ids out post] replace_inputs_none(1) [OF post] by (simp add: ins)
  then show ?thesis using replace_inputs_none(2) [OF pre] by (simp add: ins)
qed

text \<open>A running merge: its inputs are still a stretch of the list, the oldest one if it drops tombstones.\<close>

definition job_ok :: "merge_job \<Rightarrow> sstable list \<Rightarrow> bool" where
  "job_ok j ts \<longleftrightarrow> mj_inputs j \<noteq> [] \<and>
     (\<exists>pre post. ts = pre @ mj_inputs j @ post \<and> (mj_drop j \<longrightarrow> post = []))"

lemma job_ok_Cons: "job_ok j ts \<Longrightarrow> job_ok j (t # ts)"
  by (metis job_ok_def append_Cons)

definition merged :: "merge_job \<Rightarrow> kv_record list" where
  "merged j = live_filter (mj_drop j) (merge_spec (map sst_records (mj_inputs j)))"

lemma merged_find:
  "find_rec k (merged j) =
     (case find_rec k (concat (map sst_records (mj_inputs j))) of
        None \<Rightarrow> None
      | Some r \<Rightarrow> if mj_drop j \<and> rec_op r = Delete then None else Some r)"
  using live_filter_find [OF ssorted_distinct [OF merge_spec_sorted], of k "mj_drop j" "map sst_records (mj_inputs j)"]
  by (simp add: merged_def merge_spec_find split: option.splits)

lemma merged_subset: "r \<in> set (merged j) \<Longrightarrow> \<exists>t\<in>set (mj_inputs j). r \<in> set (sst_records t)"
proof -
  assume "r \<in> set (merged j)"
  then have "find_rec (rec_key r) (concat (map sst_records (mj_inputs j))) = Some r"
    by (auto simp: merged_def live_filter_def merge_spec_mem)
  then show ?thesis using find_rec_key by fastforce
qed

lemma merged_sorted: "ssorted (map rec_key (merged j))"
  by (simp add: merged_def live_filter_sorted merge_spec_sorted)

lemma merged_ok:
  assumes "\<forall>t\<in>set (mj_inputs j). sst_inv t"
  shows "list_all sst_rec_ok (merged j)"
  using assms merged_subset unfolding list_all_iff sst_inv_def by metis

text \<open>The heart of compaction: the replacement is invisible to lookups.\<close>

lemma look_merged:
  assumes "mj_drop j \<longrightarrow> post = []"
  shows "ojoin (look vl d (concat (map sst_records pre) @ merged j @ concat (map sst_records post)) k)
    = ojoin (look vl d (concat (map sst_records (pre @ mj_inputs j @ post))) k)"
proof (cases "look vl d (concat (map sst_records pre)) k")
  case (Some a)
  then show ?thesis by (simp add: look_append)
next
  case pre: None
  show ?thesis
  proof (cases "find_rec k (concat (map sst_records (mj_inputs j)))")
    case None
    then show ?thesis using pre by (simp add: look_append) (simp add: look_def merged_find)
  next
    case (Some r)
    show ?thesis
    proof (cases "mj_drop j \<and> rec_op r = Delete")
      case True
      then show ?thesis
        using pre Some assms by (simp add: look_append) (simp add: look_def merged_find rec_ans_def)
    next
      case False
      then have "find_rec k (merged j) = Some r" using Some by (auto simp: merged_find)
      then show ?thesis using pre Some by (simp add: look_append) (simp add: look_def)
    qed
  qed
qed

text \<open>What the work without the lock leaves behind: a finished table that nothing refers to yet.\<close>

definition output_ok :: "merge_job \<Rightarrow> sstable \<Rightarrow> db \<Rightarrow> bool" where
  "output_ok j t s \<longleftrightarrow> sst_inv t \<and> \<not> sst_obsolete t \<and> sst_path t \<noteq> wal_name \<and> sst_records t = merged j \<and>
     sst_obj t < db_next_obj s \<and> sst_obj t \<notin> sst_obj ` set (db_ssts s)"

definition merge_fits :: "(real \<Rightarrow> real) \<Rightarrow> merge_job \<Rightarrow> bool" where
  "merge_fits lg j \<longleftrightarrow>
     (case merge_records no_faults (mj_inputs j) (mj_drop j) of Inl _ \<Rightarrow> True | Inr rs \<Rightarrow> sst_fits lg rs)"

lemma merge_work_ok:
  assumes vs: "vs_inv (db_vlogs s) (db_disk s)" and ins: "\<forall>t\<in>set (mj_inputs j). sst_inv t"
    and fits: "merge_fits lg j" and obj: "\<forall>t\<in>set (db_ssts s). sst_obj t < db_next_obj s"
  obtains bytes t d' s' where "merge_work no_faults lg ctx j s = (Inr (bytes, t), s')"
    and "s' = s\<lparr>db_disk := d', db_next_obj := Suc (db_next_obj s)\<rparr>"
    and "output_ok j t s'" and "calm (db_vlogs s) (db_disk s) d'"
    and "d_ino d' wal_name = d_ino (db_disk s) wal_name" and "sst_obj t = db_next_obj s"
proof -
  have m: "merge_records no_faults (mj_inputs j) (mj_drop j) = Inr (merged j)"
    using merge_records_spec [OF ins] by (simp add: merged_def)
  have b: "buildable lg (merged j)"
    using fits m merged_ok [OF ins] merged_sorted by (simp add: buildable_def merge_fits_def)
  obtain file1 d' where br: "build_rename no_faults lg ctx (mj_seq j) (merged j) s = (Inr (of_nat (length file1)), s\<lparr>db_disk := d'\<rparr>)"
    "build_file lg (merged j) = Inr file1" "d_read d' (sst_name (mj_seq j)) = Some file1"
    "calm (db_vlogs s) (db_disk s) d'" "d_ino d' wal_name = d_ino (db_disk s) wal_name"
    by (rule build_rename_ok [OF vs b])
  have rd: "d_read (db_disk (s\<lparr>db_disk := d'\<rparr>)) (sst_name (mj_seq j)) = Some file1" using br(3) by simp
  obtain t where t: "make_sst no_faults (sst_name (mj_seq j)) (s\<lparr>db_disk := d'\<rparr>)
      = (Inr t, (s\<lparr>db_disk := d'\<rparr>)\<lparr>db_next_obj := Suc (db_next_obj (s\<lparr>db_disk := d'\<rparr>))\<rparr>)"
    "sst_inv t" "sst_records t = merged j" "sst_obj t = db_next_obj (s\<lparr>db_disk := d'\<rparr>)"
    "sst_path t = sst_name (mj_seq j)" "\<not> sst_obsolete t"
    by (rule make_sst_ok [OF b br(2) rd])
  let ?s = "s\<lparr>db_disk := d', db_next_obj := Suc (db_next_obj s)\<rparr>"
  have run: "merge_work no_faults lg ctx j s = (Inr (of_nat (length file1), t), ?s)"
    using m br(1) t(1) by (simp add: merge_work_def sbind_def on_disk_def fsync_dir_ok)
  have out: "output_ok j t ?s" using t obj by (auto simp: output_ok_def)
  have "sst_obj t = db_next_obj s" using t(4) by simp
  then show thesis by (rule that [OF run refl out br(4,5)])
qed

text \<open>
  What every installation of a compaction does: exchange the table list for one that answers
  every lookup alike, commit it, and retire some of the old tables.
\<close>

definition tables_from :: "db \<Rightarrow> sstable list \<Rightarrow> bool" where
  "tables_from s ts \<longleftrightarrow> distinct (map sst_obj ts) \<and>
     (\<forall>t\<in>set ts. t \<in> set (db_ssts s) \<or>
        sst_inv t \<and> \<not> sst_obsolete t \<and> sst_path t \<noteq> wal_name \<and> sst_obj t < db_next_obj s \<and>
        (\<forall>r\<in>set (sst_records t). \<exists>u\<in>set (db_ssts s). r \<in> set (sst_records u)))"

lemma swap_tables_ok:
  assumes inv: "db_inv s" and src: "tables_from s ts" and gone: "set gone \<subseteq> set (db_ssts s)"
    and alike: "\<And>d k. ojoin (look (db_vlogs s) d (concat (map sst_records ts)) k)
      = ojoin (look (db_vlogs s) d (concat (map sst_records (db_ssts s))) k)"
    and s1: "s1 = s\<lparr>db_stat := st, db_ssts := ts, db_level := lv\<rparr>"
  obtains d' s' where "write_manifest_locked no_faults s1 = (Inr (), s1\<lparr>db_disk := d'\<rparr>)"
    and "s' = (retire gone (s1\<lparr>db_disk := d'\<rparr>))\<lparr>db_compacting := False\<rparr>" and "db_inv s'"
    and "abs_db s' = abs_db s" and "tables_map s' = tables_map s" and "calm (db_vlogs s) (db_disk s) d'"
proof -
  have vs: "vs_inv (db_vlogs s) (db_disk s)" and ok: "ssts_ok s" using inv by (simp_all add: db_inv_def)
  have vs1: "vs_inv (db_vlogs s) (db_disk s1)" using vs by (simp add: s1)
  obtain d' where d': "write_manifest_locked no_faults s1 = (Inr (), s1\<lparr>db_disk := d'\<rparr>)"
    "calm (db_vlogs s) (db_disk s1) d'" "d_ino d' wal_name = d_ino (db_disk s1) wal_name"
    "d_read d' man_name = Some (manifest_bytes (db_manifest s1))"
    by (rule write_manifest_ok [OF vs1])
  let ?s2 = "(retire gone (s1\<lparr>db_disk := d'\<rparr>))\<lparr>db_compacting := False\<rparr>"
  have mo: "moved_on (db_vlogs s) (db_disk s) (db_vlogs s) d'" using moved_on_calm [OF vs] d'(2) s1 by simp
  have old: "sst_inv u \<and> \<not> sst_obsolete u \<and> sst_obj u < db_next_obj s \<and> sst_path u \<noteq> wal_name \<and> ptrs_ok (db_vlogs s) d' (sst_records u)"
    if "u \<in> set (db_ssts s)" for u
    using ok that moved_on_ptrs [OF mo] by (auto simp: ssts_ok_def)
  have "sst_inv t \<and> \<not> sst_obsolete t \<and> sst_obj t < db_next_obj s \<and> sst_path t \<noteq> wal_name \<and> ptrs_ok (db_vlogs s) d' (sst_records t)"
    if "t \<in> set ts" for t
  proof (cases "t \<in> set (db_ssts s)")
    case False
    then have "sst_inv t \<and> \<not> sst_obsolete t \<and> sst_path t \<noteq> wal_name \<and> sst_obj t < db_next_obj s"
      and "\<forall>r\<in>set (sst_records t). \<exists>u\<in>set (db_ssts s). r \<in> set (sst_records u)"
      using src that by (auto simp: tables_from_def)
    then show ?thesis using old unfolding ptrs_ok_def by metis
  qed (rule old)
  then have "ssts_ok ?s2" using src by (simp add: ssts_ok_def tables_from_def retire_def s1)
  moreover have "dead_ok ?s2"
    using inv old gone by (auto simp: db_inv_def dead_ok_def retire_def sst_mark_obsolete_def s1)
  ultimately have inv2: "db_inv ?s2"
    using inv d'(3) mo by (simp add: db_inv_def wal_inv_def moved_on_def retire_def s1)
  have tab: "ojoin (look (db_vlogs s) d' (concat (map sst_records ts)) k)
      = ojoin (look (db_vlogs s) (db_disk s) (concat (map sst_records (db_ssts s))) k)" for k
    using alike moved_on_look [OF mo ssts_ptrs_ok [OF ok], of k] by simp
  then have "abs_db ?s2 k = abs_db s k" for k
    by (simp add: abs_db_alt retire_def s1 split: option.split)
  then have abs: "abs_db ?s2 = abs_db s" by (rule ext)
  have "tables_map ?s2 = tables_map s" by (rule ext) (use tab in \<open>simp add: tables_map_def retire_def s1\<close>)
  then show thesis using that [OF d'(1) refl inv2 abs] d'(2) by (simp add: s1)
qed

lemma merge_install_ok:
  assumes inv: "db_inv s" and job: "job_ok j (db_ssts s)" and out: "output_ok j t s"
  obtains s' where "merge_install no_faults j (bytes, t) s = (Inr (), s')" and "db_inv s'"
    and "abs_db s' = abs_db s" and "\<not> db_compacting s'"
    and "db_ssts s' = replace_inputs (map sst_obj (mj_inputs j)) t False (db_ssts s)"
    and "db_has_flushing s' = db_has_flushing s" and "db_fmem s' = db_fmem s" and "db_gen s' = db_gen s"
    and "db_vlogs s' = db_vlogs s" and "calm (db_vlogs s) (db_disk s) (db_disk s')"
    and "db_next_obj s' = db_next_obj s" and "tables_map s' = tables_map s"
proof -
  obtain pre post where split: "db_ssts s = pre @ mj_inputs j @ post" "mj_drop j \<longrightarrow> post = []" "mj_inputs j \<noteq> []"
    using job by (auto simp: job_ok_def)
  have dist: "distinct (map sst_obj (pre @ mj_inputs j @ post))"
    using inv split(1) by (simp add: db_inv_def ssts_ok_def del: map_append)
  let ?st = "(db_stat s)\<lparr>st_compaction_bytes := st_compaction_bytes (db_stat s) + bytes,
                         st_compactions := st_compactions (db_stat s) + 1\<rparr>"
  let ?ssts = "pre @ t # post"
  let ?s1 = "s\<lparr>db_stat := ?st, db_ssts := ?ssts,
    db_level := (erase_levels (mj_inputs j) (db_level s))(sst_obj t \<mapsto> 0)\<rparr>"
  have rep: "replace_inputs (map sst_obj (mj_inputs j)) t False (db_ssts s) = ?ssts"
    using replace_inputs_stretch [OF dist split(3)] by (simp add: split(1))
  have "\<forall>r\<in>set (sst_records t). \<exists>u\<in>set (db_ssts s). r \<in> set (sst_records u)"
    using out merged_subset [of _ j] split(1) unfolding output_ok_def by (metis Un_iff set_append)
  then have src: "tables_from s ?ssts"
    using dist out split(1) by (auto simp: tables_from_def output_ok_def)
  have gone: "set (mj_inputs j) \<subseteq> set (db_ssts s)" using split(1) by auto
  have alike: "ojoin (look (db_vlogs s) d (concat (map sst_records ?ssts)) k)
      = ojoin (look (db_vlogs s) d (concat (map sst_records (db_ssts s))) k)" for d k
    using look_merged [OF split(2), of "db_vlogs s" d pre k] out split(1) by (simp add: output_ok_def)
  obtain d' s' where d': "write_manifest_locked no_faults ?s1 = (Inr (), ?s1\<lparr>db_disk := d'\<rparr>)"
    "s' = (retire (mj_inputs j) (?s1\<lparr>db_disk := d'\<rparr>))\<lparr>db_compacting := False\<rparr>" "db_inv s'"
    "abs_db s' = abs_db s" "tables_map s' = tables_map s" "calm (db_vlogs s) (db_disk s) d'"
    by (rule swap_tables_ok [OF inv src gone alike refl])
  have run: "merge_install no_faults j (bytes, t) s = (Inr (), s')"
    using d'(1,2) rep by (simp add: merge_install_def install_merge_result_def sbind_def add_stats_def)
  show thesis by (rule that [OF run d'(3,4)]) (use d'(2,5,6) rep in \<open>simp_all add: retire_def\<close>)
qed

subsection \<open>Starting a merge\<close>

lemma map_nth_upt: "b \<le> length ts \<Longrightarrow> a \<le> b \<Longrightarrow> map ((!) ts) [a..<b] = take (b - a) (drop a ts)"
  by (rule nth_equalityI) auto

lemma pick_inputs_stretch:
  assumes "a < b" and "b \<le> length ts"
  shows "pick_inputs ts [a..<b] \<noteq> []" and "ts = take a ts @ pick_inputs ts [a..<b] @ drop b ts"
proof -
  have eq: "pick_inputs ts [a..<b] = take (b - a) (drop a ts)"
    using map_nth_upt [of b ts a] assms by (simp add: pick_inputs_def)
  show "pick_inputs ts [a..<b] \<noteq> []" using assms by (simp add: pick_inputs_def)
  have "drop a ts = take (b - a) (drop a ts) @ drop b ts"
    using assms append_take_drop_id [of "b - a" "drop a ts"] by simp
  then show "ts = take a ts @ pick_inputs ts [a..<b] @ drop b ts"
    using append_take_drop_id [of a ts] unfolding eq by metis
qed

lemma size_tiered_begin_ok:
  assumes "size_tiered_begin lg s = (Inr (Some j), s')"
  shows "job_ok j (db_ssts s)" and "s' = s\<lparr>db_seq := db_seq s + 1, db_compacting := True\<rparr>" and "mj_seq j = db_seq s"
proof -
  obtain p where p: "pick_compaction lg (db_ssts s) (db_min_merge s) (db_size_ratio s) = Some p"
    and j: "j = \<lparr>mj_inputs = pick_inputs (db_ssts s) (cp_indices p), mj_drop = cp_drop_tombstones p, mj_seq = db_seq s\<rparr>"
    and s': "s' = s\<lparr>db_seq := db_seq s + 1, db_compacting := True\<rparr>"
    using assms by (auto simp: size_tiered_begin_def split: option.splits)
  have mm: "2 \<le> db_min_merge s" "db_min_merge s \<le> length (db_ssts s)"
    using p by (auto simp: pick_compaction_def split: if_splits)
  then obtain a b where ab: "p = pick_of (length (db_ssts s)) a b"
    "best_run (bucket_at lg (db_ssts s) (db_size_ratio s)) (length (db_ssts s)) (db_min_merge s) (length (db_ssts s)) a b"
    by (rule pick_compaction_cases [where lg = lg and ratio = "db_size_ratio s"]) (use p in auto)
  have "a < b" "b \<le> length (db_ssts s)" using ab(2) is_run_bounds(1,2) by (auto simp: best_run_def)
  note st = pick_inputs_stretch [OF this]
  have "mj_drop j \<longrightarrow> drop b (db_ssts s) = []" "mj_inputs j = pick_inputs (db_ssts s) [a..<b]"
    using ab(1) j by (simp_all add: pick_of_def)
  with st show "job_ok j (db_ssts s)" unfolding job_ok_def by metis
  show "s' = s\<lparr>db_seq := db_seq s + 1, db_compacting := True\<rparr>" "mj_seq j = db_seq s" using s' j by simp_all
qed

lemma compact_all_begin_ok:
  assumes "compact_all_begin s = (Inr (Some j), s')"
  shows "job_ok j (db_ssts s)" and "s' = s\<lparr>db_seq := db_seq s + 1, db_compacting := True\<rparr>" and "mj_seq j = db_seq s"
  using assms by (auto simp: compact_all_begin_def job_ok_def split: if_splits)

lemma inv_start:
  assumes "db_inv s" and "s' = s\<lparr>db_seq := q, db_compacting := b\<rparr>"
  shows "db_inv s'" and "abs_db s' = abs_db s"
proof -
  show "db_inv s'" using assms by (simp add: db_inv_def wal_inv_def ssts_ok_def dead_ok_def)
  show "abs_db s' = abs_db s" by (rule ext) (simp add: assms(2) abs_db_def layers_def)
qed

text \<open>A whole merge with nothing in between.\<close>

lemma merge_whole_ok:
  assumes inv: "db_inv s" and job: "job_ok j (db_ssts s)" and fits: "merge_fits lg j"
  obtains s' where "sbind (merge_work no_faults lg ctx j) (merge_install no_faults j) s = (Inr (), s')"
    and "db_inv s'" and "abs_db s' = abs_db s"
proof -
  have vs: "vs_inv (db_vlogs s) (db_disk s)" and ok: "ssts_ok s" using inv by (simp_all add: db_inv_def)
  have ins: "\<forall>t\<in>set (mj_inputs j). sst_inv t" and obj: "\<forall>t\<in>set (db_ssts s). sst_obj t < db_next_obj s"
    using ok job by (auto simp: ssts_ok_def job_ok_def)
  obtain bytes t d' s1 where w: "merge_work no_faults lg ctx j s = (Inr (bytes, t), s1)"
    "s1 = s\<lparr>db_disk := d', db_next_obj := Suc (db_next_obj s)\<rparr>" "output_ok j t s1"
    "calm (db_vlogs s) (db_disk s) d'" "d_ino d' wal_name = d_ino (db_disk s) wal_name" "sst_obj t = db_next_obj s"
    by (rule merge_work_ok [OF vs ins fits obj])
  note mo = moved_on_calm [OF vs w(4)]
  have "ssts_ok s1"
    using ok moved_on_ptrs [OF mo] by (auto simp: ssts_ok_def w(2))
  then have inv1: "db_inv s1" using inv w(5) mo by (simp add: db_inv_def wal_inv_def dead_ok_def moved_on_def w(2))
  have "abs_db s1 k = abs_db s k" for k
    using moved_on_look [OF mo ssts_ptrs_ok [OF ok], of k] by (simp add: abs_db_alt w(2) split: option.split)
  then have abs1: "abs_db s1 = abs_db s" by (rule ext)
  have job1: "job_ok j (db_ssts s1)" using job by (simp add: w(2))
  obtain s' where "merge_install no_faults j (bytes, t) s1 = (Inr (), s')" "db_inv s'" "abs_db s' = abs_db s1"
    using merge_install_ok [OF inv1 job1 w(3)] by metis
  then show thesis using that w(1) abs1 by (simp add: sbind_def)
qed


subsection \<open>Whole compactions\<close>

lemma size_tiered_whole_ok:
  assumes inv: "db_inv s" and fits: "\<And>j s1. size_tiered_begin lg s = (Inr (Some j), s1) \<Longrightarrow> merge_fits lg j"
  shows "\<exists>s'. do_size_tiered_compaction no_faults lg s = (Inr (), s') \<and> db_inv s' \<and> abs_db s' = abs_db s"
proof (cases "pick_compaction lg (db_ssts s) (db_min_merge s) (db_size_ratio s)")
  case None
  then have "do_size_tiered_compaction no_faults lg s = (Inr (), s)"
    by (simp add: do_size_tiered_compaction_def size_tiered_begin_def sbind_def)
  then show ?thesis using inv by blast
next
  case (Some p)
  then obtain j s1 where run: "size_tiered_begin lg s = (Inr (Some j), s1)" by (simp add: size_tiered_begin_def)
  note b = size_tiered_begin_ok [OF run]
  note s1 = inv_start [OF inv b(2)]
  have job: "job_ok j (db_ssts s1)" using b(1,2) by simp
  obtain s' where "sbind (merge_work no_faults lg ''compaction rename'' j) (merge_install no_faults j) s1 = (Inr (), s')"
    "db_inv s'" "abs_db s' = abs_db s1" by (rule merge_whole_ok [OF s1(1) job fits [OF run]])
  then show ?thesis using run s1(2) by (simp add: do_size_tiered_compaction_def sbind_Inr)
qed

lemma compact_all_whole_ok:
  assumes inv: "db_inv s" and fits: "\<And>j s1. compact_all_begin s = (Inr (Some j), s1) \<Longrightarrow> merge_fits lg j"
  shows "\<exists>s'. compact_all no_faults lg s = (Inr (), s') \<and> db_inv s' \<and> abs_db s' = abs_db s \<and>
    (1 < length (db_ssts s) \<longrightarrow> (\<exists>t. db_ssts s' = [t] \<and> distinct (map rec_key (sst_records t)) \<and>
      (\<forall>r\<in>set (sst_records t). rec_op r \<noteq> Delete)))"
proof (cases "length (db_ssts s) \<le> 1")
  case True
  then have "compact_all no_faults lg s = (Inr (), s)" by (simp add: compact_all_def compact_all_begin_def sbind_def)
  then show ?thesis using inv True by auto
next
  case False
  let ?j = "\<lparr>mj_inputs = db_ssts s, mj_drop = True, mj_seq = db_seq s\<rparr>"
  let ?s1 = "s\<lparr>db_seq := db_seq s + 1, db_compacting := True\<rparr>"
  have run: "compact_all_begin s = (Inr (Some ?j), ?s1)" using False by (simp add: compact_all_begin_def)
  note s1 = inv_start [OF inv refl, of True "db_seq s + 1"]
  have job: "job_ok ?j (db_ssts ?s1)" using compact_all_begin_ok(1) [OF run] by simp
  have vs: "vs_inv (db_vlogs ?s1) (db_disk ?s1)" and ok: "ssts_ok ?s1" using s1(1) by (simp_all add: db_inv_def)
  have ins: "\<forall>t\<in>set (mj_inputs ?j). sst_inv t" and obj: "\<forall>t\<in>set (db_ssts ?s1). sst_obj t < db_next_obj ?s1"
    using ok by (auto simp: ssts_ok_def)
  obtain bytes t d' s2 where w: "merge_work no_faults lg ''compact_all rename'' ?j ?s1 = (Inr (bytes, t), s2)"
    "s2 = ?s1\<lparr>db_disk := d', db_next_obj := Suc (db_next_obj ?s1)\<rparr>" "output_ok ?j t s2"
    "calm (db_vlogs ?s1) (db_disk ?s1) d'" "d_ino d' wal_name = d_ino (db_disk ?s1) wal_name" "sst_obj t = db_next_obj ?s1"
    by (rule merge_work_ok [OF vs ins fits [OF run] obj])
  obtain s' where whole: "sbind (merge_work no_faults lg ''compact_all rename'' ?j) (merge_install no_faults ?j) ?s1 = (Inr (), s')"
    "db_inv s'" "abs_db s' = abs_db ?s1" by (rule merge_whole_ok [OF s1(1) job fits [OF run]])
  then have inst: "merge_install no_faults ?j (bytes, t) s2 = (Inr (), s')" using w(1) by (simp add: sbind_Inr)
  have "db_ssts s' = replace_inputs (map sst_obj (db_ssts s)) t False (db_ssts s)"
    using inst w(2) by (auto simp: merge_install_def install_merge_result_def sbind_eq_Inr add_stats_def retire_def
        write_manifest_locked_def on_disk_def split: prod.splits)
  also have "\<dots> = [t]"
    by (rule replace_inputs_stretch [of "[]" "db_ssts s" "[]" t, simplified]) (use inv False in \<open>auto simp: db_inv_def ssts_ok_def\<close>)
  finally have "db_ssts s' = [t]" .
  moreover have "sst_records t = merged ?j" using w(3) by (simp add: output_ok_def)
  moreover have "distinct (map rec_key (merged ?j))" using merged_sorted by (rule ssorted_distinct)
  moreover have "\<forall>r\<in>set (merged ?j). rec_op r \<noteq> Delete" by (auto simp: merged_def live_filter_def)
  ultimately show ?thesis using whole run s1(2) by (auto simp: compact_all_def sbind_Inr)
qed

end
