(* ===== verification/Db_Gc.thy ===== *)
theory Db_Gc
  imports Db_Merge
begin

text \<open>
  Value-log garbage collection against the abstract store: the live values are copied to a
  fresh generation, every pointer of the one remaining table refers to that generation, and
  the map is the same.
\<close>

subsection \<open>The new generation\<close>

lemma vlogs_set_fresh: "g \<notin> fst ` set vl \<Longrightarrow> vlogs_set g v vl = (g, v) # vl"
  by (force simp: vlogs_set_def filter_id_conv)

lemma vlogs_set_head: "g \<notin> fst ` set vl \<Longrightarrow> vlogs_set g v' ((g, v) # vl) = (g, v') # vl"
  by (force simp: vlogs_set_def filter_id_conv)

definition file_len :: "bytes \<Rightarrow> disk \<Rightarrow> nat" where
  "file_len n d = (case d_read d n of None \<Rightarrow> 0 | Some b \<Rightarrow> length b)"

lemma file_len_create: "length (blobs (snd (d_create n d)) (ino_of n d)) = file_len n d"
  by (simp add: file_len_def d_read_def d_create_eqs ino_of_def split: option.split)

lemma vlog_open_ok:
  assumes vs: "vs_inv vl d" and fresh: "g \<notin> fst ` set vl"
    and len: "file_len (vlog_name g) d < 2 ^ 64"
  obtains nv d' where "vlog_open no_faults (vlog_name g) g d = (Inr nv, d')" and "vs_inv ((g, nv) # vl) d'"
    and "calm vl d d'" and "d_ino d' wal_name = d_ino d wal_name" and "vl_fd nv = ino_of (vlog_name g) d"
proof -
  let ?n = "vlog_name g"
  let ?i = "ino_of ?n d" and ?d = "snd (d_create ?n d)"
  let ?nv = "\<lparr>vl_path = ?n, vl_gen = g, vl_fd = ?i, vl_append_off = of_nat (length (blobs ?d ?i)), vl_obsolete = False\<rparr>"
  have wf: "disk_wf d" using vs by (simp add: vs_inv_def)
  have names: "d_ino ?d m = (if m = ?n then Some ?i else d_ino d m)" for m by (rule d_create_eqs(2))
  have i: "?i \<notin> fds vl"
  proof
    assume "?i \<in> fds vl"
    then obtain h v where hv: "(h, v) \<in> set vl" "vl_fd v = ?i" by (auto simp: fds_def)
    note e = vs_inv_entry [OF vs hv(1)]
    show False
    proof (cases "d_ino d ?n")
      case None
      then show False using e(4) hv(2) by (simp add: ino_of_def)
    next
      case (Some j)
      then have "?n = vlog_name h" using e(5) hv(2) by (simp add: ino_of_def)
      then have "h = g" by (simp add: vlog_name_inj)
      then show False using fresh hv(1) by force
    qed
  qed
  have "disk_wf (d_store ?n [] d)" by (rule disk_wf_store [OF wf])
  then have wf': "disk_wf ?d"
    unfolding disk_wf_def names d_create_eqs(4) d_store_eqs .
  have blob: "blobs ?d j = blobs d j" if "j \<noteq> ?i" for j using that d_create_eqs(3) [of ?n d j] by simp
  have le: "next_ino d \<le> next_ino ?d" using d_create_eqs(4) [of ?n d] by simp
  have calm: "calm vl d ?d" unfolding calm_def
  proof (intro conjI ballI wf' le)
    fix j assume j: "j \<in> fds vl"
    then have "j \<noteq> ?i" using i by blast
    then show "blobs ?d j = blobs d j" "\<forall>m. d_ino ?d m = Some j \<longrightarrow> d_ino d m = Some j"
      using blob names by auto
  qed
  have "length (blobs ?d ?i) < 2 ^ 64" using len file_len_create [of ?n d] by simp
  then have "vlog_inv ?nv ?d" by (simp add: vlog_inv_def unat_of_nat_u64)
  moreover have "m = ?n" if "d_ino ?d m = Some ?i" for m
    using wf' names [of ?n] that unfolding disk_wf_def by auto
  moreover have "?i < next_ino ?d" using wf' names [of ?n] unfolding disk_wf_def by auto
  moreover note calm_vs_inv [OF vs calm]
  ultimately have "vs_inv ((g, ?nv) # vl) ?d"
    using i fresh unfolding vs_inv_def fds_def by auto
  moreover have "vlog_open no_faults ?n g d = (Inr ?nv, ?d)"
    using d_create_eqs(1) [of ?n d]
    by (cases "d_create ?n d") (simp add: vlog_open_def no_faults_def)
  ultimately show thesis using that [of ?nv ?d] calm names by simp
qed

subsection \<open>Relocation\<close>

definition reloc_cost :: "kv_record \<Rightarrow> nat" where
  "reloc_cost r = (if rec_separated r then 8 + length (rec_key r) + unat (vp_len (rec_vptr r)) else 0)"

definition reloc_rel ::
  "u32 \<Rightarrow> (u32 \<times> vlog) list \<Rightarrow> disk \<Rightarrow> (u32 \<times> vlog) list \<Rightarrow> disk \<Rightarrow> kv_record \<Rightarrow> kv_record \<Rightarrow> bool" where
  "reloc_rel g vl' d' vl d r r' \<longleftrightarrow> rec_key r' = rec_key r \<and> rec_op r' = rec_op r \<and> sst_rec_ok r' \<and>
     (rec_separated r' \<longrightarrow> vp_gen (rec_vptr r') = g) \<and>
     (\<exists>x. rec_value_of no_faults vl d r = Inr x \<and> rec_value_of no_faults vl' d' r' = Inr x)"

lemma reloc_rel_vgrow: "reloc_rel g vl1 d1 vl d r r' \<Longrightarrow> vgrow vl1 d1 vl2 d2 \<Longrightarrow> reloc_rel g vl2 d2 vl d r r'"
  using vgrow_value by (fastforce simp: reloc_rel_def)

lemma vlog_read_length: "vlog_read io p v d = Inr x \<Longrightarrow> length x = unat (vp_len p)"
  by (auto simp: vlog_read_def pread_exact_def split: if_splits option.splits)

lemma deref_length: "vlog_deref io vl d p = Inr x \<Longrightarrow> length x = unat (vp_len p)"
  by (auto simp: vlog_deref_def vlog_read_length split: option.splits)

lemma deref_fresh:
  assumes "g \<notin> fst ` set vl" and "vlog_deref io vl d p = Inr x"
  shows "vlog_deref io ((g, nv) # vl) d p = Inr x"
proof -
  have "vp_gen p \<noteq> g"
    using assms by (force simp: vlog_deref_def split: option.splits dest: map_of_SomeD)
  then show ?thesis using assms(2) by (simp add: vlog_deref_def)
qed

text \<open>One step; \<open>d0\<close> is the disk on which the old values are known to be readable.\<close>

lemma relocate_step_ok:
  assumes vs: "vs_inv ((g, nv) # db_vlogs s) (db_disk s)" and fresh: "g \<notin> fst ` set (db_vlogs s)"
    and room: "length (blobs (db_disk s) (vl_fd nv)) + (reloc_cost r + n) < 2 ^ 64"
    and r: "sst_rec_ok r" and val: "rec_value_of no_faults (db_vlogs s) (db_disk s) r = Inr x"
  obtains r' nv' w' d' where
    "relocate_step no_faults r (out, nv, w) s = (Inr (out @ [r'], nv', w'), s\<lparr>db_disk := d'\<rparr>)"
    and "vgrow ((g, nv) # db_vlogs s) (db_disk s) ((g, nv') # db_vlogs s) d'"
    and "rec_key r' = rec_key r" and "rec_op r' = rec_op r" and "sst_rec_ok r'"
    and "rec_separated r' \<longrightarrow> vp_gen (rec_vptr r') = g"
    and "rec_value_of no_faults ((g, nv') # db_vlogs s) d' r' = Inr x"
    and "length (blobs d' (vl_fd nv')) + n < 2 ^ 64" and "vl_fd nv' = vl_fd nv"
proof (cases "rec_separated r")
  case False
  then have "relocate_step no_faults r (out, nv, w) s = (Inr (out @ [r], nv, w), s\<lparr>db_disk := db_disk s\<rparr>)"
    by (simp add: relocate_step_def)
  then show thesis
    by (rule that) (use False r val room vgrow_refl [OF vs] in \<open>simp_all add: rec_value_of_def reloc_cost_def\<close>)
next
  case True
  have x: "vlog_deref no_faults (db_vlogs s) (db_disk s) (rec_vptr r) = Inr x"
    using val True by (simp add: rec_value_of_def)
  have v: "map_of ((g, nv) # db_vlogs s) g = Some nv" by simp
  have "length x \<le> UINT32_MAX" using deref_length [OF x] unat_u32_le by simp
  then have fit: "vlog_fits (rec_key r) x nv (db_disk s)"
    using room r True deref_length [OF x] by (simp add: vlog_fits_def sst_rec_ok_def reloc_cost_def)
  obtain p nv' d' where a: "vlog_append no_faults (rec_key r) x nv (db_disk s) = (Inr (p, nv'), d')"
    "vgrow ((g, nv) # db_vlogs s) (db_disk s) (vlogs_set g nv' ((g, nv) # db_vlogs s)) d'"
    "vlog_deref no_faults (vlogs_set g nv' ((g, nv) # db_vlogs s)) d' p = Inr x"
    "vp_gen p = g" "vl_fd nv' = vl_fd nv" "blobs d' (vl_fd nv) = blobs (db_disk s) (vl_fd nv) @ vlog_entry (rec_key r) x"
    by (rule vlog_append_vgrow [OF vs v fit])
  let ?w = "w + (4 + of_nat (length (rec_key r)) + 4 + of_nat (length x))"
  have "relocate_step no_faults r (out, nv, w) s = (Inr (out @ [r\<lparr>rec_vptr := p\<rparr>], nv', ?w), s\<lparr>db_disk := d'\<rparr>)"
    using True x a(1) by (simp add: relocate_step_def sbind_def on_disk_def)
  then show thesis
    by (rule that) (use a r True room deref_length [OF x] in
        \<open>simp_all add: vlogs_set_head [OF fresh] sst_rec_ok_def rec_value_of_def reloc_cost_def\<close>)
qed

lemma relocate_loop_ok:
  assumes "vs_inv ((g, nv) # vl) (db_disk s)" and "db_vlogs s = vl" and "g \<notin> fst ` set vl"
    and "length (blobs (db_disk s) (vl_fd nv)) + sum_list (map reloc_cost rs) < 2 ^ 64"
    and "list_all sst_rec_ok rs"
    and "\<forall>r\<in>set rs. \<exists>x. rec_value_of no_faults vl d0 r = Inr x \<and> rec_value_of no_faults vl (db_disk s) r = Inr x"
    and "list_all2 (reloc_rel g ((g, nv) # vl) (db_disk s) vl d0) done1 out"
  shows "\<exists>rs' nv' w' d'. sfold (relocate_step no_faults) rs (out, nv, w) s = (Inr (rs', nv', w'), s\<lparr>db_disk := d'\<rparr>) \<and>
    vgrow ((g, nv) # vl) (db_disk s) ((g, nv') # vl) d' \<and> vl_fd nv' = vl_fd nv \<and>
    list_all2 (reloc_rel g ((g, nv') # vl) d' vl d0) (done1 @ rs) rs'"
  using assms
proof (induction rs arbitrary: s nv out w done1)
  case Nil
  have "sfold (relocate_step no_faults) [] (out, nv, w) s = (Inr (out, nv, w), s\<lparr>db_disk := db_disk s\<rparr>)" by simp
  moreover have "list_all2 (reloc_rel g ((g, nv) # vl) (db_disk s) vl d0) (done1 @ []) out" using Nil.prems(7) by simp
  ultimately show ?case using vgrow_refl [OF Nil.prems(1)] by blast
next
  case (Cons r rs)
  have r: "sst_rec_ok r" and fresh: "g \<notin> fst ` set (db_vlogs s)" and vs: "vs_inv ((g, nv) # db_vlogs s) (db_disk s)"
    and room: "length (blobs (db_disk s) (vl_fd nv)) + (reloc_cost r + sum_list (map reloc_cost rs)) < 2 ^ 64"
    using Cons.prems by simp_all
  obtain x where x0: "rec_value_of no_faults vl d0 r = Inr x"
    and x: "rec_value_of no_faults (db_vlogs s) (db_disk s) r = Inr x" using Cons.prems(2,6) by auto
  obtain r' nv1 w1 d1 where a:
    "relocate_step no_faults r (out, nv, w) s = (Inr (out @ [r'], nv1, w1), s\<lparr>db_disk := d1\<rparr>)"
    "vgrow ((g, nv) # db_vlogs s) (db_disk s) ((g, nv1) # db_vlogs s) d1"
    "rec_key r' = rec_key r" "rec_op r' = rec_op r" "sst_rec_ok r'" "rec_separated r' \<longrightarrow> vp_gen (rec_vptr r') = g"
    "rec_value_of no_faults ((g, nv1) # db_vlogs s) d1 r' = Inr x"
    "length (blobs d1 (vl_fd nv1)) + sum_list (map reloc_cost rs) < 2 ^ 64" "vl_fd nv1 = vl_fd nv"
    by (rule relocate_step_ok [OF vs fresh room r x])
  let ?s = "s\<lparr>db_disk := d1\<rparr>"
  have grow: "vgrow ((g, nv) # vl) (db_disk s) ((g, nv1) # vl) d1" using a(2) Cons.prems(2) by simp
  have "list_all2 (reloc_rel g ((g, nv1) # vl) d1 vl d0) done1 out"
    using Cons.prems(7) reloc_rel_vgrow [OF _ grow] by (rule list_all2_mono)
  moreover have "reloc_rel g ((g, nv1) # vl) d1 vl d0 r r'"
    using a x0 Cons.prems(2) by (simp add: reloc_rel_def)
  ultimately have rel: "list_all2 (reloc_rel g ((g, nv1) # vl) (db_disk ?s) vl d0) (done1 @ [r]) (out @ [r'])"
    by (simp add: list_all2_appendI)
  have keep: "\<forall>q\<in>set rs. \<exists>y. rec_value_of no_faults vl d0 q = Inr y \<and> rec_value_of no_faults vl (db_disk ?s) q = Inr y"
  proof
    fix q assume "q \<in> set rs"
    then obtain y where y: "rec_value_of no_faults vl d0 q = Inr y" "rec_value_of no_faults vl (db_disk s) q = Inr y"
      using Cons.prems(6) by auto
    have "rec_value_of no_faults vl d1 q = Inr y"
    proof (cases "rec_separated q")
      case True
      then have dq: "vlog_deref no_faults vl (db_disk s) (rec_vptr q) = Inr y" using y(2) by (simp add: rec_value_of_def)
      from deref_fresh [OF Cons.prems(3) this]
      have "vlog_deref no_faults ((g, nv1) # vl) d1 (rec_vptr q) = Inr y" using grow by (simp add: vgrow_def)
      moreover have "vp_gen (rec_vptr q) \<noteq> g"
        using dq Cons.prems(3) by (force simp: vlog_deref_def split: option.splits dest: map_of_SomeD)
      ultimately show ?thesis using True by (simp add: rec_value_of_def vlog_deref_def)
    qed (use y(2) in \<open>simp add: rec_value_of_def\<close>)
    with y(1) show "\<exists>y. rec_value_of no_faults vl d0 q = Inr y \<and> rec_value_of no_faults vl (db_disk ?s) q = Inr y" by simp
  qed
  have vs1: "vs_inv ((g, nv1) # vl) (db_disk ?s)" using grow by (simp add: vgrow_def)
  have "\<exists>rs' nv' w' d'. sfold (relocate_step no_faults) rs (out @ [r'], nv1, w1) ?s = (Inr (rs', nv', w'), ?s\<lparr>db_disk := d'\<rparr>) \<and>
    vgrow ((g, nv1) # vl) (db_disk ?s) ((g, nv') # vl) d' \<and> vl_fd nv' = vl_fd nv1 \<and>
    list_all2 (reloc_rel g ((g, nv') # vl) d' vl d0) ((done1 @ [r]) @ rs) rs'"
    by (rule Cons.IH [OF vs1 _ Cons.prems(3) _ _ keep rel]) (use Cons.prems(2,5) a(8) in simp_all)
  then obtain rs' nv' w' d' where
    "sfold (relocate_step no_faults) rs (out @ [r'], nv1, w1) ?s = (Inr (rs', nv', w'), s\<lparr>db_disk := d'\<rparr>)"
    "vgrow ((g, nv1) # vl) d1 ((g, nv') # vl) d'" "vl_fd nv' = vl_fd nv"
    "list_all2 (reloc_rel g ((g, nv') # vl) d' vl d0) (done1 @ r # rs) rs'" using a(9) by auto
  moreover have "sfold (relocate_step no_faults) (r # rs) (out, nv, w) s
      = sfold (relocate_step no_faults) rs (out @ [r'], nv1, w1) ?s" using a(1) by (simp add: sbind_def)
  ultimately show ?case using vgrow_trans [OF grow] by metis
qed

subsection \<open>The whole collection\<close>

text \<open>The sizes that a collection reaches, in the state in which the memtable is flushed.\<close>

definition gc_fits :: "(real \<Rightarrow> real) \<Rightarrow> db \<Rightarrow> bool" where
  "gc_fits lg s \<longleftrightarrow>
     (let g = db_gen s + 1 in
      g \<notin> fst ` set (db_vlogs s) \<and>
      (case merge_records no_faults (db_ssts s) True of
         Inl _ \<Rightarrow> True
       | Inr rs \<Rightarrow>
           file_len (vlog_name g) (db_disk s) + sum_list (map reloc_cost rs) < 2 ^ 64 \<and>
           (case vlog_open no_faults (vlog_name g) g (db_disk s) of
              (Inl _, _) \<Rightarrow> True
            | (Inr nv, d) \<Rightarrow>
                (case sfold (relocate_step no_faults) rs ([], nv, 0) (s\<lparr>db_disk := d\<rparr>) of
                   (Inl _, _) \<Rightarrow> True
                 | (Inr (rs', _), _) \<Rightarrow> sst_fits lg rs'))))"

lemma reloc_rel_keys: "list_all2 (reloc_rel g vl' d' vl d) rs rs' \<Longrightarrow> map rec_key rs' = map rec_key rs"
  by (induction rs rs' rule: list_all2_induct) (auto simp: reloc_rel_def)

lemma reloc_rel_ok: "list_all2 (reloc_rel g vl' d' vl d) rs rs' \<Longrightarrow> list_all sst_rec_ok rs'"
  by (induction rs rs' rule: list_all2_induct) (auto simp: reloc_rel_def)

lemma reloc_rel_only_new:
  assumes "reloc_rel g ((g, nv) # vl') d' vl d r r'"
  shows "reloc_rel g [(g, nv)] d' vl d r r'"
  using assms by (auto simp: reloc_rel_def rec_value_of_def vlog_deref_def split: if_splits)

lemma reloc_rel_value: "list_all2 (reloc_rel g vl' d' vl d) rs rs' \<Longrightarrow> ptrs_ok vl' d' rs'"
  by (induction rs rs' rule: list_all2_induct) (auto simp: reloc_rel_def ptrs_ok_def)

lemma reloc_rel_look:
  assumes "list_all2 (reloc_rel g vl' d' vl d) rs rs'"
  shows "look vl' d' rs' k = look vl d rs k"
proof (rule look_list_all2)
  show "list_all2 (\<lambda>r r'. rec_key r' = rec_key r \<and> rec_ans vl' d' r' = rec_ans vl d r) rs rs'"
    using assms by (rule list_all2_mono) (auto simp: reloc_rel_def rec_ans_def)
qed

lemma reloc_rel_moved:
  assumes "reloc_rel g vl1 d1 vl d r r'" and "moved_on vl1 d1 vl1 d2"
  shows "reloc_rel g vl1 d2 vl d r r'"
  using assms by (fastforce simp: reloc_rel_def moved_on_def)

text \<open>The body of the collection after the flush.\<close>

definition gc_body :: "io \<Rightarrow> (real \<Rightarrow> real) \<Rightarrow> sstable list \<Rightarrow> (db, unit) prog" where
  "gc_body io lg inputs =
     sbind (slift (merge_records io inputs True)) (\<lambda>merged.
     sbind (sget (\<lambda>s. db_gen s + 1)) (\<lambda>new_gen.
     sbind (on_disk (vlog_open io (vlog_name new_gen) new_gen)) (\<lambda>new_vlog.
     sbind (sfold (relocate_step io) merged ([], new_vlog, 0)) (\<lambda>(merged, new_vlog, relocated).
     sbind (on_disk (vlog_sync io new_vlog)) (\<lambda>_.
     sbind take_seq (\<lambda>seq.
     sbind (build_rename io lg ''gc rename'' seq merged) (\<lambda>bytes.
     sbind (on_disk (fsync_dir io)) (\<lambda>_.
     sbind (make_sst io (sst_name seq)) (\<lambda>output.
     sbind (supd (gc_swap new_gen new_vlog output)) (\<lambda>_.
     sbind (write_manifest_locked io) (\<lambda>_.
     sbind (supd (retire inputs)) (\<lambda>_.
     sbind (supd (gc_drop_old new_gen)) (\<lambda>_.
     sbind (add_stats (\<lambda>st. st\<lparr>st_compaction_bytes := st_compaction_bytes st + bytes,
                               st_vlog_bytes := st_vlog_bytes st + relocated,
                               st_compactions := st_compactions st + 1\<rparr>)) (\<lambda>_.
     supd (\<lambda>s. s\<lparr>db_compacting := False\<rparr>)))))))))))))))"

lemma gc_value_log_body:
  "gc_value_log io lg =
     sbind (supd (\<lambda>s. s\<lparr>db_compacting := True\<rparr>)) (\<lambda>_.
     sbind (flush_locked io lg) (\<lambda>_.
     sbind (sget db_ssts) (\<lambda>inputs.
     if inputs = [] then supd (\<lambda>s. s\<lparr>db_compacting := False\<rparr>) else gc_body io lg inputs)))"
  unfolding gc_value_log_def gc_body_def ..

lemma gc_table_ok:
  assumes inv: "db_inv s" and fits: "gc_fits lg s"
  obtains rs rs' nv0 nv d1 d2 d3 w file1 where
    "merge_records no_faults (db_ssts s) True = Inr rs"
    and "vlog_open no_faults (vlog_name (db_gen s + 1)) (db_gen s + 1) (db_disk s) = (Inr nv0, d1)"
    and "sfold (relocate_step no_faults) rs ([], nv0, 0) (s\<lparr>db_disk := d1\<rparr>) = (Inr (rs', nv, w), s\<lparr>db_disk := d2\<rparr>)"
    and "build_rename no_faults lg ''gc rename'' (db_seq s) rs' (s\<lparr>db_disk := d_fsync (vl_fd nv) d2, db_seq := db_seq s + 1\<rparr>)
      = (Inr (of_nat (length file1)), s\<lparr>db_disk := d3, db_seq := db_seq s + 1\<rparr>)"
    and "buildable lg rs'" and "build_file lg rs' = Inr file1" and "d_read d3 (sst_name (db_seq s)) = Some file1"
    and "vs_inv ((db_gen s + 1, nv) # db_vlogs s) d3" and "db_gen s + 1 \<notin> fst ` set (db_vlogs s)"
    and "list_all2 (reloc_rel (db_gen s + 1) [(db_gen s + 1, nv)] d3 (db_vlogs s) (db_disk s)) rs rs'"
    and "d_ino d3 wal_name = d_ino (db_disk s) wal_name"
    and "rs = merged \<lparr>mj_inputs = db_ssts s, mj_drop = True, mj_seq = 0\<rparr>"
    and "vs_inv ((db_gen s + 1, nv0) # db_vlogs s) d1" and "vgrow ((db_gen s + 1, nv0) # db_vlogs s) d1 ((db_gen s + 1, nv) # db_vlogs s) d2"
    and "vl_fd nv = ino_of (vlog_name (db_gen s + 1)) (db_disk s)"
proof -
  let ?g = "db_gen s + 1" and ?vl = "db_vlogs s" and ?d = "db_disk s"
  let ?j = "\<lparr>mj_inputs = db_ssts s, mj_drop = True, mj_seq = 0\<rparr>"
  define rs where "rs = merged ?j"
  have vs: "vs_inv ?vl ?d" and ok: "ssts_ok s" using inv by (simp_all add: db_inv_def)
  have ins: "\<forall>t\<in>set (db_ssts s). sst_inv t" using ok by (simp add: ssts_ok_def)
  have m: "merge_records no_faults (db_ssts s) True = Inr rs"
    using merge_records_spec [OF ins] by (simp add: rs_def merged_def)
  have fresh: "?g \<notin> fst ` set ?vl" and room: "file_len (vlog_name ?g) ?d + sum_list (map reloc_cost rs) < 2 ^ 64"
    using fits m by (simp_all add: gc_fits_def Let_def)
  have len: "file_len (vlog_name ?g) ?d < 2 ^ 64" using room by simp
  obtain nv0 d1 where o: "vlog_open no_faults (vlog_name ?g) ?g ?d = (Inr nv0, d1)" "vs_inv ((?g, nv0) # ?vl) d1"
    "calm ?vl ?d d1" "d_ino d1 wal_name = d_ino ?d wal_name" "vl_fd nv0 = ino_of (vlog_name ?g) ?d"
    by (rule vlog_open_ok [OF vs fresh len])
  have ptr: "ptrs_ok ?vl ?d rs"
    using ok merged_subset [of _ ?j] unfolding rs_def ptrs_ok_def ssts_ok_def by fastforce
  have vals: "\<forall>r\<in>set rs. \<exists>x. rec_value_of no_faults ?vl ?d r = Inr x \<and> rec_value_of no_faults ?vl (db_disk (s\<lparr>db_disk := d1\<rparr>)) r = Inr x"
    using ptr calm_value [OF o(3)] by (simp add: ptrs_ok_def)
  have blob1: "length (blobs d1 (vl_fd nv0)) \<le> file_len (vlog_name ?g) ?d"
    using o(1,5) d_create_eqs(1) [of "vlog_name ?g" ?d] file_len_create [of "vlog_name ?g" ?d]
    by (cases "d_create (vlog_name ?g) ?d") (auto simp: vlog_open_def no_faults_def)
  have rsok: "list_all sst_rec_ok rs" using merged_ok [of ?j] ins by (simp add: rs_def)
  have "\<exists>rs' nv w d2. sfold (relocate_step no_faults) rs ([], nv0, 0) (s\<lparr>db_disk := d1\<rparr>) = (Inr (rs', nv, w), s\<lparr>db_disk := d1\<rparr>\<lparr>db_disk := d2\<rparr>) \<and>
    vgrow ((?g, nv0) # ?vl) (db_disk (s\<lparr>db_disk := d1\<rparr>)) ((?g, nv) # ?vl) d2 \<and> vl_fd nv = vl_fd nv0 \<and>
    list_all2 (reloc_rel ?g ((?g, nv) # ?vl) d2 ?vl ?d) ([] @ rs) rs'"
    by (rule relocate_loop_ok [OF _ _ fresh _ rsok vals]) (use o(2) room blob1 in simp_all)
  then obtain rs' nv w d2 where f: "sfold (relocate_step no_faults) rs ([], nv0, 0) (s\<lparr>db_disk := d1\<rparr>) = (Inr (rs', nv, w), s\<lparr>db_disk := d2\<rparr>)"
    "vgrow ((?g, nv0) # ?vl) d1 ((?g, nv) # ?vl) d2" "list_all2 (reloc_rel ?g ((?g, nv) # ?vl) d2 ?vl ?d) rs rs'"
    "vl_fd nv = vl_fd nv0" by auto
  have fd: "vl_fd nv = ino_of (vlog_name ?g) ?d" using f(4) o(5) by simp
  have b: "buildable lg rs'"
    using fits m o(1) f(1) merged_sorted [of ?j] reloc_rel_keys [OF f(3)] reloc_rel_ok [OF f(3)]
    by (simp add: buildable_def gc_fits_def Let_def rs_def)
  let ?vl2 = "(?g, nv) # ?vl" and ?d2 = "d_fsync (vl_fd nv) d2"
  have vs2: "vs_inv ?vl2 d2" using f(2) by (simp add: vgrow_def)
  have c2: "calm ?vl2 d2 ?d2" by (rule calm_same_names [OF vs2]) (simp_all add: d_fsync_def)
  let ?s2 = "s\<lparr>db_disk := ?d2, db_seq := db_seq s + 1\<rparr>"
  have vs2': "vs_inv ?vl2 (db_disk ?s2)" using calm_vs_inv [OF vs2 c2] by simp
  obtain file1 d3 where br: "build_rename no_faults lg ''gc rename'' (db_seq s) rs' ?s2 = (Inr (of_nat (length file1)), ?s2\<lparr>db_disk := d3\<rparr>)"
    "build_file lg rs' = Inr file1" "d_read d3 (sst_name (db_seq s)) = Some file1" "calm ?vl2 (db_disk ?s2) d3"
    "d_ino d3 wal_name = d_ino (db_disk ?s2) wal_name"
    by (rule build_rename_ok [OF vs2' b])
  have c3: "calm ?vl2 d2 d3" using calm_trans [OF c2] br(4) by simp
  have "list_all2 (reloc_rel ?g ?vl2 d3 ?vl ?d) rs rs'"
    using f(3) reloc_rel_moved [OF _ moved_on_calm [OF vs2 c3]] by (rule list_all2_mono)
  then have rel: "list_all2 (reloc_rel ?g [(?g, nv)] d3 ?vl ?d) rs rs'"
    using reloc_rel_only_new by (rule list_all2_mono)
  have dd: "dents d2 = dents d1" using f(2) by (simp add: vgrow_def)
  have wal: "d_ino d3 wal_name = d_ino ?d wal_name"
    using br(5) dd o(4) by (simp add: d_ino_def d_fsync_def)
  have st: "?s2\<lparr>db_disk := d3\<rparr> = s\<lparr>db_disk := d3, db_seq := db_seq s + 1\<rparr>" by simp
  show thesis
    by (rule that [OF m o(1) f(1) br(1) [unfolded st] b br(2,3) calm_vs_inv [OF vs2 c3] fresh rel wal rs_def o(2) f(2) fd])
qed

lemma look_all_merged:
  "ojoin (look vl d (merged \<lparr>mj_inputs = ts, mj_drop = True, mj_seq = q\<rparr>) k) = ojoin (look vl d (concat (map sst_records ts)) k)"
  using look_merged [of "\<lparr>mj_inputs = ts, mj_drop = True, mj_seq = q\<rparr>" "[]" vl d "[]" k] by simp

lemma vs_inv_head: "vs_inv ((g, nv) # vl) d \<Longrightarrow> vs_inv [(g, nv)] d"
  by (simp add: vs_inv_def)

lemma gc_body_ok:
  assumes inv: "db_inv s" and fits: "gc_fits lg s" and mem: "mt_empty (db_mem s)" and free: "\<not> db_has_flushing s"
  obtains s' t nv where "gc_body no_faults lg (db_ssts s) s = (Inr (), s')" and "db_inv s'" and "abs_db s' = abs_db s"
    and "db_vlogs s' = [(db_gen s + 1, nv)]" and "db_gen s' = db_gen s + 1" and "db_ssts s' = [t]"
    and "\<forall>r\<in>set (sst_records t). rec_separated r \<longrightarrow> vp_gen (rec_vptr r) = db_gen s + 1"
    and "\<not> db_compacting s'" and "db_fmem s' = db_fmem s" and "\<not> db_has_flushing s'" and "mt_empty (db_mem s')"
proof -
  let ?g = "db_gen s + 1" and ?vl = "db_vlogs s" and ?d = "db_disk s"
  obtain rs rs' nv0 nv d1 d2 d3 w file1 where a:
    "merge_records no_faults (db_ssts s) True = Inr rs"
    "vlog_open no_faults (vlog_name ?g) ?g ?d = (Inr nv0, d1)"
    "sfold (relocate_step no_faults) rs ([], nv0, 0) (s\<lparr>db_disk := d1\<rparr>) = (Inr (rs', nv, w), s\<lparr>db_disk := d2\<rparr>)"
    "build_rename no_faults lg ''gc rename'' (db_seq s) rs' (s\<lparr>db_disk := d_fsync (vl_fd nv) d2, db_seq := db_seq s + 1\<rparr>)
      = (Inr (of_nat (length file1)), s\<lparr>db_disk := d3, db_seq := db_seq s + 1\<rparr>)"
    "buildable lg rs'" "build_file lg rs' = Inr file1" "d_read d3 (sst_name (db_seq s)) = Some file1"
    "vs_inv ((?g, nv) # ?vl) d3" "?g \<notin> fst ` set ?vl"
    "list_all2 (reloc_rel ?g [(?g, nv)] d3 ?vl ?d) rs rs'"
    "d_ino d3 wal_name = d_ino ?d wal_name" "rs = merged \<lparr>mj_inputs = db_ssts s, mj_drop = True, mj_seq = 0\<rparr>"
    by (rule gc_table_ok [OF inv fits])
  let ?s3 = "s\<lparr>db_disk := d3, db_seq := db_seq s + 1\<rparr>"
  have rd: "d_read (db_disk ?s3) (sst_name (db_seq s)) = Some file1" using a(7) by simp
  obtain t where t: "make_sst no_faults (sst_name (db_seq s)) ?s3 = (Inr t, ?s3\<lparr>db_next_obj := Suc (db_next_obj ?s3)\<rparr>)"
    "sst_inv t" "sst_records t = rs'" "sst_obj t = db_next_obj ?s3" "sst_path t = sst_name (db_seq s)" "\<not> sst_obsolete t"
    by (rule make_sst_ok [OF a(5,6) rd])
  let ?s4 = "gc_swap ?g nv t (?s3\<lparr>db_next_obj := Suc (db_next_obj ?s3)\<rparr>)"
  have vl4: "db_vlogs ?s4 = (?g, nv) # ?vl" using vlogs_set_fresh [OF a(9)] by (simp add: gc_swap_def)
  have vs4: "vs_inv ((?g, nv) # ?vl) (db_disk ?s4)" using a(8) by (simp add: gc_swap_def)
  obtain d5 where d5: "write_manifest_locked no_faults ?s4 = (Inr (), ?s4\<lparr>db_disk := d5\<rparr>)"
    "calm ((?g, nv) # ?vl) (db_disk ?s4) d5" "d_ino d5 wal_name = d_ino (db_disk ?s4) wal_name"
    "d_read d5 man_name = Some (manifest_bytes (db_manifest ?s4))"
    by (rule write_manifest_ok [OF vs4])
  let ?st = "(db_stat s)\<lparr>st_compaction_bytes := st_compaction_bytes (db_stat s) + of_nat (length file1),
       st_vlog_bytes := st_vlog_bytes (db_stat s) + w, st_compactions := st_compactions (db_stat s) + 1\<rparr>"
  define s' where "s' = (gc_drop_old ?g (retire (db_ssts s) (?s4\<lparr>db_disk := d5\<rparr>)))\<lparr>db_stat := ?st, db_compacting := False\<rparr>"
  have run: "gc_body no_faults lg (db_ssts s) s = (Inr (), s')"
    using a(1-4) t(1) d5(1)
    by (simp add: gc_body_def sbind_def on_disk_def vlog_sync_def no_faults_def [of "''vlog fsync''"] take_seq_def
        fsync_dir_ok add_stats_def s'_def gc_drop_old_def retire_def gc_swap_def)
  have "filter (\<lambda>(g, _). g = ?g) ?vl = []" using a(9) by (force simp: filter_empty_conv)
  then have sel: "db_vlogs s' = [(?g, nv)]" "db_disk s' = d5" "db_ssts s' = [t]" "db_gen s' = ?g" "db_mem s' = db_mem s"
    "db_fmem s' = db_fmem s" "db_has_flushing s' = db_has_flushing s" "db_next_obj s' = Suc (db_next_obj s)" "db_wal s' = db_wal s"
    "\<not> db_compacting s'"
    using vl4 by (simp_all add: s'_def gc_drop_old_def retire_def gc_swap_def)
  have vs5: "vs_inv ((?g, nv) # ?vl) d5" by (rule calm_vs_inv [OF vs4 d5(2)])
  have c5: "calm [(?g, nv)] d3 d5" using d5(2) by (simp add: calm_def fds_def gc_swap_def)
  have rel: "list_all2 (reloc_rel ?g [(?g, nv)] d5 ?vl ?d) rs rs'"
    using a(10) reloc_rel_moved [OF _ moved_on_calm [OF vs_inv_head [OF a(8)] c5]] by (rule list_all2_mono)
  have "wal_inv s'"
  proof -
    obtain i where i: "wal_fd (db_wal s) = Some i" "d_ino ?d wal_name = Some i" using inv by (auto simp: db_inv_def wal_inv_def)
    have w5: "d_ino d5 wal_name = Some i" using d5(3) a(11) i(2) by (simp add: gc_swap_def)
    have "i \<noteq> vl_fd nv" using vs_inv_entry(5) [OF vs5, of ?g nv wal_name] w5 by auto
    then show ?thesis using i(1) w5 by (simp add: wal_inv_def sel fds_def)
  qed
  moreover have "ssts_ok s'" using t reloc_rel_value [OF rel] by (simp add: ssts_ok_def sel)
  moreover have "dead_ok s'"
    using inv vs_inv_entry(2) [of ?vl ?d] unfolding s'_def
    by (force simp: db_inv_def ssts_ok_def dead_ok_def gc_drop_old_def retire_def gc_swap_def
        sst_mark_obsolete_def vlog_mark_obsolete_def vlogs_set_fresh [OF a(9)])
  ultimately have inv': "db_inv s'" using inv vs_inv_head [OF vs5] by (simp add: db_inv_def sel)
  have "mt_lookup (db_mem s) k = None" for k using mem by (simp add: mt_lookup_def mt_empty_def)
  then have "abs_db s' k = abs_db s k" for k
    using free reloc_rel_look [OF rel, of k] look_all_merged [of ?vl ?d "db_ssts s" 0 k] t(3) a(12)
    by (simp add: abs_db_alt sel)
  then have abs: "abs_db s' = abs_db s" by (rule ext)
  have "\<forall>r\<in>set rs'. rec_separated r \<longrightarrow> vp_gen (rec_vptr r) = ?g"
    using rel by (auto simp: list_all2_conv_all_nth in_set_conv_nth reloc_rel_def)
  then show thesis using that [OF run inv' abs sel(1,4,3)] t(3) sel free mem by simp
qed

end
