(* ===== verification/Durable_Disk.thy ===== *)
theory Durable_Disk
  imports Db_Gc
begin

text \<open>
  What a directory holds of a store. \<open>store_on\<close> says that the manifest is durable and names
  tables whose files are durable and complete, down to the values their pointers lead to;
  \<open>logs_on\<close> says which writes the two write-ahead logs hold and how many of them are
  durable. Both speak of the disk only, so they can be asked of the disk that a crash
  leaves, and both survive a crash.
\<close>

definition same_file :: "disk \<Rightarrow> disk \<Rightarrow> bytes \<Rightarrow> bool" where
  "same_file d d' n \<longleftrightarrow> d_ino d' n = d_ino d n \<and>
     (\<forall>i. d_ino d n = Some i \<longrightarrow> blobs d' i = blobs d i \<and> synced d' i = synced d i)"

definition holds :: "disk \<Rightarrow> bytes \<Rightarrow> bytes \<Rightarrow> bool" where
  "holds d n b \<longleftrightarrow> d_read d n = Some b \<and> durable d n"

definition synced_ok :: "disk \<Rightarrow> bool" where
  "synced_ok d \<longleftrightarrow> (\<forall>i. synced d i \<le> length (blobs d i))"

text \<open>The files a store creates. Any other file may make the parsing of names throw.\<close>

definition known_name :: "bytes \<Rightarrow> bool" where
  "known_name n \<longleftrightarrow> n \<in> {wal_name, flushing_wal_name, man_name, man_tmp_name} \<or>
     (\<exists>s. n = sst_name s \<or> n = sst_name s @ tmp_suffix) \<or> (\<exists>g. n = vlog_name g)"

definition known_names :: "disk \<Rightarrow> bool" where
  "known_names d \<longleftrightarrow> (\<forall>n. d_ino d n \<noteq> None \<longrightarrow> known_name n)"

text \<open>The log of a generation as the next open would see it.\<close>

definition dvl :: "disk \<Rightarrow> u32 \<Rightarrow> (u32 \<times> vlog) list" where
  "dvl d g = [(g, \<lparr>vl_path = vlog_name g, vl_gen = g, vl_fd = ino_of (vlog_name g) d,
     vl_append_off = of_nat (file_len (vlog_name g) d), vl_obsolete = False\<rparr>)]"

definition ptr_safe :: "disk \<Rightarrow> u32 \<Rightarrow> kv_record \<Rightarrow> bool" where
  "ptr_safe d g r \<longleftrightarrow> \<not> rec_separated r \<or>
     vp_gen (rec_vptr r) = g \<and> (vp_len (rec_vptr r) = 0 \<or> (\<exists>i. d_ino d (vlog_name g) = Some i \<and>
       unat (vp_offset (rec_vptr r)) + unat (vp_len (rec_vptr r)) \<le> synced d i))"

definition table_on :: "disk \<Rightarrow> u32 \<Rightarrow> sstable \<Rightarrow> bool" where
  "table_on d g t \<longleftrightarrow> sst_inv t \<and> sst_parse no_faults (sst_obj t) (sst_path t) (sst_file t) = Inr t \<and>
     holds d (sst_path t) (sst_file t) \<and> (\<forall>r\<in>set (sst_records t). ptr_safe d g r)"

definition store_on :: "disk \<Rightarrow> u32 \<Rightarrow> u64 \<Rightarrow> sstable list \<Rightarrow> bool" where
  "store_on d g q ts \<longleftrightarrow> disk_wf d \<and> synced_ok d \<and> known_names d \<and>
     (\<exists>m. holds d man_name (manifest_bytes m) \<and> manifest_ok m \<and> man_current_gen m = g \<and> man_next_seq m = q \<and>
       map me_name (man_tables m) = map sst_path ts) \<and>
     d_ino d (vlog_name g) \<noteq> None \<and> file_len (vlog_name g) d < 2 ^ 64 \<and>
     (\<forall>t\<in>set ts. table_on d g t \<and> (\<exists>n < q. sst_path t = sst_name n)) \<and> distinct (map sst_path ts)"

text \<open>
  The logs: the sealed one, if there is one, holds all of \<open>fl\<close>; the active one holds a
  prefix of the encoding of \<open>w\<close> in which at least the first \<open>k\<close> records are durable.
\<close>

definition logs_on :: "disk \<Rightarrow> kv_record list option \<Rightarrow> kv_record list \<Rightarrow> nat \<Rightarrow> bool" where
  "logs_on d fl w k \<longleftrightarrow> list_all wal_ok w \<and>
     (case fl of
        None \<Rightarrow> d_ino d flushing_wal_name = None
      | Some fr \<Rightarrow> holds d flushing_wal_name (wal_bytes fr) \<and> list_all wal_ok fr) \<and>
     (case d_ino d wal_name of
        None \<Rightarrow> take k w = []
      | Some i \<Rightarrow> (\<exists>n. blobs d i = take n (wal_bytes w)) \<and> length (wal_bytes (take k w)) \<le> synced d i)"

subsection \<open>Files that stay\<close>

lemma same_file_refl [simp]: "same_file d d n"
  by (simp add: same_file_def)

lemma same_file_trans: "same_file d d1 n \<Longrightarrow> same_file d1 d2 n \<Longrightarrow> same_file d d2 n"
  by (simp add: same_file_def)

lemma same_file_holds: "same_file d d' n \<Longrightarrow> holds d n b \<Longrightarrow> holds d' n b"
  by (auto simp: same_file_def holds_def d_read_def durable_def)

lemma same_file_len: "same_file d d' n \<Longrightarrow> file_len n d' = file_len n d"
  by (auto simp: same_file_def file_len_def d_read_def split: option.split)

lemma ptr_safe_mono:
  assumes "ptr_safe d g r" and "d_ino d' (vlog_name g) = d_ino d (vlog_name g)"
    and "\<And>i. d_ino d (vlog_name g) = Some i \<Longrightarrow> synced d i \<le> synced d' i"
  shows "ptr_safe d' g r"
  using assms by (fastforce simp: ptr_safe_def)

lemma holds_unique: "holds d n a \<Longrightarrow> holds d n b \<Longrightarrow> a = b"
  by (simp add: holds_def)

text \<open>The value a safe pointer leads to does not depend on what is appended behind it.\<close>

lemma ptr_safe_value:
  assumes safe: "ptr_safe d g r" and ok: "synced_ok d" and ino: "d_ino d (vlog_name g) = Some i"
    and grow: "\<And>n. n \<le> synced d i \<Longrightarrow> take n (blobs d' i') = take n (blobs d i)" and le: "synced d i \<le> length (blobs d' i')"
    and vl: "map_of vl' g = Some v'" "vl_fd v' = i'"
  shows "\<exists>x. rec_value_of no_faults (dvl d g) d r = Inr x \<and> rec_value_of no_faults vl' d' r = Inr x"
proof (cases "rec_separated r")
  case False
  then show ?thesis by (simp add: rec_value_of_def)
next
  case True
  let ?o = "unat (vp_offset (rec_vptr r))" and ?l = "unat (vp_len (rec_vptr r))"
  have g: "vp_gen (rec_vptr r) = g" using safe True by (simp add: ptr_safe_def)
  note run = rec_value_of_def vlog_deref_def dvl_def vlog_read_def pread_exact_def no_faults_def ino_of_def
  show ?thesis
  proof (cases "vp_len (rec_vptr r) = 0")
    case True
    then show ?thesis using \<open>rec_separated r\<close> g vl by (simp add: run)
  next
    case False
    then have sy: "?o + ?l \<le> synced d i" using safe True ino by (auto simp: ptr_safe_def)
    have len: "synced d i \<le> length (blobs d i)" using ok by (simp add: synced_ok_def)
    have "take ?l (drop ?o (blobs d' i')) = take ?l (drop ?o (blobs d i))"
      using grow [OF sy] by (metis take_drop add.commute)
    then show ?thesis using True g sy len le vl ino by (simp add: run)
  qed
qed

lemma table_ptrs:
  assumes "table_on d g t" and "synced_ok d" and "d_ino d (vlog_name g) \<noteq> None"
  shows "ptrs_ok (dvl d g) d (sst_records t)"
  unfolding ptrs_ok_def
proof
  fix r assume "r \<in> set (sst_records t)"
  then have safe: "ptr_safe d g r" using assms(1) by (simp add: table_on_def)
  obtain i where i: "d_ino d (vlog_name g) = Some i" using assms(3) by auto
  have "map_of (dvl d g) g = Some (snd (hd (dvl d g)))" "vl_fd (snd (hd (dvl d g))) = i"
    using i by (simp_all add: dvl_def ino_of_def)
  from ptr_safe_value [OF safe assms(2) i _ _ this] assms(2)
  show "\<exists>x. rec_value_of no_faults (dvl d g) d r = Inr x" by (auto simp: synced_ok_def)
qed

lemma tables_look:
  assumes ts: "\<forall>t\<in>set ts. table_on d g t" and ok: "synced_ok d" and ino: "d_ino d (vlog_name g) = Some i"
    and grow: "\<And>n. n \<le> synced d i \<Longrightarrow> take n (blobs d' i') = take n (blobs d i)" and le: "synced d i \<le> length (blobs d' i')"
    and vl: "map_of vl' g = Some v'" "vl_fd v' = i'"
  shows "look vl' d' (concat (map sst_records ts)) = look (dvl d g) d (concat (map sst_records ts))"
proof (rule ext, rule look_cong)
  show "ptrs_ok (dvl d g) d (concat (map sst_records ts))"
    using table_ptrs [OF _ ok] ts ino by (auto simp: ptrs_ok_def)
  fix r x assume r: "r \<in> set (concat (map sst_records ts))" and x: "rec_value_of no_faults (dvl d g) d r = Inr x"
  then have "ptr_safe d g r" using ts by (auto simp: table_on_def)
  from ptr_safe_value [OF this ok ino grow le vl] x show "rec_value_of no_faults vl' d' r = Inr x" by auto
qed


subsection \<open>Crashes\<close>

lemma crash_holds:
  assumes "crash_cut d d'" and "holds d n b"
  shows "holds d' n b"
proof -
  have "synced d' i = length (blobs d' i)" for i using assms(1) unfolding crash_cut_def by blast
  then show ?thesis using crash_read [OF assms(1), of n] assms(2) by (simp add: holds_def durable_def)
qed

lemma crash_ino: "crash_cut d d' \<Longrightarrow> d_ino d' n = d_ino d n"
  by (simp add: crash_cut_def d_ino_def)

lemma crash_wf:
  assumes "crash_cut d d'" and "disk_wf d"
  shows "disk_wf d'"
proof -
  have "next_ino d' = next_ino d" using assms(1) by (simp add: crash_cut_def)
  with assms(2) show ?thesis unfolding disk_wf_def crash_ino [OF assms(1)] by simp
qed

lemma crash_blob:
  assumes "crash_cut d d'" and "synced_ok d"
  shows "synced d i \<le> length (blobs d' i)" and "n \<le> synced d i \<Longrightarrow> take n (blobs d' i) = take n (blobs d i)"
    and "length (blobs d' i) \<le> length (blobs d i)" and "synced d' i = length (blobs d' i)"
proof -
  obtain m where m: "synced d i \<le> m" "blobs d' i = take m (blobs d i)" "synced d' i = length (blobs d' i)"
    using assms(1) unfolding crash_cut_def by blast
  have "synced d i \<le> length (blobs d i)" using assms(2) by (simp add: synced_ok_def)
  then show "synced d i \<le> length (blobs d' i)" "n \<le> synced d i \<Longrightarrow> take n (blobs d' i) = take n (blobs d i)"
    "length (blobs d' i) \<le> length (blobs d i)" "synced d' i = length (blobs d' i)" using m by (simp_all add: min_def)
qed

lemma crash_store_on:
  assumes c: "crash_cut d d'" and s: "store_on d g q ts"
  shows "store_on d' g q ts"
    and "look (dvl d' g) d' (concat (map sst_records ts)) = look (dvl d g) d (concat (map sst_records ts))"
proof -
  have ok: "synced_ok d" and wf: "disk_wf d" and ino: "d_ino d (vlog_name g) \<noteq> None"
    and len: "file_len (vlog_name g) d < 2 ^ 64" and ts: "\<forall>t\<in>set ts. table_on d g t"
    using s by (simp_all add: store_on_def)
  note b = crash_blob [OF c ok]
  obtain i where i: "d_ino d (vlog_name g) = Some i" using ino by auto
  have "table_on d' g t" if t: "table_on d g t" for t
  proof -
    have "ptr_safe d' g r" if "r \<in> set (sst_records t)" for r
      by (rule ptr_safe_mono [of d]) (use t that crash_ino [OF c] b(1,4) in \<open>auto simp: table_on_def\<close>)
    with t crash_holds [OF c] show ?thesis by (simp add: table_on_def)
  qed
  moreover have "file_len (vlog_name g) d' \<le> file_len (vlog_name g) d"
    using b(3) crash_ino [OF c] i by (simp add: file_len_def d_read_def)
  moreover have "synced_ok d'" using b(4) by (simp add: synced_ok_def)
  ultimately show "store_on d' g q ts"
    using s crash_wf [OF c wf] crash_holds [OF c] crash_ino [OF c] len
    unfolding store_on_def known_names_def by (metis (no_types, lifting) order_le_less_trans)
  have "map_of (dvl d' g) g = Some (snd (hd (dvl d' g)))" "vl_fd (snd (hd (dvl d' g))) = i"
    using i crash_ino [OF c] by (simp_all add: dvl_def ino_of_def)
  from tables_look [OF ts ok i b(2,1) this]
  show "look (dvl d' g) d' (concat (map sst_records ts)) = look (dvl d g) d (concat (map sst_records ts))" .
qed

lemma crash_logs_on:
  assumes c: "crash_cut d d'" and ok: "synced_ok d" and l: "logs_on d fl w k"
  shows "logs_on d' fl w k"
proof -
  note b = crash_blob [OF c ok]
  have "\<exists>n. blobs d' i = take n (blobs d i)" for i using c by (auto simp: crash_cut_def)
  then have "\<exists>n. blobs d' i = take n (wal_bytes w)" if "blobs d i = take m (wal_bytes w)" for i m
    using that by (metis take_take)
  then show ?thesis
    using l crash_holds [OF c] crash_ino [OF c] b(1,4)
    unfolding logs_on_def
    by (cases "d_ino d wal_name"; cases fl) (auto, (metis order_trans)+)
qed

text \<open>What replay returns: the whole sealed log, and of the active one at least the durable records.\<close>

lemma replay_prefix:
  assumes ok: "list_all wal_ok w" and b: "b = take n (wal_bytes w)" and k: "length (wal_bytes (take k w)) \<le> length b"
  obtains m where "k \<le> m \<or> length w \<le> m" and "replay_loop b 0 [] = take m w"
proof -
  obtain m where m: "m \<le> length w" "wal_records (take n (wal_bytes w)) = take m w"
    "m < length w \<longrightarrow> n < length (wal_bytes (take (Suc m) w))"
    using wal_cut [OF ok, of n] by metis
  have "k \<le> m \<or> length w \<le> m"
  proof (rule ccontr)
    assume "\<not> ?thesis"
    then have "m < k" "m < length w" by auto
    then have "take (Suc m) (take k w) = take (Suc m) w" by (simp add: min_def)
    then obtain z where "take k w = take (Suc m) w @ z" by (metis append_take_drop_id)
    then have "length (wal_bytes (take (Suc m) w)) \<le> length (wal_bytes (take k w))" by simp
    with m(3) \<open>m < length w\<close> k b show False by simp
  qed
  with that m(2) b show thesis by (simp add: replay_records)
qed

lemma logs_on_replay:
  assumes l: "logs_on d fl w k" and ok: "synced_ok d"
  obtains m where "k \<le> m \<or> length w \<le> m" and "wal_replay no_faults wal_name d = Inr (take m w)"
    and "wal_replay no_faults flushing_wal_name d = Inr (case fl of None \<Rightarrow> [] | Some fr \<Rightarrow> fr)"
proof -
  have whole: "replay_loop (wal_bytes rs) 0 [] = rs" if "list_all wal_ok rs" for rs
    using wal_records_bytes [OF that, of "[]"] by (simp add: replay_records wal_records_none wal_parse_def)
  have fl: "wal_replay no_faults flushing_wal_name d = Inr (case fl of None \<Rightarrow> [] | Some fr \<Rightarrow> fr)"
    using l by (auto simp: logs_on_def wal_replay_def no_faults_def holds_def d_read_def whole split: option.splits)
  show thesis
  proof (cases "d_ino d wal_name")
    case None
    then have "take k w = []" using l by (simp add: logs_on_def)
    then have "wal_replay no_faults wal_name d = Inr (take k w)" using None by (simp add: wal_replay_def no_faults_def d_read_def)
    then show thesis using that [of k] fl by blast
  next
    case (Some i)
    then obtain n where n: "blobs d i = take n (wal_bytes w)" "length (wal_bytes (take k w)) \<le> synced d i" "list_all wal_ok w"
      using l by (auto simp: logs_on_def)
    moreover have "synced d i \<le> length (blobs d i)" using ok by (simp add: synced_ok_def)
    ultimately have "length (wal_bytes (take k w)) \<le> length (blobs d i)" by linarith
    from replay_prefix [OF n(3,1) this] obtain m where "k \<le> m \<or> length w \<le> m" "replay_loop (blobs d i) 0 [] = take m w" .
    then show thesis using that [of m] fl Some by (simp add: wal_replay_def no_faults_def d_read_def)
  qed
qed

end
