(* ===== verification/Frames.thy ===== *)
theory Frames
  imports Db_Open
begin

text \<open>
  What a program never changes, whatever fails. A frame is a reflexive and transitive
  relation between the state before and after; it holds of a program when it holds of the
  pieces. The rules are proved once for any such relation, and used here for the settings
  of the store and for the identities that only grow.
\<close>

definition framed :: "('s \<Rightarrow> 's \<Rightarrow> bool) \<Rightarrow> ('s, 'a) prog \<Rightarrow> bool" where
  "framed R m \<longleftrightarrow> (\<forall>s. R s (snd (m s)))"

locale frame_rel =
  fixes R :: "'s \<Rightarrow> 's \<Rightarrow> bool"
  assumes frame_refl: "R s s"
    and frame_trans: "R s t \<Longrightarrow> R t u \<Longrightarrow> R s u"
begin

lemma framed_ret: "framed R (sret x)"
  by (simp add: framed_def frame_refl)

lemma framed_throw: "framed R (sthrow e)"
  by (simp add: framed_def frame_refl)

lemma framed_lift: "framed R (slift r)"
  by (simp add: framed_def frame_refl)

lemma framed_get: "framed R (sget f)"
  by (simp add: framed_def frame_refl)

lemma framed_upd: "(\<And>s. R s (f s)) \<Longrightarrow> framed R (supd f)"
  by (simp add: framed_def)

lemma framed_bind:
  assumes m: "framed R m" and f: "\<And>x. framed R (f x)"
  shows "framed R (sbind m f)"
  unfolding framed_def
proof
  fix s
  have s: "R s (snd (m s))" using m by (simp add: framed_def)
  show "R s (snd (sbind m f s))"
  proof (cases "m s")
    case (Pair r t)
    then show ?thesis
      using s frame_trans [OF s, of "snd (f x t)" for x] f by (cases r) (auto simp: sbind_def framed_def)
  qed
qed

lemma framed_fold: "(\<And>x b. framed R (f x b)) \<Longrightarrow> framed R (sfold f xs b)"
  by (induction xs arbitrary: b) (auto intro: framed_ret framed_bind)

lemma framed_if: "framed R m \<Longrightarrow> framed R m' \<Longrightarrow> framed R (if b then m else m')"
  by simp

lemma framed_option: "framed R m \<Longrightarrow> (\<And>x. framed R (f x)) \<Longrightarrow> framed R (case_option m f opt)"
  by (cases opt) simp_all

lemma framed_prod: "(\<And>x y. framed R (f x y)) \<Longrightarrow> framed R (case_prod f p)"
  by (cases p) simp

lemmas framed_rules = framed_ret framed_throw framed_lift framed_get framed_bind framed_fold framed_if
  framed_option framed_prod

end

lemma framed_run: "framed R m \<Longrightarrow> m s = (r, s') \<Longrightarrow> R s s'"
  by (metis framed_def snd_conv)

subsection \<open>Settings and identities\<close>

text \<open>
  The settings are fixed at construction, the identities of table objects and the inode
  numbers are never reused, and no operation on the files brings the stop flag back.
\<close>

definition settled :: "db \<Rightarrow> db \<Rightarrow> bool" where
  "settled s s' \<longleftrightarrow> db_threshold s' = db_threshold s \<and> db_min_merge s' = db_min_merge s \<and>
     db_size_ratio s' = db_size_ratio s \<and> db_sep_threshold s' = db_sep_threshold s \<and>
     db_leveled s' = db_leveled s \<and> db_target_bytes s' = db_target_bytes s \<and> db_l1_bytes s' = db_l1_bytes s \<and>
     db_stop s' = db_stop s \<and> db_bloom_on s' = db_bloom_on s \<and>
     db_next_obj s \<le> db_next_obj s' \<and> next_ino (db_disk s) \<le> next_ino (db_disk s')"

interpretation st: frame_rel settled
  by unfold_locales (auto simp: settled_def)

definition dgrow :: "disk \<Rightarrow> disk \<Rightarrow> bool" where
  "dgrow d d' \<longleftrightarrow> next_ino d \<le> next_ino d'"

interpretation dg: frame_rel dgrow
  by unfold_locales (auto simp: dgrow_def)

lemma framed_on_disk: "framed dgrow m \<Longrightarrow> framed settled (on_disk m)"
  by (auto simp: framed_def on_disk_def settled_def dgrow_def split: prod.split) (metis snd_conv)

lemma framed_primitives:
  "framed dgrow (fsync_dir io)" "framed dgrow (d_rename io ctx old new)"
  "framed dgrow (write_file_sync io a b c path contents)"
  "framed dgrow (wal_open io path tr)" "framed dgrow (wal_append io r sync w)" "framed dgrow (wal_sync io w)"
  "framed dgrow (vlog_open io path gen)" "framed dgrow (vlog_append io key val v)" "framed dgrow (vlog_sync io v)"
  by (auto simp: framed_def dgrow_def fsync_dir_def d_rename_def write_file_sync_def wal_open_def wal_append_def
      wal_sync_def vlog_open_def vlog_append_def vlog_sync_def d_create_def d_truncate_def d_append_def d_set_def
      d_fsync_def Let_def split: option.split prod.split)

lemma framed_piece:
  "(\<And>s. settled s (f s)) \<Longrightarrow> framed settled (supd f)" "framed settled (add_stats g)" "framed settled take_seq"
  "framed settled (make_sst io path)" "framed settled (db_vlog_sync io gen)" "framed settled (db_vlog_append io gen key val)"
proof -
  show "(\<And>s. settled s (f s)) \<Longrightarrow> framed settled (supd f)" by (rule st.framed_upd)
  show "framed settled (add_stats g)" "framed settled take_seq" "framed settled (make_sst io path)"
    by (auto simp: framed_def settled_def add_stats_def take_seq_def make_sst_def split: sum.split)
  show "framed settled (db_vlog_sync io gen)"
    unfolding framed_def db_vlog_sync_def
    using framed_on_disk [OF framed_primitives(9)] by (auto simp: framed_def st.frame_refl split: option.split)
  have grow: "dgrow d (snd (vlog_append io key val v d))" for v d
    using framed_primitives(8) by (simp add: framed_def)
  show "framed settled (db_vlog_append io gen key val)"
    unfolding framed_def db_vlog_append_def settled_def
    using grow by (auto simp: dgrow_def split: option.split prod.split sum.split) (metis snd_conv)+
qed

lemma framed_build: "framed dgrow (sst_build io lg path recs)"
  unfolding sst_build_def by (intro dg.framed_rules framed_primitives)

lemma framed_manifest: "framed dgrow (manifest_write io m)"
  unfolding manifest_write_def by (intro dg.framed_rules framed_primitives)

lemmas framed_db_rules = st.framed_rules framed_piece framed_on_disk framed_primitives framed_build framed_manifest

lemma framed_separate: "framed settled (separate io sep gen recs)"
  unfolding separate_def separate_step_def by (intro framed_db_rules allI)

lemma framed_flush_pieces:
  "framed settled (build_rename io lg ctx seq recs)" "framed settled (write_manifest_locked io)"
  "framed settled (open_wal io tr)"
  unfolding build_rename_def write_manifest_locked_def open_wal_def Let_def
  by (intro framed_db_rules; simp add: settled_def)+

lemma framed_flush_locked: "framed settled (flush_locked io lg)"
  unfolding flush_locked_def
  by (intro framed_db_rules framed_separate framed_flush_pieces; simp add: settled_def insert_flushed_def)

lemma framed_seal_locked: "framed settled (seal_locked io)"
  unfolding seal_locked_def by (intro framed_db_rules framed_flush_pieces; simp add: settled_def)

lemma framed_maybe_seal: "framed settled (maybe_seal io)"
  using framed_seal_locked [of io] by (auto simp: framed_def maybe_seal_def settled_def)

lemma framed_writes: "framed settled (db_put io key val sync)" "framed settled (db_del io key sync)"
  unfolding db_put_def db_del_def by (intro framed_db_rules framed_maybe_seal; simp add: settled_def)+

end
