(* ===== verification/Disk_Frame.thy ===== *)
theory Disk_Frame
  imports Durable_Disk Frames
begin

text \<open>
  Which files an operation on the disk leaves alone, whatever fails in it. \<open>quiet N\<close> says
  that at most the files named in \<open>N\<close> changed and that the disk is still well formed; it is
  a frame, so a program is quiet when its statements are. A value log is only ever appended
  to (\<open>grown\<close>), which is all that the tables pointing into it need.
\<close>

subsection \<open>Names\<close>

lemma known_fixed [simp]:
  "known_name wal_name" "known_name flushing_wal_name" "known_name man_name" "known_name man_tmp_name"
  "known_name (sst_name s)" "known_name (sst_name s @ tmp_suffix)" "known_name (vlog_name g)"
  by (auto simp: known_name_def)

lemma fixed_names [simp]:
  "wal_name \<noteq> man_name" "wal_name \<noteq> man_tmp_name" "flushing_wal_name \<noteq> man_name" "flushing_wal_name \<noteq> man_tmp_name"
  "man_name \<noteq> wal_name" "man_tmp_name \<noteq> wal_name" "man_name \<noteq> flushing_wal_name" "man_tmp_name \<noteq> flushing_wal_name"
  "sst_name s \<noteq> man_name" "sst_name s \<noteq> man_tmp_name" "vlog_name g \<noteq> man_name" "vlog_name g \<noteq> man_tmp_name"
  "man_name \<noteq> sst_name s" "man_tmp_name \<noteq> sst_name s" "man_name \<noteq> vlog_name g" "man_tmp_name \<noteq> vlog_name g"
  "sst_name s @ x \<noteq> man_name" "sst_name s @ x \<noteq> man_tmp_name" "sst_name s @ x \<noteq> wal_name" "sst_name s @ x \<noteq> flushing_wal_name"
  "wal_name \<noteq> sst_name s" "flushing_wal_name \<noteq> sst_name s" "vlog_name g \<noteq> sst_name s @ x"
  "sst_name s @ tmp_suffix \<noteq> sst_name s'" "sst_name s' \<noteq> sst_name s @ tmp_suffix"
proof -
  show "sst_name s @ tmp_suffix \<noteq> sst_name s'" "sst_name s' \<noteq> sst_name s @ tmp_suffix" by (metis tmp_names(1,2))+
qed (auto dest: arg_cong [where f = hd] simp: man_name_def man_tmp_name_def wal_name_def flushing_wal_name_def
       sst_name_def vlog_name_def lit_def)

lemma fixed_names_sym [simp]:
  "man_name \<noteq> sst_name s @ x" "man_tmp_name \<noteq> sst_name s @ x" "wal_name \<noteq> sst_name s @ x"
  "flushing_wal_name \<noteq> sst_name s @ x" "sst_name s @ x \<noteq> vlog_name g"
  using fixed_names(17-20,23) by metis+

subsection \<open>Well-formed disks and quiet changes\<close>

definition dwf :: "disk \<Rightarrow> bool" where
  "dwf d \<longleftrightarrow> disk_wf d \<and> synced_ok d \<and> known_names d"

definition quiet :: "bytes set \<Rightarrow> disk \<Rightarrow> disk \<Rightarrow> bool" where
  "quiet N d d' \<longleftrightarrow> (dwf d \<longrightarrow> dwf d' \<and> (\<forall>n. n \<notin> N \<longrightarrow> same_file d d' n))"

definition grown :: "disk \<Rightarrow> disk \<Rightarrow> bytes \<Rightarrow> bool" where
  "grown d d' n \<longleftrightarrow> d_ino d' n = d_ino d n \<and>
     (\<forall>i. d_ino d n = Some i \<longrightarrow> (\<exists>x. blobs d' i = blobs d i @ x) \<and> synced d i \<le> synced d' i)"

lemma same_file_create:
  assumes "disk_wf d" and "n \<noteq> path"
  shows "same_file d (snd (d_create path d)) n"
proof -
  have "i \<noteq> next_ino d" if "d_ino d n = Some i" for i using assms(1) that by (auto simp: disk_wf_def)
  then show ?thesis using assms(2) by (auto simp: same_file_def d_create_def d_ino_def split: option.split)
qed

lemma create_wf:
  "disk_wf d \<Longrightarrow> disk_wf (snd (d_create path d))" "synced_ok d \<Longrightarrow> synced_ok (snd (d_create path d))"
  "known_names d \<Longrightarrow> known_name path \<Longrightarrow> known_names (snd (d_create path d))"
proof -
  show "disk_wf (snd (d_create path d))" if "disk_wf d"
    using disk_wf_store [OF that, of path "[]"] unfolding disk_wf_def d_create_eqs d_store_eqs .
  show "synced_ok d \<Longrightarrow> synced_ok (snd (d_create path d))"
    by (auto simp: synced_ok_def d_create_def split: option.split)
  show "known_names d \<Longrightarrow> known_name path \<Longrightarrow> known_names (snd (d_create path d))"
    by (auto simp: known_names_def d_create_eqs)
qed

interpretation qt: frame_rel "quiet N" for N
  by unfold_locales (auto simp: quiet_def intro: same_file_trans)

lemma quiet_mono: "quiet N d d' \<Longrightarrow> N \<subseteq> M \<Longrightarrow> quiet M d d'"
  by (auto simp: quiet_def)

lemma quietD:
  assumes "quiet N d d'" and "dwf d"
  shows "dwf d'" and "n \<notin> N \<Longrightarrow> same_file d d' n"
  using assms by (auto simp: quiet_def)

lemma same_grown: "same_file d d' n \<Longrightarrow> grown d d' n"
  by (auto simp: same_file_def grown_def)

lemma quiet_create: "known_name path \<Longrightarrow> path \<in> N \<Longrightarrow> quiet N d (snd (d_create path d))"
  using create_wf [of d path] same_file_create [of d _ path] unfolding quiet_def dwf_def by metis

lemma quiet_unlink: "path \<in> N \<Longrightarrow> quiet N d (d_unlink path d)"
  by (auto simp: quiet_def dwf_def disk_wf_def synced_ok_def known_names_def same_file_def d_unlink_eqs split: if_splits)

lemma quiet_moved:
  assumes "d_ino d old = Some i" and "known_name new" and "old \<in> N" "new \<in> N"
  shows "quiet N d (d_moved old new d)"
proof -
  have "disk_wf (d_moved old new d)" if "disk_wf d"
    using that assms(1) unfolding disk_wf_def d_moved_eqs [OF assms(1)] by (smt (verit) option.distinct(1) option.inject)
  then show ?thesis
    using assms by (auto simp: quiet_def dwf_def synced_ok_def known_names_def same_file_def d_moved_eqs [OF assms(1)])
qed

text \<open>A change of the contents or the synced length of one file.\<close>

lemma quiet_inode:
  assumes "d_ino d p = Some i" and "p \<in> N" and "dents d' = dents d" "next_ino d' = next_ino d"
    and "\<And>j. j \<noteq> i \<Longrightarrow> blobs d' j = blobs d j \<and> synced d' j = synced d j"
    and "synced_ok d \<Longrightarrow> synced d' i \<le> length (blobs d' i)"
  shows "quiet N d d'"
proof -
  have names: "d_ino d' n = d_ino d n" for n using assms(3) by (simp add: d_ino_def)
  have "synced_ok d'" if "synced_ok d"
    using assms(5,6) that unfolding synced_ok_def by metis
  moreover have "j \<noteq> i" if "disk_wf d" "n \<notin> N" "d_ino d n = Some j" for n j
    using that assms(1,2) unfolding disk_wf_def by blast
  ultimately show ?thesis
    using names assms(4,5) by (auto simp: quiet_def dwf_def disk_wf_def known_names_def same_file_def)
qed

lemma quiet_fd:
  assumes "d_ino d p = Some i" and "p \<in> N"
  shows "quiet N d (d_truncate i d)" and "quiet N d (d_append i bs d)" and "quiet N d (d_fsync i d)"
  by (rule quiet_inode [OF assms]; simp add: d_truncate_def d_append_def d_set_def d_fsync_def synced_ok_def trans_le_add1)+

lemma create_ino: "d_ino (snd (d_create path d)) path = Some (fst (d_create path d))"
  by (simp add: d_create_eqs)

subsection \<open>Quiet programs\<close>

lemma quiet_write_file:
  assumes "known_name path" and "path \<in> N"
  shows "framed (quiet N) (write_file_sync io a b c path contents)"
proof -
  have "quiet N d (snd (write_file_sync io a b c path contents d))" for d
  proof -
    obtain i d1 where c: "d_create path d = (i, d1)" by (cases "d_create path d")
    have q1: "quiet N d d1" and i: "d_ino d1 path = Some i" using quiet_create [OF assms, of d] create_ino [of path d] by (simp_all add: c)
    let ?d2 = "d_truncate i d1"
    have q2: "quiet N d ?d2" by (rule qt.frame_trans [OF q1 quiet_fd(1) [OF i assms(2)]])
    have q3: "quiet N d (d_append i bs ?d2)" for bs
      by (rule qt.frame_trans [OF q2 quiet_fd(2) [OF _ assms(2)]]) (use i in simp)
    have q4: "quiet N d (d_fsync i (d_append i bs ?d2))" for bs
      by (rule qt.frame_trans [OF q3 quiet_fd(3) [OF _ assms(2)]]) (use i in \<open>simp add: d_append_def d_set_def d_truncate_def d_ino_def\<close>)
    show ?thesis using q3 q4 by (auto simp: write_file_sync_def c Let_def qt.frame_refl split: option.split)
  qed
  then show ?thesis by (simp add: framed_def)
qed

lemma quiet_rename:
  assumes "known_name new" and "old \<in> N" "new \<in> N"
  shows "framed (quiet N) (d_rename io ctx old new)"
proof -
  have "quiet N d (snd (d_rename io ctx old new d))" for d
  proof (cases "d_ino d old")
    case None
    then show ?thesis by (auto simp: d_rename_def qt.frame_refl split: option.split)
  next
    case (Some i)
    from quiet_moved [OF Some assms] Some show ?thesis
      by (auto simp: d_rename_def d_moved_def no_faults_def qt.frame_refl split: option.split)
  qed
  then show ?thesis by (simp add: framed_def)
qed

lemma quiet_fsync_dir: "framed (quiet N) (fsync_dir io)"
  by (simp add: framed_def fsync_dir_disk qt.frame_refl)

lemma quiet_wal_open: "path \<in> N \<Longrightarrow> known_name path \<Longrightarrow> framed (quiet N) (wal_open io path tr)"
  unfolding framed_def
proof
  fix d assume p: "path \<in> N" "known_name path"
  obtain i d1 where c: "d_create path d = (i, d1)" by (cases "d_create path d")
  have q1: "quiet N d d1" and i: "d_ino d1 path = Some i" using quiet_create [OF p(2,1), of d] create_ino [of path d] by (simp_all add: c)
  have "quiet N d (d_truncate i d1)" by (rule qt.frame_trans [OF q1 quiet_fd(1) [OF i p(1)]])
  with q1 show "quiet N d (snd (wal_open io path tr d))"
    by (auto simp: wal_open_def c qt.frame_refl split: option.split)
qed

lemma quiet_sst_build: "known_name path \<Longrightarrow> path \<in> N \<Longrightarrow> framed (quiet N) (sst_build io lg path recs)"
  unfolding sst_build_def by (intro qt.framed_rules quiet_write_file)

lemma quiet_manifest_write: "{man_name, man_tmp_name} \<subseteq> N \<Longrightarrow> framed (quiet N) (manifest_write io m)"
  unfolding manifest_write_def by (intro qt.framed_rules quiet_write_file quiet_rename quiet_fsync_dir) auto

subsection \<open>Tables and stores after a quiet change\<close>

lemma table_on_frame:
  assumes t: "table_on d g t" and f: "same_file d d' (sst_path t)" and v: "grown d d' (vlog_name g)"
  shows "table_on d' g t"
proof -
  have "ptr_safe d' g r" if r: "r \<in> set (sst_records t)" for r
  proof (rule ptr_safe_mono)
    show "ptr_safe d g r" using t r by (simp add: table_on_def)
  qed (use v in \<open>auto simp: grown_def\<close>)
  with t same_file_holds [OF f] show ?thesis by (simp add: table_on_def)
qed

lemma store_on_frame:
  assumes s: "store_on d g q ts" and wf: "dwf d'" and len: "file_len (vlog_name g) d' < 2 ^ 64"
    and files: "same_file d d' man_name" "grown d d' (vlog_name g)" "\<And>t. t \<in> set ts \<Longrightarrow> same_file d d' (sst_path t)"
  shows "store_on d' g q ts"
    and "look (dvl d' g) d' (concat (map sst_records ts)) = look (dvl d g) d (concat (map sst_records ts))"
proof -
  have ok: "synced_ok d" and ino: "d_ino d (vlog_name g) \<noteq> None" and ts: "\<forall>t\<in>set ts. table_on d g t"
    using s by (simp_all add: store_on_def)
  obtain i where i: "d_ino d (vlog_name g) = Some i" using ino by auto
  obtain x where i': "d_ino d' (vlog_name g) = Some i" "blobs d' i = blobs d i @ x" "synced d i \<le> synced d' i"
    using files(2) i by (auto simp: grown_def)
  have "table_on d' g t" if "t \<in> set ts" for t
    using table_on_frame [OF _ files(3) [OF that] files(2)] ts that by blast
  moreover obtain m where "holds d man_name (manifest_bytes m)" "manifest_ok m" "man_current_gen m = g" "man_next_seq m = q"
    "map me_name (man_tables m) = map sst_path ts" using s by (auto simp: store_on_def)
  moreover from this(1) have "holds d' man_name (manifest_bytes m)" by (rule same_file_holds [OF files(1)])
  ultimately show "store_on d' g q ts"
    using s wf i'(1) len unfolding store_on_def dwf_def by auto
  have "map_of (dvl d' g) g = Some (snd (hd (dvl d' g)))" "vl_fd (snd (hd (dvl d' g))) = i"
    using i' by (simp_all add: dvl_def ino_of_def)
  moreover have "synced d i \<le> length (blobs d i)" using ok by (simp add: synced_ok_def)
  ultimately show "look (dvl d' g) d' (concat (map sst_records ts)) = look (dvl d g) d (concat (map sst_records ts))"
    using tables_look [OF ts ok i, of d' i "dvl d' g"] i' by simp
qed

end
