(* ===== verification/Engine.thy ===== *)
theory Engine
  imports Db_Gc
begin

text \<open>
  The engine with its two background threads. A state is the DB object together with what
  the flusher and the merging thread hold in local variables; a step is one critical
  section or one piece of work outside the lock, so a reachable state is any interleaving
  of callers, flusher, compactor and destructors. Steps are those of a run without I/O
  errors whose sizes stay within the 64-bit fields of the file formats, and at most one
  merge is in flight.

  An event is what a caller observes; a write carries whether the caller asked for it to be
  synced. The abstract store is a map, and every step refines
  the effect of its event on that map.
\<close>

subsection \<open>Background flush\<close>

definition flushed_ok :: "sstable \<Rightarrow> db \<Rightarrow> bool" where
  "flushed_ok t s \<longleftrightarrow> sst_inv t \<and> \<not> sst_obsolete t \<and> sst_path t \<noteq> wal_name \<and>
     sst_obj t < db_next_obj s \<and> sst_obj t \<notin> sst_obj ` set (db_ssts s) \<and>
     ptrs_ok (db_vlogs s) (db_disk s) (sst_records t) \<and>
     look (db_vlogs s) (db_disk s) (sst_records t) = mt_lookup (db_fmem s)"

lemma flush_work_ok:
  assumes inv: "db_inv s" and j: "fj_records j = mt_snapshot (db_fmem s)"
    and fits: "flush_fits lg (fj_gen j) (mt_snapshot (db_fmem s)) s"
  obtains t bytes w s' where "flush_work no_faults lg j s = (Inr (t, bytes, w), s')"
    and "db_inv s'" and "abs_db s' = abs_db s" and "keeps s s'" and "flushed_ok t s'"
    and "db_fmem s' = db_fmem s" and "db_has_flushing s' = db_has_flushing s" and "db_ssts s' = db_ssts s"
    and "sst_obj t = db_next_obj s"
proof -
  have vs: "vs_inv (db_vlogs s) (db_disk s)" and m: "mem_ok (db_fmem s)" and ok: "ssts_ok s"
    using inv by (simp_all add: db_inv_def)
  obtain rs' w vl' d1 file1 d2 where a:
    "separate no_faults (db_sep_threshold s) (fj_gen j) (mt_snapshot (db_fmem s)) s = (Inr (rs', w), s\<lparr>db_disk := d1, db_vlogs := vl'\<rparr>)"
    "build_rename no_faults lg ''flush rename'' (fj_seq j) rs' (s\<lparr>db_disk := d1, db_vlogs := vl'\<rparr>)
      = (Inr (of_nat (length file1)), s\<lparr>db_disk := d2, db_vlogs := vl'\<rparr>)"
    "buildable lg rs'" "build_file lg rs' = Inr file1" "d_read d2 (sst_name (fj_seq j)) = Some file1"
    "moved_on (db_vlogs s) (db_disk s) vl' d2" "list_all2 (sep_rel vl' d2) (mt_snapshot (db_fmem s)) rs'"
    "d_ino d2 wal_name = d_ino (db_disk s) wal_name"
    by (rule flush_table_ok [OF vs m fits])
  let ?s1 = "s\<lparr>db_disk := d2, db_vlogs := vl'\<rparr>"
  have rd: "d_read (db_disk ?s1) (sst_name (fj_seq j)) = Some file1" using a(5) by simp
  obtain t where t: "make_sst no_faults (sst_name (fj_seq j)) ?s1 = (Inr t, ?s1\<lparr>db_next_obj := Suc (db_next_obj ?s1)\<rparr>)"
    "sst_inv t" "sst_records t = rs'" "sst_obj t = db_next_obj ?s1" "sst_path t = sst_name (fj_seq j)" "\<not> sst_obsolete t"
    by (rule make_sst_ok [OF a(3,4) rd])
  let ?s2 = "?s1\<lparr>db_next_obj := Suc (db_next_obj s)\<rparr>"
  have run: "flush_work no_faults lg j s = (Inr (t, of_nat (length file1), w), ?s2)"
    using a(1,2) t(1) j by (simp add: flush_work_def sbind_def on_disk_def fsync_dir_ok)
  have ok2: "ssts_ok ?s2" using ok moved_on_ptrs [OF a(6)] by (auto simp: ssts_ok_def)
  then have inv2: "db_inv ?s2"
    using inv a(6,8) by (simp add: db_inv_def wal_inv_def dead_ok_def moved_on_def)
  have "abs_db ?s2 k = abs_db s k" for k
    using moved_on_look [OF a(6) ssts_ptrs_ok [OF ok], of k] by (simp add: abs_db_alt split: option.split)
  then have abs: "abs_db ?s2 = abs_db s" by (rule ext)
  have kp: "keeps s ?s2" using a(6) by (simp add: keeps_def)
  have "look vl' d2 rs' = mt_lookup (db_fmem s)" using sep_rel_look [OF a(7)] by (rule ext)
  moreover have "sst_obj t \<notin> sst_obj ` set (db_ssts s)" using ok t(4) by (force simp: ssts_ok_def)
  ultimately have "flushed_ok t ?s2" using t sep_rel_ok [OF a(7)] by (simp add: flushed_ok_def)
  then show thesis using that [OF run inv2 abs kp] t(4) by simp
qed

lemma flush_install_ok:
  assumes inv: "db_inv s" and fl: "db_has_flushing s" and t: "flushed_ok t s"
  obtains s' where "flush_install no_faults (t, bytes, w) s = (Inr (), s')" and "db_inv s'"
    and "abs_db s' = abs_db s" and "\<not> db_has_flushing s'" and "db_ssts s' = t # db_ssts s"
    and "db_next_obj s' = db_next_obj s" and "db_compacting s' = db_compacting s"
    and "tables_map s' = (\<lambda>k. ojoin (case mt_lookup (db_fmem s) k of Some a \<Rightarrow> Some a
      | None \<Rightarrow> look (db_vlogs s) (db_disk s) (concat (map sst_records (db_ssts s))) k))"
proof -
  have vs: "vs_inv (db_vlogs s) (db_disk s)" and ok: "ssts_ok s" using inv by (simp_all add: db_inv_def)
  let ?s1 = "insert_flushed t s"
  have vs1: "vs_inv (db_vlogs s) (db_disk ?s1)" using vs by (simp add: insert_flushed_def)
  obtain d1 where d1: "write_manifest_locked no_faults ?s1 = (Inr (), ?s1\<lparr>db_disk := d1\<rparr>)"
    "calm (db_vlogs s) (db_disk ?s1) d1" "d_ino d1 wal_name = d_ino (db_disk ?s1) wal_name"
    "d_read d1 man_name = Some (manifest_bytes (db_manifest ?s1))"
    by (rule write_manifest_ok [OF vs1])
  let ?st = "(db_stat s)\<lparr>st_flush_bytes := st_flush_bytes (db_stat s) + bytes,
                         st_vlog_bytes := st_vlog_bytes (db_stat s) + w\<rparr>"
  let ?d2 = "d_unlink flushing_wal_name d1"
  define s' where "s' = ?s1\<lparr>db_disk := ?d2, db_stat := ?st, db_fmem := memtable0, db_has_flushing := False\<rparr>"
  have run: "flush_install no_faults (t, bytes, w) s = (Inr (), s')"
    using d1(1) by (simp add: flush_install_def sbind_def add_stats_def no_faults_def [of "''remove wal-flushing''"]
        s'_def insert_flushed_def)
  have c1: "calm (db_vlogs s) (db_disk s) d1" using d1(2) by (simp add: insert_flushed_def)
  have c: "calm (db_vlogs s) (db_disk s) ?d2"
    by (rule calm_trans [OF c1 calm_unlink [OF calm_vs_inv [OF vs c1]]])
  note mo = moved_on_calm [OF vs c]
  have wal: "d_ino ?d2 wal_name = d_ino (db_disk s) wal_name"
    using d1(3) by (simp add: d_unlink_eqs insert_flushed_def)
  have "ssts_ok s'"
    using ok t moved_on_ptrs [OF mo] unfolding s'_def
    by (auto simp: ssts_ok_def flushed_ok_def insert_flushed_def)
  then have inv': "db_inv s'"
    using inv wal mo by (simp add: db_inv_def wal_inv_def dead_ok_def moved_on_def s'_def insert_flushed_def)
  have lk: "look (db_vlogs s) ?d2 (sst_records t) k = mt_lookup (db_fmem s) k" for k
    using moved_on_look [OF mo, of "sst_records t" k] t by (simp add: flushed_ok_def)
  then have "abs_db s' k = abs_db s k" for k
    using fl moved_on_look [OF mo ssts_ptrs_ok [OF ok], of k]
    by (simp add: abs_db_alt s'_def insert_flushed_def look_append split: option.split)
  then have abs: "abs_db s' = abs_db s" by (rule ext)
  have "tables_map s' k = ojoin (case mt_lookup (db_fmem s) k of Some a \<Rightarrow> Some a
      | None \<Rightarrow> look (db_vlogs s) (db_disk s) (concat (map sst_records (db_ssts s))) k)" for k
    using lk moved_on_look [OF mo ssts_ptrs_ok [OF ok], of k]
    by (simp add: tables_map_def s'_def insert_flushed_def look_append split: option.split)
  then show thesis using that [OF run inv' abs] by (simp add: s'_def insert_flushed_def fun_eq_iff)
qed

subsection \<open>States and steps\<close>

datatype flusher_pc =
    FlIdle
  | FlWorking flush_job
  | FlBuilt "sstable \<times> u64 \<times> u64"

text \<open>
  A leveled compaction has steps of its own; here it is only the tables that it has built and
  not installed yet.
\<close>

datatype merger_pc =
    MgIdle
  | MgWorking merge_job
  | MgBuilt merge_job "u64 \<times> sstable"
  | MgLeveled "sstable list"

record engine =
  en_db :: db
  en_fl :: flusher_pc
  en_mg :: merger_pc

datatype event =
    EvPut bytes bytes bool
  | EvDel bytes bool
  | EvGet bytes "bytes option"
  | EvScan bytes bytes "(bytes \<times> bytes) list"
  | EvSync
  | EvTau

text \<open>The abstract store: how an event changes the map, and what it may report.\<close>

fun map_step :: "event \<Rightarrow> (bytes \<rightharpoonup> bytes) \<Rightarrow> (bytes \<rightharpoonup> bytes)" where
  "map_step (EvPut k v sync) m = m(k \<mapsto> v)"
| "map_step (EvDel k sync) m = m(k := None)"
| "map_step (EvGet k a) m = m"
| "map_step (EvScan a b out) m = m"
| "map_step EvSync m = m"
| "map_step EvTau m = m"

fun reports :: "event \<Rightarrow> (bytes \<rightharpoonup> bytes) \<Rightarrow> bool" where
  "reports (EvGet k a) m \<longleftrightarrow> a = m k"
| "reports (EvScan a b out) m \<longleftrightarrow>
     ssorted (map fst out) \<and> (\<forall>k v. (k, v) \<in> set out \<longleftrightarrow> a \<le> k \<and> k < b \<and> m k = Some v)"
| "reports _ m \<longleftrightarrow> True"

inductive engine_step :: "(real \<Rightarrow> real) \<Rightarrow> engine \<Rightarrow> event \<Rightarrow> engine \<Rightarrow> bool" for lg where
  Put: "\<lbrakk>length k \<le> UINT32_MAX; length v \<le> UINT32_MAX; db_put no_faults k v sync (en_db e) = (Inr (), s)\<rbrakk>
    \<Longrightarrow> engine_step lg e (EvPut k v sync) (e\<lparr>en_db := s\<rparr>)"
| Del: "\<lbrakk>length k \<le> UINT32_MAX; db_del no_faults k sync (en_db e) = (Inr (), s)\<rbrakk>
    \<Longrightarrow> engine_step lg e (EvDel k sync) (e\<lparr>en_db := s\<rparr>)"
| Get: "db_get no_faults k (en_db e) = (Inr a, s) \<Longrightarrow> engine_step lg e (EvGet k a) (e\<lparr>en_db := s\<rparr>)"
| Scan: "db_scan no_faults a b (en_db e) = (Inr out, s) \<Longrightarrow> engine_step lg e (EvScan a b out) (e\<lparr>en_db := s\<rparr>)"
| Sync: "db_sync no_faults (en_db e) = (Inr (), s) \<Longrightarrow> engine_step lg e EvSync (e\<lparr>en_db := s\<rparr>)"
| Wake: "\<lbrakk>0 < db_waiters (en_db e); slot_free (en_db e); maybe_seal_wake no_faults (en_db e) = (Inr (), s)\<rbrakk>
    \<Longrightarrow> engine_step lg e EvTau (e\<lparr>en_db := s\<rparr>)"
| Flush: "\<lbrakk>slot_free (en_db e);
     flush_fits lg (db_gen (en_db e)) (mt_snapshot (db_mem (en_db e))) ((en_db e)\<lparr>db_seq := db_seq (en_db e) + 1\<rparr>);
     db_flush no_faults lg (en_db e) = (Inr (), s)\<rbrakk> \<Longrightarrow> engine_step lg e EvTau (e\<lparr>en_db := s\<rparr>)"
| Bloom: "set_bloom_enabled b (en_db e) = (Inr (), s) \<Longrightarrow> engine_step lg e EvTau (e\<lparr>en_db := s\<rparr>)"
| Gc: "\<lbrakk>gc_ready (en_db e);
     flush_fits lg (db_gen (en_db e)) (mt_snapshot (db_mem (en_db e)))
       ((en_db e)\<lparr>db_compacting := True, db_seq := db_seq (en_db e) + 1\<rparr>);
     flush_locked no_faults lg ((en_db e)\<lparr>db_compacting := True\<rparr>) = (Inr (), s1); gc_fits lg s1;
     gc_value_log no_faults lg (en_db e) = (Inr (), s)\<rbrakk> \<Longrightarrow> engine_step lg e EvTau (e\<lparr>en_db := s\<rparr>)"
| FlBegin: "\<lbrakk>en_fl e = FlIdle; db_has_flushing (en_db e); \<not> db_stop (en_db e)\<rbrakk>
    \<Longrightarrow> engine_step lg e EvTau (e\<lparr>en_fl := FlWorking (flush_begin (en_db e))\<rparr>)"
| FlWork: "\<lbrakk>en_fl e = FlWorking j; flush_fits lg (fj_gen j) (fj_records j) (en_db e);
     flush_work no_faults lg j (en_db e) = (Inr res, s)\<rbrakk>
    \<Longrightarrow> engine_step lg e EvTau (e\<lparr>en_db := s, en_fl := FlBuilt res\<rparr>)"
| FlInstall: "\<lbrakk>en_fl e = FlBuilt res; flush_install no_faults res (en_db e) = (Inr (), s)\<rbrakk>
    \<Longrightarrow> engine_step lg e EvTau (e\<lparr>en_db := s, en_fl := FlIdle\<rparr>)"
| MgBegin: "\<lbrakk>en_mg e = MgIdle; \<not> db_leveled (en_db e);
     size_tiered_begin lg (en_db e) = (Inr (Some j), s) \<or> compact_all_begin (en_db e) = (Inr (Some j), s)\<rbrakk>
    \<Longrightarrow> engine_step lg e EvTau (e\<lparr>en_db := s, en_mg := MgWorking j\<rparr>)"
| MgWork: "\<lbrakk>en_mg e = MgWorking j; merge_fits lg j; merge_work no_faults lg ctx j (en_db e) = (Inr res, s)\<rbrakk>
    \<Longrightarrow> engine_step lg e EvTau (e\<lparr>en_db := s, en_mg := MgBuilt j res\<rparr>)"
| MgInstall: "\<lbrakk>en_mg e = MgBuilt j res; merge_install no_faults j res (en_db e) = (Inr (), s)\<rbrakk>
    \<Longrightarrow> engine_step lg e EvTau (e\<lparr>en_db := s, en_mg := MgIdle\<rparr>)"
| ReapSst: "engine_step lg e EvTau (e\<lparr>en_db := reap_sst (en_db e)\<rparr>)"
| ReapVlog: "engine_step lg e EvTau (e\<lparr>en_db := reap_vlog (en_db e)\<rparr>)"
| Stop: "engine_step lg e EvTau (e\<lparr>en_db := (en_db e)\<lparr>db_stop := True\<rparr>\<rparr>)"

inductive_cases engine_step_cases: "engine_step lg e ev e'"

subsection \<open>Invariant\<close>

definition fl_ok :: "db \<Rightarrow> flusher_pc \<Rightarrow> bool" where
  "fl_ok s pc = (case pc of
       FlIdle \<Rightarrow> True
     | FlWorking j \<Rightarrow> db_has_flushing s \<and> fj_records j = mt_snapshot (db_fmem s) \<and> fj_gen j = db_gen s
     | FlBuilt (t, _, _) \<Rightarrow> db_has_flushing s \<and> flushed_ok t s)"

definition mg_ok :: "db \<Rightarrow> merger_pc \<Rightarrow> bool" where
  "mg_ok s pc = (case pc of
       MgIdle \<Rightarrow> True
     | MgWorking j \<Rightarrow> db_compacting s \<and> job_ok j (db_ssts s)
     | MgBuilt j (_, t) \<Rightarrow> db_compacting s \<and> job_ok j (db_ssts s) \<and> output_ok j t s
     | MgLeveled ts \<Rightarrow> db_compacting s)"

definition apart :: "flusher_pc \<Rightarrow> merger_pc \<Rightarrow> bool" where
  "apart fl mg = (case fl of
       FlBuilt (t, _, _) \<Rightarrow> (case mg of MgBuilt _ (_, u) \<Rightarrow> sst_obj t \<noteq> sst_obj u | _ \<Rightarrow> True)
     | _ \<Rightarrow> True)"

definition engine_inv :: "engine \<Rightarrow> bool" where
  "engine_inv e \<longleftrightarrow> db_inv (en_db e) \<and> fl_ok (en_db e) (en_fl e) \<and> mg_ok (en_db e) (en_mg e) \<and> apart (en_fl e) (en_mg e)"

lemma keeps_obj:
  assumes "keeps s s'" and "n < db_next_obj s" and "n \<notin> sst_obj ` set (db_ssts s)"
  shows "n < db_next_obj s'" and "n \<notin> sst_obj ` set (db_ssts s')"
  using assms by (fastforce simp: keeps_def)+

lemma keeps_flushed:
  assumes k: "keeps s s'" and fl: "db_has_flushing s" and t: "flushed_ok t s"
  shows "flushed_ok t s'"
proof -
  have mo: "moved_on (db_vlogs s) (db_disk s) (db_vlogs s') (db_disk s')" and fm: "db_fmem s' = db_fmem s"
    using k fl by (simp_all add: keeps_def)
  have "look (db_vlogs s') (db_disk s') (sst_records t) = look (db_vlogs s) (db_disk s) (sst_records t)"
    by (rule ext, rule moved_on_look [OF mo]) (use t in \<open>simp add: flushed_ok_def\<close>)
  then show ?thesis
    using t fm keeps_obj [OF k, of "sst_obj t"] moved_on_ptrs [OF mo] by (simp add: flushed_ok_def)
qed

lemma keeps_fl: "keeps s s' \<Longrightarrow> fl_ok s pc \<Longrightarrow> fl_ok s' pc"
  using keeps_flushed by (auto simp: fl_ok_def keeps_def split: flusher_pc.splits prod.splits)

lemma keeps_job:
  assumes "keeps s s'" and "job_ok j (db_ssts s)"
  shows "job_ok j (db_ssts s')"
proof -
  obtain new where "db_ssts s' = new @ db_ssts s" using assms(1) by (auto simp: keeps_def)
  moreover have "job_ok j (new @ ts)" if "job_ok j ts" for ts
    using that by (induction new) (auto simp: job_ok_Cons)
  ultimately show ?thesis using assms(2) by simp
qed

lemma keeps_mg:
  assumes k: "keeps s s'" and ok: "mg_ok s pc"
  shows "mg_ok s' pc"
proof -
  have "db_compacting s' = db_compacting s" using k by (simp add: keeps_def)
  then show ?thesis
    using ok keeps_job [OF k] keeps_obj [OF k]
    by (auto simp: mg_ok_def output_ok_def split: merger_pc.splits prod.splits)
qed

lemma keeps_engine:
  assumes "engine_inv e" and "keeps (en_db e) s'" and "db_inv s'"
  shows "engine_inv (e\<lparr>en_db := s'\<rparr>)"
  using assms keeps_fl [OF assms(2)] keeps_mg [OF assms(2)] by (simp add: engine_inv_def)

text \<open>Changes that leave the data alone.\<close>

lemma same_data:
  assumes "db_inv s" and "calm (db_vlogs s) (db_disk s) d'" and "d_ino d' wal_name = d_ino (db_disk s) wal_name"
    and "db_disk s' = d'" and "db_mem s' = db_mem s" and "db_fmem s' = db_fmem s" and "db_has_flushing s' = db_has_flushing s"
    and "db_ssts s' = db_ssts s" and "db_vlogs s' = db_vlogs s" and "db_gen s' = db_gen s" and "db_wal s' = db_wal s"
    and "db_next_obj s' = db_next_obj s" and "db_compacting s' = db_compacting s" and "dead_ok s'"
  shows "db_inv s' \<and> abs_db s' = abs_db s \<and> keeps s s'"
proof -
  have vs: "vs_inv (db_vlogs s) (db_disk s)" and ok: "ssts_ok s" using assms(1) by (simp_all add: db_inv_def)
  note mo = moved_on_calm [OF vs assms(2)]
  have "ssts_ok s'" using ok moved_on_ptrs [OF mo] assms(4,8,9,12) by (simp add: ssts_ok_def)
  moreover have "wal_inv s'" using assms(1,3,4,9,11) by (simp add: db_inv_def wal_inv_def)
  ultimately have "db_inv s'"
    using assms calm_vs_inv [OF vs assms(2)] by (simp add: db_inv_def)
  moreover have "abs_db s' k = abs_db s k" for k
    using moved_on_look [OF mo ssts_ptrs_ok [OF ok], of k] assms(4-9)
    by (simp add: abs_db_alt split: option.split)
  moreover have "keeps s s'" by (rule keeps_same_ssts) (use assms mo in simp_all)
  ultimately show ?thesis by (simp add: fun_eq_iff)
qed

lemma same_disk:
  assumes "db_inv s" and "db_disk s' = db_disk s" and "db_mem s' = db_mem s" and "db_fmem s' = db_fmem s"
    and "db_has_flushing s' = db_has_flushing s" and "db_ssts s' = db_ssts s" and "db_vlogs s' = db_vlogs s"
    and "db_gen s' = db_gen s" and "db_wal s' = db_wal s" and "db_next_obj s' = db_next_obj s"
    and "db_compacting s' = db_compacting s" and "dead_ok s'"
  shows "db_inv s' \<and> abs_db s' = abs_db s \<and> keeps s s'"
  by (rule same_data [OF assms(1) calm_refl refl assms(2-)]) (use assms(1) in \<open>simp add: db_inv_def\<close>)

lemma dead_okI: "db_inv s \<Longrightarrow> dead_ok s"
  by (simp add: db_inv_def)

lemma db_get_ok:
  assumes "db_inv s"
  shows "\<exists>st. db_get no_faults k s = (Inr (abs_db s k), s\<lparr>db_stat := st\<rparr>)"
proof -
  let ?s = "s\<lparr>db_stat := (db_stat s)\<lparr>st_reads := st_reads (db_stat s) + 1\<rparr>\<rparr>"
  have "db_inv ?s \<and> abs_db ?s = abs_db s \<and> keeps s ?s"
    by (rule same_disk [OF assms]) (use dead_okI [OF assms] in \<open>simp_all add: dead_ok_def\<close>)
  then obtain st where "get_finish no_faults k (get_locked k ?s) ?s = (Inr (abs_db s k), ?s\<lparr>db_stat := st\<rparr>)"
    using get_finish_ok [of ?s ?s k] by auto
  then have "db_get no_faults k s = (Inr (abs_db s k), s\<lparr>db_stat := st\<rparr>)"
    by (simp add: db_get_def sbind_def add_stats_def)
  then show ?thesis by blast
qed

lemma db_scan_ok:
  assumes "db_inv s"
  obtains out st where "db_scan no_faults a b s = (Inr out, s\<lparr>db_stat := st\<rparr>)"
    and "ssorted (map fst out)" and "\<forall>k v. (k, v) \<in> set out \<longleftrightarrow> a \<le> k \<and> k < b \<and> abs_db s k = Some v"
proof -
  let ?st = "(db_stat s)\<lparr>st_reads := st_reads (db_stat s) + 1\<rparr>"
  let ?s = "s\<lparr>db_stat := ?st\<rparr>"
  have s: "db_inv ?s \<and> abs_db ?s = abs_db s \<and> keeps s ?s"
    by (rule same_disk [OF assms]) (use dead_okI [OF assms] in \<open>simp_all add: dead_ok_def\<close>)
  define out where "out = scan_out (db_vlogs ?s) (db_disk ?s) (merge_spec (map (filter (in_range a b)) (layers ?s)))"
  have "db_scan no_faults a b s = (Inr out, ?s)"
    using scan_finish_ok [of ?s a b] s by (simp add: db_scan_def sbind_def add_stats_def out_def)
  moreover have "ssorted (map fst out)" unfolding out_def by (rule scan_out_sorted [OF merge_spec_sorted])
  moreover have "(k, v) \<in> set out \<longleftrightarrow> a \<le> k \<and> k < b \<and> abs_db s k = Some v" for k v
  proof -
    have "(k, v) \<in> set out \<longleftrightarrow> a \<le> k \<and> k < b \<and> look (db_vlogs ?s) (db_disk ?s) (concat (layers ?s)) k = Some (Some v)"
      unfolding out_def scan_out_mem look_range by auto
    also have "\<dots> \<longleftrightarrow> a \<le> k \<and> k < b \<and> abs_db ?s k = Some v"
      by (cases "look (db_vlogs ?s) (db_disk ?s) (concat (layers ?s)) k") (simp_all add: abs_db_def)
    finally show ?thesis using s by simp
  qed
  ultimately show thesis using that by blast
qed

lemma db_sync_ok:
  assumes inv: "db_inv s"
  obtains s' where "db_sync no_faults s = (Inr (), s')" and "db_inv s' \<and> abs_db s' = abs_db s \<and> keeps s s'"
proof -
  obtain i where i: "wal_fd (db_wal s) = Some i" using inv by (auto simp: db_inv_def wal_inv_def)
  let ?s = "s\<lparr>db_disk := d_fsync i (db_disk s)\<rparr>"
  have "db_sync no_faults s = (Inr (), ?s)"
    using i by (simp add: db_sync_def sbind_def on_disk_def wal_sync_def no_faults_def)
  moreover have "calm (db_vlogs s) (db_disk s) (d_fsync i (db_disk s))"
    by (rule calm_same_names) (use inv in \<open>simp_all add: db_inv_def d_fsync_def\<close>)
  then have "db_inv ?s \<and> abs_db ?s = abs_db s \<and> keeps s ?s"
    by (rule same_data [OF inv]) (use dead_okI [OF inv] in \<open>simp_all add: dead_ok_def d_ino_def d_fsync_def\<close>)
  ultimately show thesis using that by blast
qed

lemma wake_ok:
  assumes inv: "db_inv s" and free: "slot_free s"
  obtains s' where "maybe_seal_wake no_faults s = (Inr (), s')" and "db_inv s' \<and> abs_db s' = abs_db s \<and> keeps s s'"
proof -
  let ?s = "s\<lparr>db_waiters := db_waiters s - 1\<rparr>"
  have s: "db_inv ?s \<and> abs_db ?s = abs_db s \<and> keeps s ?s"
    by (rule same_disk [OF inv]) (use dead_okI [OF inv] in \<open>simp_all add: dead_ok_def\<close>)
  show thesis
  proof (cases "db_stop s")
    case True
    then have "maybe_seal_wake no_faults s = (Inr (), ?s)" by (simp add: maybe_seal_wake_def Let_def)
    then show thesis using that s by blast
  next
    case False
    then have "\<not> db_has_flushing ?s" using free by (simp add: slot_free_def)
    then obtain s' where s': "seal_locked no_faults ?s = (Inr (), s')" "db_inv s'" "abs_db s' = abs_db ?s" "keeps ?s s'"
      using seal_locked_ok [of ?s] s by metis
    moreover have "keeps s s'" using s s'(4) keeps_trans by blast
    moreover have "maybe_seal_wake no_faults s = seal_locked no_faults ?s"
      using False by (simp add: maybe_seal_wake_def Let_def)
    ultimately show thesis using that s by simp
  qed
qed

lemma db_flush_ok:
  assumes inv: "db_inv s" and free: "slot_free s"
    and fits: "flush_fits lg (db_gen s) (mt_snapshot (db_mem s)) (s\<lparr>db_seq := db_seq s + 1\<rparr>)"
  obtains s' where "db_flush no_faults lg s = (Inr (), s')" and "db_inv s' \<and> abs_db s' = abs_db s \<and> keeps s s'"
    and "\<not> db_stop s \<Longrightarrow> mt_empty (db_mem s')"
proof (cases "db_stop s")
  case True
  then have "db_flush no_faults lg s = (Inr (), s)" by (simp add: db_flush_def sbind_def)
  then show thesis using that [of s] inv keeps_refl [OF inv] True by simp
next
  case False
  then have "\<not> db_has_flushing s" using free by (simp add: slot_free_def)
  then obtain s' where "flush_locked no_faults lg s = (Inr (), s')" "db_inv s'" "abs_db s' = abs_db s"
    "mt_empty (db_mem s')" "\<not> db_has_flushing s'" "db_gen s' = db_gen s" "db_compacting s' = db_compacting s" "keeps s s'"
    using flush_locked_abs [OF inv _ fits] by metis
  then show thesis using that False by (simp add: db_flush_def sbind_def)
qed

lemma reap_ok:
  assumes inv: "db_inv s"
  shows "db_inv (reap_sst s) \<and> abs_db (reap_sst s) = abs_db s \<and> keeps s (reap_sst s)"
    and "db_inv (reap_vlog s) \<and> abs_db (reap_vlog s) = abs_db s \<and> keeps s (reap_vlog s)"
proof -
  have vs: "vs_inv (db_vlogs s) (db_disk s)" and dead: "dead_ok s" using inv by (simp_all add: db_inv_def)
  have "calm (db_vlogs s) (db_disk s) (sst_destroy t (db_disk s))" for t
    using calm_unlink [OF vs] calm_refl [OF vs] by (simp add: sst_destroy_def)
  then show "db_inv (reap_sst s) \<and> abs_db (reap_sst s) = abs_db s \<and> keeps s (reap_sst s)"
    using dead keeps_refl [OF inv] inv
    by (cases "db_dead_ssts s")
       (simp add: reap_sst_def, rule same_data [OF inv], auto simp: reap_sst_def dead_ok_def sst_destroy_def d_unlink_eqs)
  have "calm (db_vlogs s) (db_disk s) (vlog_destroy v (db_disk s))" for v
    using calm_unlink [OF vs] calm_refl [OF vs] by (simp add: vlog_destroy_def)
  then show "db_inv (reap_vlog s) \<and> abs_db (reap_vlog s) = abs_db s \<and> keeps s (reap_vlog s)"
    using dead keeps_refl [OF inv] inv
    by (cases "db_dead_vlogs s")
       (simp add: reap_vlog_def, rule same_data [OF inv], auto simp: reap_vlog_def dead_ok_def vlog_destroy_def d_unlink_eqs)
qed

lemma gc_value_log_ok:
  assumes inv: "db_inv s" and ready: "gc_ready s"
    and fits: "flush_fits lg (db_gen s) (mt_snapshot (db_mem s)) (s\<lparr>db_compacting := True, db_seq := db_seq s + 1\<rparr>)"
    and run1: "flush_locked no_faults lg (s\<lparr>db_compacting := True\<rparr>) = (Inr (), s1)" and fits1: "gc_fits lg s1"
  obtains s' where "gc_value_log no_faults lg s = (Inr (), s')" and "db_inv s'" and "abs_db s' = abs_db s"
    and "\<not> db_compacting s'" and "\<not> db_has_flushing s'" and "mt_empty (db_mem s')"
    and "db_ssts s' = [] \<or> (\<exists>t nv. db_ssts s' = [t] \<and> db_vlogs s' = [(db_gen s + 1, nv)] \<and> db_gen s' = db_gen s + 1 \<and>
      (\<forall>r\<in>set (sst_records t). rec_separated r \<longrightarrow> vp_gen (rec_vptr r) = db_gen s + 1))"
proof -
  let ?s0 = "s\<lparr>db_compacting := True\<rparr>"
  have s0: "db_inv ?s0" "abs_db ?s0 = abs_db s" using inv_start [OF inv, of ?s0 True "db_seq s"] by simp_all
  have free: "\<not> db_has_flushing ?s0" using ready by (simp add: gc_ready_def)
  obtain s1' where s1': "flush_locked no_faults lg ?s0 = (Inr (), s1')" "db_inv s1'" "abs_db s1' = abs_db ?s0"
    "mt_empty (db_mem s1')" "\<not> db_has_flushing s1'" "db_gen s1' = db_gen ?s0" "db_compacting s1' = db_compacting ?s0" "keeps ?s0 s1'"
    by (rule flush_locked_abs [OF s0(1) free, of lg]) (use fits in simp_all)
  have eq: "s1' = s1" using s1'(1) run1 by simp
  note s1 = s1' [unfolded eq]
  have unf: "gc_value_log no_faults lg s =
      (if db_ssts s1 = [] then supd (\<lambda>s. s\<lparr>db_compacting := False\<rparr>) else gc_body no_faults lg (db_ssts s1)) s1"
    using run1 by (simp add: gc_value_log_body sbind_def)
  show thesis
  proof (cases "db_ssts s1 = []")
    case True
    let ?s2 = "s1\<lparr>db_compacting := False\<rparr>"
    have "db_inv ?s2" "abs_db ?s2 = abs_db s1" using inv_start [OF s1(2), of ?s2 False "db_seq s1"] by simp_all
    then show thesis using that [of ?s2] unf True s1 s0(2) by simp
  next
    case False
    obtain s' t nv where b: "gc_body no_faults lg (db_ssts s1) s1 = (Inr (), s')" "db_inv s'" "abs_db s' = abs_db s1"
      "db_vlogs s' = [(db_gen s1 + 1, nv)]" "db_gen s' = db_gen s1 + 1" "db_ssts s' = [t]"
      "\<forall>r\<in>set (sst_records t). rec_separated r \<longrightarrow> vp_gen (rec_vptr r) = db_gen s1 + 1"
      "\<not> db_compacting s'" "db_fmem s' = db_fmem s1" "\<not> db_has_flushing s'" "mt_empty (db_mem s')"
      by (rule gc_body_ok [OF s1(2) fits1 s1(4,5)])
    show thesis
      by (rule that [of s']) (use unf False b s0(2) s1(3,6) in auto)
  qed
qed

lemma set_replace_inputs: "set (replace_inputs ids out b ts) \<subseteq> insert out (set ts)"
proof (induction ts arbitrary: b)
  case (Cons t ts)
  have "set (replace_inputs ids out b' ts) \<subseteq> insert out (set (t # ts))" for b'
    using Cons.IH [of b'] by auto
  then show ?case by auto
qed auto

lemma calm_flushed:
  assumes "flushed_ok t s" and "vs_inv (db_vlogs s) (db_disk s)" and "calm (db_vlogs s) (db_disk s) (db_disk s')"
    and "db_vlogs s' = db_vlogs s" and "db_fmem s' = db_fmem s" and "sst_obj t \<notin> sst_obj ` set (db_ssts s')"
    and "db_next_obj s' = db_next_obj s"
  shows "flushed_ok t s'"
proof -
  note mo = moved_on_calm [OF assms(2,3)]
  have "look (db_vlogs s) (db_disk s') (sst_records t) = look (db_vlogs s) (db_disk s) (sst_records t)"
    by (rule ext, rule moved_on_look [OF mo]) (use assms(1) in \<open>simp add: flushed_ok_def\<close>)
  then show ?thesis using assms moved_on_ptrs [OF mo] by (simp add: flushed_ok_def)
qed

text \<open>Installing a merge while a flush is under way.\<close>

lemma mg_install_step:
  assumes inv: "engine_inv e" and pc: "en_mg e = MgBuilt j res" and run: "merge_install no_faults j res (en_db e) = (Inr (), s)"
  shows "engine_inv (e\<lparr>en_db := s, en_mg := MgIdle\<rparr>) \<and> abs_db s = abs_db (en_db e)"
proof -
  let ?s = "en_db e"
  obtain bytes u where res: "res = (bytes, u)" by (cases res)
  have db: "db_inv ?s" and job: "job_ok j (db_ssts ?s)" and out: "output_ok j u ?s" and fl: "fl_ok ?s (en_fl e)"
    and ap: "apart (en_fl e) (MgBuilt j (bytes, u))"
    using inv pc by (auto simp: engine_inv_def mg_ok_def res)
  obtain s' where s': "merge_install no_faults j (bytes, u) ?s = (Inr (), s')" "db_inv s'" "abs_db s' = abs_db ?s"
    "\<not> db_compacting s'" "db_ssts s' = replace_inputs (map sst_obj (mj_inputs j)) u False (db_ssts ?s)"
    "db_has_flushing s' = db_has_flushing ?s" "db_fmem s' = db_fmem ?s" "db_gen s' = db_gen ?s" "db_vlogs s' = db_vlogs ?s"
    "calm (db_vlogs ?s) (db_disk ?s) (db_disk s')" "db_next_obj s' = db_next_obj ?s"
    by (rule merge_install_ok [OF db job out])
  have s: "s = s'" using run s'(1) res by simp
  have vs: "vs_inv (db_vlogs ?s) (db_disk ?s)" using db by (simp add: db_inv_def)
  have "flushed_ok t s'" if "en_fl e = FlBuilt (t, b, w)" for t b w
  proof -
    have t: "flushed_ok t ?s" "sst_obj t \<noteq> sst_obj u" using fl ap that by (simp_all add: fl_ok_def apart_def)
    have "sst_obj t \<notin> sst_obj ` set (db_ssts s')"
      using set_replace_inputs [of "map sst_obj (mj_inputs j)" u False "db_ssts ?s"] t
      unfolding s'(5) flushed_ok_def by blast
    from calm_flushed [OF t(1) vs s'(10,9,7) this s'(11)] show ?thesis .
  qed
  then have "fl_ok s' (en_fl e)"
    using fl s'(6,7,8) by (auto simp: fl_ok_def split: flusher_pc.splits prod.splits)
  then show ?thesis
    using s'(2,3) s by (simp add: engine_inv_def mg_ok_def apart_def split: flusher_pc.splits prod.splits)
qed

lemma mg_work_step:
  assumes inv: "engine_inv e" and pc: "en_mg e = MgWorking j" and fits: "merge_fits lg j"
    and run: "merge_work no_faults lg ctx j (en_db e) = (Inr res, s)"
  shows "engine_inv (e\<lparr>en_db := s, en_mg := MgBuilt j res\<rparr>) \<and> abs_db s = abs_db (en_db e)"
proof -
  let ?s = "en_db e"
  have db: "db_inv ?s" and job: "job_ok j (db_ssts ?s)" and cp: "db_compacting ?s" and fl: "fl_ok ?s (en_fl e)"
    using inv pc by (auto simp: engine_inv_def mg_ok_def)
  have vs: "vs_inv (db_vlogs ?s) (db_disk ?s)" and ok: "ssts_ok ?s" using db by (simp_all add: db_inv_def)
  have ins: "\<forall>t\<in>set (mj_inputs j). sst_inv t" and obj: "\<forall>t\<in>set (db_ssts ?s). sst_obj t < db_next_obj ?s"
    using ok job by (auto simp: ssts_ok_def job_ok_def)
  obtain bytes t d' s1 where w: "merge_work no_faults lg ctx j ?s = (Inr (bytes, t), s1)"
    "s1 = ?s\<lparr>db_disk := d', db_next_obj := Suc (db_next_obj ?s)\<rparr>" "output_ok j t s1"
    "calm (db_vlogs ?s) (db_disk ?s) d'" "d_ino d' wal_name = d_ino (db_disk ?s) wal_name" "sst_obj t = db_next_obj ?s"
    by (rule merge_work_ok [OF vs ins fits obj])
  have eqs: "s = s1" "res = (bytes, t)" using run w(1) by simp_all
  let ?s' = "?s\<lparr>db_disk := d'\<rparr>"
  have s': "db_inv ?s' \<and> abs_db ?s' = abs_db ?s \<and> keeps ?s ?s'"
    by (rule same_data [OF db w(4,5)]) (use dead_okI [OF db] in \<open>simp_all add: dead_ok_def\<close>)
  have "db_inv s1"
    using s' by (auto simp: w(2) db_inv_def wal_inv_def ssts_ok_def dead_ok_def)
  moreover have "abs_db s1 = abs_db ?s'" by (rule ext) (simp add: w(2) abs_db_def layers_def)
  moreover have k: "keeps ?s s1" using s' by (auto simp: w(2) keeps_def)
  moreover have "fl_ok s1 (en_fl e)" by (rule keeps_fl [OF k fl])
  moreover have "job_ok j (db_ssts s1)" by (rule keeps_job [OF k job])
  moreover have "apart (en_fl e) (MgBuilt j (bytes, t))"
    using fl w(6) by (auto simp: apart_def fl_ok_def flushed_ok_def split: flusher_pc.splits)
  ultimately show ?thesis using s' w(3) cp eqs by (simp add: engine_inv_def mg_ok_def w(2))
qed

lemma mg_begin_step:
  assumes inv: "engine_inv e"
    and run: "size_tiered_begin lg (en_db e) = (Inr (Some j), s) \<or> compact_all_begin (en_db e) = (Inr (Some j), s)"
  shows "engine_inv (e\<lparr>en_db := s, en_mg := MgWorking j\<rparr>) \<and> abs_db s = abs_db (en_db e)"
proof -
  let ?s = "en_db e"
  have j: "job_ok j (db_ssts ?s)" "s = ?s\<lparr>db_seq := db_seq ?s + 1, db_compacting := True\<rparr>"
    using run size_tiered_begin_ok compact_all_begin_ok by blast+
  have db: "db_inv ?s" "fl_ok ?s (en_fl e)" using inv by (simp_all add: engine_inv_def)
  note s = inv_start [OF db(1) j(2)]
  have "fl_ok s (en_fl e)"
    using db(2) by (auto simp: j(2) fl_ok_def flushed_ok_def split: flusher_pc.splits)
  then show ?thesis
    using s j by (simp add: engine_inv_def mg_ok_def apart_def split: flusher_pc.splits prod.splits)
qed

lemma fl_work_step:
  assumes inv: "engine_inv e" and pc: "en_fl e = FlWorking j" and fits: "flush_fits lg (fj_gen j) (fj_records j) (en_db e)"
    and run: "flush_work no_faults lg j (en_db e) = (Inr res, s)"
  shows "engine_inv (e\<lparr>en_db := s, en_fl := FlBuilt res\<rparr>) \<and> abs_db s = abs_db (en_db e)"
proof -
  let ?s = "en_db e"
  have db: "db_inv ?s" and fl: "db_has_flushing ?s" "fj_records j = mt_snapshot (db_fmem ?s)" and mg: "mg_ok ?s (en_mg e)"
    using inv pc by (auto simp: engine_inv_def fl_ok_def)
  have fits': "flush_fits lg (fj_gen j) (mt_snapshot (db_fmem ?s)) ?s" using fits fl(2) by simp
  obtain t bytes w s' where s': "flush_work no_faults lg j ?s = (Inr (t, bytes, w), s')" "db_inv s'" "abs_db s' = abs_db ?s"
    "keeps ?s s'" "flushed_ok t s'" "db_fmem s' = db_fmem ?s" "db_has_flushing s' = db_has_flushing ?s"
    "db_ssts s' = db_ssts ?s" "sst_obj t = db_next_obj ?s"
    by (rule flush_work_ok [OF db fl(2) fits'])
  have eqs: "s = s'" "res = (t, bytes, w)" using run s'(1) by simp_all
  have "apart (FlBuilt res) (en_mg e)"
    using mg s'(9) eqs by (auto simp: apart_def mg_ok_def output_ok_def split: merger_pc.splits)
  then show ?thesis
    using s' eqs fl(1) keeps_mg [OF s'(4) mg] by (simp add: engine_inv_def fl_ok_def)
qed

lemma fl_install_step:
  assumes inv: "engine_inv e" and pc: "en_fl e = FlBuilt res" and run: "flush_install no_faults res (en_db e) = (Inr (), s)"
  shows "engine_inv (e\<lparr>en_db := s, en_fl := FlIdle\<rparr>) \<and> abs_db s = abs_db (en_db e)"
proof -
  let ?s = "en_db e"
  obtain t bytes w where res: "res = (t, bytes, w)" by (cases res)
  have db: "db_inv ?s" and fl: "db_has_flushing ?s" "flushed_ok t ?s" and mg: "mg_ok ?s (en_mg e)"
    and ap: "apart (FlBuilt (t, bytes, w)) (en_mg e)"
    using inv pc by (auto simp: engine_inv_def fl_ok_def res)
  obtain s' where s': "flush_install no_faults (t, bytes, w) ?s = (Inr (), s')" "db_inv s'" "abs_db s' = abs_db ?s"
    "\<not> db_has_flushing s'" "db_ssts s' = t # db_ssts ?s" "db_next_obj s' = db_next_obj ?s" "db_compacting s' = db_compacting ?s"
    by (rule flush_install_ok [OF db fl])
  have s: "s = s'" using run s'(1) res by simp
  have "mg_ok s' (en_mg e)"
    using mg ap s'(5-7) job_ok_Cons
    by (auto simp: mg_ok_def apart_def output_ok_def split: merger_pc.splits prod.splits)
  then show ?thesis using s' s by (simp add: engine_inv_def fl_ok_def apart_def)
qed

lemma gc_step:
  assumes inv: "engine_inv e" and ready: "gc_ready (en_db e)"
    and db: "db_inv s" "abs_db s = abs_db (en_db e)"
  shows "engine_inv (e\<lparr>en_db := s\<rparr>)"
proof -
  have "en_fl e = FlIdle" "en_mg e = MgIdle"
    using inv ready by (auto simp: engine_inv_def gc_ready_def fl_ok_def mg_ok_def split: flusher_pc.splits merger_pc.splits)
  then show ?thesis using db by (simp add: engine_inv_def fl_ok_def mg_ok_def apart_def)
qed

text \<open>Every step keeps the invariant, refines its event, and reports the truth.\<close>

lemma engine_step_sim:
  assumes "engine_step lg e ev e'" and "engine_inv e"
  shows "engine_inv e' \<and> abs_db (en_db e') = map_step ev (abs_db (en_db e)) \<and> reports ev (abs_db (en_db e))"
  using assms
proof (induction rule: engine_step.induct)
  case (Put k v sync e s)
  then have db: "db_inv (en_db e)" by (simp add: engine_inv_def)
  obtain s' where "db_put no_faults k v sync (en_db e) = (Inr (), s')" "db_inv s'" "abs_db s' = (abs_db (en_db e))(k \<mapsto> v)" "keeps (en_db e) s'"
    using db_put_ok [OF db Put(1,2), of sync] by metis
  then show ?case using Put keeps_engine by simp
next
  case (Del k sync e s)
  then have db: "db_inv (en_db e)" by (simp add: engine_inv_def)
  obtain s' where "db_del no_faults k sync (en_db e) = (Inr (), s')" "db_inv s'" "abs_db s' = (abs_db (en_db e))(k := None)" "keeps (en_db e) s'"
    using db_del_ok [OF db Del(1), of sync] by metis
  then show ?case using Del keeps_engine by simp
next
  case (Get k e a s)
  then have db: "db_inv (en_db e)" by (simp add: engine_inv_def)
  obtain st where st: "a = abs_db (en_db e) k" "s = (en_db e)\<lparr>db_stat := st\<rparr>" using db_get_ok [OF db, of k] Get(1) by auto
  have "db_inv s \<and> abs_db s = abs_db (en_db e) \<and> keeps (en_db e) s"
    by (rule same_disk [OF db]) (use dead_okI [OF db] in \<open>simp_all add: st dead_ok_def\<close>)
  then show ?case using Get st keeps_engine by simp
next
  case (Scan a b e out s)
  then have db: "db_inv (en_db e)" by (simp add: engine_inv_def)
  obtain out' st where st: "db_scan no_faults a b (en_db e) = (Inr out', (en_db e)\<lparr>db_stat := st\<rparr>)" "ssorted (map fst out')"
    "\<forall>k v. (k, v) \<in> set out' \<longleftrightarrow> a \<le> k \<and> k < b \<and> abs_db (en_db e) k = Some v"
    by (rule db_scan_ok [OF db, of a b])
  have eqs: "out = out'" "s = (en_db e)\<lparr>db_stat := st\<rparr>" using st(1) Scan(1) by simp_all
  have "db_inv s \<and> abs_db s = abs_db (en_db e) \<and> keeps (en_db e) s"
    by (rule same_disk [OF db]) (use dead_okI [OF db] in \<open>simp_all add: eqs dead_ok_def\<close>)
  then show ?case using Scan st eqs keeps_engine by simp
next
  case (Sync e s)
  then have db: "db_inv (en_db e)" by (simp add: engine_inv_def)
  obtain s' where "db_sync no_faults (en_db e) = (Inr (), s')" "db_inv s' \<and> abs_db s' = abs_db (en_db e) \<and> keeps (en_db e) s'"
    by (rule db_sync_ok [OF db])
  then show ?case using Sync keeps_engine by simp
next
  case (Wake e s)
  then have db: "db_inv (en_db e)" by (simp add: engine_inv_def)
  obtain s' where "maybe_seal_wake no_faults (en_db e) = (Inr (), s')" "db_inv s' \<and> abs_db s' = abs_db (en_db e) \<and> keeps (en_db e) s'"
    by (rule wake_ok [OF db Wake(2)])
  then show ?case using Wake keeps_engine by simp
next
  case (Flush e s)
  then have db: "db_inv (en_db e)" by (simp add: engine_inv_def)
  obtain s' where "db_flush no_faults lg (en_db e) = (Inr (), s')" "db_inv s' \<and> abs_db s' = abs_db (en_db e) \<and> keeps (en_db e) s'"
    using db_flush_ok [OF db Flush(1,2)] by metis
  then show ?case using Flush keeps_engine by simp
next
  case (Bloom b e s)
  then have db: "db_inv (en_db e)" and s: "s = (en_db e)\<lparr>db_bloom_on := b\<rparr>" by (simp_all add: engine_inv_def set_bloom_enabled_def)
  have "db_inv s \<and> abs_db s = abs_db (en_db e) \<and> keeps (en_db e) s"
    by (rule same_disk [OF db]) (use dead_okI [OF db] in \<open>simp_all add: s dead_ok_def\<close>)
  then show ?case using Bloom keeps_engine by simp
next
  case (Gc e s1 s)
  then have db: "db_inv (en_db e)" by (simp add: engine_inv_def)
  obtain s' where "gc_value_log no_faults lg (en_db e) = (Inr (), s')" "db_inv s'" "abs_db s' = abs_db (en_db e)"
    using gc_value_log_ok [OF db Gc(1-4)] by metis
  then show ?case using Gc gc_step by simp
next
  case (FlBegin e)
  then show ?case by (auto simp: engine_inv_def fl_ok_def apart_def flush_begin_def)
next
  case (FlWork e j res s)
  then show ?case using fl_work_step [OF FlWork(4,1,2,3)] by simp
next
  case (FlInstall e res s)
  then show ?case using fl_install_step [OF FlInstall(3,1,2)] by simp
next
  case (MgBegin e j s)
  then show ?case using mg_begin_step [OF MgBegin(4,3)] by simp
next
  case (MgWork e j ctx res s)
  then show ?case using mg_work_step [OF MgWork(4,1,2,3)] by simp
next
  case (MgInstall e j res s)
  then show ?case using mg_install_step [OF MgInstall(3,1,2)] by simp
next
  case (ReapSst e)
  then have db: "db_inv (en_db e)" by (simp add: engine_inv_def)
  from keeps_engine [OF ReapSst] reap_ok(1) [OF db] show ?case by simp
next
  case (ReapVlog e)
  then have db: "db_inv (en_db e)" by (simp add: engine_inv_def)
  from keeps_engine [OF ReapVlog] reap_ok(2) [OF db] show ?case by simp
next
  case (Stop e)
  then have db: "db_inv (en_db e)" by (simp add: engine_inv_def)
  have "db_inv ((en_db e)\<lparr>db_stop := True\<rparr>) \<and> abs_db ((en_db e)\<lparr>db_stop := True\<rparr>) = abs_db (en_db e)
      \<and> keeps (en_db e) ((en_db e)\<lparr>db_stop := True\<rparr>)"
    by (rule same_disk [OF db]) (use dead_okI [OF db] in \<open>simp_all add: dead_ok_def\<close>)
  then show ?case using Stop keeps_engine by simp
qed

subsection \<open>Runs\<close>

inductive engine_run :: "(real \<Rightarrow> real) \<Rightarrow> engine \<Rightarrow> event list \<Rightarrow> engine \<Rightarrow> bool" for lg where
  Start: "engine_run lg e [] e"
| Step: "\<lbrakk>engine_step lg e ev e1; engine_run lg e1 evs e'\<rbrakk> \<Longrightarrow> engine_run lg e (ev # evs) e'"

text \<open>A trace of the abstract store: every report is true of the map at its moment.\<close>

fun trace_ok :: "event list \<Rightarrow> (bytes \<rightharpoonup> bytes) \<Rightarrow> bool" where
  "trace_ok [] m \<longleftrightarrow> True"
| "trace_ok (ev # evs) m \<longleftrightarrow> reports ev m \<and> trace_ok evs (map_step ev m)"

lemma engine_run_sim:
  assumes "engine_run lg e evs e'" and "engine_inv e"
  shows "engine_inv e' \<and> abs_db (en_db e') = fold map_step evs (abs_db (en_db e)) \<and> trace_ok evs (abs_db (en_db e))"
  using assms
proof (induction rule: engine_run.induct)
  case (Step e ev e1 evs e')
  then show ?case using engine_step_sim [OF Step.hyps(1) Step.prems] by simp
qed simp

end
