(* ===== verification/Recovery.thy ===== *)
theory Recovery
  imports Disk_Frame Engine
begin

text \<open>
  Opening a store that \<open>store_on\<close> and \<open>logs_on\<close> describe. The constructor loads exactly the
  tables of the manifest, opens the log of its generation, removes everything else, and
  replays the sealed and then the active write-ahead log. It returns, its state satisfies
  the invariant of the engine, and its contents are the tables overlaid by what the logs
  still hold.
\<close>

subsection \<open>Loading the tables\<close>

fun reobj :: "nat \<Rightarrow> sstable list \<Rightarrow> sstable list" where
  "reobj n [] = []"
| "reobj n (t # ts) = t\<lparr>sst_obj := n\<rparr> # reobj (Suc n) ts"

lemma sst_parse_map: "sst_parse io n' path b = rbind (sst_parse io n path b) (\<lambda>t. Inr (t\<lparr>sst_obj := n'\<rparr>))"
  by (simp add: sst_parse_def Let_def rbind_def split: sum.split prod.split)

lemma sst_parse_obj:
  assumes "sst_parse no_faults n path b = Inr t"
  shows "sst_parse no_faults n' path b = Inr (t\<lparr>sst_obj := n'\<rparr>)" and "\<not> sst_obsolete t" and "sst_path t = path"
    and "sst_file t = b"
proof -
  show "sst_parse no_faults n' path b = Inr (t\<lparr>sst_obj := n'\<rparr>)"
    using assms sst_parse_map [of no_faults n' path b n] by simp
qed (use assms in \<open>auto simp: sst_parse_def Let_def rbind_eq_Inr split: if_splits prod.splits\<close>)

lemma sst_obj_irrelevant [simp]:
  "sst_records (t\<lparr>sst_obj := n\<rparr>) = sst_records t" "sst_inv (t\<lparr>sst_obj := n\<rparr>) = sst_inv t"
proof -
  show rec: "sst_records (t\<lparr>sst_obj := n\<rparr>) = sst_records t" by (simp add: sst_records_def sst_read_block_def)
  show "sst_inv (t\<lparr>sst_obj := n\<rparr>) = sst_inv t"
    unfolding sst_inv_def rec by (simp add: sst_read_block_def may_contain_def cong: sum.case_cong)
qed

lemma reobj_facts:
  "length (reobj n ts) = length ts" "map sst_records (reobj n ts) = map sst_records ts" "map sst_path (reobj n ts) = map sst_path ts"
  "map sst_obj (reobj n ts) = [n..<n + length ts]"
  by (induction ts arbitrary: n) (auto simp: upt_rec)

lemma in_reobj: "t \<in> set (reobj n ts) \<Longrightarrow> \<exists>u\<in>set ts. \<exists>k. t = u\<lparr>sst_obj := k\<rparr>"
  by (induction ts arbitrary: n) auto

lemma load_entries_ok:
  assumes "\<forall>t\<in>set ts. table_on (db_disk s) g t" and "map me_name es = map sst_path ts"
  shows "\<exists>lv. sfold (load_entry no_faults) es () s = (Inr (), s\<lparr>db_ssts := db_ssts s @ reobj (db_next_obj s) ts,
    db_next_obj := db_next_obj s + length ts, db_level := lv\<rparr>) \<and>
    (\<forall>x l. lv x = Some l \<longrightarrow> db_level s x = Some l \<or> l \<in> me_level ` set es)"
  using assms
proof (induction es arbitrary: ts s)
  case Nil
  then show ?case by (auto intro!: exI [of _ "db_level s"])
next
  case (Cons e es)
  then obtain t ts' where ts: "ts = t # ts'" "me_name e = sst_path t" "map me_name es = map sst_path ts'" by (cases ts) auto
  then have t: "table_on (db_disk s) g t" using Cons.prems by simp
  then have "sst_open no_faults (db_next_obj s) (sst_path t) (db_disk s) = Inr (t\<lparr>sst_obj := db_next_obj s\<rparr>)"
    using sst_parse_obj(1) [of "sst_obj t" "sst_path t" "sst_file t" t "db_next_obj s"] by (simp add: table_on_def sst_open_def no_faults_def [of "''SSTable open''"]
        no_faults_def [of "''SSTable fstat''"] holds_def)
  then have run: "load_entry no_faults e () s = (Inr (), s\<lparr>db_next_obj := Suc (db_next_obj s),
      db_level := (db_level s)(db_next_obj s \<mapsto> me_level e), db_ssts := db_ssts s @ [t\<lparr>sst_obj := db_next_obj s\<rparr>]\<rparr>)"
    (is "_ = (Inr (), ?s1)")
    using ts(2) by (simp add: load_entry_def make_sst_def sbind_def)
  have "\<forall>t\<in>set ts'. table_on (db_disk ?s1) g t" using Cons.prems(1) ts(1) by simp
  from Cons.IH [OF this ts(3)] obtain lv where "sfold (load_entry no_faults) es () ?s1 = (Inr (), ?s1\<lparr>db_ssts := db_ssts ?s1 @ reobj (db_next_obj ?s1) ts',
      db_next_obj := db_next_obj ?s1 + length ts', db_level := lv\<rparr>)" "\<forall>x l. lv x = Some l \<longrightarrow> db_level ?s1 x = Some l \<or> l \<in> me_level ` set es"
    by blast
  then show ?case using run ts(1) by (auto simp: sbind_Inr split: if_splits intro!: exI [of _ lv])
qed

subsection \<open>Removing leftovers\<close>

definition kept :: "bytes list \<Rightarrow> u32 \<Rightarrow> bytes \<Rightarrow> bool" where
  "kept live g n \<longleftrightarrow> \<not> has_tmp_suffix n \<and> (\<forall>s. n = sst_name s \<longrightarrow> n \<in> set live) \<and> (\<forall>h. n = vlog_name h \<longrightarrow> h = g)"

lemma fixed_parse:
  "\<not> has_tmp_suffix wal_name" "\<not> has_tmp_suffix flushing_wal_name" "\<not> has_tmp_suffix man_name" "has_tmp_suffix man_tmp_name"
  "parse_seq wal_name = Inr None" "parse_seq flushing_wal_name = Inr None" "parse_seq man_name = Inr None"
  "parse_vlog_gen wal_name = Inr None" "parse_vlog_gen flushing_wal_name = Inr None" "parse_vlog_gen man_name = Inr None"
  by code_simp+

lemma cleanup_one_ok:
  assumes "known_name n"
  shows "cleanup_one no_faults live n u s =
    (Inr (), if kept live (db_gen s) n then s else s\<lparr>db_disk := d_unlink n (db_disk s)\<rparr>)"
proof -
  have rm: "fs_remove no_faults n s = (Inr (), s\<lparr>db_disk := d_unlink n (db_disk s)\<rparr>)" for n
    by (simp add: fs_remove_def no_faults_def on_disk_def)
  from assms consider "n \<in> {wal_name, flushing_wal_name, man_name}" | "n = man_tmp_name" | q where "n = sst_name q"
    | q where "n = sst_name q @ tmp_suffix" | h where "n = vlog_name h" by (auto simp: known_name_def)
  then show ?thesis
  proof cases
    case 1
    then have n: "\<not> has_tmp_suffix n" "parse_seq n = Inr None" "parse_vlog_gen n = Inr None"
      "n \<noteq> sst_name q" "n \<noteq> vlog_name h" for q h
      by (elim insertE emptyE; simp add: fixed_parse)+
    then show ?thesis by (simp add: cleanup_one_def kept_def sbind_def)
  next
    case (3 q)
    then show ?thesis
      by (auto simp: cleanup_one_def kept_def tmp_names parse_seq_sst_name sbind_def rm)
  next
    case (5 h)
    then show ?thesis
      by (auto simp: cleanup_one_def kept_def tmp_names parse_other_kind parse_vlog_gen_vlog_name sbind_def rm vlog_name_inj)
  qed (auto simp: cleanup_one_def kept_def fixed_parse tmp_names rm)
qed

definition pruned :: "bytes list \<Rightarrow> u32 \<Rightarrow> bytes list \<Rightarrow> disk \<Rightarrow> disk" where
  "pruned live g ns d = fold (\<lambda>n d. if kept live g n then d else d_unlink n d) ns d"

lemma pruned_eqs:
  "d_ino (pruned live g ns d) n = (if n \<in> set ns \<and> \<not> kept live g n then None else d_ino d n)"
  "blobs (pruned live g ns d) = blobs d" "synced (pruned live g ns d) = synced d" "next_ino (pruned live g ns d) = next_ino d"
  by (induction ns arbitrary: d) (auto simp: pruned_def d_unlink_eqs)

lemma cleanup_loop_ok:
  assumes "\<forall>n\<in>set ns. known_name n"
  shows "sfold (cleanup_one no_faults live) ns () s = (Inr (), s\<lparr>db_disk := pruned live (db_gen s) ns (db_disk s)\<rparr>)"
  using assms
proof (induction ns arbitrary: s)
  case (Cons n ns)
  then show ?case
    using Cons.IH [of "if kept live (db_gen s) n then s else s\<lparr>db_disk := d_unlink n (db_disk s)\<rparr>"]
    by (simp add: sbind_def cleanup_one_ok pruned_def split: if_splits)
qed (simp add: pruned_def)

lemma cleanup_orphans_ok:
  assumes "known_names (db_disk s)"
  obtains ns where "cleanup_orphans no_faults live s = (Inr (), s\<lparr>db_disk := pruned live (db_gen s) ns (db_disk s)\<rparr>)"
proof -
  have "\<forall>n\<in>set (dir_names s). known_name n"
    using assms map_of_eq_None_iff [of "dents (db_disk s)"] by (force simp: known_names_def dir_names_def d_ino_def)
  from cleanup_loop_ok [OF this, of live] show thesis using that by (simp add: cleanup_orphans_def sbind_def)
qed


subsection \<open>Replaying the logs\<close>

lemma apply_recs_ok:
  assumes "mem_ok m" and "list_all wal_ok rs"
  shows "mem_ok (fold apply_rec rs m)"
  using assms
proof (induction rs arbitrary: m)
  case (Cons r rs)
  then have "length (rec_key r) \<le> UINT32_MAX" "length (rec_value r) \<le> UINT32_MAX" by (simp_all add: wal_ok_def)
  then have "mem_ok (apply_rec r m)"
    using Cons.prems(1) by (auto simp: apply_rec_def mt_put_store mt_del_store intro!: sst_rec_ok_store)
  with Cons show ?case by simp
qed simp

definition recovered :: "disk \<Rightarrow> u32 \<Rightarrow> sstable list \<Rightarrow> kv_record list \<Rightarrow> bytes \<rightharpoonup> bytes" where
  "recovered d g ts rs k = ojoin (case find_rec k (rev rs) of
     Some r \<Rightarrow> Some (rec_answer r) | None \<Rightarrow> look (dvl d g) d (concat (map sst_records ts)) k)"

definition fl_recs :: "kv_record list option \<Rightarrow> kv_record list" where
  "fl_recs fl = (case fl of None \<Rightarrow> [] | Some fr \<Rightarrow> fr)"

text \<open>The constructor up to the point where it has replayed the logs.\<close>

definition db_load :: "(db, manifest_data option \<times> bool) prog" where
  "db_load =
     sbind (open_wal no_faults False) (\<lambda>_.
     sbind (sget (\<lambda>s. manifest_read no_faults (db_disk s))) (\<lambda>rm.
     sbind (slift rm) (\<lambda>man.
     sbind (load_tables no_faults man) (\<lambda>_.
     sbind (sget (\<lambda>s. d_ino (db_disk s) flushing_wal_name \<noteq> None)) (\<lambda>had_flushing.
     sbind (if had_flushing then replay_into no_faults flushing_wal_name else sret ()) (\<lambda>_.
     sbind (replay_into no_faults wal_name) (\<lambda>_.
     sret (man, had_flushing))))))))"

lemma sbind_sret: "sbind (sret x) f = f x"
  by (rule ext) (simp add: sbind_def)

lemma db_ctor_load:
  "db_ctor no_faults lg = sbind db_load (\<lambda>(man, had_flushing).
     sbind (if had_flushing then
              sbind (flush_locked no_faults lg) (\<lambda>_.
              sbind (fs_remove no_faults flushing_wal_name) (\<lambda>_.
              on_disk (fsync_dir no_faults)))
            else sret ()) (\<lambda>_.
     if man = None then write_manifest_locked no_faults else sret ()))"
  by (simp only: db_ctor_def db_load_def recover_def sbind_assoc sbind_sret prod.case)

text \<open>The table that a recovery flush writes stays within the 64-bit fields.\<close>

definition recovery_fits :: "(real \<Rightarrow> real) \<Rightarrow> db_config \<Rightarrow> disk \<Rightarrow> bool" where
  "recovery_fits lg cf d \<longleftrightarrow>
     (case db_load (db_init cf d) of
        (Inr (man, True), s) \<Rightarrow> mt_empty (db_mem s) \<or> flush_fits lg (db_gen s) (mt_snapshot (db_mem s)) (s\<lparr>db_seq := db_seq s + 1\<rparr>)
      | _ \<Rightarrow> True)"


lemma replay_into_ok:
  "wal_replay no_faults n (db_disk s) = Inr rs \<Longrightarrow>
     replay_into no_faults n s = (Inr (), s\<lparr>db_mem := fold apply_rec rs (db_mem s)\<rparr>)"
  by (simp add: replay_into_def sbind_def)

lemma open_wal_keep_ok:
  "open_wal no_faults False s = (Inr (), s\<lparr>db_disk := snd (d_create wal_name (db_disk s)),
     db_wal := \<lparr>wal_path = wal_name, wal_fd = Some (ino_of wal_name (db_disk s))\<rparr>\<rparr>)"
  using d_create_eqs(1) [of wal_name "db_disk s"]
  by (cases "d_create wal_name (db_disk s)")
     (simp add: open_wal_def sbind_def on_disk_def wal_open_def no_faults_def wal_move_assign_def wal_close_fd_def)

text \<open>The disk after the log was opened and the leftovers were removed.\<close>

lemma prepared_disk:
  assumes st: "store_on d g q ts" and l: "logs_on d fl w k"
    and d2: "d2 = pruned (map sst_path ts) g ns (snd (d_create wal_name d))"
  shows "store_on d2 g q ts" and "logs_on d2 fl w k" and "d_ino d2 wal_name = Some (ino_of wal_name d)"
    and "look (dvl d2 g) d2 (concat (map sst_records ts)) = look (dvl d g) d (concat (map sst_records ts))"
    and "d_ino d2 flushing_wal_name \<noteq> None \<longleftrightarrow> fl \<noteq> None"
proof -
  let ?d1 = "snd (d_create wal_name d)"
  have wf: "disk_wf d" "synced_ok d" "known_names d" using st by (simp_all add: store_on_def)
  note wf1 = create_wf(1) [OF wf(1), of wal_name] create_wf(2) [OF wf(2), of wal_name] create_wf(3) [OF wf(3), of wal_name]
  have e: "d_ino d2 n = (if n \<in> set ns \<and> \<not> kept (map sst_path ts) g n then None else d_ino ?d1 n)"
    "blobs d2 = blobs ?d1" "synced d2 = synced ?d1" "next_ino d2 = next_ino ?d1" for n
    by (simp_all add: d2 pruned_eqs)
  have keep: "kept (map sst_path ts) g n" if "n \<in> {man_name, wal_name, flushing_wal_name, vlog_name g} \<union> sst_path ` set ts" for n
  proof (cases "n \<in> sst_path ` set ts")
    case True
    then obtain s where "n = sst_name s" using st by (auto simp: store_on_def)
    with True show ?thesis by (auto simp: kept_def tmp_names sst_name_inj)
  next
    case False
    with that show ?thesis by (auto simp: kept_def fixed_parse tmp_names vlog_name_inj)
  qed
  have same: "same_file d d2 n" if "n \<in> {man_name, flushing_wal_name, vlog_name g} \<union> sst_path ` set ts" for n
  proof -
    have "n \<noteq> wal_name" using that st by (auto simp: store_on_def)
    from same_file_create [OF wf(1) this] keep [of n] that show ?thesis by (auto simp: same_file_def e)
  qed
  have wf2: "disk_wf d2" "synced_ok d2" "known_names d2"
    using wf1 by (auto simp: disk_wf_def synced_ok_def known_names_def e)
  have len: "file_len (vlog_name g) d2 < 2 ^ 64"
    using same_file_len [OF same [of "vlog_name g"]] st by (simp add: store_on_def)
  show "store_on d2 g q ts"
    "look (dvl d2 g) d2 (concat (map sst_records ts)) = look (dvl d g) d (concat (map sst_records ts))"
    by (rule store_on_frame [OF st _ len]; use wf2 same in \<open>simp add: dwf_def same_grown\<close>)+
  show wal: "d_ino d2 wal_name = Some (ino_of wal_name d)" using keep [of wal_name] by (simp add: e d_create_eqs)
  have fl: "same_file d d2 flushing_wal_name" using same by simp
  have "(\<exists>n. blobs d2 (ino_of wal_name d) = take n (wal_bytes w)) \<and> length (wal_bytes (take k w)) \<le> synced d2 (ino_of wal_name d)"
  proof (cases "d_ino d wal_name")
    case None
    then have "blobs d2 (ino_of wal_name d) = []" "take k w = []"
      using l by (simp_all add: e d_create_eqs logs_on_def)
    then show ?thesis by (metis le0 list.size(3) take0 wal_bytes_simps(1))
  next
    case (Some i)
    then show ?thesis using l by (auto simp: e ino_of_def logs_on_def d_create_def)
  qed
  then show "logs_on d2 fl w k"
    using l wal fl same_file_holds [OF fl] by (auto simp: logs_on_def same_file_def split: option.splits)
  show "d_ino d2 flushing_wal_name \<noteq> None \<longleftrightarrow> fl \<noteq> None"
    using l fl by (auto simp: logs_on_def same_file_def holds_def d_read_def split: option.splits)
qed


text \<open>The state that loading builds satisfies the invariant, and reads as the disk says.\<close>

lemma loaded_inv:
  assumes st: "store_on d g q ts" and wal: "d_ino d wal_name = Some j" and vino: "d_ino d (vlog_name g) = Some i"
    and mem: "mem_ok (db_mem s)"
    and s: "db_disk s = d" "db_vlogs s = [(g, \<lparr>vl_path = vlog_name g, vl_gen = g, vl_fd = i,
        vl_append_off = of_nat (length (blobs d i)), vl_obsolete = False\<rparr>)]" "db_gen s = g" "db_ssts s = reobj 0 ts"
      "db_next_obj s = length ts" "db_fmem s = memtable0" "wal_fd (db_wal s) = Some j" "db_dead_ssts s = []"
      "db_dead_vlogs s = []" "\<not> db_has_flushing s"
  shows "db_inv s"
    and "abs_db s = (\<lambda>k. ojoin (case mt_lookup (db_mem s) k of Some a \<Rightarrow> Some a
      | None \<Rightarrow> look (dvl d g) d (concat (map sst_records ts)) k))"
proof -
  have wf: "disk_wf d" "synced_ok d" and ts: "\<forall>t\<in>set ts. table_on d g t" and len: "length (blobs d i) < 2 ^ 64"
    using st vino by (auto simp: store_on_def file_len_def d_read_def)
  have inj: "n = vlog_name g" if "d_ino d n = Some i" for n using wf(1) that vino unfolding disk_wf_def by blast
  have vs: "vs_inv (db_vlogs s) (db_disk s)"
    using wf(1) vino len inj by (auto simp: vs_inv_def s vlog_inv_def unat_of_nat_u64 disk_wf_def)
  have "map_of (db_vlogs s) g = Some (snd (hd (db_vlogs s)))" "vl_fd (snd (hd (db_vlogs s))) = i" by (simp_all add: s)
  moreover have "synced d i \<le> length (blobs d i)" using wf(2) by (simp add: synced_ok_def)
  ultimately have val: "\<exists>x. rec_value_of no_faults (dvl d g) d r = Inr x \<and> rec_value_of no_faults (db_vlogs s) d r = Inr x"
    if "ptr_safe d g r" for r using ptr_safe_value [OF that wf(2) vino] by blast
  have rs: "map sst_records (db_ssts s) = map sst_records ts" by (simp add: s reobj_facts)
  have "sst_inv t \<and> \<not> sst_obsolete t \<and> sst_obj t < db_next_obj s \<and> sst_path t \<noteq> wal_name \<and>
      ptrs_ok (db_vlogs s) (db_disk s) (sst_records t)" if t: "t \<in> set (db_ssts s)" for t
  proof -
    obtain u n where u: "u \<in> set ts" "t = u\<lparr>sst_obj := n\<rparr>" using in_reobj [of t 0 ts] t unfolding s(4) by blast
    then have on: "table_on d g u" "\<exists>n. sst_path u = sst_name n" using st by (auto simp: store_on_def)
    have "sst_obj t \<in> set (map sst_obj (db_ssts s))" using t by simp
    then have "sst_obj t < db_next_obj s" unfolding s(4,5) reobj_facts by simp
    moreover have "\<not> sst_obsolete u" using on(1) sst_parse_obj(2) by (auto simp: table_on_def)
    ultimately show ?thesis using on u val by (auto simp: table_on_def ptrs_ok_def s(1))
  qed
  moreover have "distinct (map sst_obj (db_ssts s))" by (simp add: s reobj_facts)
  ultimately have "ssts_ok s" by (simp add: ssts_ok_def)
  moreover have "wal_inv s"
  proof -
    have "j \<noteq> i" using wal inj [of wal_name] by auto
    then show ?thesis using wal wf(1) by (auto simp: wal_inv_def s fds_def disk_wf_def)
  qed
  ultimately show "db_inv s" using vs mem by (simp add: db_inv_def s dead_ok_def)
  have "look (db_vlogs s) d (concat (map sst_records ts)) k = look (dvl d g) d (concat (map sst_records ts)) k" for k
  proof (rule look_cong)
    show "ptrs_ok (dvl d g) d (concat (map sst_records ts))" using ts val by (fastforce simp: ptrs_ok_def table_on_def)
    show "rec_value_of no_faults (db_vlogs s) d r = Inr x"
      if "r \<in> set (concat (map sst_records ts))" "rec_value_of no_faults (dvl d g) d r = Inr x" for r x
      using that ts val [of r] by (auto simp: table_on_def)
  qed
  then show "abs_db s = (\<lambda>k. ojoin (case mt_lookup (db_mem s) k of Some a \<Rightarrow> Some a
      | None \<Rightarrow> look (dvl d g) d (concat (map sst_records ts)) k))"
    using s(10) by (intro ext) (simp add: abs_db_alt rs s(1) split: option.split)
qed

text \<open>Opening the log, reading the manifest, loading and cleaning up.\<close>

lemma load_run:
  assumes st: "store_on d g q ts" and l: "logs_on d fl w k"
  obtains s man ns i where "sbind (open_wal no_faults False) (\<lambda>_. load_tables no_faults (Some man)) (db_init cf d) = (Inr (), s)"
    and "manifest_read no_faults (snd (d_create wal_name d)) = Inr (Some man)"
    and "db_disk s = pruned (map sst_path ts) g ns (snd (d_create wal_name d))"
    and "d_ino (snd (d_create wal_name d)) (vlog_name g) = Some i"
    and "db_vlogs s = [(g, \<lparr>vl_path = vlog_name g, vl_gen = g, vl_fd = i,
        vl_append_off = of_nat (length (blobs (db_disk s) i)), vl_obsolete = False\<rparr>)]"
    and "db_gen s = g" and "db_seq s = q" and "db_ssts s = reobj 0 ts" and "db_next_obj s = length ts" and "db_mem s = memtable0"
    and "db_fmem s = memtable0" and "wal_fd (db_wal s) = Some (ino_of wal_name d)" and "db_dead_ssts s = []"
    and "db_dead_vlogs s = []" and "\<not> db_has_flushing s" and "\<not> db_compacting s" and "\<not> db_stop s"
    and "\<forall>x l. db_level s x = Some l \<longrightarrow> - (2 ^ 31) \<le> l \<and> l < 2 ^ 31"
proof -
  let ?d1 = "snd (d_create wal_name d)" and ?w = "\<lparr>wal_path = wal_name, wal_fd = Some (ino_of wal_name d)\<rparr>"
  let ?s1 = "(db_init cf d)\<lparr>db_disk := ?d1, db_wal := ?w\<rparr>"
  have wf: "disk_wf d" using st by (simp add: store_on_def)
  obtain man where man: "holds d man_name (manifest_bytes man)" "manifest_ok man" "man_current_gen man = g" "man_next_seq man = q"
    "map me_name (man_tables man) = map sst_path ts" using st by (auto simp: store_on_def)
  have "store_on ?d1 g q ts" using prepared_disk(1) [OF st l, of _ "[]"] by (simp add: pruned_def)
  then have ts1: "\<forall>t\<in>set ts. table_on ?d1 g t" and kn: "known_names ?d1" and h1: "d_ino ?d1 (vlog_name g) \<noteq> None"
    by (simp_all add: store_on_def)
  have open1: "open_wal no_faults False (db_init cf d) = (Inr (), ?s1)" by (simp add: open_wal_keep_ok db_init_def)
  have "holds ?d1 man_name (manifest_bytes man)"
    by (rule same_file_holds [OF same_file_create [OF wf] man(1)]) simp
  then have rd: "manifest_read no_faults ?d1 = Inr (Some man)"
    using man(2) by (simp add: manifest_read_def holds_def no_faults_def manifest_parse_bytes)
  let ?s2 = "?s1\<lparr>db_seq := q, db_gen := g\<rparr>"
  obtain lv where lv: "sfold (load_entry no_faults) (man_tables man) () ?s2 = (Inr (), ?s2\<lparr>db_ssts := db_ssts ?s2 @ reobj (db_next_obj ?s2) ts,
      db_next_obj := db_next_obj ?s2 + length ts, db_level := lv\<rparr>)"
    and lvl: "\<forall>x l. lv x = Some l \<longrightarrow> db_level ?s2 x = Some l \<or> l \<in> me_level ` set (man_tables man)"
    using load_entries_ok [of ts ?s2 g "man_tables man"] ts1 man(5) by auto
  have lvl': "\<forall>x l. lv x = Some l \<longrightarrow> - (2 ^ 31) \<le> l \<and> l < 2 ^ 31"
    using lvl man(2) by (fastforce simp: db_init_def manifest_ok_def entry_ok_def list_all_iff)
  let ?s3 = "?s2\<lparr>db_ssts := reobj 0 ts, db_next_obj := length ts, db_level := lv\<rparr>"
  obtain i where i: "d_ino ?d1 (vlog_name g) = Some i" using h1 by auto
  let ?v = "\<lparr>vl_path = vlog_name g, vl_gen = g, vl_fd = i, vl_append_off = of_nat (length (blobs ?d1 i)), vl_obsolete = False\<rparr>"
  have ov: "open_vlog no_faults (vlog_name g) g ?s3 = (Inr (), ?s3\<lparr>db_vlogs := [(g, ?v)]\<rparr>)"
    using i by (simp add: open_vlog_def sbind_def on_disk_def vlog_open_def no_faults_def d_create_def vlogs_set_def db_init_def)
  let ?s4 = "?s3\<lparr>db_vlogs := [(g, ?v)]\<rparr>"
  have kn4: "known_names (db_disk ?s4)" using kn by simp
  obtain ns where cl: "cleanup_orphans no_faults (map sst_path ts) ?s4 = (Inr (), ?s4\<lparr>db_disk := pruned (map sst_path ts) (db_gen ?s4) ns (db_disk ?s4)\<rparr>)"
    by (rule cleanup_orphans_ok [OF kn4])
  let ?s5 = "?s4\<lparr>db_disk := pruned (map sst_path ts) g ns ?d1\<rparr>"
  have "load_tables no_faults (Some man) ?s1 = (Inr (), ?s5)"
    using lv ov cl man(3-5) by (simp add: load_tables_def load_committed_def sbind_def db_init_def)
  then have run: "sbind (open_wal no_faults False) (\<lambda>_. load_tables no_faults (Some man)) (db_init cf d) = (Inr (), ?s5)"
    using open1 by (simp add: sbind_Inr)
  show thesis by (rule that [OF run rd, of ns i]) (use i lvl' in \<open>simp_all add: db_init_def pruned_eqs\<close>)
qed


lemma load_ok:
  assumes st: "store_on d g q ts" and l: "logs_on d fl w k"
  obtains m s man where "db_load (db_init cf d) = (Inr (Some man, fl \<noteq> None), s)" and "k \<le> m \<or> length w \<le> m"
    and "db_inv s" and "abs_db s = recovered d g ts (fl_recs fl @ take m w)" and "\<not> db_has_flushing s"
    and "\<not> db_compacting s" and "\<not> db_stop s" and "db_mem s = fold apply_rec (fl_recs fl @ take m w) memtable0"
    and "db_gen s = g" and "db_seq s = q"
    and "store_on (db_disk s) g q ts" and "logs_on (db_disk s) fl w k" and "db_ssts s = reobj 0 ts"
    and "db_dead_ssts s = []" and "db_dead_vlogs s = []" and "\<forall>x l. db_level s x = Some l \<longrightarrow> - (2 ^ 31) \<le> l \<and> l < 2 ^ 31"
    and "\<exists>v. db_vlogs s = [(g, v)] \<and> d_ino (db_disk s) (vlog_name g) = Some (vl_fd v)"
    and "wal_replay no_faults wal_name (db_disk s) = Inr (take m w)" and "d_ino (db_disk s) wal_name = Some (ino_of wal_name d)"
    and "blobs (db_disk s) = blobs (snd (d_create wal_name d))" and "synced (db_disk s) = synced (snd (d_create wal_name d))"
    and "recovered (db_disk s) g ts = recovered d g ts"
proof -
  obtain s man ns i where r: "sbind (open_wal no_faults False) (\<lambda>_. load_tables no_faults (Some man)) (db_init cf d) = (Inr (), s)"
    "manifest_read no_faults (snd (d_create wal_name d)) = Inr (Some man)"
    "db_disk s = pruned (map sst_path ts) g ns (snd (d_create wal_name d))"
    "d_ino (snd (d_create wal_name d)) (vlog_name g) = Some i"
    "db_vlogs s = [(g, \<lparr>vl_path = vlog_name g, vl_gen = g, vl_fd = i,
        vl_append_off = of_nat (length (blobs (db_disk s) i)), vl_obsolete = False\<rparr>)]"
    "db_gen s = g" "db_seq s = q" "db_ssts s = reobj 0 ts" "db_next_obj s = length ts" "db_mem s = memtable0"
    "db_fmem s = memtable0" "wal_fd (db_wal s) = Some (ino_of wal_name d)" "db_dead_ssts s = []"
    "db_dead_vlogs s = []" "\<not> db_has_flushing s" "\<not> db_compacting s" "\<not> db_stop s"
    "\<forall>x l. db_level s x = Some l \<longrightarrow> - (2 ^ 31) \<le> l \<and> l < 2 ^ 31"
    by (rule load_run [OF st l, of cf])
  note p = prepared_disk [OF st l r(3)]
  have wf: "synced_ok (db_disk s)" and vino: "d_ino (db_disk s) (vlog_name g) \<noteq> None" using p(1) by (simp_all add: store_on_def)
  obtain m where m: "k \<le> m \<or> length w \<le> m" "wal_replay no_faults wal_name (db_disk s) = Inr (take m w)"
    "wal_replay no_faults flushing_wal_name (db_disk s) = Inr (case fl of None \<Rightarrow> [] | Some fr \<Rightarrow> fr)"
    by (rule logs_on_replay [OF p(2) wf])
  let ?rs = "fl_recs fl @ take m w"
  define s' where "s' = s\<lparr>db_mem := fold apply_rec ?rs memtable0\<rparr>"
  have fl: "(if d_ino (db_disk s) flushing_wal_name \<noteq> None then replay_into no_faults flushing_wal_name else sret ()) s
      = (Inr (), s\<lparr>db_mem := fold apply_rec (fl_recs fl) memtable0\<rparr>)"
    using p(5) replay_into_ok [OF m(3)] r(10) by (simp add: fl_recs_def split: option.splits)
  have wl: "replay_into no_faults wal_name (s\<lparr>db_mem := fold apply_rec (fl_recs fl) memtable0\<rparr>) = (Inr (), s')"
    using replay_into_ok [of wal_name "s\<lparr>db_mem := fold apply_rec (fl_recs fl) memtable0\<rparr>"] m(2) by (simp add: s'_def)
  obtain s1 where s1: "open_wal no_faults False (db_init cf d) = (Inr (), s1)" "load_tables no_faults (Some man) s1 = (Inr (), s)"
    using r(1) by (auto simp: sbind_eq_Inr)
  have "db_disk s1 = snd (d_create wal_name d)" using s1(1) by (auto simp: open_wal_keep_ok db_init_def)
  then have run: "db_load (db_init cf d) = (Inr (Some man, fl \<noteq> None), s')"
    using s1 r(2) fl wl p(5) by (simp add: db_load_def sbind_Inr sbind_def)
  have "list_all wal_ok ?rs"
    using l by (auto simp: logs_on_def fl_recs_def list_all_iff dest: in_set_takeD split: option.splits)
  then have mem: "mem_ok (db_mem s')" by (simp add: s'_def apply_recs_ok)
  have vi: "d_ino (db_disk s) (vlog_name g) = Some i"
    using vino r(3,4) pruned_eqs(1) [of "map sst_path ts" g ns _ "vlog_name g"] by (auto split: if_splits)
  note inv = loaded_inv [OF p(1,3) vi mem]
  have vl: "\<exists>v. db_vlogs s = [(g, v)] \<and> d_ino (db_disk s) (vlog_name g) = Some (vl_fd v)" using r(5) vi by auto
  have bl: "blobs (db_disk s) = blobs (snd (d_create wal_name d))" "synced (db_disk s) = synced (snd (d_create wal_name d))"
    by (simp_all add: r(3) pruned_eqs)
  have rc: "recovered (db_disk s) g ts = recovered d g ts" by (intro ext) (simp only: recovered_def p(4))
  have "mt_lookup (db_mem s') k = map_option rec_answer (find_rec k (rev ?rs))" for k
    using mt_lookup_applies [OF mt_inv_empty, of ?rs k] by (simp add: s'_def split: option.split)
  moreover have "abs_db s' = (\<lambda>k. ojoin (case mt_lookup (db_mem s') k of Some a \<Rightarrow> Some a
      | None \<Rightarrow> look (dvl (db_disk s) g) (db_disk s) (concat (map sst_records ts)) k))"
    by (rule inv(2)) (use r in \<open>simp_all add: s'_def del: fold_append\<close>)
  ultimately have "abs_db s' = recovered d g ts ?rs"
    unfolding recovered_def p(4) by (auto simp: fun_eq_iff simp del: rev_append split: option.split)
  moreover have "db_inv s'" by (rule inv(1)) (use r in \<open>simp_all add: s'_def\<close>)
  ultimately show thesis by (intro that [OF run m(1)]) (use r p(1-3) vl m(2) bl rc in \<open>simp_all add: s'_def\<close>)
qed

text \<open>Opening a store: what comes back.\<close>

lemma recovery_ok:
  assumes st: "store_on d g q ts" and l: "logs_on d fl w k" and fits: "recovery_fits lg cf d"
  obtains m s where "db_open no_faults lg cf d = (Inr (), s)" and "k \<le> m \<or> length w \<le> m" and "db_inv s"
    and "abs_db s = recovered d g ts (fl_recs fl @ take m w)" and "\<not> db_has_flushing s" and "\<not> db_compacting s"
proof -
  obtain m s man where s: "db_load (db_init cf d) = (Inr (Some man, fl \<noteq> None), s)" "k \<le> m \<or> length w \<le> m"
    "db_inv s" "abs_db s = recovered d g ts (fl_recs fl @ take m w)" "\<not> db_has_flushing s" "\<not> db_compacting s" "\<not> db_stop s"
    by (rule load_ok [OF st l, of cf])
  show thesis
  proof (cases fl)
    case None
    then have "db_open no_faults lg cf d = (Inr (), s)" using s(1) by (simp add: db_open_def db_ctor_load sbind_Inr)
    then show thesis using that s by blast
  next
    case (Some fr)
    obtain s1 where s1: "flush_locked no_faults lg s = (Inr (), s1)" "db_inv s1" "abs_db s1 = abs_db s" "\<not> db_has_flushing s1"
      "db_compacting s1 = db_compacting s"
      by (rule flush_locked_abs [OF s(3,5), of lg]) (use fits s(1) Some in \<open>auto simp: recovery_fits_def\<close>)
    let ?s2 = "s1\<lparr>db_disk := d_unlink flushing_wal_name (db_disk s1)\<rparr>"
    have vs: "vs_inv (db_vlogs s1) (db_disk s1)" using s1(2) by (simp add: db_inv_def)
    have s2: "db_inv ?s2 \<and> abs_db ?s2 = abs_db s1 \<and> keeps s1 ?s2"
      by (rule same_data [OF s1(2) calm_unlink [OF vs]]) (use dead_okI [OF s1(2)] in \<open>simp_all add: dead_ok_def d_unlink_eqs\<close>)
    have "db_open no_faults lg cf d = (Inr (), ?s2)"
      using s(1) s1(1) Some
      by (simp add: db_open_def db_ctor_load sbind_def on_disk_def fsync_dir_ok fs_remove_def no_faults_def [of "''fs::remove''"])
    then show thesis using that [of ?s2 m] s s1 s2 by simp
  qed
qed

end
