(* ===== verification/Durable_Ops.thy ===== *)
theory Durable_Ops
  imports Recovery
begin

text \<open>
  What the pieces of the engine do to the files: which names they touch under any faults,
  and, for the pieces that return, which durable contents they leave behind.
\<close>

subsection \<open>Quiet operations of the engine\<close>

definition dquiet :: "bytes set \<Rightarrow> db \<Rightarrow> db \<Rightarrow> bool" where
  "dquiet N s s' \<longleftrightarrow> quiet N (db_disk s) (db_disk s')"

interpretation dq: frame_rel "dquiet N" for N
  by unfold_locales (auto simp: dquiet_def qt.frame_refl intro: qt.frame_trans)

lemma dquiet_on_disk: "framed (quiet N) m \<Longrightarrow> framed (dquiet N) (on_disk m)"
  by (auto simp: framed_def dquiet_def on_disk_def split: prod.split) (metis snd_conv)

lemma dquiet_upd: "(\<And>s. db_disk (f s) = db_disk s) \<Longrightarrow> framed (dquiet N) (supd f)"
  by (simp add: framed_def dquiet_def qt.frame_refl)

lemma dquiet_pieces:
  "framed (dquiet N) (add_stats f)" "framed (dquiet N) take_seq" "framed (dquiet N) (make_sst io path)"
  by (auto simp: framed_def dquiet_def add_stats_def take_seq_def make_sst_def qt.frame_refl split: sum.split)

lemma dquiet_build:
  "{sst_name seq, sst_name seq @ tmp_suffix} \<subseteq> N \<Longrightarrow> framed (dquiet N) (build_rename io lg ctx seq recs)"
  unfolding build_rename_def Let_def
  by (intro dq.framed_rules dquiet_on_disk quiet_sst_build quiet_rename) auto

lemma dquiet_manifest: "{man_name, man_tmp_name} \<subseteq> N \<Longrightarrow> framed (dquiet N) (write_manifest_locked io)"
  unfolding write_manifest_locked_def by (intro dq.framed_rules dquiet_on_disk quiet_manifest_write)

lemma dquiet_open_wal: "wal_name \<in> N \<Longrightarrow> framed (dquiet N) (open_wal io tr)"
  unfolding open_wal_def by (intro dq.framed_rules dquiet_on_disk quiet_wal_open dquiet_upd) auto

lemmas dquiet_rules = dq.framed_rules dquiet_on_disk dquiet_upd dquiet_pieces dquiet_build dquiet_manifest
  dquiet_open_wal quiet_fsync_dir

lemma dquiet_run: "framed (dquiet N) m \<Longrightarrow> m s = (r, s') \<Longrightarrow> quiet N (db_disk s) (db_disk s')"
  using framed_run by (fastforce simp: dquiet_def)

subsection \<open>Files that a successful piece leaves\<close>

lemma holds_store_moved:
  "holds (d_moved tmp fin (d_store tmp b d)) fin b"
proof -
  have i: "d_ino (d_store tmp b d) tmp = Some (ino_of tmp d)" by (simp add: d_store_eqs)
  show ?thesis
    by (simp add: holds_def d_read_def durable_def d_moved_eqs [OF i] d_store_eqs)
qed

lemma build_rename_holds:
  assumes "build_rename no_faults lg ctx seq rs s = (Inr b, s')"
  obtains f where "build_file lg rs = Inr f" and "holds (db_disk s') (sst_name seq) f" and "s' = s\<lparr>db_disk := db_disk s'\<rparr>"
    and "b = of_nat (length f)"
proof -
  let ?tmp = "sst_name seq @ tmp_suffix"
  obtain f where f: "build_file lg rs = Inr f"
    using assms by (cases "build_file lg rs") (auto simp: build_rename_def sbind_def on_disk_def sst_build_def Let_def)
  have i: "d_ino (d_store ?tmp f (db_disk s)) ?tmp = Some (ino_of ?tmp (db_disk s))" by (simp add: d_store_eqs)
  have "s' = s\<lparr>db_disk := d_moved ?tmp (sst_name seq) (d_store ?tmp f (db_disk s))\<rparr>" "b = of_nat (length f)"
    using assms by (simp_all add: build_rename_def Let_def sbind_def on_disk_def sst_build_ok [OF f] d_rename_ok [OF i])
  then show thesis using that [OF f] holds_store_moved [of ?tmp "sst_name seq" f "db_disk s"] by simp
qed

lemma write_manifest_holds:
  obtains d' where "write_manifest_locked no_faults s = (Inr (), s\<lparr>db_disk := d'\<rparr>)"
    and "holds d' man_name (manifest_bytes (db_manifest s))"
proof -
  let ?b = "manifest_bytes (db_manifest s)"
  have i: "d_ino (d_store man_tmp_name ?b (db_disk s)) man_tmp_name = Some (ino_of man_tmp_name (db_disk s))"
    by (simp add: d_store_eqs)
  have "write_manifest_locked no_faults s = (Inr (), s\<lparr>db_disk := d_moved man_tmp_name man_name (d_store man_tmp_name ?b (db_disk s))\<rparr>)"
    by (simp add: write_manifest_locked_def manifest_write_def sbind_def on_disk_def write_file_sync_ok d_rename_ok [OF i] fsync_dir_ok)
  then show thesis using that holds_store_moved by blast
qed

lemma sst_parse_ids: "sst_parse io n path b = Inr t \<Longrightarrow> sst_obj t = n"
  by (auto simp: sst_parse_def Let_def rbind_eq_Inr split: if_splits prod.splits)

lemma make_sst_table:
  assumes run: "make_sst no_faults path s = (Inr t, s')" and h: "holds (db_disk s) path b"
    and inv: "sst_inv t" and safe: "\<forall>r\<in>set (sst_records t). ptr_safe (db_disk s) g r"
  shows "table_on (db_disk s') g t" and "sst_path t = path" and "s' = s\<lparr>db_next_obj := Suc (db_next_obj s)\<rparr>"
proof -
  have p: "sst_parse no_faults (db_next_obj s) path b = Inr t" and s': "s' = s\<lparr>db_next_obj := Suc (db_next_obj s)\<rparr>"
    using run h by (auto simp: make_sst_def sst_open_def no_faults_def holds_def split: sum.splits)
  note o = sst_parse_obj [OF p] sst_parse_ids [OF p]
  show "sst_path t = path" "s' = s\<lparr>db_next_obj := Suc (db_next_obj s)\<rparr>" using o s' by simp_all
  show "table_on (db_disk s') g t" using p o inv safe h s' by (simp add: table_on_def)
qed

text \<open>A table written from records that build is opened as a durable table.\<close>

lemma built_table:
  assumes b: "buildable lg rs" "build_file lg rs = Inr f" and h: "holds d path f" and safe: "\<And>r. r \<in> set rs \<Longrightarrow> ptr_safe d g r"
    and run: "db_disk s = d \<and> make_sst no_faults path s = (Inr t, s')"
  shows "table_on d g t \<and> sst_path t = path \<and> s' = s\<lparr>db_next_obj := Suc (db_next_obj s)\<rparr>"
proof -
  have rd: "d_read (db_disk s) path = Some f" using h run by (simp add: holds_def)
  obtain t' where t': "make_sst no_faults path s = (Inr t', s\<lparr>db_next_obj := Suc (db_next_obj s)\<rparr>)" "sst_inv t'" "sst_records t' = rs"
    by (rule make_sst_ok [OF b rd])
  have t: "sst_inv t" "sst_records t = rs" using t' run by simp_all
  have h': "holds (db_disk s) path f" using h run by simp
  have "\<forall>r\<in>set (sst_records t). ptr_safe (db_disk s) g r" using safe t(2) run by simp
  note m = make_sst_table [OF conjunct2 [OF run] h' t(1) this]
  show ?thesis using m run by auto
qed

subsection \<open>Separated values\<close>

lemma separate_written:
  assumes "sfold (separate_step io sep g) rs (out, w) s = (Inr (rs', w'), s')"
  shows "w' = w + of_nat (sum_list (map (sep_cost sep) rs)) \<and> (sum_list (map (sep_cost sep) rs) = 0 \<longrightarrow> rs' = out @ rs)"
  using assms
proof (induction rs arbitrary: out w s)
  case (Cons r rs)
  obtain x s1 where st: "separate_step io sep g r (out, w) s = (Inr x, s1)"
    and rest: "sfold (separate_step io sep g) rs x s1 = (Inr (rs', w'), s')"
    using Cons.prems by (auto simp: sbind_eq_Inr)
  show ?case
  proof (cases "rec_op r = Put \<and> length (rec_value r) \<ge> sep")
    case True
    then have c: "sep_cost sep r = 8 + length (rec_key r) + length (rec_value r)" by (simp add: sep_cost_def)
    obtain p where x: "x = (out @ [r\<lparr>rec_separated := True, rec_vptr := p, rec_value := []\<rparr>],
         w + (4 + of_nat (length (rec_key r)) + 4 + of_nat (length (rec_value r))))"
      using st True by (auto simp: separate_step_def sbind_eq_Inr)
    from Cons.IH [OF rest [unfolded x]] c show ?thesis by simp
  next
    case False
    then have c: "sep_cost sep r = 0" by (auto simp: sep_cost_def)
    have x: "x = (out @ [r], w)" using st False by (auto simp: separate_step_def)
    from Cons.IH [OF rest [unfolded x]] c show ?thesis by simp
  qed
qed simp

lemma list_all2_set2: "list_all2 P xs ys \<Longrightarrow> y \<in> set ys \<Longrightarrow> \<exists>x. P x y"
  by (induction rule: list_all2_induct) auto

lemma single_vlog:
  assumes "vgrow [(g, v)] d vl' d'"
  obtains v' where "vl' = [(g, v')]" and "vl_fd v' = vl_fd v"
proof -
  have s: "fst ` set vl' = {g}" "distinct (map fst vl')" "fds vl' = {vl_fd v}"
    using assms by (simp_all add: vgrow_def vs_inv_def fds_def)
  then have "card (set (map fst vl')) = 1" by simp
  then have "length vl' = 1" using distinct_card [OF s(2)] by simp
  then obtain a b where "vl' = [(a, b)]" by (cases vl') auto
  with s that show thesis by (simp add: fds_def)
qed

lemma deref_safe:
  assumes "rec_value_of no_faults [(g, v)] d r = Inr x" and "d_ino d (vlog_name g) = Some (vl_fd v)"
    and "rec_separated r \<Longrightarrow> synced d (vl_fd v) = length (blobs d (vl_fd v))"
  shows "ptr_safe d g r"
proof (cases "rec_separated r")
  case True
  have "vlog_read no_faults (rec_vptr r) v d = Inr x" "vp_gen (rec_vptr r) = g"
    using assms(1) True by (auto simp: rec_value_of_def vlog_deref_def split: if_splits)
  then show ?thesis
    using assms(2) assms(3) [OF True] by (auto simp: ptr_safe_def vlog_read_def pread_exact_def no_faults_def unat_eq_zero split: if_splits)
qed (simp add: ptr_safe_def)

lemma separate_safe:
  assumes vs: "vs_inv (db_vlogs s) (db_disk s)" and vl: "db_vlogs s = [(g, v)]"
    and ino: "d_ino (db_disk s) (vlog_name g) = Some (vl_fd v)" and room: "vlog_room (db_vlogs s) (db_disk s) g (sum_list (map (sep_cost sep) rs))"
    and rs: "list_all sst_rec_ok rs" "\<forall>r\<in>set rs. \<not> rec_separated r"
    and run: "separate no_faults sep g rs s = (Inr (rs', w'), s')" and ok: "synced_ok (db_disk s)"
  obtains v' where "s' = s\<lparr>db_disk := db_disk s', db_vlogs := [(g, v')]\<rparr>" and "vl_fd v' = vl_fd v"
    and "\<forall>r\<in>set rs'. ptr_safe (db_disk s') g r" and "grown (db_disk s) (db_disk s') (vlog_name g)"
    and "quiet {vlog_name g} (db_disk s) (db_disk s')" and "dents (db_disk s') = dents (db_disk s)"
proof -
  let ?d = "db_disk s"
  obtain rs1 w1 vl1 d1 where a: "sfold (separate_step no_faults sep g) rs ([], 0) s
      = (Inr (rs1, w1), s\<lparr>db_disk := d1, db_vlogs := vl1\<rparr>)"
    "vgrow (db_vlogs s) ?d vl1 d1" "list_all2 (sep_rel vl1 d1) rs rs1"
    using separate_loop_ok [OF vs room rs, of "[]" "[]" 0] by auto
  obtain v' where v': "vl1 = [(g, v')]" "vl_fd v' = vl_fd v" by (rule single_vlog [OF a(2) [unfolded vl]])
  let ?d2 = "if w1 \<noteq> 0 then d_fsync (vl_fd v) d1 else d1"
  have eq: "rs' = rs1" "w' = w1" "s' = s\<lparr>db_disk := ?d2, db_vlogs := [(g, v')]\<rparr>"
    using run a(1) v' by (auto simp: separate_def sbind_def db_vlog_sync_def vlog_sync_def on_disk_def no_faults_def split: if_splits)
  have g1: "dents d1 = dents ?d" "next_ino d1 = next_ino ?d" "synced d1 = synced ?d" "\<And>i. \<exists>x. blobs d1 i = blobs ?d i @ x"
    "\<And>i. i \<noteq> vl_fd v \<Longrightarrow> blobs d1 i = blobs ?d i"
    using a(2) by (simp_all add: vgrow_def vl fds_def)
  have ino2: "d_ino ?d2 n = d_ino ?d n" for n using g1(1) by (simp add: d_ino_def d_fsync_def)
  have len: "length (blobs ?d i) \<le> length (blobs d1 i)" for i using g1(4) [of i] by auto
  have sy: "synced ?d2 (vl_fd v) \<le> length (blobs ?d2 (vl_fd v))"
    using ok g1(3) len [of "vl_fd v"] unfolding synced_ok_def by (auto simp: d_fsync_def intro: order_trans)
  have q: "quiet {vlog_name g} ?d ?d2"
    by (rule quiet_inode [OF ino]) (use g1 sy in \<open>auto simp: d_fsync_def\<close>)
  have safe: "ptr_safe ?d2 g r" if r: "r \<in> set rs1" for r
  proof -
    obtain r0 where r0: "sep_rel vl1 d1 r0 r" using list_all2_set2 [OF a(3) r] by blast
    have "synced ?d2 (vl_fd v') = length (blobs ?d2 (vl_fd v'))" if "rec_separated r"
    proof -
      have ne: "rs1 \<noteq> rs" using that r rs(2) by auto
      have "sum_list (map (sep_cost sep) rs) < 2 ^ 64" using room by (auto simp: vlog_room_def split: option.splits)
      then have "w1 \<noteq> 0"
        using separate_written [OF a(1)] ne unat_of_nat_u64 [of "sum_list (map (sep_cost sep) rs)"] by auto
      then show ?thesis by (simp add: d_fsync_def v')
    qed
    moreover have "rec_value_of no_faults [(g, v')] ?d2 r = Inr (rec_value r0)"
      using r0 by (simp add: sep_rel_def v' rec_value_of_def vlog_deref_def vlog_read_def d_fsync_def split: if_splits)
    moreover have "d_ino ?d2 (vlog_name g) = Some (vl_fd v')" using ino2 ino v' by simp
    ultimately show ?thesis using deref_safe by blast
  qed
  have "grown ?d ?d2 (vlog_name g)"
    using ino ino2 g1(3) g1(4) [of "vl_fd v"] len [of "vl_fd v"] ok
    by (auto simp: grown_def d_fsync_def synced_ok_def intro: order_trans)
  then show thesis
    by (intro that [of v']) (use eq v'(2) safe q g1(1) in \<open>simp_all add: d_fsync_def\<close>)
qed

end
