(* ===== verification/Durable_State.thy ===== *)
theory Durable_State
  imports Durable_Ops
begin

text \<open>
  The link between a running store and its directory. \<open>dur s fl w k\<close>: the manifest on disk
  names the tables of \<open>s\<close>, the sealed log holds \<open>fl\<close> and the active log \<open>w\<close>, of which the
  first \<open>k\<close> records are durable, and the memtables are those records applied in order.
  Whatever a crash keeps of such a directory, opening it gives the tables overlaid by a
  prefix of the logged records that contains the durable ones.
\<close>

definition rec_step :: "kv_record \<Rightarrow> (bytes \<rightharpoonup> bytes) \<Rightarrow> (bytes \<rightharpoonup> bytes)" where
  "rec_step r m = m(rec_key r := rec_answer r)"

lemma fold_rec_step:
  "fold rec_step rs m k = (case find_rec k (rev rs) of Some r \<Rightarrow> rec_answer r | None \<Rightarrow> m k)"
  by (induction rs arbitrary: m) (auto simp: rec_step_def find_rec_append split: option.splits)

definition vlog_on :: "db \<Rightarrow> bool" where
  "vlog_on s \<longleftrightarrow> (\<exists>v. db_vlogs s = [(db_gen s, v)] \<and> d_ino (db_disk s) (vlog_name (db_gen s)) = Some (vl_fd v))"

definition levels_ok :: "db \<Rightarrow> bool" where
  "levels_ok s \<longleftrightarrow> (\<forall>x l. db_level s x = Some l \<longrightarrow> - (2 ^ 31) \<le> l \<and> l < 2 ^ 31)"

definition dur :: "db \<Rightarrow> kv_record list option \<Rightarrow> kv_record list \<Rightarrow> nat \<Rightarrow> bool" where
  "dur s fl w k \<longleftrightarrow> vlog_on s \<and> levels_ok s \<and>
     (\<exists>q \<le> db_seq s. store_on (db_disk s) (db_gen s) q (db_ssts s)) \<and>
     logs_on (db_disk s) fl w k \<and> k \<le> length w \<and> d_read (db_disk s) wal_name = Some (wal_bytes w) \<and>
     db_has_flushing s = (fl \<noteq> None) \<and> db_mem s = fold apply_rec w memtable0 \<and>
     (\<forall>fr. fl = Some fr \<longrightarrow> db_fmem s = fold apply_rec fr memtable0)"

text \<open>The part of the link that does not speak about the logs.\<close>

definition backed :: "db \<Rightarrow> bool" where
  "backed s \<longleftrightarrow> vlog_on s \<and> levels_ok s \<and> (\<exists>q \<le> db_seq s. store_on (db_disk s) (db_gen s) q (db_ssts s))"

lemma dur_backed: "dur s fl w k \<Longrightarrow> backed s"
  by (auto simp: dur_def backed_def)

lemma store_on_dwf: "store_on d g q ts \<Longrightarrow> dwf d"
  by (simp add: store_on_def dwf_def)

lemma backed_dwf: "backed s \<Longrightarrow> dwf (db_disk s)"
  by (auto simp: backed_def intro: store_on_dwf)

lemma dur_dwf: "dur s fl w k \<Longrightarrow> dwf (db_disk s)"
  by (auto simp: dur_def intro: store_on_dwf)

lemma tables_map_on:
  assumes st: "store_on (db_disk s) (db_gen s) q (db_ssts s)" and v: "vlog_on s"
  shows "tables_map s k = ojoin (look (dvl (db_disk s) (db_gen s)) (db_disk s) (concat (map sst_records (db_ssts s))) k)"
proof -
  obtain v where v: "db_vlogs s = [(db_gen s, v)]" "d_ino (db_disk s) (vlog_name (db_gen s)) = Some (vl_fd v)"
    using assms(2) by (auto simp: vlog_on_def)
  have ts: "\<forall>t\<in>set (db_ssts s). table_on (db_disk s) (db_gen s) t" and ok: "synced_ok (db_disk s)"
    using st by (simp_all add: store_on_def)
  have "synced (db_disk s) (vl_fd v) \<le> length (blobs (db_disk s) (vl_fd v))" using ok by (simp add: synced_ok_def)
  moreover have "map_of (db_vlogs s) (db_gen s) = Some v" using v(1) by simp
  ultimately show ?thesis using tables_look [OF ts ok v(2), of "db_disk s" "vl_fd v" "db_vlogs s" v] by (simp add: tables_map_def)
qed

lemma dur_abs:
  assumes "dur s fl w k"
  shows "abs_db s = fold rec_step (fl_recs fl @ w) (tables_map s)"
proof
  fix x
  have mem: "mt_lookup (fold apply_rec rs memtable0) x = map_option rec_answer (find_rec x (rev rs))" for rs
    using mt_lookup_applies [OF mt_inv_empty, of rs x] by (simp split: option.split)
  show "abs_db s x = fold rec_step (fl_recs fl @ w) (tables_map s) x"
    unfolding fold_rec_step abs_db_alt using assms
    by (cases fl) (auto simp: dur_def mem fl_recs_def find_rec_append tables_map_def split: option.split)
qed

text \<open>What a crash leaves is enough.\<close>

lemma dur_crash:
  assumes d: "dur s fl w k" and c: "crash_cut (db_disk s) d'" and fits: "recovery_fits lg cf d'"
  obtains m s' where "db_open no_faults lg cf d' = (Inr (), s')" and "db_inv s'" and "length (fl_recs fl) + k \<le> m"
    and "abs_db s' = fold rec_step (take m (fl_recs fl @ w)) (tables_map s)"
proof -
  let ?g = "db_gen s" and ?ts = "db_ssts s"
  obtain q where st: "store_on (db_disk s) ?g q ?ts" and l: "logs_on (db_disk s) fl w k" and k: "k \<le> length w" and v: "vlog_on s"
    using d by (auto simp: dur_def)
  have ok: "synced_ok (db_disk s)" using st by (simp add: store_on_def)
  note st' = crash_store_on [OF c st]
  obtain m s' where s': "db_open no_faults lg cf d' = (Inr (), s')" "k \<le> m \<or> length w \<le> m" "db_inv s'"
    "abs_db s' = recovered d' ?g ?ts (fl_recs fl @ take m w)"
    by (rule recovery_ok [OF st'(1) crash_logs_on [OF c ok l] fits])
  have "abs_db s' = fold rec_step (fl_recs fl @ take m w) (tables_map s)"
    unfolding s'(4) fun_eq_iff fold_rec_step recovered_def st'(2)
    by (simp add: tables_map_on [OF st v] del: rev_append split: option.split)
  moreover have "k \<le> m" using s'(2) k by auto
  ultimately show thesis by (intro that [OF s'(1,3), of "length (fl_recs fl) + m"]) simp_all
qed

text \<open>Changes to other files keep the link.\<close>

lemma vlog_len:
  assumes "db_inv s" and "vlog_on s"
  shows "file_len (vlog_name (db_gen s)) (db_disk s) < 2 ^ 64"
proof -
  obtain v where v: "db_vlogs s = [(db_gen s, v)]" "d_ino (db_disk s) (vlog_name (db_gen s)) = Some (vl_fd v)"
    using assms(2) by (auto simp: vlog_on_def)
  then have "vlog_inv v (db_disk s)" using assms(1) by (simp add: db_inv_def vs_inv_def)
  then show ?thesis using v(2) unsigned_less [of "vl_append_off v", where 'a = nat] by (simp add: vlog_inv_def file_len_def d_read_def)
qed

lemma logs_on_frame:
  assumes "logs_on d fl w k" and "same_file d d' wal_name" and "same_file d d' flushing_wal_name"
  shows "logs_on d' fl w k"
  using assms same_file_holds [OF assms(3)] by (auto simp: logs_on_def same_file_def split: option.splits)

lemma same_file_read: "same_file d d' n \<Longrightarrow> d_read d' n = d_read d n"
  by (cases "d_ino d n") (auto simp: same_file_def d_read_def)

definition guarded :: "db \<Rightarrow> bytes set" where
  "guarded s = {man_name, wal_name, flushing_wal_name} \<union> sst_path ` set (db_ssts s)"

lemma backed_frame:
  assumes b: "backed s" and q: "quiet N (db_disk s) (db_disk s')" and N: "N \<inter> ({man_name} \<union> sst_path ` set (db_ssts s)) = {}"
    and v: "vlog_on s'" "grown (db_disk s) (db_disk s') (vlog_name (db_gen s))" and inv: "db_inv s'"
    and same: "db_gen s' = db_gen s" "db_ssts s' = db_ssts s" "levels_ok s'" and seq: "db_seq s \<le> db_seq s'"
  shows "backed s'" and "tables_map s' = tables_map s"
proof -
  let ?g = "db_gen s" and ?d = "db_disk s" and ?d' = "db_disk s'"
  obtain p where p: "p \<le> db_seq s" "store_on ?d ?g p (db_ssts s)" and vs: "vlog_on s" using b by (auto simp: backed_def)
  note q' = quietD [OF q backed_dwf [OF b]]
  have same_n: "same_file ?d ?d' n" if "n \<in> {man_name} \<union> sst_path ` set (db_ssts s)" for n using q'(2) [of n] that N by blast
  have len: "file_len (vlog_name ?g) ?d' < 2 ^ 64" using vlog_len [OF inv v(1)] same(1) by simp
  have st: "store_on ?d' ?g p (db_ssts s)"
    "look (dvl ?d' ?g) ?d' (concat (map sst_records (db_ssts s))) = look (dvl ?d ?g) ?d (concat (map sst_records (db_ssts s)))"
    by (rule store_on_frame [OF p(2) q'(1) len]; use same_n v(2) in simp)+
  then show "backed s'" using order_trans [OF p(1) seq] same v(1) by (auto simp: backed_def)
  have "store_on ?d' (db_gen s') p (db_ssts s')" using st(1) same by simp
  from tables_map_on [OF this v(1)] tables_map_on [OF p(2) vs] st(2) same
  show "tables_map s' = tables_map s" by (simp add: fun_eq_iff)
qed

lemma dur_frame:
  assumes d: "dur s fl w k" and q: "quiet N (db_disk s) (db_disk s')" and N: "N \<inter> guarded s = {}"
    and v: "vlog_on s'" "grown (db_disk s) (db_disk s') (vlog_name (db_gen s))" and inv: "db_inv s'"
    and same: "db_gen s' = db_gen s" "db_ssts s' = db_ssts s" "db_mem s' = db_mem s" "db_has_flushing s' = db_has_flushing s"
      "db_has_flushing s \<Longrightarrow> db_fmem s' = db_fmem s" "levels_ok s'" and seq: "db_seq s \<le> db_seq s'"
  shows "dur s' fl w k" and "tables_map s' = tables_map s"
proof -
  have N': "N \<inter> ({man_name} \<union> sst_path ` set (db_ssts s)) = {}" using N by (auto simp: guarded_def)
  note b = backed_frame [OF dur_backed [OF d] q N' v inv same(1,2,6) seq]
  show "tables_map s' = tables_map s" by (rule b(2))
  have same_n: "same_file (db_disk s) (db_disk s') n" if "n \<in> {wal_name, flushing_wal_name}" for n
    by (rule quietD(2) [OF q dur_dwf [OF d]]) (use N that in \<open>auto simp: guarded_def\<close>)
  have f: "logs_on (db_disk s) fl w k" "k \<le> length w" "d_read (db_disk s) wal_name = Some (wal_bytes w)" "db_has_flushing s = (fl \<noteq> None)"
    "db_mem s = fold apply_rec w memtable0" "\<forall>fr. fl = Some fr \<longrightarrow> db_fmem s = fold apply_rec fr memtable0"
    using d by (simp_all add: dur_def)
  have "logs_on (db_disk s') fl w k" by (rule logs_on_frame [OF f(1)]) (simp_all add: same_n)
  moreover have "\<forall>fr. fl = Some fr \<longrightarrow> db_fmem s' = fold apply_rec fr memtable0" using f(4,6) same(5) by simp
  moreover have "d_read (db_disk s') wal_name = d_read (db_disk s) wal_name" by (rule same_file_read [OF same_n]) simp
  ultimately show "dur s' fl w k" using b(1) f(2-5) same(3,4) by (simp add: dur_def backed_def)
qed

end
