(* ===== verification/Durable_Steps.thy ===== *)
theory Durable_Steps
  imports Durable_State
begin

text \<open>
  How the pieces of the engine move the link between a store and its directory forward:
  a write extends the active log, a sync makes all of it durable, sealing turns it into the
  sealed log, and a flush turns logged records into a table that the manifest names.
\<close>

subsection \<open>Writes\<close>

lemma dur_wal:
  assumes "dur s fl w k" and "db_inv s"
  obtains i where "wal_fd (db_wal s) = Some i" and "d_ino (db_disk s) wal_name = Some i" and "blobs (db_disk s) i = wal_bytes w"
    and "length (wal_bytes (take k w)) \<le> synced (db_disk s) i" and "i \<notin> fds (db_vlogs s)"
  using assms that by (auto simp: dur_def db_inv_def wal_inv_def logs_on_def d_read_def split: option.splits)

lemma quiet_other_vlog:
  assumes "quiet N d d'" and "dwf d" and "vlog_name g \<notin> N"
  shows "grown d d' (vlog_name g)"
  by (rule same_grown [OF quietD(2) [OF assms]])

lemma vlog_on_frame:
  assumes "vlog_on s" and "db_vlogs s' = db_vlogs s" "db_gen s' = db_gen s"
    and "d_ino (db_disk s') (vlog_name (db_gen s)) = d_ino (db_disk s) (vlog_name (db_gen s))"
  shows "vlog_on s'"
  using assms by (auto simp: vlog_on_def)

text \<open>Records that the log changes: everything else of the link stays.\<close>

lemma dur_relog:
  assumes d: "dur s fl w k" and q: "quiet N (db_disk s) (db_disk s')" and N: "N \<subseteq> {wal_name, flushing_wal_name}" and inv: "db_inv s'"
    and same: "db_gen s' = db_gen s" "db_ssts s' = db_ssts s" "db_vlogs s' = db_vlogs s" "db_level s' = db_level s"
    and seq: "db_seq s \<le> db_seq s'"
    and log: "logs_on (db_disk s') fl' w' k'" "k' \<le> length w'" "d_read (db_disk s') wal_name = Some (wal_bytes w')"
      "db_has_flushing s' = (fl' \<noteq> None)" "db_mem s' = fold apply_rec w' memtable0"
      "\<forall>fr. fl' = Some fr \<longrightarrow> db_fmem s' = fold apply_rec fr memtable0"
  shows "dur s' fl' w' k' \<and> tables_map s' = tables_map s"
proof

  let ?g = "db_gen s" and ?d = "db_disk s" and ?d' = "db_disk s'"
  obtain p where p: "p \<le> db_seq s" "store_on ?d ?g p (db_ssts s)" and v: "vlog_on s" "levels_ok s" using d by (auto simp: dur_def)
  note q' = quietD [OF q dur_dwf [OF d]]
  have other: "same_file ?d ?d' n" if "n \<noteq> wal_name" "n \<noteq> flushing_wal_name" for n using q'(2) [of n] that N by blast
  have tabs: "same_file ?d ?d' (sst_path t)" if t: "t \<in> set (db_ssts s)" for t
  proof -
    obtain n where "sst_path t = sst_name n" using p(2) t unfolding store_on_def by blast
    then show ?thesis by (simp add: other)
  qed
  have vg: "same_file ?d ?d' (vlog_name ?g)" by (rule other) simp_all
  then have v': "vlog_on s'" using vlog_on_frame [OF v(1) same(3,1)] by (simp add: same_file_def)
  have len: "file_len (vlog_name ?g) ?d' < 2 ^ 64" using vlog_len [OF inv v'] same(1) by simp
  have st: "store_on ?d' ?g p (db_ssts s)"
    "look (dvl ?d' ?g) ?d' (concat (map sst_records (db_ssts s))) = look (dvl ?d ?g) ?d (concat (map sst_records (db_ssts s)))"
    by (rule store_on_frame [OF p(2) q'(1) len]; use other tabs same_grown [OF vg] in simp)+
  have "\<exists>q\<le>db_seq s'. store_on ?d' (db_gen s') q (db_ssts s')" using st(1) order_trans [OF p(1) seq] same(1,2) by auto
  moreover have "levels_ok s'" using v(2) same(4) by (simp add: levels_ok_def)
  ultimately show "dur s' fl' w' k'" using v' log unfolding dur_def by metis
  have "store_on ?d' (db_gen s') p (db_ssts s')" using st(1) same by simp
  from tables_map_on [OF this v'] tables_map_on [OF p(2) v(1)] st(2) same
  show "tables_map s' = tables_map s" by (simp add: fun_eq_iff)
qed

lemma dur_append:
  assumes d: "dur s fl w k" and inv: "db_inv s" "db_inv s'" and r: "wal_ok r"
    and run: "wal_append no_faults r sync (db_wal s) (db_disk s) = (Inr (), d')"
    and s': "s' = s\<lparr>db_disk := d', db_mem := apply_rec r (db_mem s), db_stat := st\<rparr>"
  shows "dur s' fl (w @ [r]) (if sync then Suc (length w) else k)" and "tables_map s' = tables_map s"
proof -
  let ?d = "db_disk s"
  obtain i where i: "wal_fd (db_wal s) = Some i" "d_ino ?d wal_name = Some i" "blobs ?d i = wal_bytes w"
    "length (wal_bytes (take k w)) \<le> synced ?d i" by (rule dur_wal [OF d inv(1)])
  let ?d1 = "d_append i (wal_encode r) ?d"
  have len: "length (rec_key r) \<le> UINT32_MAX" "length (rec_value r) \<le> UINT32_MAX" using r by (simp_all add: wal_ok_def)
  have d': "d' = (if sync then d_fsync i ?d1 else ?d1)"
    using run len i(1) by (auto simp: wal_append_def wal_sync_def no_faults_def Let_def split: if_splits)
  have i1: "d_ino ?d1 wal_name = Some i" using i(2) by (simp add: d_append_def d_set_def d_ino_def)
  have q: "quiet {wal_name} ?d d'"
    unfolding d' using quiet_fd(2) [OF i(2), of "{wal_name}"] qt.frame_trans [OF quiet_fd(2) [OF i(2)] quiet_fd(3) [OF i1], of "{wal_name}"]
    by simp
  have fl: "same_file ?d d' flushing_wal_name" using quietD(2) [OF q dur_dwf [OF d], of flushing_wal_name] by simp
  have b: "d_ino d' wal_name = Some i" "blobs d' i = wal_bytes (w @ [r])"
    "synced d' i = (if sync then length (wal_bytes (w @ [r])) else synced ?d i)"
    using i i1 by (simp_all add: d' d_append_def d_set_def d_fsync_def d_ino_def)
  have k: "k \<le> length w" "list_all wal_ok w" using d by (simp_all add: dur_def logs_on_def)
  have log: "logs_on d' fl (w @ [r]) (if sync then Suc (length w) else k)"
    using d b k(1) i(4) r fl same_file_holds [OF fl]
    unfolding dur_def logs_on_def by (auto simp: same_file_def split: option.splits intro: exI [of _ "length (wal_bytes (w @ [r]))"])
  have q': "quiet {wal_name} (db_disk s) (db_disk s')" using q by (simp add: s')
  have "dur s' fl (w @ [r]) (if sync then Suc (length w) else k) \<and> tables_map s' = tables_map s"
    by (rule dur_relog [OF d q' _ inv(2)]) (use log d k b in \<open>simp_all add: s' dur_def d_read_def\<close>)
  then show "dur s' fl (w @ [r]) (if sync then Suc (length w) else k)" "tables_map s' = tables_map s" by blast+
qed

lemma dur_sync:
  assumes d: "dur s fl w k" and inv: "db_inv s" "db_inv s'" and run: "db_sync no_faults s = (Inr (), s')"
  shows "dur s' fl w (length w)" and "tables_map s' = tables_map s" and "s' = s\<lparr>db_disk := db_disk s'\<rparr>"
    and "quiet {wal_name} (db_disk s) (db_disk s')"
proof -
  let ?d = "db_disk s"
  obtain i where i: "wal_fd (db_wal s) = Some i" "d_ino ?d wal_name = Some i" "blobs ?d i = wal_bytes w"
    by (rule dur_wal [OF d inv(1)])
  have s': "s' = s\<lparr>db_disk := d_fsync i ?d\<rparr>"
    using run i(1) by (simp add: db_sync_def sbind_def on_disk_def wal_sync_def no_faults_def)
  then show "s' = s\<lparr>db_disk := db_disk s'\<rparr>" by simp
  show q: "quiet {wal_name} (db_disk s) (db_disk s')" using quiet_fd(3) [OF i(2)] by (simp add: s')
  have fl: "same_file ?d (d_fsync i ?d) flushing_wal_name" using quietD(2) [OF q dur_dwf [OF d], of flushing_wal_name] by (simp add: s')
  have "logs_on (d_fsync i ?d) fl w (length w)"
    using d i fl same_file_holds [OF fl]
    unfolding dur_def logs_on_def by (auto simp: same_file_def d_fsync_def d_ino_def split: option.splits)
  then have "dur s' fl w (length w) \<and> tables_map s' = tables_map s"
    by (intro dur_relog [OF d q _ inv(2)]) (use d i in \<open>simp_all add: s' dur_def d_read_def d_fsync_def d_ino_def\<close>)
  then show "dur s' fl w (length w)" "tables_map s' = tables_map s" by blast+
qed

subsection \<open>Sealing\<close>

lemma open_wal_trunc:
  obtains d' i where "open_wal no_faults True s = (Inr (), s\<lparr>db_disk := d', db_wal := \<lparr>wal_path = wal_name, wal_fd = Some i\<rparr>\<rparr>)"
    and "d_ino d' wal_name = Some i" and "blobs d' i = []" and "quiet {wal_name} (db_disk s) d'"
proof -
  let ?i = "ino_of wal_name (db_disk s)" and ?d1 = "snd (d_create wal_name (db_disk s))"
  have run: "open_wal no_faults True s = (Inr (), s\<lparr>db_disk := d_truncate ?i ?d1, db_wal := \<lparr>wal_path = wal_name, wal_fd = Some ?i\<rparr>\<rparr>)"
    using d_create_eqs(1) [of wal_name "db_disk s"]
    by (cases "d_create wal_name (db_disk s)")
       (simp add: open_wal_def sbind_def on_disk_def wal_open_def no_faults_def wal_move_assign_def wal_close_fd_def)
  from dquiet_run [OF dquiet_open_wal run, of "{wal_name}"]
  have "quiet {wal_name} (db_disk s) (d_truncate ?i ?d1)" by simp
  moreover have "blobs (d_truncate ?i ?d1) ?i = []" by (simp add: d_truncate_def)
  ultimately show thesis by (intro that [OF run]) (simp_all add: d_create_eqs)
qed

lemma logs_on_fresh:
  assumes "d_ino d wal_name = Some i" and "blobs d i = []"
    and "case fl of None \<Rightarrow> d_ino d flushing_wal_name = None | Some fr \<Rightarrow> holds d flushing_wal_name (wal_bytes fr) \<and> list_all wal_ok fr"
  shows "logs_on d fl [] 0 \<and> d_read d wal_name = Some (wal_bytes [])"
  using assms by (auto simp: logs_on_def d_read_def split: option.splits)

lemma holds_moved:
  "d_ino d old = Some i \<Longrightarrow> length (blobs d i) \<le> synced d i \<Longrightarrow> holds (d_moved old new d) new (blobs d i)"
  by (simp add: holds_def d_read_def durable_def d_moved_eqs)

lemma dur_seal:
  assumes d: "dur s fl w k" and inv: "db_inv s" and free: "\<not> db_has_flushing s" and run: "seal_locked no_faults s = (Inr (), s')"
    and inv': "db_inv s'" and seq: "db_seq s < db_seq s + 1"
  shows "s' = s \<or> dur s' (Some w) [] 0 \<and> tables_map s' = tables_map s \<and> db_seq s' = db_seq s + 1 \<and> db_fseq s' = db_seq s \<and>
      db_has_flushing s' \<and> quiet {wal_name, flushing_wal_name} (db_disk s) (db_disk s') \<and>
      s' = s\<lparr>db_disk := db_disk s', db_wal := db_wal s', db_seq := db_seq s', db_fseq := db_fseq s', db_fmem := db_mem s,
        db_mem := memtable0, db_has_flushing := True\<rparr>"
proof (cases "mt_empty (db_mem s)")
  case True
  then show ?thesis using run by (simp add: seal_locked_def sbind_def)
next
  case False
  let ?d = "db_disk s" and ?N = "{wal_name, flushing_wal_name}"
  obtain i where i: "wal_fd (db_wal s) = Some i" "d_ino ?d wal_name = Some i" "blobs ?d i = wal_bytes w"
    by (rule dur_wal [OF d inv])
  let ?d1 = "d_fsync i ?d"
  have i1: "d_ino ?d1 wal_name = Some i" using i(2) by (simp add: d_ino_def d_fsync_def)
  let ?d2 = "d_moved wal_name flushing_wal_name ?d1"
  have q2: "quiet ?N ?d ?d2"
    by (rule qt.frame_trans [OF quiet_fd(3) [OF i(2)] quiet_moved [OF i1]]) simp_all
  have h2: "holds ?d2 flushing_wal_name (wal_bytes w)"
    using holds_moved [OF i1, of flushing_wal_name] i(3) by (simp add: d_fsync_def)
  obtain d3 j where o: "open_wal no_faults True (s\<lparr>db_disk := ?d2\<rparr>)
      = (Inr (), s\<lparr>db_disk := ?d2\<rparr>\<lparr>db_disk := d3, db_wal := \<lparr>wal_path = wal_name, wal_fd = Some j\<rparr>\<rparr>)"
    "d_ino d3 wal_name = Some j" "blobs d3 j = []" "quiet {wal_name} (db_disk (s\<lparr>db_disk := ?d2\<rparr>)) d3"
    by (rule open_wal_trunc)
  have s': "s' = s\<lparr>db_disk := d3, db_wal := \<lparr>wal_path = wal_name, wal_fd = Some j\<rparr>, db_seq := db_seq s + 1, db_fseq := db_seq s,
      db_fmem := db_mem s, db_mem := memtable0, db_has_flushing := True\<rparr>"
    using run False i(1) o(1) d_rename_ok [OF i1, of _ flushing_wal_name]
    by (simp add: seal_locked_def sbind_def on_disk_def wal_sync_def no_faults_def [of "''WAL fsync''"] fsync_dir_ok take_seq_def)
  have q3: "quiet {wal_name} ?d2 d3" using o(4) by simp
  have q: "quiet ?N ?d (db_disk s')" using qt.frame_trans [OF q2 quiet_mono [OF q3]] by (simp add: s')
  have "same_file ?d2 d3 flushing_wal_name"
    using quietD(2) [OF q3 quietD(1) [OF q2 dur_dwf [OF d]], of flushing_wal_name] by simp
  from same_file_holds [OF this h2] have h3: "holds d3 flushing_wal_name (wal_bytes w)" .
  have fl: "fl = None" and ok: "list_all wal_ok w" "db_mem s = fold apply_rec w memtable0" using d free by (simp_all add: dur_def logs_on_def)
  have log: "logs_on d3 (Some w) [] 0 \<and> d_read d3 wal_name = Some (wal_bytes [])"
    by (rule logs_on_fresh [OF o(2,3)]) (use h3 ok in simp)
  have "dur s' (Some w) [] 0 \<and> tables_map s' = tables_map s"
    by (rule dur_relog [OF d q _ inv']) (use log ok seq in \<open>simp_all add: s'\<close>)
  then show ?thesis using q by (simp add: s')
qed

end
