(* ===== verification/Durable_Flush.thy ===== *)
theory Durable_Flush
  imports Durable_Steps
begin

text \<open>
  Flushes and the manifest: a table that was built from a memtable is complete and durable,
  with every value it points to, before the manifest names it, and the manifest names it
  before the log that held its records is given up.
\<close>

subsection \<open>Writing the manifest\<close>

lemma length_dec_digits: "0 < k \<Longrightarrow> n < 10 ^ k \<Longrightarrow> length (dec_digits n) \<le> k"
proof (induction n arbitrary: k rule: dec_digits.induct)
  case (1 n)
  show ?case
  proof (cases "n < 10")
    case True
    then show ?thesis using 1(2) by (subst dec_digits.simps) simp
  next
    case False
    then obtain m where m: "k = Suc m" "0 < m" using 1(2,3) by (cases k; cases "k - 1") auto
    have "n div 10 < 10 ^ m" using 1(3) m(1) by (simp add: div_less_iff_less_mult mult.commute)
    from 1(1) [OF False m(2) this] show ?thesis using False m(1) by (subst dec_digits.simps) simp
  qed
qed

lemma length_sst_name: "length (sst_name n) \<le> UINT32_MAX"
proof -
  have "unat n < 2 ^ 64" using unsigned_less [of n, where 'a = nat] by simp
  then have "unat n < 10 ^ 20" by (rule order_less_trans) simp
  from length_dec_digits [OF _ this] have "length (dec_digits (unat n)) \<le> 20" by simp
  then show ?thesis by (simp add: sst_name_def pad6_def UINT32_MAX_def)
qed

lemma names_bound:
  assumes "distinct ps" and "\<forall>p\<in>set ps. \<exists>n < q. p = sst_name n"
  shows "length ps \<le> unat q"
proof -
  let ?f = "\<lambda>i. sst_name (of_nat i)"
  have "set ps \<subseteq> (\<lambda>i. sst_name (of_nat i)) ` {..<unat q}"
  proof
    fix p assume "p \<in> set ps"
    then obtain n where "n < q" "p = sst_name n" using assms(2) by blast
    then show "p \<in> (\<lambda>i. sst_name (of_nat i)) ` {..<unat q}" by (intro image_eqI [of _ _ "unat n"]) (simp_all add: word_less_nat_alt)
  qed
  then have "card (set ps) \<le> card (?f ` {..<unat q})" by (rule card_mono [rotated]) simp
  also have "\<dots> \<le> unat q" using card_image_le [of "{..<unat q}" ?f] by simp
  finally show ?thesis using distinct_card [OF assms(1)] by simp
qed

definition named :: "db \<Rightarrow> bool" where
  "named s \<longleftrightarrow> distinct (map sst_path (db_ssts s)) \<and> (\<forall>p\<in>sst_path ` set (db_ssts s). \<exists>n < db_seq s. p = sst_name n) \<and>
     unat (db_seq s) \<le> UINT32_MAX"

lemma store_on_commit:
  assumes wf: "dwf d" and h: "holds d man_name (manifest_bytes (db_manifest s))" and lv: "levels_ok s" and nm: "named s"
    and ts: "\<And>t. t \<in> set (db_ssts s) \<Longrightarrow> table_on d (db_gen s) t"
    and v: "d_ino d (vlog_name (db_gen s)) \<noteq> None" "file_len (vlog_name (db_gen s)) d < 2 ^ 64"
  shows "store_on d (db_gen s) (db_seq s) (db_ssts s)"
proof -
  let ?m = "db_manifest s"
  have p: "distinct (map sst_path (db_ssts s))" "\<forall>t\<in>set (db_ssts s). \<exists>n < db_seq s. sst_path t = sst_name n"
    "length (db_ssts s) \<le> UINT32_MAX"
    using nm names_bound [of "map sst_path (db_ssts s)" "db_seq s"] by (auto simp: named_def)
  have "\<exists>n. sst_path t = sst_name n" if "t \<in> set (db_ssts s)" for t using p(2) that by blast
  then have "length (sst_path t) \<le> UINT32_MAX" if "t \<in> set (db_ssts s)" for t using that length_sst_name by metis
  moreover have "- (2 ^ 31) \<le> (case db_level s x of None \<Rightarrow> 0 | Some l \<Rightarrow> l) \<and> (case db_level s x of None \<Rightarrow> 0 | Some l \<Rightarrow> l) < (2 ^ 31 :: int)" for x
    using lv by (auto simp: levels_ok_def split: option.split)
  ultimately have "manifest_ok ?m" using p(3) by (simp add: manifest_ok_def entry_ok_def db_manifest_def list_all_iff)
  moreover have "map me_name (man_tables ?m) = map sst_path (db_ssts s)" "man_current_gen ?m = db_gen s" "man_next_seq ?m = db_seq s"
    by (simp_all add: db_manifest_def)
  ultimately show ?thesis using wf h p ts v unfolding store_on_def dwf_def by blast
qed

subsection \<open>Building a table from a memtable\<close>

lemma flush_table_durable:
  assumes vs: "vs_inv (db_vlogs s) (db_disk s)" and m: "mem_ok m" and fits: "flush_fits lg g (mt_snapshot m) s"
    and vl: "db_vlogs s = [(g, v)]" and ino: "d_ino (db_disk s) (vlog_name g) = Some (vl_fd v)" and wf: "dwf (db_disk s)"
  obtains rs' w s1 b s2 v' where "separate no_faults (db_sep_threshold s) g (mt_snapshot m) s = (Inr (rs', w), s1)"
    and "build_rename no_faults lg ctx seq rs' s1 = (Inr b, s2)"
    and "s2 = s\<lparr>db_disk := db_disk s2, db_vlogs := [(g, v')]\<rparr>" and "vl_fd v' = vl_fd v"
    and "d_ino (db_disk s2) (vlog_name g) = Some (vl_fd v)"
    and "quiet {vlog_name g, sst_name seq, sst_name seq @ tmp_suffix} (db_disk s) (db_disk s2)"
    and "grown (db_disk s) (db_disk s2) (vlog_name g)"
    and "\<forall>s3 t s4. db_disk s3 = db_disk s2 \<and> make_sst no_faults (sst_name seq) s3 = (Inr t, s4) \<longrightarrow>
      table_on (db_disk s2) g t \<and> sst_path t = sst_name seq \<and> s4 = s3\<lparr>db_next_obj := Suc (db_next_obj s3)\<rparr>"
proof -
  let ?recs = "mt_snapshot m" and ?sep = "db_sep_threshold s"
  have recs: "list_all sst_rec_ok ?recs" "\<forall>r\<in>set ?recs. \<not> rec_separated r" using m mt_snapshot_inline by (auto simp: mem_ok_def)
  have room: "vlog_room (db_vlogs s) (db_disk s) g (sum_list (map (sep_cost ?sep) ?recs))" using fits by (simp add: flush_fits_def)
  have ok: "synced_ok (db_disk s)" using wf by (simp add: dwf_def)
  obtain rs' w vl' d1 file1 d2 where a:
    "separate no_faults ?sep g ?recs s = (Inr (rs', w), s\<lparr>db_disk := d1, db_vlogs := vl'\<rparr>)"
    "build_rename no_faults lg ctx seq rs' (s\<lparr>db_disk := d1, db_vlogs := vl'\<rparr>)
      = (Inr (of_nat (length file1)), s\<lparr>db_disk := d2, db_vlogs := vl'\<rparr>)"
    "buildable lg rs'" "build_file lg rs' = Inr file1" "d_read d2 (sst_name seq) = Some file1"
    by (rule flush_table_ok [OF vs m fits])
  obtain v' where v': "s\<lparr>db_disk := d1, db_vlogs := vl'\<rparr> = s\<lparr>db_disk := db_disk (s\<lparr>db_disk := d1, db_vlogs := vl'\<rparr>), db_vlogs := [(g, v')]\<rparr>"
    "vl_fd v' = vl_fd v" "\<forall>r\<in>set rs'. ptr_safe (db_disk (s\<lparr>db_disk := d1, db_vlogs := vl'\<rparr>)) g r"
    "grown (db_disk s) (db_disk (s\<lparr>db_disk := d1, db_vlogs := vl'\<rparr>)) (vlog_name g)"
    "quiet {vlog_name g} (db_disk s) (db_disk (s\<lparr>db_disk := d1, db_vlogs := vl'\<rparr>))"
    by (rule separate_safe [OF vs vl ino room recs a(1) ok])
  have vl': "vl' = [(g, v')]" using arg_cong [OF v'(1), of db_vlogs] by simp
  let ?N = "{sst_name seq, sst_name seq @ tmp_suffix}"
  have q1: "quiet {vlog_name g} (db_disk s) d1" using v'(5) by simp
  have q2: "quiet ?N d1 d2" using dquiet_run [OF dquiet_build a(2), of ?N] by simp
  note wf1 = quietD(1) [OF q1 wf]
  have keep: "same_file d1 d2 (vlog_name g)" using quietD(2) [OF q2 wf1, of "vlog_name g"] by simp
  have q: "quiet {vlog_name g, sst_name seq, sst_name seq @ tmp_suffix} (db_disk s) d2"
    by (rule qt.frame_trans [OF quiet_mono [OF q1] quiet_mono [OF q2]]) auto
  have grown: "grown (db_disk s) d2 (vlog_name g)"
    using v'(4) keep by (auto simp: grown_def same_file_def)
  have ino2: "d_ino d2 (vlog_name g) = Some (vl_fd v)" using grown ino by (simp add: grown_def)
  have h: "holds d2 (sst_name seq) file1" using a(2) by (rule build_rename_holds) (use a(4) in simp)
  have safe: "ptr_safe d2 g r" if "r \<in> set rs'" for r
    by (rule ptr_safe_mono [of d1]) (use v'(3) that keep ino2 in \<open>auto simp: same_file_def\<close>)
  note tab = built_table [OF a(3,4) h safe]
  show thesis by (rule that [OF a(1,2) _ v'(2)]) (use vl' q grown ino2 tab in simp_all)
qed

subsection \<open>Flushing under the lock\<close>

lemma commit_backed:
  assumes inv: "db_inv s" and wf: "dwf (db_disk s)" and h: "holds (db_disk s) man_name (manifest_bytes (db_manifest s))"
    and nm: "named s" and lv: "levels_ok s" and v: "vlog_on s"
    and ts: "\<And>t. t \<in> set (db_ssts s) \<Longrightarrow> table_on (db_disk s) (db_gen s) t"
  shows "backed s"
proof -
  have "d_ino (db_disk s) (vlog_name (db_gen s)) \<noteq> None" using v by (auto simp: vlog_on_def)
  from store_on_commit [OF wf h lv nm ts this vlog_len [OF inv v]] v lv show ?thesis by (auto simp: backed_def)
qed

lemma backed_dur:
  assumes "backed s" "logs_on (db_disk s) fl w k" "k \<le> length w" "d_read (db_disk s) wal_name = Some (wal_bytes w)"
    "db_has_flushing s = (fl \<noteq> None)" "db_mem s = fold apply_rec w memtable0"
    "\<forall>fr. fl = Some fr \<longrightarrow> db_fmem s = fold apply_rec fr memtable0"
  shows "dur s fl w k"
  using assms by (auto simp: backed_def dur_def)

lemma dur_commit:
  assumes inv: "db_inv s" and wf: "dwf (db_disk s)" and h: "holds (db_disk s) man_name (manifest_bytes (db_manifest s))"
    and nm: "named s" and lv: "levels_ok s" and v: "vlog_on s"
    and ts: "\<And>t. t \<in> set (db_ssts s) \<Longrightarrow> table_on (db_disk s) (db_gen s) t"
    and log: "logs_on (db_disk s) fl w k" "k \<le> length w" "d_read (db_disk s) wal_name = Some (wal_bytes w)"
      "db_has_flushing s = (fl \<noteq> None)" "db_mem s = fold apply_rec w memtable0"
      "\<forall>fr. fl = Some fr \<longrightarrow> db_fmem s = fold apply_rec fr memtable0"
  shows "dur s fl w k"
  by (rule backed_dur [OF commit_backed [OF inv wf h nm lv v ts] log])

lemma backed_tables:
  assumes "backed s" and "t \<in> set (db_ssts s)"
  shows "table_on (db_disk s) (db_gen s) t" and "\<exists>n < db_seq s. sst_path t = sst_name n"
proof -
  obtain q where "q \<le> db_seq s" "store_on (db_disk s) (db_gen s) q (db_ssts s)" using assms(1) by (auto simp: backed_def)
  then show "table_on (db_disk s) (db_gen s) t" "\<exists>n < db_seq s. sst_path t = sst_name n"
    using assms(2) unfolding store_on_def by (blast, blast intro: order_less_le_trans)
qed

lemmas dur_tables = backed_tables [OF dur_backed]

lemma backed_named:
  assumes "backed s" and "unat (db_seq s) \<le> UINT32_MAX"
  shows "named s"
proof -
  have "distinct (map sst_path (db_ssts s))" using assms(1) by (auto simp: backed_def store_on_def)
  then show ?thesis using assms(2) backed_tables(2) [OF assms(1)] by (auto simp: named_def)
qed

lemmas dur_named = backed_named [OF dur_backed]

lemma named_insert:
  assumes "named s" and "sst_path t = sst_name q" and "sst_name q \<notin> sst_path ` set (db_ssts s)" and "q < db_seq s'"
    and "db_ssts s' = t # db_ssts s" and "db_seq s \<le> db_seq s'" and "unat (db_seq s') \<le> UINT32_MAX"
  shows "named s'"
  unfolding named_def
proof (intro conjI ballI)
  show "distinct (map sst_path (db_ssts s'))" using assms(1-3,5) by (simp add: named_def)
  show "unat (db_seq s') \<le> UINT32_MAX" by (rule assms(7))
  fix p assume "p \<in> sst_path ` set (db_ssts s')"
  then consider "p = sst_name q" | "p \<in> sst_path ` set (db_ssts s)" using assms(2,5) by auto
  then show "\<exists>n<db_seq s'. p = sst_name n"
    using assms(1,4,6) by cases (auto simp: named_def, blast intro: order_less_le_trans)
qed

lemma backed_fresh: "backed s \<Longrightarrow> sst_name (db_seq s) \<notin> sst_path ` set (db_ssts s)"
  using backed_tables(2) by (force simp: sst_name_inj)

lemmas seq_fresh = backed_fresh [OF dur_backed]

lemma u32_seq: "unat (q :: u64) < UINT32_MAX \<Longrightarrow> q < q + 1 \<and> q \<le> q + 1 \<and> unat (q + 1) = Suc (unat q)"
proof -
  assume "unat q < UINT32_MAX"
  then have "unat q + 1 < 2 ^ 64" by (simp add: UINT32_MAX_def)
  then have "unat (q + 1) = Suc (unat q)" by (simp add: unat_word_ariths)
  then show ?thesis by (simp add: word_less_nat_alt word_le_nat_alt)
qed

lemma levels_ok_insert: "levels_ok s \<Longrightarrow> db_level s' = (db_level s)(x \<mapsto> 0) \<Longrightarrow> levels_ok s'"
  by (auto simp: levels_ok_def)

text \<open>From the write of the manifest on, only logs change until the operation is over.\<close>

lemma commit_frame:
  assumes run: "write_manifest_locked no_faults s = (Inr (), s\<lparr>db_disk := d1\<rparr>)" and wf: "dwf (db_disk s)"
    and nm: "named s" and ts: "\<And>t. t \<in> set (db_ssts s) \<Longrightarrow> table_on (db_disk s) (db_gen s) t"
    and q: "quiet N d1 d2" and N: "N \<subseteq> {wal_name, flushing_wal_name}"
  shows "dwf d2" and "holds d2 man_name (manifest_bytes (db_manifest s))"
    and "t \<in> set (db_ssts s) \<Longrightarrow> table_on d2 (db_gen s) t"
    and "same_file (db_disk s) d2 (vlog_name g)" and "quiet ({man_name, man_tmp_name} \<union> N) (db_disk s) d2"
proof -
  let ?M = "{man_name, man_tmp_name}"
  obtain d' where "write_manifest_locked no_faults s = (Inr (), s\<lparr>db_disk := d'\<rparr>)" "holds d' man_name (manifest_bytes (db_manifest s))"
    by (rule write_manifest_holds)
  then have h: "holds d1 man_name (manifest_bytes (db_manifest s))" using run by (auto dest: arg_cong [of _ _ db_disk])
  have q1: "quiet ?M (db_disk s) d1" using dquiet_run [OF dquiet_manifest run, of ?M] by simp
  note wf1 = quietD(1) [OF q1 wf]
  show "dwf d2" by (rule quietD(1) [OF q wf1])
  show q12: "quiet (?M \<union> N) (db_disk s) d2" by (rule qt.frame_trans [OF quiet_mono [OF q1] quiet_mono [OF q]]) auto
  have "same_file d1 d2 man_name" by (rule quietD(2) [OF q wf1]) (use N in auto)
  then show "holds d2 man_name (manifest_bytes (db_manifest s))" using h by (rule same_file_holds)
  have keep: "same_file (db_disk s) d2 n" if "n \<notin> ?M" "n \<noteq> wal_name" "n \<noteq> flushing_wal_name" for n
    by (rule quietD(2) [OF q12 wf]) (use N that in auto)
  then show vg: "same_file (db_disk s) d2 (vlog_name g)" for g by simp
  show "table_on d2 (db_gen s) t" if t: "t \<in> set (db_ssts s)"
  proof (rule table_on_frame [OF ts [OF t] _ same_grown [OF vg]])
    obtain n where "sst_path t = sst_name n" using nm t unfolding named_def by blast
    then show "same_file (db_disk s) d2 (sst_path t)" by (simp add: keep)
  qed
qed

lemma backed_flush_locked:
  assumes d: "backed s" and inv: "db_inv s" "db_inv s'" and ne: "\<not> mt_empty (db_mem s)"
    and fits: "flush_fits lg (db_gen s) (mt_snapshot (db_mem s)) (s\<lparr>db_seq := db_seq s + 1\<rparr>)"
    and seq: "unat (db_seq s) < UINT32_MAX" and run: "flush_locked no_faults lg s = (Inr (), s')"
  obtains t i where "backed s'" and "db_ssts s' = t # db_ssts s" and "sst_path t = sst_name (db_seq s)"
    and "s' = s\<lparr>db_disk := db_disk s', db_vlogs := db_vlogs s', db_stat := db_stat s', db_next_obj := db_next_obj s',
      db_level := db_level s', db_ssts := db_ssts s', db_mem := db_mem s', db_wal := db_wal s', db_seq := db_seq s + 1\<rparr>"
    and "quiet {vlog_name (db_gen s), sst_name (db_seq s), sst_name (db_seq s) @ tmp_suffix, man_name, man_tmp_name, wal_name}
      (db_disk s) (db_disk s')"
    and "grown (db_disk s) (db_disk s') (vlog_name (db_gen s))"
    and "d_ino (db_disk s') wal_name = Some i" and "blobs (db_disk s') i = []" and "db_mem s' = memtable0"
proof -
  let ?s0 = "s\<lparr>db_seq := db_seq s + 1\<rparr>" and ?g = "db_gen s" and ?q = "db_seq s"
  let ?M = "{man_name, man_tmp_name}"
  have vs: "vs_inv (db_vlogs ?s0) (db_disk ?s0)" and m: "mem_ok (db_mem s)" using inv(1) by (simp_all add: db_inv_def)
  obtain v where v: "db_vlogs ?s0 = [(?g, v)]" "d_ino (db_disk ?s0) (vlog_name ?g) = Some (vl_fd v)"
    using d by (auto simp: backed_def vlog_on_def)
  have wf: "dwf (db_disk ?s0)" using backed_dwf [OF d] by simp
  obtain rs' w' s1 b s2 v' where a: "separate no_faults (db_sep_threshold ?s0) ?g (mt_snapshot (db_mem s)) ?s0 = (Inr (rs', w'), s1)"
    "build_rename no_faults lg ''SSTable rename'' ?q rs' s1 = (Inr b, s2)"
    "s2 = ?s0\<lparr>db_disk := db_disk s2, db_vlogs := [(?g, v')]\<rparr>" "vl_fd v' = vl_fd v"
    "d_ino (db_disk s2) (vlog_name ?g) = Some (vl_fd v)"
    "quiet {vlog_name ?g, sst_name ?q, sst_name ?q @ tmp_suffix} (db_disk ?s0) (db_disk s2)"
    "grown (db_disk ?s0) (db_disk s2) (vlog_name ?g)"
    "\<forall>s3 t s4. db_disk s3 = db_disk s2 \<and> make_sst no_faults (sst_name ?q) s3 = (Inr t, s4) \<longrightarrow>
      table_on (db_disk s2) ?g t \<and> sst_path t = sst_name ?q \<and> s4 = s3\<lparr>db_next_obj := Suc (db_next_obj s3)\<rparr>"
    by (rule flush_table_durable [OF vs m fits v wf])
  define d2 where "d2 = db_disk s2"
  have s2: "s2 = ?s0\<lparr>db_disk := d2, db_vlogs := [(?g, v')]\<rparr>" using a(3) by (simp add: d2_def)
  let ?st = "(db_stat s2)\<lparr>st_flush_bytes := st_flush_bytes (db_stat s2) + b, st_vlog_bytes := st_vlog_bytes (db_stat s2) + w'\<rparr>"
  let ?s3 = "s2\<lparr>db_stat := ?st\<rparr>"
  obtain t s4 where t: "make_sst no_faults (sst_name ?q) ?s3 = (Inr t, s4)"
    using run ne a(1,2) by (auto simp: flush_locked_def take_seq_def add_stats_def sbind_def on_disk_def fsync_dir_ok split: prod.splits sum.splits)
  have tab: "table_on (db_disk s2) ?g t" "sst_path t = sst_name ?q" "s4 = ?s3\<lparr>db_next_obj := Suc (db_next_obj ?s3)\<rparr>"
    using a(8) [rule_format, of ?s3 t s4] t by simp_all
  let ?s5 = "insert_flushed t s4"
  obtain d6 where d6: "write_manifest_locked no_faults ?s5 = (Inr (), ?s5\<lparr>db_disk := d6\<rparr>)"
    "holds d6 man_name (manifest_bytes (db_manifest ?s5))" by (rule write_manifest_holds)
  let ?s7 = "?s5\<lparr>db_disk := d6, db_mem := memtable0\<rparr>"
  obtain d8 i where d8: "open_wal no_faults True ?s7 = (Inr (), ?s7\<lparr>db_disk := d8, db_wal := \<lparr>wal_path = wal_name, wal_fd = Some i\<rparr>\<rparr>)"
    "d_ino d8 wal_name = Some i" "blobs d8 i = []" "quiet {wal_name} (db_disk ?s7) d8" by (rule open_wal_trunc)
  have s': "s' = ?s7\<lparr>db_disk := d8, db_wal := \<lparr>wal_path = wal_name, wal_fd = Some i\<rparr>\<rparr>"
    using run ne a(1,2) t d6(1) d8(1) by (simp add: flush_locked_def sbind_def take_seq_def on_disk_def fsync_dir_ok add_stats_def)
  have fields: "db_ssts s' = t # db_ssts s" "db_gen s' = ?g" "db_seq s' = ?q + 1" "db_level s' = (db_level s)(sst_obj t \<mapsto> 0)"
    "db_vlogs s' = [(?g, v')]" "db_mem s' = memtable0" "db_has_flushing s' = db_has_flushing s" "db_disk s' = d8"
    "db_manifest s' = db_manifest ?s5"
    by (simp_all add: s' insert_flushed_def tab(3) db_manifest_def s2)
  have sel5: "db_disk ?s5 = d2" "db_ssts ?s5 = t # db_ssts s" "db_gen ?s5 = ?g" "db_seq ?s5 = ?q + 1" "db_seq s' = db_seq ?s5"
    by (simp_all add: insert_flushed_def tab(3) s2 s')
  have q2: "quiet {vlog_name ?g, sst_name ?q, sst_name ?q @ tmp_suffix} (db_disk s) d2" using a(6) by (simp add: s2)
  have wf2: "dwf (db_disk ?s5)" using quietD(1) [OF q2] wf sel5(1) by simp
  note u = u32_seq [OF seq]
  have nm: "named ?s5"
    by (rule named_insert [OF backed_named [OF d] tab(2) backed_fresh [OF d]]) (use u seq sel5 in simp_all)
  have ts: "table_on (db_disk ?s5) (db_gen ?s5) x" if x: "x \<in> set (db_ssts ?s5)" for x
  proof (cases "x = t")
    case True
    then show ?thesis using tab(1) by (simp add: sel5 d2_def)
  next
    case False
    then have x: "x \<in> set (db_ssts s)" using x sel5(2) by simp
    obtain n where n: "n < ?q" "sst_path x = sst_name n" using backed_tables(2) [OF d x] by blast
    have "same_file (db_disk s) d2 (sst_path x)" by (rule quietD(2) [OF q2]) (use wf n in \<open>auto simp: sst_name_inj\<close>)
    then show ?thesis using table_on_frame [OF backed_tables(1) [OF d x]] a(7) by (simp add: sel5 d2_def)
  qed
  have q8: "quiet {wal_name} d6 d8" using d8(4) by simp
  note c = commit_frame [OF d6(1) wf2 nm ts q8]
  let ?N = "{vlog_name ?g, sst_name ?q, sst_name ?q @ tmp_suffix, man_name, man_tmp_name, wal_name}"
  have q28: "quiet {man_name, man_tmp_name, wal_name} d2 d8" using c(5) by (simp add: sel5 insert_commute)
  have q: "quiet ?N (db_disk s) d8" by (rule qt.frame_trans [OF quiet_mono [OF q2] quiet_mono [OF q28]]) auto
  have on: "vlog_on s'" using c(4) [of ?g] a(4,5) fields by (simp add: vlog_on_def same_file_def sel5 d2_def)
  have lv: "levels_ok s'" using d levels_ok_insert [OF _ fields(4)] by (simp add: backed_def)
  have nm': "named s'" using nm fields sel5 by (simp add: named_def)
  have ts': "table_on (db_disk s') (db_gen s') x" if "x \<in> set (db_ssts s')" for x
    using c(3) [of x] that by (simp add: fields sel5)
  have "backed s'" by (rule commit_backed [OF inv(2) _ _ nm' lv on ts']) (use c(1,2) fields(8,9) in simp_all)
  moreover have "s' = s\<lparr>db_disk := db_disk s', db_vlogs := db_vlogs s', db_stat := db_stat s', db_next_obj := db_next_obj s',
      db_level := db_level s', db_ssts := db_ssts s', db_mem := db_mem s', db_wal := db_wal s', db_seq := db_seq s + 1\<rparr>"
    by (simp add: s' insert_flushed_def tab(3) s2)
  moreover have "grown (db_disk s) d8 (vlog_name ?g)" using a(7) c(4) [of ?g] by (auto simp: grown_def same_file_def sel5 d2_def)
  ultimately show thesis using q d8(2,3) fields(6,8) by (intro that [OF _ fields(1) tab(2)]) simp_all
qed

lemma dur_flush_locked:
  assumes d: "dur s None w k" and inv: "db_inv s" "db_inv s'" and ne: "\<not> mt_empty (db_mem s)"
    and fits: "flush_fits lg (db_gen s) (mt_snapshot (db_mem s)) (s\<lparr>db_seq := db_seq s + 1\<rparr>)"
    and seq: "unat (db_seq s) < UINT32_MAX" and run: "flush_locked no_faults lg s = (Inr (), s')"
  obtains t where "dur s' None [] 0" and "db_ssts s' = t # db_ssts s" and "sst_path t = sst_name (db_seq s)"
    and "s' = s\<lparr>db_disk := db_disk s', db_vlogs := db_vlogs s', db_stat := db_stat s', db_next_obj := db_next_obj s',
      db_level := db_level s', db_ssts := db_ssts s', db_mem := db_mem s', db_wal := db_wal s', db_seq := db_seq s + 1\<rparr>"
    and "quiet {vlog_name (db_gen s), sst_name (db_seq s), sst_name (db_seq s) @ tmp_suffix, man_name, man_tmp_name, wal_name}
      (db_disk s) (db_disk s')"
    and "grown (db_disk s) (db_disk s') (vlog_name (db_gen s))"
proof -
  let ?N = "{vlog_name (db_gen s), sst_name (db_seq s), sst_name (db_seq s) @ tmp_suffix, man_name, man_tmp_name, wal_name}"
  obtain t i where b: "backed s'" "db_ssts s' = t # db_ssts s" "sst_path t = sst_name (db_seq s)"
    "s' = s\<lparr>db_disk := db_disk s', db_vlogs := db_vlogs s', db_stat := db_stat s', db_next_obj := db_next_obj s',
      db_level := db_level s', db_ssts := db_ssts s', db_mem := db_mem s', db_wal := db_wal s', db_seq := db_seq s + 1\<rparr>"
    "quiet ?N (db_disk s) (db_disk s')" "grown (db_disk s) (db_disk s') (vlog_name (db_gen s))"
    "d_ino (db_disk s') wal_name = Some i" "blobs (db_disk s') i = []" "db_mem s' = memtable0"
    by (rule backed_flush_locked [OF dur_backed [OF d] inv ne fits seq run])
  have "same_file (db_disk s) (db_disk s') flushing_wal_name" by (rule quietD(2) [OF b(5) dur_dwf [OF d]]) simp
  then have "d_ino (db_disk s') flushing_wal_name = None" using d by (simp add: dur_def logs_on_def same_file_def)
  then have "logs_on (db_disk s') None [] 0 \<and> d_read (db_disk s') wal_name = Some (wal_bytes [])"
    by (intro logs_on_fresh [OF b(7,8)]) simp
  moreover have "db_has_flushing s' = db_has_flushing s" by (subst b(4), simp)
  moreover have "\<not> db_has_flushing s" using d by (simp add: dur_def)
  ultimately have "dur s' None [] 0" by (intro backed_dur [OF b(1)]) (simp_all add: b(9))
  then show thesis using that b(2-6) by blast
qed

subsection \<open>The background flush\<close>

lemma dur_flush_work:
  assumes d: "dur s fl w k" and inv: "db_inv s" "db_inv s'" and j: "fj_records j = mt_snapshot (db_fmem s)" "fj_gen j = db_gen s"
    and fits: "flush_fits lg (fj_gen j) (fj_records j) s" and fresh: "sst_name (fj_seq j) \<notin> sst_path ` set (db_ssts s)"
    and run: "flush_work no_faults lg j s = (Inr (t, b, x), s')"
  shows "dur s' fl w k \<and> tables_map s' = tables_map s" and "table_on (db_disk s') (db_gen s) t" and "sst_path t = sst_name (fj_seq j)"
    and "quiet {vlog_name (db_gen s), sst_name (fj_seq j), sst_name (fj_seq j) @ tmp_suffix} (db_disk s) (db_disk s')"
    and "grown (db_disk s) (db_disk s') (vlog_name (db_gen s))"
    and "s' = s\<lparr>db_disk := db_disk s', db_vlogs := db_vlogs s', db_next_obj := Suc (db_next_obj s)\<rparr>"
proof -
  let ?g = "db_gen s" and ?q = "fj_seq j"
  let ?N = "{vlog_name ?g, sst_name ?q, sst_name ?q @ tmp_suffix}"
  have vs: "vs_inv (db_vlogs s) (db_disk s)" and m: "mem_ok (db_fmem s)" using inv(1) by (simp_all add: db_inv_def)
  have fits': "flush_fits lg ?g (mt_snapshot (db_fmem s)) s" using fits j by simp
  obtain v where v: "db_vlogs s = [(?g, v)]" "d_ino (db_disk s) (vlog_name ?g) = Some (vl_fd v)"
    using d by (auto simp: dur_def vlog_on_def)
  obtain rs' w' s1 b' s2 v' where a: "separate no_faults (db_sep_threshold s) ?g (mt_snapshot (db_fmem s)) s = (Inr (rs', w'), s1)"
    "build_rename no_faults lg ''flush rename'' ?q rs' s1 = (Inr b', s2)"
    "s2 = s\<lparr>db_disk := db_disk s2, db_vlogs := [(?g, v')]\<rparr>" "vl_fd v' = vl_fd v"
    "d_ino (db_disk s2) (vlog_name ?g) = Some (vl_fd v)"
    "quiet ?N (db_disk s) (db_disk s2)" "grown (db_disk s) (db_disk s2) (vlog_name ?g)"
    "\<forall>s3 t s4. db_disk s3 = db_disk s2 \<and> make_sst no_faults (sst_name ?q) s3 = (Inr t, s4) \<longrightarrow>
      table_on (db_disk s2) ?g t \<and> sst_path t = sst_name ?q \<and> s4 = s3\<lparr>db_next_obj := Suc (db_next_obj s3)\<rparr>"
    by (rule flush_table_durable [OF vs m fits' v dur_dwf [OF d]])
  have mk: "make_sst no_faults (sst_name ?q) s2 = (Inr t, s')"
    using run a(1,2) j by (auto simp: flush_work_def sbind_def on_disk_def fsync_dir_ok split: prod.splits sum.splits)
  have tab: "table_on (db_disk s2) ?g t" "sst_path t = sst_name ?q" "s' = s2\<lparr>db_next_obj := Suc (db_next_obj s2)\<rparr>"
    using a(8) [rule_format, of s2 t s'] mk by simp_all
  define d2 where "d2 = db_disk s2"
  have s2: "s2 = s\<lparr>db_disk := d2, db_vlogs := [(?g, v')]\<rparr>" using a(3) by (simp add: d2_def)
  have s': "s' = s\<lparr>db_disk := d2, db_vlogs := [(?g, v')], db_next_obj := Suc (db_next_obj s)\<rparr>" by (simp add: tab(3) s2)
  then show "s' = s\<lparr>db_disk := db_disk s', db_vlogs := db_vlogs s', db_next_obj := Suc (db_next_obj s)\<rparr>" by simp
  show "table_on (db_disk s') (db_gen s) t" "sst_path t = sst_name ?q" using tab(1,2) by (simp_all add: s' d2_def)
  show q: "quiet ?N (db_disk s) (db_disk s')" and vg: "grown (db_disk s) (db_disk s') (vlog_name ?g)"
    using a(6,7) by (simp_all add: s' d2_def)
  have G: "?N \<inter> guarded s = {}" using fresh dur_tables(2) [OF d] by (fastforce simp: guarded_def)
  have on: "vlog_on s'" using a(4,5) by (simp add: vlog_on_def s' d2_def)
  have lv: "levels_ok s'" using d by (simp add: dur_def levels_ok_def s')
  show "dur s' fl w k \<and> tables_map s' = tables_map s"
    by (intro conjI dur_frame [OF d q G on vg inv(2) _ _ _ _ _ lv]) (simp_all add: s')
qed

lemma mt_lookup_recs:
  "ojoin (case mt_lookup (fold apply_rec fr memtable0) k of Some a \<Rightarrow> Some a | None \<Rightarrow> x) = fold rec_step fr (\<lambda>_. ojoin x) k"
  using mt_lookup_applies [OF mt_inv_empty, of fr k] by (simp add: fold_rec_step split: option.split)

lemma dur_flush_install:
  assumes d: "dur s (Some fr) w k" and inv: "db_inv s" "db_inv s'" and fl: "flushed_ok t s"
    and t: "table_on (db_disk s) (db_gen s) t" "sst_path t = sst_name q" "q < db_seq s" "sst_name q \<notin> sst_path ` set (db_ssts s)"
    and seq: "unat (db_seq s) \<le> UINT32_MAX" and run: "flush_install no_faults (t, b, x) s = (Inr (), s')"
  shows "dur s' None w k" and "tables_map s' = fold rec_step fr (tables_map s)"
    and "quiet {man_name, man_tmp_name, flushing_wal_name} (db_disk s) (db_disk s')"
    and "s' = s\<lparr>db_disk := db_disk s', db_level := db_level s', db_ssts := t # db_ssts s, db_stat := db_stat s', db_fmem := memtable0,
      db_has_flushing := False\<rparr>"
proof -
  let ?g = "db_gen s" and ?s1 = "insert_flushed t s"
  have fls: "db_has_flushing s" "db_fmem s = fold apply_rec fr memtable0" using d by (simp_all add: dur_def)
  obtain s'' where "flush_install no_faults (t, b, x) s = (Inr (), s'')"
    "tables_map s'' = (\<lambda>k. ojoin (case mt_lookup (db_fmem s) k of Some a \<Rightarrow> Some a
      | None \<Rightarrow> look (db_vlogs s) (db_disk s) (concat (map sst_records (db_ssts s))) k))"
    by (rule flush_install_ok [OF inv(1) fls(1) fl, of b x])
  then show "tables_map s' = fold rec_step fr (tables_map s)"
    using run by (simp add: fls(2) mt_lookup_recs fun_eq_iff) (simp add: fold_rec_step tables_map_def split: option.split)
  have nm: "named ?s1"
    by (rule named_insert [OF dur_named [OF d seq] t(2,4)]) (use seq t(3) in \<open>simp_all add: insert_flushed_def\<close>)
  have wf: "dwf (db_disk ?s1)" using dur_dwf [OF d] by (simp add: insert_flushed_def)
  have ts: "table_on (db_disk ?s1) (db_gen ?s1) u" if "u \<in> set (db_ssts ?s1)" for u
    using that t(1) dur_tables(1) [OF d] by (auto simp: insert_flushed_def)
  obtain d1 where d1: "write_manifest_locked no_faults ?s1 = (Inr (), ?s1\<lparr>db_disk := d1\<rparr>)"
    "holds d1 man_name (manifest_bytes (db_manifest ?s1))" by (rule write_manifest_holds)
  let ?d2 = "d_unlink flushing_wal_name d1"
  have q: "quiet {flushing_wal_name} d1 ?d2" by (rule quiet_unlink) simp
  note c = commit_frame [OF d1(1) wf nm ts q]
  let ?st = "(db_stat s)\<lparr>st_flush_bytes := st_flush_bytes (db_stat s) + b, st_vlog_bytes := st_vlog_bytes (db_stat s) + x\<rparr>"
  let ?s' = "?s1\<lparr>db_disk := ?d2, db_stat := ?st, db_fmem := memtable0, db_has_flushing := False\<rparr>"
  have "flush_install no_faults (t, b, x) s = (Inr (), ?s')"
    using d1(1) by (simp add: flush_install_def sbind_def add_stats_def no_faults_def [of "''remove wal-flushing''"] insert_flushed_def)
  then have s': "s' = ?s'" using run by simp
  have f: "db_disk s' = ?d2" "db_gen s' = ?g" "db_ssts s' = db_ssts ?s1" "db_seq s' = db_seq s" "db_level s' = db_level ?s1"
    "db_vlogs s' = db_vlogs s" "db_manifest s' = db_manifest ?s1" "db_mem s' = db_mem s" "\<not> db_has_flushing s'" "db_gen ?s1 = ?g"
    "db_disk ?s1 = db_disk s" "db_level s' = (db_level s)(sst_obj t \<mapsto> 0)" "db_seq ?s1 = db_seq s"
    by (simp_all add: s' insert_flushed_def db_manifest_def)
  show "s' = s\<lparr>db_disk := db_disk s', db_level := db_level s', db_ssts := t # db_ssts s, db_stat := db_stat s', db_fmem := memtable0,
      db_has_flushing := False\<rparr>" by (simp add: s' insert_flushed_def)
  show q': "quiet {man_name, man_tmp_name, flushing_wal_name} (db_disk s) (db_disk s')"
    using c(5) f(1,11) by (simp add: insert_commute)
  have wal: "same_file (db_disk s) ?d2 wal_name" using quietD(2) [OF q' dur_dwf [OF d], of wal_name] f(1) by simp
  have "d_ino ?d2 flushing_wal_name = None" by (simp add: d_unlink_eqs)
  then have lg: "logs_on ?d2 None w k" using d wal by (auto simp: dur_def logs_on_def same_file_def split: option.splits)
  have lv: "levels_ok s'" using d levels_ok_insert [OF _ f(12)] by (simp add: dur_def)
  have on: "vlog_on s'" by (rule vlog_on_frame [of s]) (use d c(4) [of ?g] f in \<open>simp_all add: dur_def same_file_def\<close>)
  have nm': "named s'" using nm f by (simp add: named_def)
  have ts': "table_on (db_disk s') (db_gen s') u" if "u \<in> set (db_ssts s')" for u using c(3) [of u] that by (simp add: f)
  show "dur s' None w k"
    by (rule dur_commit [OF inv(2) _ _ nm' lv on ts']) (use c(1,2) lg f(1,7-9) d same_file_read [OF wal] in \<open>simp_all add: dur_def\<close>)
qed

end
