(* ===== verification/Durable_Merge.thy ===== *)
theory Durable_Merge
  imports Durable_Flush
begin

text \<open>
  Compaction, garbage collection and destructors on the directory: the merged table is
  complete before the manifest names it, and a file is unlinked only when no manifest that
  a crash can bring back names it.
\<close>

subsection \<open>Merging\<close>

lemma dur_build_table:
  assumes d: "dur s fl w k" and run: "build_rename no_faults lg ctx q rs s = (Inr b, s1)" "make_sst no_faults (sst_name q) s1 = (Inr t, s')"
    and inv: "db_inv s'" and t: "sst_inv t" "\<forall>r\<in>set (sst_records t). ptr_safe (db_disk s) (db_gen s) r"
    and fresh: "sst_name q \<notin> sst_path ` set (db_ssts s)"
  shows "dur s' fl w k \<and> tables_map s' = tables_map s" and "table_on (db_disk s') (db_gen s) t" and "sst_path t = sst_name q"
    and "quiet {sst_name q, sst_name q @ tmp_suffix} (db_disk s) (db_disk s')"
    and "s' = s\<lparr>db_disk := db_disk s', db_next_obj := Suc (db_next_obj s)\<rparr>"
proof -
  let ?N = "{sst_name q, sst_name q @ tmp_suffix}" and ?g = "db_gen s"
  obtain f where f: "holds (db_disk s1) (sst_name q) f" "s1 = s\<lparr>db_disk := db_disk s1\<rparr>" by (rule build_rename_holds [OF run(1)])
  define d1 where "d1 = db_disk s1"
  have s1: "s1 = s\<lparr>db_disk := d1\<rparr>" using f(2) by (simp add: d1_def)
  have q: "quiet ?N (db_disk s) (db_disk s1)" by (rule dquiet_run [OF dquiet_build run(1)]) simp
  note keep = quietD(2) [OF q dur_dwf [OF d]]
  have vg: "same_file (db_disk s) (db_disk s1) (vlog_name ?g)" by (rule keep) simp
  have "\<forall>r\<in>set (sst_records t). ptr_safe (db_disk s1) ?g r"
  proof
    fix r assume "r \<in> set (sst_records t)"
    with t(2) have "ptr_safe (db_disk s) ?g r" by blast
    then show "ptr_safe (db_disk s1) ?g r"
    proof (rule ptr_safe_mono)
      show "d_ino (db_disk s1) (vlog_name ?g) = d_ino (db_disk s) (vlog_name ?g)"
        "\<And>i. d_ino (db_disk s) (vlog_name ?g) = Some i \<Longrightarrow> synced (db_disk s) i \<le> synced (db_disk s1) i"
        using vg by (simp_all add: same_file_def)
    qed
  qed
  note m = make_sst_table [OF run(2) f(1) t(1) this]
  show "table_on (db_disk s') ?g t" "sst_path t = sst_name q" by (rule m)+
  have s': "s' = s\<lparr>db_disk := d1, db_next_obj := Suc (db_next_obj s)\<rparr>" using m(3) s1 by simp
  then show "s' = s\<lparr>db_disk := db_disk s', db_next_obj := Suc (db_next_obj s)\<rparr>" by simp
  show q': "quiet ?N (db_disk s) (db_disk s')" using q m(3) by simp
  have G: "?N \<inter> guarded s = {}" using fresh dur_tables(2) [OF d] by (fastforce simp: guarded_def)
  have on: "vlog_on s'" by (rule vlog_on_frame [of s]) (use d vg in \<open>simp_all add: dur_def s' same_file_def d1_def\<close>)
  have lv: "levels_ok s'" using d by (simp add: dur_def levels_ok_def s')
  have vg': "grown (db_disk s) (db_disk s') (vlog_name ?g)" using same_grown [OF vg] m(3) by simp
  show "dur s' fl w k \<and> tables_map s' = tables_map s"
    by (intro conjI dur_frame [OF d q' G on vg' inv _ _ _ _ _ lv]) (simp_all add: s')
qed

lemma dur_merge_work:
  assumes d: "dur s fl w k" and inv: "db_inv s" "db_inv s'" and job: "job_ok j (db_ssts s)" and fits: "merge_fits lg j"
    and fresh: "sst_name (mj_seq j) \<notin> sst_path ` set (db_ssts s)"
    and run: "merge_work no_faults lg ctx j s = (Inr (b, t), s')"
  shows "dur s' fl w k \<and> tables_map s' = tables_map s" and "table_on (db_disk s') (db_gen s) t" and "sst_path t = sst_name (mj_seq j)"
    and "quiet {sst_name (mj_seq j), sst_name (mj_seq j) @ tmp_suffix} (db_disk s) (db_disk s')"
    and "s' = s\<lparr>db_disk := db_disk s', db_next_obj := Suc (db_next_obj s)\<rparr>"
proof -
  have vs: "vs_inv (db_vlogs s) (db_disk s)" and ins: "\<forall>t\<in>set (mj_inputs j). sst_inv t" and obj: "\<forall>t\<in>set (db_ssts s). sst_obj t < db_next_obj s"
    using inv(1) job by (auto simp: db_inv_def ssts_ok_def job_ok_def)
  obtain bytes u d' s1 where w: "merge_work no_faults lg ctx j s = (Inr (bytes, u), s1)"
    "s1 = s\<lparr>db_disk := d', db_next_obj := Suc (db_next_obj s)\<rparr>" "output_ok j u s1"
    by (rule merge_work_ok [OF vs ins fits obj])
  have t: "sst_inv t" "sst_records t = merged j" using run w by (simp_all add: output_ok_def)
  have safe: "\<forall>r\<in>set (sst_records t). ptr_safe (db_disk s) (db_gen s) r"
  proof
    fix r assume "r \<in> set (sst_records t)"
    then obtain u where u: "u \<in> set (mj_inputs j)" "r \<in> set (sst_records u)" using merged_subset t(2) by metis
    then have "u \<in> set (db_ssts s)" using job by (auto simp: job_ok_def)
    from dur_tables(1) [OF d this] u(2) show "ptr_safe (db_disk s) (db_gen s) r" by (simp add: table_on_def)
  qed
  obtain rs b' s2 where r: "build_rename no_faults lg ctx (mj_seq j) rs s = (Inr b', s2)" "make_sst no_faults (sst_name (mj_seq j)) s2 = (Inr t, s')"
    using run by (auto simp: merge_work_def sbind_eq_Inr on_disk_def fsync_dir_ok)
  note b = dur_build_table [OF d r inv(2) t(1) safe fresh]
  show "dur s' fl w k \<and> tables_map s' = tables_map s" "table_on (db_disk s') (db_gen s) t" "sst_path t = sst_name (mj_seq j)"
    "quiet {sst_name (mj_seq j), sst_name (mj_seq j) @ tmp_suffix} (db_disk s) (db_disk s')"
    "s' = s\<lparr>db_disk := db_disk s', db_next_obj := Suc (db_next_obj s)\<rparr>" by (rule b)+
qed

lemma levels_ok_erase: "erase_levels ts lv x = Some l \<Longrightarrow> lv x = Some l"
  unfolding erase_levels_def
proof (induction ts arbitrary: lv)
  case (Cons t ts)
  from Cons.IH [of "lv(sst_obj t := None)"] Cons.prems show ?case by (auto split: if_splits)
qed simp

lemma dur_merge_install:
  assumes d: "dur s fl w k" and inv: "db_inv s" "db_inv s'" and job: "job_ok j (db_ssts s)" and out: "output_ok j t s"
    and t: "table_on (db_disk s) (db_gen s) t" "sst_path t = sst_name q" "q < db_seq s" "sst_name q \<notin> sst_path ` set (db_ssts s)"
    and seq: "unat (db_seq s) \<le> UINT32_MAX" and run: "merge_install no_faults j (b, t) s = (Inr (), s')"
  obtains pre post where "dur s' fl w k" and "tables_map s' = tables_map s" and "quiet {man_name, man_tmp_name} (db_disk s) (db_disk s')"
    and "db_ssts s = pre @ mj_inputs j @ post" and "db_ssts s' = pre @ t # post"
    and "s' = s\<lparr>db_disk := db_disk s', db_level := db_level s', db_ssts := db_ssts s', db_stat := db_stat s', db_compacting := False,
      db_dead_ssts := db_dead_ssts s @ map sst_mark_obsolete (mj_inputs j)\<rparr>"
proof -
  obtain s'' where s'': "merge_install no_faults j (b, t) s = (Inr (), s'')"
    "db_ssts s'' = replace_inputs (map sst_obj (mj_inputs j)) t False (db_ssts s)" "tables_map s'' = tables_map s"
    by (rule merge_install_ok [OF inv(1) job out])
  have tm: "tables_map s' = tables_map s" using s''(1,3) run by simp
  obtain pre post where sp: "db_ssts s = pre @ mj_inputs j @ post" "mj_inputs j \<noteq> []" using job by (auto simp: job_ok_def)
  have "distinct (map sst_obj (pre @ mj_inputs j @ post))" using inv(1) sp(1) by (simp add: db_inv_def ssts_ok_def del: map_append)
  from replace_inputs_stretch [OF this sp(2)] have ssts: "replace_inputs (map sst_obj (mj_inputs j)) t False (db_ssts s) = pre @ t # post"
    by (simp add: sp(1))
  let ?st = "(db_stat s)\<lparr>st_compaction_bytes := st_compaction_bytes (db_stat s) + b, st_compactions := st_compactions (db_stat s) + 1\<rparr>"
  let ?lv = "(erase_levels (mj_inputs j) (db_level s))(sst_obj t \<mapsto> 0)"
  let ?s1 = "s\<lparr>db_stat := ?st, db_ssts := pre @ t # post, db_level := ?lv\<rparr>"
  have nm0: "named s" by (rule dur_named [OF d seq])
  have nm: "named ?s1" using nm0 t(2-4) unfolding named_def sp(1) by auto
  have wf: "dwf (db_disk ?s1)" using dur_dwf [OF d] by simp
  have ts: "table_on (db_disk ?s1) (db_gen ?s1) u" if "u \<in> set (db_ssts ?s1)" for u
    using that t(1) dur_tables(1) [OF d] sp(1) by auto
  obtain d1 where d1: "write_manifest_locked no_faults ?s1 = (Inr (), ?s1\<lparr>db_disk := d1\<rparr>)"
    "holds d1 man_name (manifest_bytes (db_manifest ?s1))" by (rule write_manifest_holds)
  note c = commit_frame [OF d1(1) wf nm ts qt.frame_refl [of "{}" d1]]
  let ?s' = "s\<lparr>db_disk := d1, db_stat := ?st, db_ssts := pre @ t # post, db_level := ?lv, db_compacting := False,
      db_dead_ssts := db_dead_ssts s @ map sst_mark_obsolete (mj_inputs j)\<rparr>"
  have "merge_install no_faults j (b, t) s = (Inr (), ?s')"
    using d1(1) ssts by (simp add: merge_install_def install_merge_result_def sbind_def add_stats_def retire_def)
  then have s': "s' = ?s'" using run by simp
  have q: "quiet {man_name, man_tmp_name} (db_disk s) d1" using c(5) by simp
  note keep = quietD(2) [OF q dur_dwf [OF d]]
  have lg: "logs_on d1 fl w k" using d by (intro logs_on_frame [OF _ keep keep]) (simp_all add: dur_def)
  have rd: "d_read d1 wal_name = Some (wal_bytes w)" using same_file_read [OF keep, of wal_name] d by (simp add: dur_def)
  have lv: "levels_ok s'" using d levels_ok_erase by (fastforce simp: dur_def levels_ok_def s')
  have on: "vlog_on s'" by (rule vlog_on_frame [of s]) (use d c(4) [of "db_gen s"] in \<open>simp_all add: dur_def same_file_def s'\<close>)
  have nm': "named s'" using nm by (simp add: named_def s')
  have ts': "table_on (db_disk s') (db_gen s') u" if "u \<in> set (db_ssts s')" for u using c(3) [of u] that by (simp add: s')
  have man: "db_manifest s' = db_manifest ?s1" by (simp add: s' db_manifest_def)
  have "dur s' fl w k"
    by (rule dur_commit [OF inv(2) _ _ nm' lv on ts']) (use c(1,2) lg rd man d in \<open>simp_all add: s' dur_def\<close>)
  then show thesis
    by (rule that [OF _ tm _ sp(1)]) (use q in \<open>simp_all add: s'\<close>)
qed

subsection \<open>Garbage collection\<close>

lemma quiet_vgrow:
  assumes vs: "vs_inv vl d" and g: "vgrow vl d vl' d'"
  shows "quiet (range vlog_name) d d'"
proof -
  have e: "dents d' = dents d" "next_ino d' = next_ino d" "synced d' = synced d" "\<And>i. \<exists>x. blobs d' i = blobs d i @ x"
    "\<And>i. i \<notin> fds vl \<Longrightarrow> blobs d' i = blobs d i"
    using g by (simp_all add: vgrow_def)
  have names: "d_ino d' n = d_ino d n" for n using e(1) by (simp add: d_ino_def)
  have "length (blobs d i) \<le> length (blobs d' i)" for i using e(4) [of i] by auto
  then have "synced_ok d'" if "synced_ok d" using that e(3) unfolding synced_ok_def by (metis order_trans)
  moreover have "i \<notin> fds vl" if "n \<notin> range vlog_name" "d_ino d n = Some i" for n i
    using vs_inv_fd(2) [OF vs _ that(2)] that(1) by blast
  ultimately show ?thesis
    using names e(2,3,5) by (auto simp: quiet_def dwf_def disk_wf_def known_names_def same_file_def)
qed

text \<open>The new generation with the one table that points into it.\<close>

lemma gc_table_durable:
  assumes d: "dur s fl w k" and inv: "db_inv s" and fits: "gc_fits lg s"
  obtains rs rs' nv0 nv d1 d2 d3 x b where
    "merge_records no_faults (db_ssts s) True = Inr rs"
    and "vlog_open no_faults (vlog_name (db_gen s + 1)) (db_gen s + 1) (db_disk s) = (Inr nv0, d1)"
    and "sfold (relocate_step no_faults) rs ([], nv0, 0) (s\<lparr>db_disk := d1\<rparr>) = (Inr (rs', nv, x), s\<lparr>db_disk := d2\<rparr>)"
    and "build_rename no_faults lg ''gc rename'' (db_seq s) rs' (s\<lparr>db_disk := d_fsync (vl_fd nv) d2, db_seq := db_seq s + 1\<rparr>)
      = (Inr b, s\<lparr>db_disk := d3, db_seq := db_seq s + 1\<rparr>)"
    and "quiet (range vlog_name \<union> {sst_name (db_seq s), sst_name (db_seq s) @ tmp_suffix}) (db_disk s) d3"
    and "d_ino d3 (vlog_name (db_gen s + 1)) = Some (vl_fd nv)" and "db_gen s + 1 \<notin> fst ` set (db_vlogs s)"
    and "\<forall>s3 t s4. db_disk s3 = d3 \<and> make_sst no_faults (sst_name (db_seq s)) s3 = (Inr t, s4) \<longrightarrow>
      table_on d3 (db_gen s + 1) t \<and> sst_path t = sst_name (db_seq s) \<and> s4 = s3\<lparr>db_next_obj := Suc (db_next_obj s3)\<rparr>"
proof -
  let ?g = "db_gen s + 1" and ?vl = "db_vlogs s" and ?d = "db_disk s" and ?q = "db_seq s"
  let ?V = "range vlog_name" and ?B = "{sst_name ?q, sst_name ?q @ tmp_suffix}"
  obtain rs rs' nv0 nv d1 d2 d3 x file1 where a:
    "merge_records no_faults (db_ssts s) True = Inr rs"
    "vlog_open no_faults (vlog_name ?g) ?g ?d = (Inr nv0, d1)"
    "sfold (relocate_step no_faults) rs ([], nv0, 0) (s\<lparr>db_disk := d1\<rparr>) = (Inr (rs', nv, x), s\<lparr>db_disk := d2\<rparr>)"
    "build_rename no_faults lg ''gc rename'' ?q rs' (s\<lparr>db_disk := d_fsync (vl_fd nv) d2, db_seq := ?q + 1\<rparr>)
      = (Inr (of_nat (length file1)), s\<lparr>db_disk := d3, db_seq := ?q + 1\<rparr>)"
    "buildable lg rs'" "build_file lg rs' = Inr file1" "d_read d3 (sst_name ?q) = Some file1"
    "vs_inv ((?g, nv) # ?vl) d3" "?g \<notin> fst ` set ?vl"
    "list_all2 (reloc_rel ?g [(?g, nv)] d3 ?vl ?d) rs rs'"
    "d_ino d3 wal_name = d_ino ?d wal_name" "rs = merged \<lparr>mj_inputs = db_ssts s, mj_drop = True, mj_seq = 0\<rparr>"
    "vs_inv ((?g, nv0) # ?vl) d1" "vgrow ((?g, nv0) # ?vl) d1 ((?g, nv) # ?vl) d2" "vl_fd nv = ino_of (vlog_name ?g) ?d"
    by (rule gc_table_ok [OF inv fits])
  have d1: "d1 = snd (d_create (vlog_name ?g) ?d)"
    using a(2) by (cases "d_create (vlog_name ?g) ?d") (auto simp: vlog_open_def no_faults_def)
  have q1: "quiet ?V ?d d1" unfolding d1 by (rule quiet_create) simp_all
  have q2: "quiet ?V d1 d2" by (rule quiet_vgrow [OF a(13,14)])
  have i1: "d_ino d1 (vlog_name ?g) = Some (vl_fd nv)" by (simp add: d1 d_create_eqs a(15))
  have i2: "d_ino d2 (vlog_name ?g) = Some (vl_fd nv)" using i1 a(14) by (simp add: vgrow_def d_ino_def)
  let ?d2 = "d_fsync (vl_fd nv) d2"
  have q2': "quiet ?V d2 ?d2" by (rule quiet_fd(3) [OF i2]) simp
  have q3: "quiet ?B ?d2 d3" using dquiet_run [OF dquiet_build a(4), of ?B] by simp
  note q12 = qt.frame_trans [OF qt.frame_trans [OF q1 q2] q2']
  have q: "quiet (?V \<union> ?B) ?d d3" by (rule qt.frame_trans [OF quiet_mono [OF q12] quiet_mono [OF q3]]) auto
  have same: "same_file ?d2 d3 (vlog_name ?g)" using quietD(2) [OF q3 quietD(1) [OF q12 dur_dwf [OF d]], of "vlog_name ?g"] by simp
  have i2': "d_ino ?d2 (vlog_name ?g) = Some (vl_fd nv)" using i2 by (simp add: d_ino_def d_fsync_def)
  have i3: "d_ino d3 (vlog_name ?g) = Some (vl_fd nv)" "synced d3 (vl_fd nv) = length (blobs d3 (vl_fd nv))"
    using same i2' by (simp_all add: same_file_def) (simp add: d_fsync_def)
  have safe: "ptr_safe d3 ?g r" if "r \<in> set rs'" for r
    using list_all2_set2 [OF a(10) that] i3 deref_safe [of ?g nv d3 r] by (auto simp: reloc_rel_def)
  have h: "holds d3 (sst_name ?q) file1" using a(4) by (rule build_rename_holds) (use a(6) in simp)
  note tab = built_table [OF a(5,6) h safe]
  show thesis by (rule that [OF a(1-4) q i3(1) a(9)]) (use tab in blast)
qed

lemma dur_gc_body:
  assumes d: "dur s None w k" and inv: "db_inv s" "db_inv s'" and fits: "gc_fits lg s" and seq: "unat (db_seq s) < UINT32_MAX"
    and run: "gc_body no_faults lg (db_ssts s) s = (Inr (), s')"
  obtains t where "dur s' None w k" and "db_ssts s' = [t]" and "sst_path t = sst_name (db_seq s)"
    and "quiet (range vlog_name \<union> {sst_name (db_seq s), sst_name (db_seq s) @ tmp_suffix, man_name, man_tmp_name}) (db_disk s) (db_disk s')"
    and "s' = s\<lparr>db_disk := db_disk s', db_vlogs := db_vlogs s', db_level := db_level s', db_ssts := db_ssts s', db_stat := db_stat s',
      db_next_obj := db_next_obj s', db_seq := db_seq s + 1, db_gen := db_gen s + 1, db_compacting := False,
      db_dead_ssts := db_dead_ssts s @ map sst_mark_obsolete (db_ssts s),
      db_dead_vlogs := db_dead_vlogs s @ map (vlog_mark_obsolete \<circ> snd) (db_vlogs s)\<rparr>"
proof -
  let ?g = "db_gen s + 1" and ?q = "db_seq s" and ?d = "db_disk s"
  let ?B = "range vlog_name \<union> {sst_name ?q, sst_name ?q @ tmp_suffix}"
  obtain rs rs' nv0 nv d1 d2 d3 x b where a: "merge_records no_faults (db_ssts s) True = Inr rs"
    "vlog_open no_faults (vlog_name ?g) ?g ?d = (Inr nv0, d1)"
    "sfold (relocate_step no_faults) rs ([], nv0, 0) (s\<lparr>db_disk := d1\<rparr>) = (Inr (rs', nv, x), s\<lparr>db_disk := d2\<rparr>)"
    "build_rename no_faults lg ''gc rename'' ?q rs' (s\<lparr>db_disk := d_fsync (vl_fd nv) d2, db_seq := ?q + 1\<rparr>)
      = (Inr b, s\<lparr>db_disk := d3, db_seq := ?q + 1\<rparr>)"
    "quiet ?B ?d d3" "d_ino d3 (vlog_name ?g) = Some (vl_fd nv)" "?g \<notin> fst ` set (db_vlogs s)"
    "\<forall>s3 t s4. db_disk s3 = d3 \<and> make_sst no_faults (sst_name ?q) s3 = (Inr t, s4) \<longrightarrow>
      table_on d3 ?g t \<and> sst_path t = sst_name ?q \<and> s4 = s3\<lparr>db_next_obj := Suc (db_next_obj s3)\<rparr>"
    by (rule gc_table_durable [OF d inv(1) fits])
  let ?s3 = "s\<lparr>db_disk := d3, db_seq := ?q + 1\<rparr>"
  obtain t s4 where mk: "make_sst no_faults (sst_name ?q) ?s3 = (Inr t, s4)"
    using run a(1-4) by (auto simp: gc_body_def take_seq_def sbind_def on_disk_def vlog_sync_def no_faults_def [of "''vlog fsync''"]
        fsync_dir_ok split: prod.splits sum.splits)
  have tab: "table_on d3 ?g t" "sst_path t = sst_name ?q" "s4 = ?s3\<lparr>db_next_obj := Suc (db_next_obj ?s3)\<rparr>"
    using a(8) [rule_format, of ?s3 t s4] mk by simp_all
  let ?s5 = "gc_swap ?g nv t s4"
  obtain d6 where d6: "write_manifest_locked no_faults ?s5 = (Inr (), ?s5\<lparr>db_disk := d6\<rparr>)"
    "holds d6 man_name (manifest_bytes (db_manifest ?s5))" by (rule write_manifest_holds)
  let ?st = "(db_stat s)\<lparr>st_compaction_bytes := st_compaction_bytes (db_stat s) + b,
       st_vlog_bytes := st_vlog_bytes (db_stat s) + x, st_compactions := st_compactions (db_stat s) + 1\<rparr>"
  let ?s' = "(gc_drop_old ?g (retire (db_ssts s) (?s5\<lparr>db_disk := d6\<rparr>)))\<lparr>db_stat := ?st, db_compacting := False\<rparr>"
  have "gc_body no_faults lg (db_ssts s) s = (Inr (), ?s')"
    using a(1-4) mk d6(1) tab(3)
    by (simp add: gc_body_def sbind_def on_disk_def vlog_sync_def no_faults_def [of "''vlog fsync''"] take_seq_def
        fsync_dir_ok add_stats_def gc_drop_old_def retire_def gc_swap_def)
  then have s': "s' = ?s'" using run by simp
  have vl: "filter (\<lambda>(g, _). g = ?g) (vlogs_set ?g nv (db_vlogs s)) = [(?g, nv)]"
    "filter (\<lambda>(g, _). g \<noteq> ?g) (vlogs_set ?g nv (db_vlogs s)) = db_vlogs s"
    using a(7) by (force simp: vlogs_set_fresh filter_empty_conv filter_id_conv)+
  have f: "db_disk s' = d6" "db_gen s' = ?g" "db_ssts s' = [t]" "db_seq s' = ?q + 1" "db_level s' = [sst_obj t \<mapsto> 0]"
    "db_vlogs s' = [(?g, nv)]" "db_manifest s' = db_manifest ?s5" "db_mem s' = db_mem s" "db_has_flushing s' = db_has_flushing s"
    "db_disk ?s5 = d3" "db_gen ?s5 = ?g" "db_ssts ?s5 = [t]" "db_seq ?s5 = ?q + 1"
    using vl by (simp_all add: s' gc_drop_old_def retire_def gc_swap_def tab(3) db_manifest_def)
  note u = u32_seq [OF seq]
  have wf: "dwf (db_disk ?s5)" using quietD(1) [OF a(5) dur_dwf [OF d]] f(10) by simp
  have nm: "named ?s5" using u seq tab(2) by (auto simp: named_def f)
  have ts: "table_on (db_disk ?s5) (db_gen ?s5) y" if "y \<in> set (db_ssts ?s5)" for y using that tab(1) by (simp add: f)
  note c = commit_frame [OF d6(1) wf nm ts qt.frame_refl [of "{}" d6]]
  have q6: "quiet {man_name, man_tmp_name} d3 d6" using c(5) f(10) by simp
  have q: "quiet (range vlog_name \<union> {sst_name ?q, sst_name ?q @ tmp_suffix, man_name, man_tmp_name}) ?d d6"
    by (rule qt.frame_trans [OF quiet_mono [OF a(5)] quiet_mono [OF q6]]) auto
  note keep = quietD(2) [OF q dur_dwf [OF d]]
  have lg: "logs_on d6 None w k" using d by (intro logs_on_frame [OF _ keep keep]) (auto simp: dur_def)
  have "same_file ?d d6 wal_name" by (rule keep) auto
  then have rd: "d_read d6 wal_name = Some (wal_bytes w)" using same_file_read d by (simp add: dur_def)
  have lv: "levels_ok s'" by (simp add: levels_ok_def f)
  have on: "vlog_on s'" using c(4) [of ?g] a(6) by (simp add: vlog_on_def f same_file_def)
  have nm': "named s'" using nm by (simp add: named_def f)
  have ts': "table_on (db_disk s') (db_gen s') y" if "y \<in> set (db_ssts s')" for y using c(3) [of y] that by (simp add: f)
  have "dur s' None w k"
    by (rule dur_commit [OF inv(2) _ _ nm' lv on ts']) (use c(1,2) lg rd d in \<open>simp_all add: f dur_def\<close>)
  then show thesis
    by (rule that [OF _ f(3) tab(2)]) (use q f(1) vl in \<open>simp_all add: s' gc_drop_old_def retire_def gc_swap_def tab(3)\<close>)
qed

end
