(* ===== verification/Durability.thy ===== *)
theory Durability
  imports Durable_Merge "HOL-Library.Multiset"
begin

text \<open>
  Crash safety of whole runs. The invariant \<open>dinv\<close> adds to that of the engine that the
  directory is always ahead of the promises made to callers, and that no two tables,
  finished, in progress or waiting for their destructor, share a file name. \<open>hist\<close> relates
  the directory to the events so far: whatever part of the logged records a crash leaves,
  the result is the map after a prefix of the events that includes everything acknowledged
  as durable.
\<close>

subsection \<open>Acknowledged events\<close>

fun durable_ev :: "event \<Rightarrow> bool" where
  "durable_ev (EvPut k v sync) = sync"
| "durable_ev (EvDel k sync) = sync"
| "durable_ev EvSync = True"
| "durable_ev _ = False"

text \<open>The shortest prefix of the events that a crash must not lose.\<close>

fun acked :: "event list \<Rightarrow> nat" where
  "acked [] = 0"
| "acked (ev # evs) = (if durable_ev ev \<or> 0 < acked evs then Suc (acked evs) else 0)"

lemma acked_le: "acked evs \<le> length evs"
  by (induction evs) auto

lemma acked_snoc: "acked (evs @ [ev]) = (if durable_ev ev then Suc (length evs) else acked evs)"
  by (induction evs) auto

definition hist :: "event list \<Rightarrow> (bytes \<rightharpoonup> bytes) \<Rightarrow> (bytes \<rightharpoonup> bytes) \<Rightarrow> kv_record list \<Rightarrow> nat \<Rightarrow> bool" where
  "hist evs m0 B R D \<longleftrightarrow> fold map_step evs m0 = fold rec_step R B \<and>
     (\<forall>m\<ge>D. \<exists>n. acked evs \<le> n \<and> n \<le> length evs \<and> fold map_step (take n evs) m0 = fold rec_step (take m R) B)"

lemma hist_start: "hist [] B B [] 0"
  by (simp add: hist_def)

lemma hist_mono: "hist evs m0 B R D \<Longrightarrow> D \<le> D' \<Longrightarrow> hist evs m0 B R D'"
  by (auto simp: hist_def)

text \<open>An event that writes nothing; when it acknowledges, everything logged is durable.\<close>

lemma hist_read:
  assumes h: "hist evs m0 B R D" and ev: "map_step ev = id" "durable_ev ev \<Longrightarrow> length R \<le> D"
  shows "hist (evs @ [ev]) m0 B R D"
proof -
  have whole: "fold map_step (evs @ [ev]) m0 = fold rec_step R B" using h ev(1) by (simp add: hist_def)
  have "\<exists>n. acked (evs @ [ev]) \<le> n \<and> n \<le> length (evs @ [ev]) \<and> fold map_step (take n (evs @ [ev])) m0 = fold rec_step (take m R) B"
    if m: "D \<le> m" for m
  proof (cases "durable_ev ev")
    case True
    then have "take m R = R" using ev(2) m by simp
    then show ?thesis using whole acked_le [of "evs @ [ev]"] by (intro exI [of _ "length (evs @ [ev])"]) simp
  next
    case False
    obtain n where "acked evs \<le> n" "n \<le> length evs" "fold map_step (take n evs) m0 = fold rec_step (take m R) B"
      using h m unfolding hist_def by blast
    then show ?thesis using False by (intro exI [of _ n]) (simp add: acked_snoc)
  qed
  with whole show ?thesis by (simp add: hist_def)
qed

lemma hist_write:
  assumes h: "hist evs m0 B R D" and ev: "map_step ev = rec_step r" and D: "D \<le> length R"
  shows "hist (evs @ [ev]) m0 B (R @ [r]) (if durable_ev ev then Suc (length R) else D)"
proof -
  have whole: "fold map_step (evs @ [ev]) m0 = fold rec_step (R @ [r]) B" using h ev by (simp add: hist_def)
  have "\<exists>n. acked (evs @ [ev]) \<le> n \<and> n \<le> length (evs @ [ev]) \<and> fold map_step (take n (evs @ [ev])) m0 = fold rec_step (take m (R @ [r])) B"
    if m: "(if durable_ev ev then Suc (length R) else D) \<le> m" for m
  proof (cases "length R < m")
    case True
    then have "take m (R @ [r]) = R @ [r]" by simp
    then show ?thesis using whole acked_le [of "evs @ [ev]"] by (intro exI [of _ "length (evs @ [ev])"]) simp
  next
    case False
    then have nd: "\<not> durable_ev ev" and m': "D \<le> m" using m by (simp_all split: if_splits)
    obtain n where "acked evs \<le> n" "n \<le> length evs" "fold map_step (take n evs) m0 = fold rec_step (take m R) B"
      using h m' unfolding hist_def by blast
    then show ?thesis using nd False by (intro exI [of _ n]) (simp add: acked_snoc)
  qed
  with whole show ?thesis by (simp add: hist_def)
qed

text \<open>The first \<open>j\<close> records moved into a table.\<close>

lemma hist_flush:
  assumes h: "hist evs m0 B R D"
  shows "hist evs m0 (fold rec_step (take j R) B) (drop j R) (D - j)"
proof -
  have "fold rec_step (take m (drop j R)) (fold rec_step (take j R) B) = fold rec_step (take (j + m) R) B" for m
    by (simp add: take_add)
  moreover have "fold rec_step (drop j R) (fold rec_step (take j R) B) = fold rec_step R B"
    by (metis append_take_drop_id fold_append o_apply)
  ultimately show ?thesis using h by (auto simp: hist_def)
qed

subsection \<open>Names and tables in progress\<close>

definition fl_claim :: "db \<Rightarrow> bytes list" where
  "fl_claim s = (if db_has_flushing s then [sst_name (db_fseq s)] else [])"

definition mg_claim :: "merger_pc \<Rightarrow> bytes list" where
  "mg_claim pc = (case pc of MgIdle \<Rightarrow> [] | MgWorking j \<Rightarrow> [sst_name (mj_seq j)] | MgBuilt j _ \<Rightarrow> [sst_name (mj_seq j)]
     | MgLeveled ts \<Rightarrow> map sst_path ts)"

definition claims :: "engine \<Rightarrow> bytes list" where
  "claims e = map sst_path (db_ssts (en_db e)) @ map sst_path (db_dead_ssts (en_db e)) @ fl_claim (en_db e) @ mg_claim (en_mg e)"

definition claims_ok :: "engine \<Rightarrow> bool" where
  "claims_ok e \<longleftrightarrow> distinct (claims e) \<and> (\<forall>p\<in>set (claims e). \<exists>n < db_seq (en_db e). p = sst_name n)"

definition fl_built :: "db \<Rightarrow> flusher_pc \<Rightarrow> bool" where
  "fl_built s pc = (case pc of
       FlIdle \<Rightarrow> True
     | FlWorking j \<Rightarrow> fj_seq j = db_fseq s
     | FlBuilt (t, _, _) \<Rightarrow> table_on (db_disk s) (db_gen s) t \<and> sst_path t = sst_name (db_fseq s))"

definition mg_built :: "db \<Rightarrow> merger_pc \<Rightarrow> bool" where
  "mg_built s pc = (case pc of
       MgBuilt j (_, t) \<Rightarrow> table_on (db_disk s) (db_gen s) t \<and> sst_path t = sst_name (mj_seq j)
     | MgLeveled ts \<Rightarrow> (\<forall>t\<in>set ts. table_on (db_disk s) (db_gen s) t)
     | _ \<Rightarrow> True)"

definition dead_logs :: "db \<Rightarrow> bool" where
  "dead_logs s \<longleftrightarrow> (\<forall>v\<in>set (db_dead_vlogs s). \<exists>h < db_gen s. vl_path v = vlog_name h)"

text \<open>After \<open>n\<close> steps the counters are far from wrapping around.\<close>

definition budget :: "nat \<Rightarrow> db \<Rightarrow> bool" where
  "budget n s \<longleftrightarrow> unat (db_gen s) \<le> n \<and> unat (db_seq s) \<le> 2 * n"

definition rest_ok :: "nat \<Rightarrow> engine \<Rightarrow> bool" where
  "rest_ok n e \<longleftrightarrow> claims_ok e \<and> fl_built (en_db e) (en_fl e) \<and> mg_built (en_db e) (en_mg e) \<and> dead_logs (en_db e) \<and> budget n (en_db e)"

definition dinv :: "nat \<Rightarrow> engine \<Rightarrow> kv_record list option \<Rightarrow> kv_record list \<Rightarrow> nat \<Rightarrow> bool" where
  "dinv n e fl w k \<longleftrightarrow> engine_inv e \<and> dur (en_db e) fl w k \<and> rest_ok n e"

lemma fl_built_frame:
  assumes b: "fl_built s pc" and ok: "fl_ok s pc" and q: "quiet N (db_disk s) (db_disk s')" and wf: "dwf (db_disk s)"
    and N: "N \<inter> set (fl_claim s) = {}" and v: "grown (db_disk s) (db_disk s') (vlog_name (db_gen s))"
    and same: "db_gen s' = db_gen s" "db_has_flushing s \<Longrightarrow> db_fseq s' = db_fseq s"
  shows "fl_built s' pc"
proof (cases pc)
  case (FlBuilt p)
  obtain t b x where p: "p = (t, b, x)" by (cases p)
  have h: "db_has_flushing s" using ok by (simp add: FlBuilt p fl_ok_def)
  have t: "table_on (db_disk s) (db_gen s) t" "sst_path t = sst_name (db_fseq s)" using b by (simp_all add: FlBuilt p fl_built_def)
  have "sst_path t \<notin> N" using N h t(2) by (auto simp: fl_claim_def)
  from table_on_frame [OF t(1) quietD(2) [OF q wf this] v] t(2) same h show ?thesis by (simp add: FlBuilt p fl_built_def)
qed (use b ok same in \<open>auto simp: fl_built_def fl_ok_def\<close>)

lemma mg_built_frame:
  assumes b: "mg_built s pc" and q: "quiet N (db_disk s) (db_disk s')" and wf: "dwf (db_disk s)"
    and N: "N \<inter> set (mg_claim pc) = {}" and v: "grown (db_disk s) (db_disk s') (vlog_name (db_gen s))" and same: "db_gen s' = db_gen s"
  shows "mg_built s' pc"
proof (cases pc)
  case (MgBuilt j p)
  obtain x t where p: "p = (x, t)" by (cases p)
  have t: "table_on (db_disk s) (db_gen s) t" "sst_path t = sst_name (mj_seq j)" using b by (simp_all add: MgBuilt p mg_built_def)
  have "sst_path t \<notin> N" using N t(2) by (auto simp: MgBuilt mg_claim_def)
  from table_on_frame [OF t(1) quietD(2) [OF q wf this] v] t(2) same show ?thesis by (simp add: MgBuilt p mg_built_def)
next
  case (MgLeveled ts)
  have "table_on (db_disk s') (db_gen s) t" if "t \<in> set ts" for t
  proof (rule table_on_frame [OF _ quietD(2) [OF q wf] v])
    show "table_on (db_disk s) (db_gen s) t" using b that by (simp add: MgLeveled mg_built_def)
    show "sst_path t \<notin> N" using N that by (auto simp: MgLeveled mg_claim_def)
  qed
  then show ?thesis using same by (simp add: MgLeveled mg_built_def)
qed (simp_all add: mg_built_def)

lemma rest_frame:
  assumes r: "rest_ok n e" and i: "fl_ok (en_db e) (en_fl e)" and q: "quiet N (db_disk (en_db e)) (db_disk s')" and wf: "dwf (db_disk (en_db e))"
    and N: "N \<inter> set (fl_claim (en_db e) @ mg_claim (en_mg e)) = {}"
    and v: "grown (db_disk (en_db e)) (db_disk s') (vlog_name (db_gen (en_db e)))"
    and same: "db_gen s' = db_gen (en_db e)" "db_has_flushing (en_db e) \<Longrightarrow> db_fseq s' = db_fseq (en_db e)"
      "set (db_dead_vlogs s') \<subseteq> set (db_dead_vlogs (en_db e))"
    and c: "claims_ok (e\<lparr>en_db := s'\<rparr>)" and b: "budget m s'"
  shows "rest_ok m (e\<lparr>en_db := s'\<rparr>)"
proof -
  have "fl_built s' (en_fl e)" "mg_built s' (en_mg e)"
    using r N by (auto intro!: fl_built_frame [OF _ i q wf _ v same(1,2)] mg_built_frame [OF _ q wf _ v same(1)] simp: rest_ok_def)
  then show ?thesis using r c b same(1,3) by (auto simp: rest_ok_def dead_logs_def)
qed

subsection \<open>Steps\<close>

definition advances :: "nat \<Rightarrow> engine \<Rightarrow> event \<Rightarrow> engine \<Rightarrow> kv_record list option \<Rightarrow> kv_record list \<Rightarrow> nat \<Rightarrow> bool" where
  "advances n e ev e' fl w k \<longleftrightarrow> (\<exists>fl' w' k'. dinv (Suc n) e' fl' w' k' \<and>
     (\<forall>evs m0. hist evs m0 (tables_map (en_db e)) (fl_recs fl @ w) (length (fl_recs fl) + k) \<longrightarrow>
        hist (evs @ [ev]) m0 (tables_map (en_db e')) (fl_recs fl' @ w') (length (fl_recs fl') + k')))"

definition steps_left :: "nat \<Rightarrow> bool" where
  "steps_left n \<longleftrightarrow> n + 1 < 2 ^ 31"

lemma advancesI:
  assumes "dinv (Suc n) e' fl' w' k'"
    and "\<And>evs m0. hist evs m0 (tables_map (en_db e)) (fl_recs fl @ w) (length (fl_recs fl) + k) \<Longrightarrow>
      hist (evs @ [ev]) m0 (tables_map (en_db e')) (fl_recs fl' @ w') (length (fl_recs fl') + k')"
  shows "advances n e ev e' fl w k"
  using assms unfolding advances_def by blast

lemma advance_same:
  assumes "dinv (Suc n) e' fl w k \<and> tables_map (en_db e') = tables_map (en_db e)" and "map_step ev = id" and "\<not> durable_ev ev"
  shows "advances n e ev e' fl w k"
proof (rule advancesI [OF conjunct1 [OF assms(1)]])
  fix evs m0
  assume "hist evs m0 (tables_map (en_db e)) (fl_recs fl @ w) (length (fl_recs fl) + k)"
  from hist_read [OF this assms(2)] assms(1,3)
  show "hist (evs @ [ev]) m0 (tables_map (en_db e')) (fl_recs fl @ w) (length (fl_recs fl) + k)" by simp
qed

lemma map_step_id [simp]: "map_step EvTau = id" "map_step EvSync = id" "map_step (EvGet k ans) = id" "map_step (EvScan a b out) = id"
  by auto

lemma budget_seq:
  assumes "budget n s" and "steps_left n"
  shows "unat (db_seq s) < UINT32_MAX" and "unat (db_seq s) + 1 < UINT32_MAX" and "unat (db_gen s) < UINT32_MAX"
  using assms by (simp_all add: budget_def steps_left_def UINT32_MAX_def)

lemma dinv_parts:
  assumes "dinv n e fl w k"
  shows "engine_inv e" and "db_inv (en_db e)" and "fl_ok (en_db e) (en_fl e)" and "mg_ok (en_db e) (en_mg e)" and "dur (en_db e) fl w k"
    and "rest_ok n e" and "claims_ok e" and "budget n (en_db e)" and "dwf (db_disk (en_db e))" and "vlog_on (en_db e)" and "levels_ok (en_db e)"
proof -
  show e: "engine_inv e" and d: "dur (en_db e) fl w k" and r: "rest_ok n e" using assms by (simp_all add: dinv_def)
  show "db_inv (en_db e)" "fl_ok (en_db e) (en_fl e)" "mg_ok (en_db e) (en_mg e)" using e by (simp_all add: engine_inv_def)
  show "claims_ok e" "budget n (en_db e)" using r by (simp_all add: rest_ok_def)
  show "dwf (db_disk (en_db e))" by (rule dur_dwf [OF d])
  show "vlog_on (en_db e)" "levels_ok (en_db e)" using d by (simp_all add: dur_def)
qed

lemma distinct_without: "distinct (xs @ ys @ zs) \<Longrightarrow> distinct (xs @ zs)"
  by auto

lemma dinv_frame:
  assumes D: "dinv n e fl w k" and I: "engine_inv (e\<lparr>en_db := s'\<rparr>)" and q: "quiet N (db_disk (en_db e)) (db_disk s')"
    and N: "N \<inter> (guarded (en_db e) \<union> set (fl_claim (en_db e) @ mg_claim (en_mg e))) = {}"
    and v: "vlog_on s'" "grown (db_disk (en_db e)) (db_disk s') (vlog_name (db_gen (en_db e)))"
    and same: "db_gen s' = db_gen (en_db e)" "db_ssts s' = db_ssts (en_db e)" "db_mem s' = db_mem (en_db e)"
      "db_has_flushing s' = db_has_flushing (en_db e)" "db_fmem s' = db_fmem (en_db e)" "db_level s' = db_level (en_db e)"
      "db_fseq s' = db_fseq (en_db e)" "db_seq s' = db_seq (en_db e)"
    and sub: "set (db_dead_vlogs s') \<subseteq> set (db_dead_vlogs (en_db e))" "\<exists>pre. db_dead_ssts (en_db e) = pre @ db_dead_ssts s'"
  shows "dinv (Suc n) (e\<lparr>en_db := s'\<rparr>) fl w k \<and> tables_map s' = tables_map (en_db e)"
proof -
  note p = dinv_parts [OF D]
  have inv': "db_inv s'" using I by (simp add: engine_inv_def)
  have lv: "levels_ok s'" using p(11) same(6) by (simp add: levels_ok_def)
  have N1: "N \<inter> guarded (en_db e) = {}" and N2: "N \<inter> set (fl_claim (en_db e) @ mg_claim (en_mg e)) = {}" using N by blast+
  have seq: "db_seq (en_db e) \<le> db_seq s'" using same(8) by simp
  note d = dur_frame [OF p(5) q N1 v inv' same(1-4) same(5) lv seq]
  obtain pre where pre: "db_dead_ssts (en_db e) = pre @ db_dead_ssts s'" using sub(2) by blast
  have c: "claims (e\<lparr>en_db := s'\<rparr>) = map sst_path (db_ssts (en_db e)) @ map sst_path (db_dead_ssts s') @ fl_claim (en_db e) @ mg_claim (en_mg e)"
    by (simp add: claims_def fl_claim_def same)
  have "claims e = map sst_path (db_ssts (en_db e)) @ map sst_path pre @ map sst_path (db_dead_ssts s') @ fl_claim (en_db e) @ mg_claim (en_mg e)"
    by (simp add: claims_def pre)
  then have "distinct (claims (e\<lparr>en_db := s'\<rparr>))" unfolding c using p(7) distinct_without by (metis claims_ok_def)
  moreover have "set (claims (e\<lparr>en_db := s'\<rparr>)) \<subseteq> set (claims e)" unfolding c by (auto simp: claims_def pre)
  ultimately have "claims_ok (e\<lparr>en_db := s'\<rparr>)" using p(7) same(8) unfolding claims_ok_def by (simp add: subset_iff)
  moreover have "budget (Suc n) s'" using p(8) same(1,8) by (simp add: budget_def)
  ultimately have "rest_ok (Suc n) (e\<lparr>en_db := s'\<rparr>)" using rest_frame [OF p(6,3) q p(9) N2 v(2) same(1) _ sub(1)] same(7) by simp
  with d I show ?thesis by (simp add: dinv_def)
qed

text \<open>Steps that change no file and nothing of the link.\<close>

lemma dinv_quiet:
  assumes D: "dinv n e fl w k" and I: "engine_inv (e\<lparr>en_db := s'\<rparr>)"
    and s': "s' = (en_db e)\<lparr>db_stat := st, db_bloom_on := b, db_stop := h, db_waiters := x\<rparr>"
  shows "dinv (Suc n) (e\<lparr>en_db := s'\<rparr>) fl w k \<and> tables_map s' = tables_map (en_db e)"
proof -
  have "vlog_on s'" by (rule vlog_on_frame [OF dinv_parts(10) [OF D]]) (simp_all add: s')
  moreover have "quiet {} (db_disk (en_db e)) (db_disk s')" by (simp add: s' qt.frame_refl)
  moreover have "grown (db_disk (en_db e)) (db_disk s') (vlog_name (db_gen (en_db e)))" by (simp add: s' same_grown)
  ultimately show ?thesis by (intro dinv_frame [OF D I, of "{}"]) (simp_all add: s')
qed

lemma dinv_stay: "dinv n e fl w k \<Longrightarrow> dinv (Suc n) e fl w k"
  by (auto simp: dinv_def rest_ok_def budget_def)

lemma reap_sst_step:
  assumes D: "dinv n e fl w k" and I: "engine_inv (e\<lparr>en_db := reap_sst (en_db e)\<rparr>)"
  shows "dinv (Suc n) (e\<lparr>en_db := reap_sst (en_db e)\<rparr>) fl w k \<and> tables_map (reap_sst (en_db e)) = tables_map (en_db e)"
proof (cases "db_dead_ssts (en_db e)")
  case Nil
  then have "reap_sst (en_db e) = en_db e" by (simp add: reap_sst_def)
  then show ?thesis using dinv_stay [OF D] by simp
next
  case (Cons t ts)
  let ?s = "en_db e" and ?N = "{sst_path t}"
  let ?s' = "reap_sst ?s"
  have c: "claims_ok e" by (rule dinv_parts [OF D])
  then obtain m where m: "sst_path t = sst_name m" using Cons by (auto simp: claims_ok_def claims_def)
  have q: "quiet ?N (db_disk ?s) (db_disk ?s')" by (simp add: reap_sst_def Cons sst_destroy_def quiet_unlink qt.frame_refl)
  have vg: "same_file (db_disk ?s) (db_disk ?s') (vlog_name (db_gen ?s))"
    by (rule quietD(2) [OF q dinv_parts(9) [OF D]]) (simp add: m)
  have on: "vlog_on ?s'"
    by (rule vlog_on_frame [OF dinv_parts(10) [OF D]]) (use vg in \<open>simp_all add: reap_sst_def Cons same_file_def\<close>)
  have N: "?N \<inter> (guarded ?s \<union> set (fl_claim ?s @ mg_claim (en_mg e))) = {}"
    using c m by (auto simp: claims_ok_def claims_def guarded_def Cons)
  show ?thesis
    by (rule dinv_frame [OF D I q N on same_grown [OF vg]]) (simp_all add: reap_sst_def Cons)
qed

lemma reap_vlog_step:
  assumes D: "dinv n e fl w k" and I: "engine_inv (e\<lparr>en_db := reap_vlog (en_db e)\<rparr>)"
  shows "dinv (Suc n) (e\<lparr>en_db := reap_vlog (en_db e)\<rparr>) fl w k \<and> tables_map (reap_vlog (en_db e)) = tables_map (en_db e)"
proof (cases "db_dead_vlogs (en_db e)")
  case Nil
  then have "reap_vlog (en_db e) = en_db e" by (simp add: reap_vlog_def)
  then show ?thesis using dinv_stay [OF D] by simp
next
  case (Cons v vs)
  let ?s = "en_db e" and ?N = "{vl_path v}"
  let ?s' = "reap_vlog ?s"
  have "dead_logs ?s" using dinv_parts(6) [OF D] by (simp add: rest_ok_def)
  then obtain h where h: "h < db_gen ?s" "vl_path v = vlog_name h" using Cons by (auto simp: dead_logs_def)
  have q: "quiet ?N (db_disk ?s) (db_disk ?s')" by (simp add: reap_vlog_def Cons vlog_destroy_def quiet_unlink qt.frame_refl)
  have vg: "same_file (db_disk ?s) (db_disk ?s') (vlog_name (db_gen ?s))"
    by (rule quietD(2) [OF q dinv_parts(9) [OF D]]) (use h in \<open>auto simp: vlog_name_inj\<close>)
  have on: "vlog_on ?s'"
    by (rule vlog_on_frame [OF dinv_parts(10) [OF D]]) (use vg in \<open>simp_all add: reap_vlog_def Cons same_file_def\<close>)
  have "\<exists>m. p = sst_name m" if "p \<in> set (claims e)" for p using dinv_parts(7) [OF D] that by (auto simp: claims_ok_def)
  then have N: "?N \<inter> (guarded ?s \<union> set (fl_claim ?s @ mg_claim (en_mg e))) = {}"
    using h(2) unfolding claims_def guarded_def by fastforce
  show ?thesis
    by (rule dinv_frame [OF D I q N on same_grown [OF vg]]) (auto simp: reap_vlog_def Cons)
qed

subsection \<open>Sealing and writing\<close>

text \<open>A new name is free as long as the counter has not wrapped around.\<close>

lemma claims_fresh: "claims_ok e \<Longrightarrow> sst_name (db_seq (en_db e)) \<notin> set (claims e)"
  by (auto simp: claims_ok_def sst_name_inj)

lemma claims_extend:
  assumes c: "claims_ok e" and seq: "unat (db_seq (en_db e)) < UINT32_MAX" "db_seq (en_db e') = db_seq (en_db e) + 1"
    and m: "mset (claims e') = mset (claims e) + {#sst_name (db_seq (en_db e))#}"
  shows "claims_ok e'"
proof -
  let ?n = "sst_name (db_seq (en_db e))"
  have "mset (claims e') = mset (?n # claims e)" using m by simp
  then have s: "set (claims e') = set (?n # claims e)" "distinct (claims e') = distinct (?n # claims e)"
    by (metis mset_eq_setD, metis mset_eq_imp_distinct_iff)
  have "\<exists>n < db_seq (en_db e'). p = sst_name n" if "p \<in> set (claims e')" for p
  proof (cases "p = ?n")
    case True
    then show ?thesis using u32_seq [OF seq(1)] seq(2) by auto
  next
    case False
    then have "p \<in> set (claims e)" using that s(1) by auto
    then obtain n where "n < db_seq (en_db e)" "p = sst_name n" using c by (auto simp: claims_ok_def)
    then show ?thesis using u32_seq [OF seq(1)] seq(2) by (metis order_less_trans)
  qed
  then show ?thesis using c claims_fresh [OF c] s(2) by (simp add: claims_ok_def)
qed

lemma rest_stay: "rest_ok n e \<Longrightarrow> rest_ok (Suc n) e"
  by (auto simp: rest_ok_def budget_def)

lemma seal_rest:
  assumes d: "dur s fl w k" and inv: "db_inv s" "db_inv s'" and ok: "fl_ok s (en_fl e)" and R: "rest_ok n (e\<lparr>en_db := s\<rparr>)" and left: "steps_left n"
    and run: "seal_locked no_faults s = (Inr (), s')" and free: "\<not> db_has_flushing s"
  shows "\<exists>fl' w' k'. dur s' fl' w' k' \<and> fl_recs fl' @ w' = fl_recs fl @ w \<and> length (fl_recs fl) + k \<le> length (fl_recs fl') + k' \<and>
    tables_map s' = tables_map s \<and> rest_ok (Suc n) (e\<lparr>en_db := s'\<rparr>)"
proof -
  have b: "budget n s" and c: "claims_ok (e\<lparr>en_db := s\<rparr>)" using R by (simp_all add: rest_ok_def)
  note seq = budget_seq [OF b left]
  note u = u32_seq [OF seq(1)]
  from dur_seal [OF d inv(1) free run inv(2)] u consider "s' = s"
    | "dur s' (Some w) [] 0" "tables_map s' = tables_map s" "db_seq s' = db_seq s + 1" "db_fseq s' = db_seq s"
      "db_has_flushing s'" "quiet {wal_name, flushing_wal_name} (db_disk s) (db_disk s')"
      "s' = s\<lparr>db_disk := db_disk s', db_wal := db_wal s', db_seq := db_seq s', db_fseq := db_fseq s', db_fmem := db_mem s,
        db_mem := memtable0, db_has_flushing := True\<rparr>" by auto
  then show ?thesis
  proof cases
    case 1
    then show ?thesis using d rest_stay [OF R] by blast
  next
    case 2
    have f: "db_ssts s' = db_ssts s" "db_dead_ssts s' = db_dead_ssts s" "db_dead_vlogs s' = db_dead_vlogs s" "db_gen s' = db_gen s"
      by (subst 2(7), simp)+
    have "mset (claims (e\<lparr>en_db := s'\<rparr>)) = mset (claims (e\<lparr>en_db := s\<rparr>)) + {#sst_name (db_seq s)#}"
      using free 2(4,5) by (simp add: claims_def fl_claim_def f)
    then have c': "claims_ok (e\<lparr>en_db := s'\<rparr>)" using claims_extend [OF c] seq(1) 2(3) by simp
    have wf: "dwf (db_disk s)" by (rule dur_dwf [OF d])
    have vg: "grown (db_disk s) (db_disk s') (vlog_name (db_gen s))" by (rule quiet_other_vlog [OF 2(6) wf]) simp
    have "p \<noteq> wal_name \<and> p \<noteq> flushing_wal_name" if "p \<in> set (claims (e\<lparr>en_db := s\<rparr>))" for p
      using c that by (auto simp: claims_ok_def)
    then have N: "{wal_name, flushing_wal_name} \<inter> set (fl_claim s @ mg_claim (en_mg e)) = {}" by (auto simp: claims_def)
    have "budget (Suc n) s'" using b u 2(3) f(4) by (simp add: budget_def)
    then have "rest_ok (Suc n) (e\<lparr>en_db := s'\<rparr>)"
      using rest_frame [OF R, of "{wal_name, flushing_wal_name}" s'] ok 2(6) wf N vg f free c' by simp
    moreover have "fl = None" "k \<le> length w" using d free by (simp_all add: dur_def)
    ultimately show ?thesis using 2(1,2) by (intro exI [of _ "Some w"] exI [of _ "[]"] exI [of _ 0]) (simp add: fl_recs_def)
  qed
qed

lemma dur_waiters: "dur s fl w k \<Longrightarrow> dur (s\<lparr>db_waiters := x\<rparr>) fl w k" "tables_map (s\<lparr>db_waiters := x\<rparr>) = tables_map s"
  "rest_ok n (e\<lparr>en_db := s\<rparr>) \<Longrightarrow> rest_ok n (e\<lparr>en_db := s\<lparr>db_waiters := x\<rparr>\<rparr>)" "fl_ok (s\<lparr>db_waiters := x\<rparr>) pc = fl_ok s pc"
  by (simp_all add: dur_def vlog_on_def levels_ok_def tables_map_def fun_eq_iff rest_ok_def claims_ok_def claims_def fl_claim_def fl_built_def
      mg_built_def dead_logs_def budget_def fl_ok_def flushed_ok_def cong: flusher_pc.case_cong merger_pc.case_cong)

lemma maybe_seal_rest:
  assumes d: "dur s fl w k" and inv: "db_inv s" "db_inv s'" and ok: "fl_ok s (en_fl e)" and R: "rest_ok n (e\<lparr>en_db := s\<rparr>)" and left: "steps_left n"
    and run: "maybe_seal no_faults s = (Inr (), s')"
  shows "\<exists>fl' w' k'. dur s' fl' w' k' \<and> fl_recs fl' @ w' = fl_recs fl @ w \<and> length (fl_recs fl) + k \<le> length (fl_recs fl') + k' \<and>
    tables_map s' = tables_map s \<and> rest_ok (Suc n) (e\<lparr>en_db := s'\<rparr>)"
proof -
  have "s' = s \<or> s' = s\<lparr>db_waiters := Suc (db_waiters s)\<rparr> \<or> seal_locked no_faults s = (Inr (), s') \<and> \<not> db_has_flushing s"
    using run unfolding maybe_seal_def slot_free_def by (metis prod.inject)
  then consider "s' = s" | "s' = s\<lparr>db_waiters := Suc (db_waiters s)\<rparr>" | "seal_locked no_faults s = (Inr (), s')" "\<not> db_has_flushing s"
    by blast
  then show ?thesis
  proof cases
    case 1
    then show ?thesis using d rest_stay [OF R] by blast
  next
    case 2
    let ?x = "Suc (db_waiters s)"
    show ?thesis unfolding 2
      using dur_waiters(1) [OF d, of ?x] dur_waiters(2) [of ?x s] dur_waiters(3) [OF rest_stay [OF R], of ?x] by blast
  next
    case 3
    from seal_rest [OF d inv ok R left 3] show ?thesis .
  qed
qed

lemma wake_rest:
  assumes d: "dur s fl w k" and inv: "db_inv s" "db_inv s'" and ok: "fl_ok s (en_fl e)" and R: "rest_ok n (e\<lparr>en_db := s\<rparr>)" and left: "steps_left n"
    and run: "maybe_seal_wake no_faults s = (Inr (), s')" and free: "slot_free s"
  shows "\<exists>fl' w' k'. dur s' fl' w' k' \<and> fl_recs fl' @ w' = fl_recs fl @ w \<and> length (fl_recs fl) + k \<le> length (fl_recs fl') + k' \<and>
    tables_map s' = tables_map s \<and> rest_ok (Suc n) (e\<lparr>en_db := s'\<rparr>)"
proof -
  let ?s = "s\<lparr>db_waiters := db_waiters s - 1\<rparr>"
  have d': "dur ?s fl w k" and t: "tables_map ?s = tables_map s" and R': "rest_ok n (e\<lparr>en_db := ?s\<rparr>)" and ok': "fl_ok ?s (en_fl e)"
    using dur_waiters(1) [OF d] dur_waiters(2) dur_waiters(3) [OF R] dur_waiters(4) ok by simp_all
  show ?thesis
  proof (cases "db_stop s")
    case True
    then have "s' = ?s" using run by (simp add: maybe_seal_wake_def)
    then show ?thesis using d' t rest_stay [OF R'] by blast
  next
    case False
    then have run': "seal_locked no_faults ?s = (Inr (), s')" and free': "\<not> db_has_flushing ?s"
      using run free by (simp_all add: maybe_seal_wake_def slot_free_def)
    have "db_inv ?s" using inv(1) by (simp add: db_inv_def wal_inv_def ssts_ok_def dead_ok_def)
    from seal_rest [OF d' this inv(2) ok' R' left run' free'] t show ?thesis by simp
  qed
qed

end
