(* ===== verification/Fresh_Store.thy ===== *)
theory Fresh_Store
  imports Engine Frames
begin

text \<open>
  Opening a store in an empty directory: the constructor creates the write-ahead log, the
  first value-log generation and a manifest, and the result satisfies the invariant of the
  engine with an empty map. Every run of the engine therefore has a beginning to which the
  refinement of the abstract store applies.
\<close>

definition disk0 :: disk where
  "disk0 = \<lparr>dents = [], blobs = (\<lambda>_. []), synced = (\<lambda>_. 0), next_ino = 0\<rparr>"

definition engine0 :: "db \<Rightarrow> engine" where
  "engine0 s = \<lparr>en_db = s, en_fl = FlIdle, en_mg = MgIdle\<rparr>"

text \<open>The directory after the log and the first generation were created.\<close>

definition disk1 :: disk where
  "disk1 = \<lparr>dents = [(vlog_name 0, 1), (wal_name, 0)], blobs = (\<lambda>_. []), synced = (\<lambda>_. 0), next_ino = 2\<rparr>"

definition db1 :: "db_config \<Rightarrow> db" where
  "db1 cf = (db_init cf disk1)\<lparr>db_wal := \<lparr>wal_path = wal_name, wal_fd = Some 0\<rparr>,
     db_vlogs := [(0, \<lparr>vl_path = vlog_name 0, vl_gen = 0, vl_fd = 1, vl_append_off = 0, vl_obsolete = False\<rparr>)]\<rparr>"

lemma fresh_names: "\<not> has_tmp_suffix wal_name" "parse_seq wal_name = Inr None" "parse_vlog_gen wal_name = Inr None"
  "wal_name \<noteq> flushing_wal_name" "wal_name \<noteq> man_name" "man_name \<noteq> wal_name" "vlog_name g \<noteq> wal_name"
  by code_simp+

lemma const_upd: "(\<lambda>_. x)(i := x) = (\<lambda>_. x)"
  by (simp add: fun_eq_iff)

definition disk_wal :: disk where
  "disk_wal = \<lparr>dents = [(wal_name, 0)], blobs = (\<lambda>_. []), synced = (\<lambda>_. 0), next_ino = Suc 0\<rparr>"

lemma fresh_pieces:
  fixes cf
  defines "s0 \<equiv> (db_init cf disk0)\<lparr>db_wal := \<lparr>wal_path = wal_name, wal_fd = Some 0\<rparr>, db_disk := disk_wal\<rparr>"
  shows "open_wal no_faults False (db_init cf disk0) = (Inr (), s0)" and "manifest_read no_faults (db_disk s0) = Inr None"
    and "load_tables no_faults None s0 = (Inr (), db1 cf)"
    and "replay_into no_faults wal_name (db1 cf) = (Inr (), db1 cf)" and "d_ino (db_disk (db1 cf)) flushing_wal_name = None"
proof -
  show "open_wal no_faults False (db_init cf disk0) = (Inr (), s0)"
    by (simp add: s0_def open_wal_def sbind_def on_disk_def wal_open_def no_faults_def d_create_def d_ino_def disk0_def disk_wal_def
        db_init_def wal_move_assign_def wal_close_fd_def const_upd)
  show "manifest_read no_faults (db_disk s0) = Inr None"
    by (simp add: s0_def manifest_read_def d_read_def d_ino_def fresh_names disk_wal_def)
  show "load_tables no_faults None s0 = (Inr (), db1 cf)"
    by (simp add: s0_def disk_wal_def fresh_names sbind_def d_ino_def load_tables_def load_sstables_def load_vlogs_def dir_names_def
        load_one_def load_vlog_one_def stable_sort_def open_vlog_def on_disk_def vlog_open_def no_faults_def d_create_def
        level_all_0_def add_levels_def db1_def disk1_def db_init_def vlogs_set_def const_upd)
  show "replay_into no_faults wal_name (db1 cf) = (Inr (), db1 cf)" "d_ino (db_disk (db1 cf)) flushing_wal_name = None"
    by (simp_all add: fresh_names sbind_def d_ino_def d_read_def replay_into_def wal_replay_def no_faults_def
        db1_def disk1_def db_init_def replay_loop.simps)
qed

lemma fresh_ctor: "db_ctor no_faults lg (db_init cf disk0) = write_manifest_locked no_faults (db1 cf)"
  using fresh_pieces [of cf] by (simp add: db_ctor_def recover_def sbind_def)

lemma db1_inv: "db_inv (db1 cf)" and db1_abs: "abs_db (db1 cf) = Map.empty"
proof -
  show "db_inv (db1 cf)"
    by (auto simp: db_inv_def db1_def db_init_def vs_inv_def disk_wf_def disk1_def d_ino_def vlog_inv_def wal_inv_def
        fds_def ssts_ok_def dead_ok_def split: if_splits)
  show "abs_db (db1 cf) = Map.empty"
    by (rule ext) (simp add: abs_db_alt db1_def db_init_def)
qed

text \<open>What the constructor leaves in an empty directory.\<close>

lemma fresh_open:
  obtains s d where "db_open no_faults lg cf disk0 = (Inr (), s)" and "db_inv s" and "abs_db s = Map.empty"
    and "engine_inv (engine0 s)" and "s = (db1 cf)\<lparr>db_disk := d\<rparr>"
    and "d_read d man_name = Some (manifest_bytes (db_manifest (db1 cf)))"
proof -
  have vs: "vs_inv (db_vlogs (db1 cf)) (db_disk (db1 cf))" using db1_inv by (simp add: db_inv_def)
  obtain d where d: "write_manifest_locked no_faults (db1 cf) = (Inr (), (db1 cf)\<lparr>db_disk := d\<rparr>)"
    "calm (db_vlogs (db1 cf)) (db_disk (db1 cf)) d" "d_ino d wal_name = d_ino (db_disk (db1 cf)) wal_name"
    "d_read d man_name = Some (manifest_bytes (db_manifest (db1 cf)))"
    by (rule write_manifest_ok [OF vs])
  let ?s = "(db1 cf)\<lparr>db_disk := d\<rparr>"
  have s: "db_inv ?s \<and> abs_db ?s = abs_db (db1 cf) \<and> keeps (db1 cf) ?s"
    by (rule same_data [OF db1_inv d(2,3)]) (use dead_okI [OF db1_inv [of cf]] in \<open>simp_all add: dead_ok_def\<close>)
  then have "engine_inv (engine0 ?s)" by (simp add: engine_inv_def engine0_def fl_ok_def mg_ok_def apart_def)
  moreover have "db_open no_faults lg cf disk0 = (Inr (), ?s)"
    using fresh_ctor d(1) by (simp add: db_open_def)
  ultimately show thesis using that [of ?s d] s d(4) by (simp add: db1_abs)
qed


subsection \<open>A store with tables\<close>

text \<open>Values below the separation threshold stay inline, so the sizes of a flush are those of its table.\<close>

lemma separate_inline:
  assumes "\<forall>r\<in>set recs. length (rec_value r) < sep"
  shows "separate no_faults sep gen recs s = (Inr (recs, 0), s)"
proof -
  have "sfold (separate_step no_faults sep gen) recs (out, 0) s = (Inr (out @ recs, 0), s)" for out
    using assms by (induction recs arbitrary: out) (auto simp: separate_step_def sbind_def)
  from this [of "[]"] show ?thesis by (simp add: separate_def sbind_def)
qed

lemma inline_flush_fits:
  assumes inv: "db_inv s" and recs: "\<forall>r\<in>set recs. length (rec_value r) < db_sep_threshold s" and fits: "sst_fits lg recs"
  shows "flush_fits lg (db_gen s) recs s"
proof -
  obtain v where v: "map_of (db_vlogs s) (db_gen s) = Some v"
    using inv by (metis db_inv_def map_of_eq_None_iff not_None_eq)
  then have "(db_gen s, v) \<in> set (db_vlogs s)" by (rule map_of_SomeD)
  then have "vlog_inv v (db_disk s)" using inv by (auto simp: db_inv_def vs_inv_def)
  then have "length (blobs (db_disk s) (vl_fd v)) < 2 ^ 64"
    using unsigned_less [of "vl_append_off v", where 'a = nat] by (simp add: vlog_inv_def)
  moreover have sum0: "sum_list (map (sep_cost (db_sep_threshold s)) recs) = 0"
    using recs by (induction recs) (auto simp: sep_cost_def)
  ultimately show ?thesis
    using fits by (simp add: flush_fits_def vlog_room_def v sum0 separate_inline [OF recs])
qed


lemma one_put_snapshot: "mt_snapshot (mt_put k v memtable0) = [mk_record Put k v]" "mt_snapshot (mt_del k memtable0) = [mk_record Delete k []]"
  by (simp_all add: mt_snapshot_map mt_put_def mt_del_def memtable0_def entry_record_def)

text \<open>A store that is between flushes, and stays small.\<close>

definition rested :: "db \<Rightarrow> bool" where
  "rested s \<longleftrightarrow> db_inv s \<and> db_mem s = memtable0 \<and> \<not> db_has_flushing s \<and> \<not> db_stop s \<and> \<not> db_compacting s \<and>
     1000 < db_threshold s \<and> 100 < db_sep_threshold s"

lemma small_write:
  assumes s: "rested s" and len: "length k \<le> 100" "length v \<le> 100" and mem: "db_mem s1 = mt_put k v memtable0"
    and inv: "db_inv s1" and st: "settled s s1"
  shows "\<not> mt_empty (db_mem s1)" and "mt_snapshot (db_mem s1) = [mk_record Put k v]"
    and "length v < db_sep_threshold s1"
    and "flush_fits lg_const (db_gen s1) (mt_snapshot (db_mem s1)) (s1\<lparr>db_seq := db_seq s1 + 1\<rparr>)"
proof -
  let ?s1 = "s1\<lparr>db_seq := db_seq s1 + 1\<rparr>" and ?r = "mk_record Put k v"
  show snap: "mt_snapshot (db_mem s1) = [?r]" by (simp add: one_put_snapshot mem)
  show "\<not> mt_empty (db_mem s1)" by (simp add: mem mt_empty_def mt_put_def memtable0_def)
  show sep: "length v < db_sep_threshold s1" using s st len by (simp add: rested_def settled_def)
  have "db_inv ?s1" using inv by (simp add: db_inv_def wal_inv_def ssts_ok_def dead_ok_def)
  moreover have "sst_fits lg_const [?r]"
    using one_record_buildable [of ?r] len by (auto simp: buildable_def sst_rec_ok_def UINT32_MAX_def)
  moreover have "\<forall>r\<in>set [?r]. length (rec_value r) < db_sep_threshold ?s1" using sep by simp
  ultimately have "flush_fits lg_const (db_gen ?s1) [?r] ?s1" by (metis inline_flush_fits)
  then show "flush_fits lg_const (db_gen s1) (mt_snapshot (db_mem s1)) ?s1" using snap by simp
qed

lemma small_put:
  assumes s: "rested s" and len: "length k \<le> 100" "length v \<le> 100"
  obtains s1 where "db_put no_faults k v True s = (Inr (), s1)" and "db_inv s1"
    and "db_mem s1 = mt_put k v memtable0" and "db_ssts s1 = db_ssts s" and "\<not> db_has_flushing s1" and "\<not> db_compacting s1"
    and "\<not> db_stop s1" and "abs_db s1 = (abs_db s)(k \<mapsto> v)" and "settled s s1"
    and "wal_append no_faults (mk_record Put k v) True (db_wal s) (db_disk s) = (Inr (), db_disk s1)" and "db_gen s1 = db_gen s"
proof -
  have inv: "db_inv s" using s by (simp add: rested_def)
  have len': "length k \<le> UINT32_MAX" "length v \<le> UINT32_MAX" using len by (simp_all add: UINT32_MAX_def)
  obtain s1 where s1: "db_put no_faults k v True s = (Inr (), s1)" "db_inv s1" "abs_db s1 = (abs_db s)(k \<mapsto> v)" "keeps s s1"
    by (rule db_put_ok [OF inv len'])
  note st1 = framed_run [OF framed_writes(1) s1(1)]
  obtain d' where d': "wal_append no_faults (mk_record Put k v) True (db_wal s) (db_disk s) = (Inr (), d')"
    using db_wal_append_ok [OF inv, of "mk_record Put k v"] len' by auto
  have "mt_size (mt_put k v memtable0) = of_nat (length k + length v)"
    by (simp add: mt_put_def memtable0_def entry_bytes_def)
  then have "unat (mt_size (mt_put k v memtable0)) < db_threshold s"
    using s len unat_of_nat_u64 [of "length k + length v"] by (simp add: rested_def)
  then have "db_mem s1 = mt_put k v memtable0" "db_ssts s1 = db_ssts s" "\<not> db_has_flushing s1" "\<not> db_compacting s1"
    "db_disk s1 = d'" "db_gen s1 = db_gen s"
    using s s1(1) d' by (auto simp: db_put_def sbind_def on_disk_def add_stats_def maybe_seal_def rested_def)
  then show thesis using that [OF s1(1,2)] s s1(3) st1 d' by (simp add: rested_def settled_def)
qed

lemma put_flush:
  assumes s: "rested s" and len: "length k \<le> 100" "length v \<le> 100"
  obtains s1 s2 t where "db_put no_faults k v True s = (Inr (), s1)" and "db_flush no_faults lg_const s1 = (Inr (), s2)"
    and "rested s2" and "db_ssts s2 = t # db_ssts s" and "sst_records t = [mk_record Put k v]"
    and "abs_db s2 = (abs_db s)(k \<mapsto> v)" and "settled s s2"
proof -
  obtain s1 where s1: "db_put no_faults k v True s = (Inr (), s1)" "db_inv s1" "db_mem s1 = mt_put k v memtable0"
    "db_ssts s1 = db_ssts s" "\<not> db_has_flushing s1" "\<not> db_compacting s1" "\<not> db_stop s1"
    "abs_db s1 = (abs_db s)(k \<mapsto> v)" "settled s s1" by (rule small_put [OF assms])
  note w = small_write [OF s len s1(3,2,9)]
  obtain s2 t where s2: "flush_locked no_faults lg_const s1 = (Inr (), s2)" "db_inv s2" "db_mem s2 = memtable0"
    "db_ssts s2 = t # db_ssts s1" "db_has_flushing s2 = db_has_flushing s1" "db_compacting s2 = db_compacting s1"
    "\<exists>w s1'. separate no_faults (db_sep_threshold s1) (db_gen s1) (mt_snapshot (db_mem s1)) (s1\<lparr>db_seq := db_seq s1 + 1\<rparr>)
      = (Inr (sst_records t, w), s1')"
    by (rule flush_locked_ok [OF s1(2) w(1,4)])
  have abs2: "abs_db s2 = abs_db s1"
    by (rule flush_locked_abs [OF s1(2,5), of lg_const]) (use w s2(1) in auto)
  note st2 = framed_run [OF framed_flush_locked s2(1)]
  have run2: "db_flush no_faults lg_const s1 = (Inr (), s2)" using s2(1) s1(7) by (simp add: db_flush_def sbind_def)
  have st: "settled s s2" by (rule st.frame_trans [OF s1(9) st2])
  moreover have "rested s2" using s s2 s1 st by (simp add: rested_def settled_def)
  moreover have "sst_records t = [mk_record Put k v]"
    using s2(7) w(2,3) separate_inline [of "[mk_record Put k v]" "db_sep_threshold s1"] by auto
  ultimately show thesis using that [OF s1(1) run2, of t] s2(4) s1(4,8) abs2 by simp
qed

definition conf0 :: db_config where
  "conf0 = \<lparr>cf_threshold = 10000, cf_min_merge = 2, cf_size_ratio = 2, cf_sep_threshold = 1000, cf_leveled = False\<rparr>"

lemma fresh_rested:
  obtains s where "db_open no_faults lg conf0 disk0 = (Inr (), s)" and "rested s" and "abs_db s = Map.empty"
    and "engine_inv (engine0 s)" and "db_ssts s = []" and "db_min_merge s = 2" and "\<not> db_leveled s"
proof -
  obtain s d where s: "db_open no_faults lg conf0 disk0 = (Inr (), s)" "db_inv s" "abs_db s = Map.empty"
    "engine_inv (engine0 s)" "s = (db1 conf0)\<lparr>db_disk := d\<rparr>"
    "d_read d man_name = Some (manifest_bytes (db_manifest (db1 conf0)))"
    by (rule fresh_open)
  have "rested s" "db_ssts s = []" "db_min_merge s = 2" "\<not> db_leveled s"
    using s(2) unfolding s(5) by (simp_all add: rested_def db1_def db_init_def conf0_def)
  then show thesis using that s(1,3,4) by blast
qed

lemma two_tables:
  obtains s t u where "rested s" and "db_ssts s = [t, u]" and "sst_records t = [mk_record Put [1] [3]]"
    and "sst_records u = [mk_record Put [1] [2]]" and "abs_db s = [[1] \<mapsto> [3]]" and "db_min_merge s = 2" and "\<not> db_leveled s"
proof -
  obtain s0 where s0: "db_open no_faults lg_const conf0 disk0 = (Inr (), s0)" "rested s0" "abs_db s0 = Map.empty"
    "engine_inv (engine0 s0)" "db_ssts s0 = []" "db_min_merge s0 = 2" "\<not> db_leveled s0" by (rule fresh_rested)
  obtain a s1 u where s1: "rested s1" "db_ssts s1 = u # db_ssts s0" "sst_records u = [mk_record Put [1] [2]]" "abs_db s1 = (abs_db s0)([1] \<mapsto> [2])" "settled s0 s1"
    by (rule put_flush [OF s0(2), of "[1]" "[2]"]) simp_all
  obtain b s2 t where s2: "rested s2" "db_ssts s2 = t # db_ssts s1" "sst_records t = [mk_record Put [1] [3]]" "abs_db s2 = (abs_db s1)([1] \<mapsto> [3])" "settled s1 s2"
    by (rule put_flush [OF s1(1), of "[1]" "[3]"]) simp_all
  show thesis by (rule that [OF s2(1)]) (use s0 s1 s2 in \<open>simp_all add: settled_def\<close>)
qed


lemma small_merge_fits:
  assumes inv: "db_inv s" and job: "job_ok j (db_ssts s)" and ts: "db_ssts s = [t, u]"
    and recs: "sst_records t = [mk_record Put k v]" "sst_records u = [mk_record Put k w]"
    and len: "length k \<le> 100" "length v \<le> 100" "length w \<le> 100"
  shows "merge_fits lg_const j"
proof -
  have "set (mj_inputs j) \<subseteq> set (db_ssts s)" using job by (auto simp: job_ok_def)
  then have sub: "set (mj_inputs j) \<subseteq> {t, u}" by (simp add: ts)
  have inv': "\<forall>x\<in>set (mj_inputs j). sst_inv x" using sub inv ts by (auto simp: db_inv_def ssts_ok_def)
  have m: "merge_records no_faults (mj_inputs j) (mj_drop j) = Inr (merged j)"
    using merge_records_spec [OF inv'] by (simp add: merged_def)
  have keys: "rec_key r = k" "length (rec_value r) \<le> 100" "sst_rec_ok r" if "r \<in> set (merged j)" for r
    using merged_subset [OF that] sub recs len merged_ok [OF inv'] that by (auto simp: list_all_iff)
  have "merged j = [] \<or> (\<exists>r. merged j = [r])"
  proof (rule ccontr)
    assume "\<not> ?thesis"
    then obtain a b xs where "merged j = a # b # xs" by (metis list.exhaust)
    then show False using merged_sorted [of j] keys(1) by auto
  qed
  then have "buildable lg_const (merged j)"
    using keys len one_record_buildable no_record_buildable by auto
  then show ?thesis using m by (simp add: merge_fits_def buildable_def)
qed

end
