(* ===== verification/Crash_Safety.thy ===== *)
theory Crash_Safety
  imports Durability Fresh_Store
begin

text \<open>
  Every step of the engine keeps the directory ahead of the promises made to callers, and
  so a crash at any point between steps loses nothing that was acknowledged as durable:
  the store that is opened afterwards is the map after a prefix of the events.
\<close>

subsection \<open>Writes\<close>

lemma put_split:
  assumes "db_put no_faults k v sync s = (Inr (), s')"
  obtains d' st where "wal_append no_faults (mk_record Put k v) sync (db_wal s) (db_disk s) = (Inr (), d')"
    and "maybe_seal no_faults (s\<lparr>db_disk := d', db_mem := apply_rec (mk_record Put k v) (db_mem s), db_stat := st\<rparr>) = (Inr (), s')"
  using assms that by (auto simp: db_put_def sbind_def on_disk_def add_stats_def apply_rec_def split: prod.splits sum.splits)

lemma del_split:
  assumes "db_del no_faults k sync s = (Inr (), s')"
  obtains d' st where "wal_append no_faults (mk_record Delete k []) sync (db_wal s) (db_disk s) = (Inr (), d')"
    and "maybe_seal no_faults (s\<lparr>db_disk := d', db_mem := apply_rec (mk_record Delete k []) (db_mem s), db_stat := st\<rparr>) = (Inr (), s')"
  using assms that by (auto simp: db_del_def sbind_def on_disk_def add_stats_def apply_rec_def split: prod.splits sum.splits)

lemma append_inv:
  assumes inv: "db_inv s" and r: "wal_ok r" and run: "wal_append no_faults r sync (db_wal s) (db_disk s) = (Inr (), d')"
    and s': "s' = s\<lparr>db_disk := d', db_mem := apply_rec r (db_mem s), db_stat := st\<rparr>"
  shows "db_inv s'" and "keeps s s'" and "quiet {wal_name} (db_disk s) d'"
proof -
  have len: "length (rec_key r) \<le> UINT32_MAX" "length (rec_value r) \<le> UINT32_MAX" using r by (simp_all add: wal_ok_def)
  obtain d1 where d1: "wal_append no_faults r sync (db_wal s) (db_disk s) = (Inr (), d1)" "calm (db_vlogs s) (db_disk s) d1"
    "d_ino d1 wal_name = d_ino (db_disk s) wal_name" by (rule db_wal_append_ok [OF inv len])
  then have c: "calm (db_vlogs s) (db_disk s) d'" "d_ino d' wal_name = d_ino (db_disk s) wal_name" using run by simp_all
  have m: "mem_ok (db_mem s)" using inv by (simp add: db_inv_def)
  have m': "mem_ok (apply_rec r (db_mem s))" using apply_recs_ok [OF m, of "[r]"] r by simp
  have lk: "mt_lookup (apply_rec r (db_mem s)) = (mt_lookup (db_mem s))(rec_key r \<mapsto> rec_answer r)"
    using m mt_lookup_apply by (auto simp: mem_ok_def fun_eq_iff)
  show "db_inv s'" "keeps s s'" using write_mem_ok [OF inv m' s' c lk] by blast+
  obtain i where i: "wal_fd (db_wal s) = Some i" "d_ino (db_disk s) wal_name = Some i" using inv by (auto simp: db_inv_def wal_inv_def)
  let ?d1 = "d_append i (wal_encode r) (db_disk s)"
  have d': "d' = (if sync then d_fsync i ?d1 else ?d1)"
    using run len i(1) by (auto simp: wal_append_def wal_sync_def no_faults_def Let_def split: if_splits)
  have i1: "d_ino ?d1 wal_name = Some i" using i(2) by (simp add: d_append_def d_set_def d_ino_def)
  show "quiet {wal_name} (db_disk s) d'"
    unfolding d' using quiet_fd(2) [OF i(2), of "{wal_name}"] qt.frame_trans [OF quiet_fd(2) [OF i(2)] quiet_fd(3) [OF i1], of "{wal_name}"]
    by simp
qed

lemma claims_names:
  assumes "claims_ok e" and "p \<in> set (claims e)"
  shows "p \<noteq> wal_name" and "p \<noteq> flushing_wal_name" and "p \<noteq> man_name" and "p \<noteq> man_tmp_name" and "p \<noteq> vlog_name g"
    and "p \<noteq> sst_name q @ tmp_suffix"
  using assms by (auto simp: claims_ok_def)

lemma write_step:
  assumes D: "dinv n e fl w k" and left: "steps_left n" and I: "engine_inv (e\<lparr>en_db := s'\<rparr>)" and r: "wal_ok r"
    and ev: "map_step ev = rec_step r" "durable_ev ev = sync"
    and run: "wal_append no_faults r sync (db_wal (en_db e)) (db_disk (en_db e)) = (Inr (), d')"
      "maybe_seal no_faults ((en_db e)\<lparr>db_disk := d', db_mem := apply_rec r (db_mem (en_db e)), db_stat := st\<rparr>) = (Inr (), s')"
  shows "advances n e ev (e\<lparr>en_db := s'\<rparr>) fl w k"
proof -
  let ?s = "en_db e"
  define s1 where "s1 = ?s\<lparr>db_disk := d', db_mem := apply_rec r (db_mem ?s), db_stat := st\<rparr>"
  note p = dinv_parts [OF D]
  note a = append_inv [OF p(2) r run(1) s1_def]
  let ?k = "if sync then Suc (length w) else k"
  have d1: "dur s1 fl (w @ [r]) ?k" "tables_map s1 = tables_map ?s"
    by (rule dur_append [OF p(5,2) a(1) r run(1) s1_def])+
  have q: "quiet {wal_name} (db_disk ?s) (db_disk s1)" using a(3) by (simp add: s1_def)
  have N: "{wal_name} \<inter> set (fl_claim ?s @ mg_claim (en_mg e)) = {}" using claims_names(1) [OF p(7)] by (auto simp: claims_def)
  have vg: "grown (db_disk ?s) (db_disk s1) (vlog_name (db_gen ?s))" by (rule quiet_other_vlog [OF q p(9)]) simp
  have "claims_ok (e\<lparr>en_db := s1\<rparr>)" using p(7) by (simp add: claims_ok_def claims_def fl_claim_def s1_def)
  moreover have "budget n s1" using p(8) by (simp add: budget_def s1_def)
  ultimately have R: "rest_ok n (e\<lparr>en_db := s1\<rparr>)" using rest_frame [OF p(6,3) q p(9) N vg] by (simp add: s1_def)
  have ok: "fl_ok s1 (en_fl e)" by (rule keeps_fl [OF a(2) p(3)])
  have inv': "db_inv s'" using I by (simp add: engine_inv_def)
  obtain fl' w' k' where f: "dur s' fl' w' k'" "fl_recs fl' @ w' = fl_recs fl @ w @ [r]" "length (fl_recs fl) + ?k \<le> length (fl_recs fl') + k'"
    "tables_map s' = tables_map s1" "rest_ok (Suc n) (e\<lparr>en_db := s'\<rparr>)"
    using maybe_seal_rest [OF d1(1) a(1) inv' ok R left run(2) [folded s1_def]] by blast
  show ?thesis
  proof (rule advancesI)
    show "dinv (Suc n) (e\<lparr>en_db := s'\<rparr>) fl' w' k'" using I f(1,5) by (simp add: dinv_def)
    fix evs m0 assume h: "hist evs m0 (tables_map ?s) (fl_recs fl @ w) (length (fl_recs fl) + k)"
    have "k \<le> length w" using p(5) by (simp add: dur_def)
    from hist_write [OF h ev(1)] this ev(2)
    have "hist (evs @ [ev]) m0 (tables_map ?s) (fl_recs fl @ w @ [r]) (length (fl_recs fl) + ?k)" by (auto split: if_splits)
    from hist_mono [OF this f(3)] f(2,4) d1(2)
    show "hist (evs @ [ev]) m0 (tables_map (en_db (e\<lparr>en_db := s'\<rparr>))) (fl_recs fl' @ w') (length (fl_recs fl') + k')" by simp
  qed
qed

lemma put_step:
  assumes "dinv n e fl w k" and "steps_left n" and "engine_inv (e\<lparr>en_db := s'\<rparr>)" and "length key \<le> UINT32_MAX" "length val \<le> UINT32_MAX"
    and "db_put no_faults key val sync (en_db e) = (Inr (), s')"
  shows "advances n e (EvPut key val sync) (e\<lparr>en_db := s'\<rparr>) fl w k"
proof -
  have r: "wal_ok (mk_record Put key val)" using assms(4,5) by (simp add: wal_ok_def)
  have ev: "map_step (EvPut key val sync) = rec_step (mk_record Put key val)" by (simp add: fun_eq_iff rec_step_def rec_answer_def)
  show ?thesis using assms(6) by (rule put_split) (rule write_step [OF assms(1-3) r ev], simp_all)
qed

lemma del_step:
  assumes "dinv n e fl w k" and "steps_left n" and "engine_inv (e\<lparr>en_db := s'\<rparr>)" and "length key \<le> UINT32_MAX"
    and "db_del no_faults key sync (en_db e) = (Inr (), s')"
  shows "advances n e (EvDel key sync) (e\<lparr>en_db := s'\<rparr>) fl w k"
proof -
  have r: "wal_ok (mk_record Delete key [])" using assms(4) by (simp add: wal_ok_def)
  have ev: "map_step (EvDel key sync) = rec_step (mk_record Delete key [])" by (simp add: fun_eq_iff rec_step_def rec_answer_def)
  show ?thesis using assms(5) by (rule del_split) (rule write_step [OF assms(1-3) r ev], simp_all)
qed

lemma sync_step:
  assumes D: "dinv n e fl w k" and I: "engine_inv (e\<lparr>en_db := s'\<rparr>)" and run: "db_sync no_faults (en_db e) = (Inr (), s')"
  shows "advances n e EvSync (e\<lparr>en_db := s'\<rparr>) fl w k"
proof -
  let ?s = "en_db e"
  note p = dinv_parts [OF D]
  have inv': "db_inv s'" using I by (simp add: engine_inv_def)
  note y = dur_sync [OF p(5,2) inv' run]
  define d1 where "d1 = db_disk s'"
  have s': "s' = ?s\<lparr>db_disk := d1\<rparr>" using y(3) by (simp add: d1_def)
  have N: "{wal_name} \<inter> set (fl_claim ?s @ mg_claim (en_mg e)) = {}" using claims_names(1) [OF p(7)] by (auto simp: claims_def)
  have vg: "grown (db_disk ?s) (db_disk s') (vlog_name (db_gen ?s))" by (rule quiet_other_vlog [OF y(4) p(9)]) simp
  have "claims_ok (e\<lparr>en_db := s'\<rparr>)" using p(7) by (simp add: claims_ok_def claims_def fl_claim_def s')
  moreover have "budget (Suc n) s'" using p(8) by (simp add: budget_def s')
  ultimately have R: "rest_ok (Suc n) (e\<lparr>en_db := s'\<rparr>)" using rest_frame [OF p(6,3) y(4) p(9) N vg] by (simp add: s')
  show ?thesis
  proof (rule advancesI)
    show "dinv (Suc n) (e\<lparr>en_db := s'\<rparr>) fl w (length w)" using I y(1) R by (simp add: dinv_def)
    fix evs m0 assume h: "hist evs m0 (tables_map ?s) (fl_recs fl @ w) (length (fl_recs fl) + k)"
    have "k \<le> length w" using p(5) by (simp add: dur_def)
    then have "hist evs m0 (tables_map ?s) (fl_recs fl @ w) (length (fl_recs fl) + length w)" by (intro hist_mono [OF h]) simp
    from hist_read [OF this, of EvSync] y(2)
    show "hist (evs @ [EvSync]) m0 (tables_map (en_db (e\<lparr>en_db := s'\<rparr>))) (fl_recs fl @ w) (length (fl_recs fl) + length w)" by simp
  qed
qed

lemma wake_step:
  assumes D: "dinv n e fl w k" and left: "steps_left n" and I: "engine_inv (e\<lparr>en_db := s'\<rparr>)" and free: "slot_free (en_db e)"
    and run: "maybe_seal_wake no_faults (en_db e) = (Inr (), s')"
  shows "advances n e EvTau (e\<lparr>en_db := s'\<rparr>) fl w k"
proof -
  note p = dinv_parts [OF D]
  have inv': "db_inv s'" using I by (simp add: engine_inv_def)
  have R: "rest_ok n (e\<lparr>en_db := en_db e\<rparr>)" using p(6) by simp
  obtain fl' w' k' where f: "dur s' fl' w' k'" "fl_recs fl' @ w' = fl_recs fl @ w" "length (fl_recs fl) + k \<le> length (fl_recs fl') + k'"
    "tables_map s' = tables_map (en_db e)" "rest_ok (Suc n) (e\<lparr>en_db := s'\<rparr>)"
    using wake_rest [OF p(5,2) inv' p(3) R left run free] by blast
  show ?thesis
  proof (rule advancesI)
    show "dinv (Suc n) (e\<lparr>en_db := s'\<rparr>) fl' w' k'" using I f(1,5) by (simp add: dinv_def)
    fix evs m0 assume h: "hist evs m0 (tables_map (en_db e)) (fl_recs fl @ w) (length (fl_recs fl) + k)"
    from hist_read [OF hist_mono [OF h f(3)], of EvTau] f(2,4)
    show "hist (evs @ [EvTau]) m0 (tables_map (en_db (e\<lparr>en_db := s'\<rparr>))) (fl_recs fl' @ w') (length (fl_recs fl') + k')" by simp
  qed
qed

subsection \<open>Flushes\<close>

lemma hist_checkpoint:
  assumes "hist evs m0 B R D"
  shows "hist (evs @ [EvTau]) m0 (fold rec_step R B) [] 0"
proof -
  have "hist (evs @ [EvTau]) m0 B R D" by (rule hist_read [OF assms]) simp_all
  then obtain n where "acked (evs @ [EvTau]) \<le> n" "n \<le> length (evs @ [EvTau])"
    "fold map_step (take n (evs @ [EvTau])) m0 = fold rec_step (take (max D (length R)) R) B"
    and "fold map_step (evs @ [EvTau]) m0 = fold rec_step R B" unfolding hist_def by (meson max.cobounded1)
  then show ?thesis unfolding hist_def by auto
qed

lemma flush_rest:
  assumes d: "dur s None w k" and inv: "db_inv s" "db_inv s'" and ok: "fl_ok s (en_fl e)" and R: "rest_ok n (e\<lparr>en_db := s\<rparr>)" and left: "steps_left n"
    and fits: "flush_fits lg (db_gen s) (mt_snapshot (db_mem s)) (s\<lparr>db_seq := db_seq s + 1\<rparr>)"
    and run: "flush_locked no_faults lg s = (Inr (), s')"
  shows "s' = s \<and> mt_empty (db_mem s) \<or> dur s' None [] 0 \<and> rest_ok (Suc n) (e\<lparr>en_db := s'\<rparr>) \<and> unat (db_seq s') \<le> unat (db_seq s) + 1 \<and>
    db_gen s' = db_gen s \<and> db_compacting s' = db_compacting s"
proof (cases "mt_empty (db_mem s)")
  case True
  then show ?thesis using run by (simp add: flush_locked_def sbind_def)
next
  case False
  have b: "budget n s" and c: "claims_ok (e\<lparr>en_db := s\<rparr>)" using R by (simp_all add: rest_ok_def)
  note seq = budget_seq [OF b left]
  note u = u32_seq [OF seq(1)]
  let ?N = "{vlog_name (db_gen s), sst_name (db_seq s), sst_name (db_seq s) @ tmp_suffix, man_name, man_tmp_name, wal_name}"
  obtain t where f: "dur s' None [] 0" "db_ssts s' = t # db_ssts s" "sst_path t = sst_name (db_seq s)"
    "s' = s\<lparr>db_disk := db_disk s', db_vlogs := db_vlogs s', db_stat := db_stat s', db_next_obj := db_next_obj s',
      db_level := db_level s', db_ssts := db_ssts s', db_mem := db_mem s', db_wal := db_wal s', db_seq := db_seq s + 1\<rparr>"
    "quiet ?N (db_disk s) (db_disk s')" "grown (db_disk s) (db_disk s') (vlog_name (db_gen s))"
    by (rule dur_flush_locked [OF d inv False fits seq(1) run])
  have g: "db_dead_ssts s' = db_dead_ssts s" "db_dead_vlogs s' = db_dead_vlogs s" "db_gen s' = db_gen s" "db_seq s' = db_seq s + 1"
    "db_has_flushing s' = db_has_flushing s" "db_fseq s' = db_fseq s" "db_compacting s' = db_compacting s"
    by (subst f(4), simp)+
  have "mset (claims (e\<lparr>en_db := s'\<rparr>)) = mset (claims (e\<lparr>en_db := s\<rparr>)) + {#sst_name (db_seq s)#}"
    by (simp add: claims_def fl_claim_def f(2,3) g)
  then have c': "claims_ok (e\<lparr>en_db := s'\<rparr>)" using claims_extend [OF c] seq(1) g(4) by simp
  have "p \<notin> ?N" if "p \<in> set (fl_claim s @ mg_claim (en_mg e))" for p
  proof -
    have p: "p \<in> set (claims (e\<lparr>en_db := s\<rparr>))" using that by (auto simp: claims_def)
    show ?thesis using claims_names [OF c p] claims_fresh [OF c] p by auto
  qed
  then have N: "?N \<inter> set (fl_claim s @ mg_claim (en_mg e)) = {}" by blast
  have b': "budget (Suc n) s'" using b u g(3,4) by (simp add: budget_def)
  have "rest_ok (Suc n) (e\<lparr>en_db := s'\<rparr>)"
    using rest_frame [OF R, of ?N s' "Suc n"] ok f(5,6) dur_dwf [OF d] N g c' b' by simp
  then show ?thesis using f(1) u g by simp
qed

lemma advance_flushed:
  assumes "dur s' None [] 0" and "engine_inv (e\<lparr>en_db := s'\<rparr>)" and "rest_ok (Suc n) (e\<lparr>en_db := s'\<rparr>)"
    and "tables_map s' = fold rec_step (fl_recs fl @ w) (tables_map (en_db e))"
  shows "advances n e EvTau (e\<lparr>en_db := s'\<rparr>) fl w k"
proof (rule advancesI)
  show "dinv (Suc n) (e\<lparr>en_db := s'\<rparr>) None [] 0" using assms(1-3) by (simp add: dinv_def)
  fix evs m0 assume "hist evs m0 (tables_map (en_db e)) (fl_recs fl @ w) (length (fl_recs fl) + k)"
  from hist_checkpoint [OF this] assms(4)
  show "hist (evs @ [EvTau]) m0 (tables_map (en_db (e\<lparr>en_db := s'\<rparr>))) (fl_recs None @ []) (length (fl_recs None) + 0)"
    by (simp add: fl_recs_def)
qed

lemma flush_step:
  assumes D: "dinv n e fl w k" and left: "steps_left n" and I: "engine_inv (e\<lparr>en_db := s'\<rparr>)" and abs: "abs_db s' = abs_db (en_db e)"
    and free: "slot_free (en_db e)"
    and fits: "flush_fits lg (db_gen (en_db e)) (mt_snapshot (db_mem (en_db e))) ((en_db e)\<lparr>db_seq := db_seq (en_db e) + 1\<rparr>)"
    and run: "db_flush no_faults lg (en_db e) = (Inr (), s')"
  shows "advances n e EvTau (e\<lparr>en_db := s'\<rparr>) fl w k"
proof (cases "db_stop (en_db e)")
  case True
  then have "s' = en_db e" using run by (simp add: db_flush_def sbind_def)
  then show ?thesis using dinv_stay [OF D] by (intro advance_same) simp_all
next
  case False
  note p = dinv_parts [OF D]
  have run': "flush_locked no_faults lg (en_db e) = (Inr (), s')" using run False by (simp add: db_flush_def sbind_def)
  have "\<not> db_has_flushing (en_db e)" using free False by (simp add: slot_free_def)
  then have fl: "fl = None" using p(5) by (simp add: dur_def)
  have inv': "db_inv s'" using I by (simp add: engine_inv_def)
  have R: "rest_ok n (e\<lparr>en_db := en_db e\<rparr>)" using p(6) by simp
  from flush_rest [OF p(5) [unfolded fl] p(2) inv' p(3) R left fits run']
  consider "s' = en_db e" | "dur s' None [] 0" "rest_ok (Suc n) (e\<lparr>en_db := s'\<rparr>)" by blast
  then show ?thesis
  proof cases
    case 1
    then show ?thesis using dinv_stay [OF D] by (intro advance_same) simp_all
  next
    case 2
    have "tables_map s' = fold rec_step (fl_recs fl @ w) (tables_map (en_db e))"
      using dur_abs [OF 2(1)] dur_abs [OF p(5)] abs by (simp add: fl_recs_def)
    then show ?thesis by (intro advance_flushed [OF 2(1) I 2(2)]) simp_all
  qed
qed

subsection \<open>The background flush\<close>

lemma claims_mset:
  assumes "claims_ok e" and "mset (claims e') = mset (claims e)" and "db_seq (en_db e') = db_seq (en_db e)"
  shows "claims_ok e'"
proof -
  have "set (claims e') = set (claims e)" "distinct (claims e') = distinct (claims e)"
    using assms(2) by (metis mset_eq_setD, metis mset_eq_imp_distinct_iff)
  then show ?thesis using assms(1,3) by (simp add: claims_ok_def)
qed

lemma fl_begin_step:
  assumes D: "dinv n e fl w k" and I: "engine_inv (e\<lparr>en_fl := FlWorking (flush_begin (en_db e))\<rparr>)"
  shows "advances n e EvTau (e\<lparr>en_fl := FlWorking (flush_begin (en_db e))\<rparr>) fl w k"
proof (rule advance_same)
  show "dinv (Suc n) (e\<lparr>en_fl := FlWorking (flush_begin (en_db e))\<rparr>) fl w k \<and>
      tables_map (en_db (e\<lparr>en_fl := FlWorking (flush_begin (en_db e))\<rparr>)) = tables_map (en_db e)"
    using dinv_stay [OF D] I by (simp add: dinv_def rest_ok_def claims_ok_def claims_def fl_built_def flush_begin_def)
qed simp_all

lemma fl_work_durable:
  assumes D: "dinv n e fl w k" and I: "engine_inv (e\<lparr>en_db := s', en_fl := FlBuilt res\<rparr>)" and pc: "en_fl e = FlWorking j"
    and fits: "flush_fits lg (fj_gen j) (fj_records j) (en_db e)" and run: "flush_work no_faults lg j (en_db e) = (Inr res, s')"
  shows "advances n e EvTau (e\<lparr>en_db := s', en_fl := FlBuilt res\<rparr>) fl w k"
proof -
  let ?s = "en_db e"
  note p = dinv_parts [OF D]
  obtain t b x where res: "res = (t, b, x)" by (cases res)
  have j: "db_has_flushing ?s" "fj_records j = mt_snapshot (db_fmem ?s)" "fj_gen j = db_gen ?s" "fj_seq j = db_fseq ?s"
    using p(3,6) by (simp_all add: pc fl_ok_def rest_ok_def fl_built_def)
  have inv': "db_inv s'" using I by (simp add: engine_inv_def)
  have dist: "distinct (claims e)" "fl_claim ?s = [sst_name (fj_seq j)]" using p(7) j by (simp_all add: claims_ok_def fl_claim_def)
  have fresh: "sst_name (fj_seq j) \<notin> sst_path ` set (db_ssts ?s)" using dist by (auto simp: claims_def)
  note f = dur_flush_work [OF p(5,2) inv' j(2,3) fits fresh run [unfolded res]]
  have g: "db_dead_ssts s' = db_dead_ssts ?s" "db_dead_vlogs s' = db_dead_vlogs ?s" "db_gen s' = db_gen ?s" "db_seq s' = db_seq ?s"
    "db_has_flushing s' = db_has_flushing ?s" "db_fseq s' = db_fseq ?s" "db_ssts s' = db_ssts ?s"
    by (subst f(6), simp)+
  have "sst_name (fj_seq j) \<notin> set (mg_claim (en_mg e))" using dist by (auto simp: claims_def)
  moreover have "q \<noteq> vlog_name (db_gen ?s)" "q \<noteq> sst_name (fj_seq j) @ tmp_suffix" if "q \<in> set (mg_claim (en_mg e))" for q
    using claims_names(5,6) [OF p(7), of q] that by (auto simp: claims_def)
  ultimately have N: "{vlog_name (db_gen ?s), sst_name (fj_seq j), sst_name (fj_seq j) @ tmp_suffix} \<inter> set (mg_claim (en_mg e)) = {}"
    by auto
  have "mg_built s' (en_mg e)"
    by (rule mg_built_frame [OF _ f(4) p(9) N f(5) g(3)]) (use p(6) in \<open>simp add: rest_ok_def\<close>)
  moreover have "claims_ok (e\<lparr>en_db := s', en_fl := FlBuilt res\<rparr>)"
    by (rule claims_mset [OF p(7)]) (simp_all add: claims_def fl_claim_def g)
  moreover have "fl_built s' (FlBuilt res)" using f(2,3) j(4) g by (simp add: fl_built_def res)
  ultimately have "rest_ok (Suc n) (e\<lparr>en_db := s', en_fl := FlBuilt res\<rparr>)"
    using p(6) g by (simp add: rest_ok_def dead_logs_def budget_def)
  then show ?thesis using I f(1) by (intro advance_same) (simp_all add: dinv_def)
qed

lemma fl_install_durable:
  assumes D: "dinv n e fl w k" and left: "steps_left n" and I: "engine_inv (e\<lparr>en_db := s', en_fl := FlIdle\<rparr>)" and pc: "en_fl e = FlBuilt res"
    and run: "flush_install no_faults res (en_db e) = (Inr (), s')"
  shows "advances n e EvTau (e\<lparr>en_db := s', en_fl := FlIdle\<rparr>) fl w k"
proof -
  let ?s = "en_db e"
  note p = dinv_parts [OF D]
  obtain t b x where res: "res = (t, b, x)" by (cases res)
  have h: "db_has_flushing ?s" "flushed_ok t ?s" using p(3) by (simp_all add: pc fl_ok_def res)
  then obtain fr where fr: "fl = Some fr" using p(5) by (auto simp: dur_def)
  have t: "table_on (db_disk ?s) (db_gen ?s) t" "sst_path t = sst_name (db_fseq ?s)" using p(6) by (simp_all add: pc rest_ok_def fl_built_def res)
  have inv': "db_inv s'" using I by (simp add: engine_inv_def)
  have c: "distinct (claims e)" "fl_claim ?s = [sst_name (db_fseq ?s)]" using p(7) h by (simp_all add: claims_ok_def fl_claim_def)
  have fresh: "sst_name (db_fseq ?s) \<notin> sst_path ` set (db_ssts ?s)" using c by (auto simp: claims_def)
  have "sst_name (db_fseq ?s) \<in> set (claims e)" using c(2) by (simp add: claims_def)
  then have lt: "db_fseq ?s < db_seq ?s" using p(7) by (auto simp: claims_ok_def sst_name_inj)
  have seq: "unat (db_seq ?s) \<le> UINT32_MAX" using budget_seq [OF p(8) left] by simp
  note f = dur_flush_install [OF p(5) [unfolded fr] p(2) inv' h(2) t lt fresh seq run [unfolded res]]
  have g: "db_dead_ssts s' = db_dead_ssts ?s" "db_dead_vlogs s' = db_dead_vlogs ?s" "db_gen s' = db_gen ?s" "db_seq s' = db_seq ?s"
    "\<not> db_has_flushing s'" "db_ssts s' = t # db_ssts ?s"
    by (subst f(4), simp)+
  let ?N = "{man_name, man_tmp_name, flushing_wal_name}"
  have N: "?N \<inter> set (mg_claim (en_mg e)) = {}" using claims_names(2-4) [OF p(7)] by (auto simp: claims_def)
  have vg: "grown (db_disk ?s) (db_disk s') (vlog_name (db_gen ?s))" by (rule quiet_other_vlog [OF f(3) p(9)]) simp
  have "mg_built s' (en_mg e)"
    by (rule mg_built_frame [OF _ f(3) p(9) N vg g(3)]) (use p(6) in \<open>simp add: rest_ok_def\<close>)
  moreover have "claims_ok (e\<lparr>en_db := s', en_fl := FlIdle\<rparr>)"
    by (rule claims_mset [OF p(7)]) (use c(2) t(2) g in \<open>simp_all add: claims_def fl_claim_def [of s']\<close>)
  ultimately have R: "rest_ok (Suc n) (e\<lparr>en_db := s', en_fl := FlIdle\<rparr>)"
    using p(6) g by (simp add: rest_ok_def dead_logs_def budget_def fl_built_def)
  show ?thesis
  proof (rule advancesI)
    show "dinv (Suc n) (e\<lparr>en_db := s', en_fl := FlIdle\<rparr>) None w k" using I R f(1) by (simp add: dinv_def)
    fix evs m0 assume "hist evs m0 (tables_map ?s) (fl_recs fl @ w) (length (fl_recs fl) + k)"
    from hist_read [OF this, of EvTau] have "hist (evs @ [EvTau]) m0 (tables_map ?s) (fr @ w) (length fr + k)" by (simp add: fr fl_recs_def)
    from hist_flush [OF this, of "length fr"] f(2)
    show "hist (evs @ [EvTau]) m0 (tables_map (en_db (e\<lparr>en_db := s', en_fl := FlIdle\<rparr>))) (fl_recs None @ w) (length (fl_recs None) + k)"
      by (simp add: fl_recs_def)
  qed
qed

subsection \<open>Merges\<close>

lemma mg_begin_durable:
  assumes D: "dinv n e fl w k" and left: "steps_left n" and I: "engine_inv (e\<lparr>en_db := s', en_mg := MgWorking j\<rparr>)" and pc: "en_mg e = MgIdle"
    and run: "size_tiered_begin lg (en_db e) = (Inr (Some j), s') \<or> compact_all_begin (en_db e) = (Inr (Some j), s')"
  shows "advances n e EvTau (e\<lparr>en_db := s', en_mg := MgWorking j\<rparr>) fl w k"
proof -
  let ?s = "en_db e"
  note p = dinv_parts [OF D]
  have s': "s' = ?s\<lparr>db_seq := db_seq ?s + 1, db_compacting := True\<rparr>" "mj_seq j = db_seq ?s"
    using run size_tiered_begin_ok(2,3) compact_all_begin_ok(2,3) by blast+
  have inv': "db_inv s'" using I by (simp add: engine_inv_def)
  note seq = budget_seq [OF p(8) left]
  note u = u32_seq [OF seq(1)]
  have on: "vlog_on s'" "levels_ok s'" using p(10,11) by (simp_all add: vlog_on_def levels_ok_def s')
  have qq: "quiet {} (db_disk ?s) (db_disk s')" "grown (db_disk ?s) (db_disk s') (vlog_name (db_gen ?s))"
    by (simp_all add: s' qt.frame_refl same_grown)
  have d: "dur s' fl w k" "tables_map s' = tables_map ?s"
    by (rule dur_frame [OF p(5) qq(1) _ on(1) qq(2) inv' _ _ _ _ _ on(2)]; use u in \<open>simp add: s'\<close>)+
  have c: "claims_ok (e\<lparr>en_db := s', en_mg := MgWorking j\<rparr>)"
    by (rule claims_extend [OF p(7) seq(1)]) (use pc s' in \<open>simp_all add: claims_def fl_claim_def mg_claim_def\<close>)
  have "fl_built s' (en_fl e)" by (rule fl_built_frame [OF _ p(3) qq(1) p(9) _ qq(2)]) (use p(6) in \<open>simp_all add: rest_ok_def s'\<close>)
  then have "rest_ok (Suc n) (e\<lparr>en_db := s', en_mg := MgWorking j\<rparr>)"
    using p(6) c u by (simp add: rest_ok_def mg_built_def dead_logs_def budget_def s')
  then show ?thesis using I d by (intro advance_same) (simp_all add: dinv_def)
qed

lemma mg_work_durable:
  assumes D: "dinv n e fl w k" and I: "engine_inv (e\<lparr>en_db := s', en_mg := MgBuilt j res\<rparr>)" and pc: "en_mg e = MgWorking j"
    and fits: "merge_fits lg j" and run: "merge_work no_faults lg ctx j (en_db e) = (Inr res, s')"
  shows "advances n e EvTau (e\<lparr>en_db := s', en_mg := MgBuilt j res\<rparr>) fl w k"
proof -
  let ?s = "en_db e"
  note p = dinv_parts [OF D]
  obtain b t where res: "res = (b, t)" by (cases res)
  have job: "job_ok j (db_ssts ?s)" using p(4) by (simp add: pc mg_ok_def)
  have inv': "db_inv s'" using I by (simp add: engine_inv_def)
  have dist: "distinct (claims e)" "mg_claim (en_mg e) = [sst_name (mj_seq j)]" using p(7) by (simp_all add: claims_ok_def mg_claim_def pc)
  have fresh: "sst_name (mj_seq j) \<notin> sst_path ` set (db_ssts ?s)" using dist by (auto simp: claims_def)
  note f = dur_merge_work [OF p(5,2) inv' job fits fresh run [unfolded res]]
  have g: "db_dead_ssts s' = db_dead_ssts ?s" "db_dead_vlogs s' = db_dead_vlogs ?s" "db_gen s' = db_gen ?s" "db_seq s' = db_seq ?s"
    "db_has_flushing s' = db_has_flushing ?s" "db_fseq s' = db_fseq ?s" "db_ssts s' = db_ssts ?s"
    by (subst f(5), simp)+
  have "sst_name (mj_seq j) \<notin> set (fl_claim ?s)" using dist by (auto simp: claims_def)
  moreover have "q \<noteq> sst_name (mj_seq j) @ tmp_suffix" if "q \<in> set (fl_claim ?s)" for q
    using claims_names(6) [OF p(7), of q] that by (auto simp: claims_def)
  ultimately have N: "{sst_name (mj_seq j), sst_name (mj_seq j) @ tmp_suffix} \<inter> set (fl_claim ?s) = {}" by auto
  have vg: "grown (db_disk ?s) (db_disk s') (vlog_name (db_gen ?s))" by (rule quiet_other_vlog [OF f(4) p(9)]) simp
  have "fl_built s' (en_fl e)"
    by (rule fl_built_frame [OF _ p(3) f(4) p(9) N vg g(3) g(6)]) (use p(6) in \<open>simp add: rest_ok_def\<close>)
  moreover have "claims_ok (e\<lparr>en_db := s', en_mg := MgBuilt j res\<rparr>)"
    by (rule claims_mset [OF p(7)]) (use pc in \<open>simp_all add: claims_def fl_claim_def mg_claim_def g\<close>)
  moreover have "mg_built s' (MgBuilt j res)" using f(2,3) g by (simp add: mg_built_def res)
  ultimately have "rest_ok (Suc n) (e\<lparr>en_db := s', en_mg := MgBuilt j res\<rparr>)"
    using p(6) g by (simp add: rest_ok_def dead_logs_def budget_def)
  then show ?thesis using I f(1) by (intro advance_same) (simp_all add: dinv_def)
qed

lemma mg_install_durable:
  assumes D: "dinv n e fl w k" and left: "steps_left n" and I: "engine_inv (e\<lparr>en_db := s', en_mg := MgIdle\<rparr>)" and pc: "en_mg e = MgBuilt j res"
    and run: "merge_install no_faults j res (en_db e) = (Inr (), s')"
  shows "advances n e EvTau (e\<lparr>en_db := s', en_mg := MgIdle\<rparr>) fl w k"
proof -
  let ?s = "en_db e"
  note p = dinv_parts [OF D]
  obtain b t where res: "res = (b, t)" by (cases res)
  have job: "job_ok j (db_ssts ?s)" "output_ok j t ?s" using p(4) by (simp_all add: pc mg_ok_def res)
  have t: "table_on (db_disk ?s) (db_gen ?s) t" "sst_path t = sst_name (mj_seq j)" using p(6) by (simp_all add: pc rest_ok_def mg_built_def res)
  have inv': "db_inv s'" using I by (simp add: engine_inv_def)
  have c: "distinct (claims e)" "mg_claim (en_mg e) = [sst_name (mj_seq j)]" using p(7) by (simp_all add: claims_ok_def mg_claim_def pc)
  have fresh: "sst_name (mj_seq j) \<notin> sst_path ` set (db_ssts ?s)" using c by (auto simp: claims_def)
  have "sst_name (mj_seq j) \<in> set (claims e)" using c(2) by (simp add: claims_def)
  then have lt: "mj_seq j < db_seq ?s" using p(7) by (auto simp: claims_ok_def sst_name_inj)
  have seq: "unat (db_seq ?s) \<le> UINT32_MAX" using budget_seq [OF p(8) left] by simp
  obtain pre post where f: "dur s' fl w k" "tables_map s' = tables_map ?s" "quiet {man_name, man_tmp_name} (db_disk ?s) (db_disk s')"
    "db_ssts ?s = pre @ mj_inputs j @ post" "db_ssts s' = pre @ t # post"
    "s' = ?s\<lparr>db_disk := db_disk s', db_level := db_level s', db_ssts := db_ssts s', db_stat := db_stat s', db_compacting := False,
      db_dead_ssts := db_dead_ssts ?s @ map sst_mark_obsolete (mj_inputs j)\<rparr>"
    by (rule dur_merge_install [OF p(5,2) inv' job t lt fresh seq run [unfolded res]])
  have g: "db_dead_ssts s' = db_dead_ssts ?s @ map sst_mark_obsolete (mj_inputs j)" "db_dead_vlogs s' = db_dead_vlogs ?s" "db_gen s' = db_gen ?s"
    "db_seq s' = db_seq ?s" "db_has_flushing s' = db_has_flushing ?s" "db_fseq s' = db_fseq ?s"
    by (subst f(6), simp)+
  let ?N = "{man_name, man_tmp_name}"
  have N: "?N \<inter> set (fl_claim ?s) = {}" using claims_names(3,4) [OF p(7)] by (auto simp: claims_def)
  have vg: "grown (db_disk ?s) (db_disk s') (vlog_name (db_gen ?s))" by (rule quiet_other_vlog [OF f(3) p(9)]) simp
  have "fl_built s' (en_fl e)"
    by (rule fl_built_frame [OF _ p(3) f(3) p(9) N vg g(3) g(6)]) (use p(6) in \<open>simp add: rest_ok_def\<close>)
  moreover have "map sst_path (map sst_mark_obsolete ts) = map sst_path ts" for ts by (induction ts) (simp_all add: sst_mark_obsolete_def)
  then have "claims_ok (e\<lparr>en_db := s', en_mg := MgIdle\<rparr>)"
    by (intro claims_mset [OF p(7)]) (use c(2) t(2) in \<open>simp_all add: claims_def fl_claim_def g f(4,5) mg_claim_def [of MgIdle] del: map_map\<close>)
  ultimately have "rest_ok (Suc n) (e\<lparr>en_db := s', en_mg := MgIdle\<rparr>)"
    using p(6) g by (simp add: rest_ok_def dead_logs_def budget_def mg_built_def)
  then show ?thesis using I f(1,2) by (intro advance_same) (simp_all add: dinv_def)
qed

subsection \<open>Garbage collection\<close>

lemma apply_rec_nonempty: "\<not> mt_empty (apply_rec r m)"
proof -
  have "omap_put k x xs \<noteq> []" for k x and xs :: "(bytes \<times> mt_entry) list"
    by (cases xs) (auto split: if_splits)
  then show ?thesis by (auto simp: apply_rec_def mt_put_store mt_del_store mt_store_def mt_empty_def)
qed

lemma empty_mem_no_records: "mt_empty (fold apply_rec w memtable0) \<Longrightarrow> w = []"
  using apply_rec_nonempty by (cases w rule: rev_cases) simp_all

lemma gc_rest:
  assumes d: "dur s None w k" and inv: "db_inv s" "db_inv s'" and R: "rest_ok (Suc n) (e\<lparr>en_db := s\<rparr>)" and seq: "unat (db_seq s) < UINT32_MAX"
    and gen: "unat (db_gen s) < UINT32_MAX" and b: "budget (Suc n) s'" and free: "\<not> db_has_flushing s" and pc: "en_fl e = FlIdle" "en_mg e = MgIdle"
    and fits: "gc_fits lg s" and run: "gc_body no_faults lg (db_ssts s) s = (Inr (), s')"
  shows "dur s' None w k \<and> rest_ok (Suc n) (e\<lparr>en_db := s'\<rparr>)"
proof -
  obtain t where f: "dur s' None w k" "db_ssts s' = [t]" "sst_path t = sst_name (db_seq s)"
    "s' = s\<lparr>db_disk := db_disk s', db_vlogs := db_vlogs s', db_level := db_level s', db_ssts := db_ssts s', db_stat := db_stat s',
      db_next_obj := db_next_obj s', db_seq := db_seq s + 1, db_gen := db_gen s + 1, db_compacting := False,
      db_dead_ssts := db_dead_ssts s @ map sst_mark_obsolete (db_ssts s),
      db_dead_vlogs := db_dead_vlogs s @ map (vlog_mark_obsolete \<circ> snd) (db_vlogs s)\<rparr>"
    by (rule dur_gc_body [OF d inv fits seq run])
  have g: "db_dead_ssts s' = db_dead_ssts s @ map sst_mark_obsolete (db_ssts s)"
    "db_dead_vlogs s' = db_dead_vlogs s @ map (vlog_mark_obsolete \<circ> snd) (db_vlogs s)" "db_gen s' = db_gen s + 1"
    "db_seq s' = db_seq s + 1" "db_has_flushing s' = db_has_flushing s"
    by (subst f(4), simp)+
  have c: "claims_ok (e\<lparr>en_db := s\<rparr>)" using R by (simp add: rest_ok_def)
  have "map sst_path (map sst_mark_obsolete ts) = map sst_path ts" for ts by (induction ts) (simp_all add: sst_mark_obsolete_def)
  then have "mset (claims (e\<lparr>en_db := s'\<rparr>)) = mset (claims (e\<lparr>en_db := s\<rparr>)) + {#sst_name (db_seq s)#}"
    using free pc by (simp add: claims_def fl_claim_def g f(2,3) mg_claim_def del: map_map)
  then have c': "claims_ok (e\<lparr>en_db := s'\<rparr>)" using claims_extend [OF c] seq g(4) by simp
  have lt: "db_gen s < db_gen s + 1"
  proof -
    have "unat (db_gen s) + 1 < 2 ^ 32" using gen by (simp add: UINT32_MAX_def)
    then show ?thesis by (simp add: word_less_nat_alt unat_word_ariths)
  qed
  obtain v where "db_vlogs s = [(db_gen s, v)]" using d by (auto simp: dur_def vlog_on_def)
  moreover have "vs_inv (db_vlogs s) (db_disk s)" using inv(1) by (simp add: db_inv_def)
  ultimately have old: "\<exists>h<db_gen s + 1. vl_path x = vlog_name h" if "x \<in> set (map (vlog_mark_obsolete \<circ> snd) (db_vlogs s))" for x
    using that lt by (auto simp: vs_inv_def vlog_mark_obsolete_def)
  have "dead_logs s" using R by (simp add: rest_ok_def)
  then have "\<exists>h<db_gen s + 1. vl_path x = vlog_name h" if "x \<in> set (db_dead_vlogs s)" for x
    using that lt unfolding dead_logs_def by (meson order_less_trans)
  then have "dead_logs s'" using old unfolding dead_logs_def g(2,3) set_append by blast
  then show ?thesis using f(1) c' b pc by (simp add: rest_ok_def fl_built_def mg_built_def)
qed

lemma gc_durable:
  assumes D: "dinv n e fl w k" and left: "steps_left n" and I: "engine_inv (e\<lparr>en_db := s'\<rparr>)" and abs: "abs_db s' = abs_db (en_db e)"
    and ready: "gc_ready (en_db e)"
    and fits: "flush_fits lg (db_gen (en_db e)) (mt_snapshot (db_mem (en_db e))) ((en_db e)\<lparr>db_compacting := True, db_seq := db_seq (en_db e) + 1\<rparr>)"
    and run1: "flush_locked no_faults lg ((en_db e)\<lparr>db_compacting := True\<rparr>) = (Inr (), s1)" and fits1: "gc_fits lg s1"
    and run: "gc_value_log no_faults lg (en_db e) = (Inr (), s')"
  shows "advances n e EvTau (e\<lparr>en_db := s'\<rparr>) fl w k"
proof -
  let ?s = "en_db e"
  let ?z = "?s\<lparr>db_compacting := True\<rparr>"
  note p = dinv_parts [OF D]
  have free: "\<not> db_has_flushing ?s" "\<not> db_compacting ?s" using ready unfolding gc_ready_def by blast+
  then have fl: "fl = None" using p(5) by (simp add: dur_def)
  have pc: "en_fl e = FlIdle" "en_mg e = MgIdle"
    using p(3,4) free by (auto simp: fl_ok_def mg_ok_def split: flusher_pc.splits merger_pc.splits)
  have inv0: "db_inv ?z" using inv_start [OF p(2), of ?z True "db_seq ?s"] by simp
  have free0: "\<not> db_has_flushing ?z" using free by simp
  obtain s1' where s1': "flush_locked no_faults lg ?z = (Inr (), s1')" "db_inv s1'" "mt_empty (db_mem s1')" "\<not> db_has_flushing s1'"
    by (rule flush_locked_abs [OF inv0 free0, of lg]) (use fits in simp_all)
  note s1 = s1'(2-4) [unfolded prod.inject(1) [THEN iffD1, THEN conjunct2, OF trans [OF s1'(1) [symmetric] run1]]]
  have d0: "dur ?z None w k" and R0: "rest_ok n (e\<lparr>en_db := ?z\<rparr>)" and ok0: "fl_ok ?z (en_fl e)"
    using p(5,6) by (simp_all add: dur_def vlog_on_def levels_ok_def fl rest_ok_def claims_ok_def claims_def fl_claim_def fl_built_def
        mg_built_def dead_logs_def budget_def pc fl_ok_def)
  have b0: "budget n ?z" using R0 by (simp add: rest_ok_def)
  have fits0: "flush_fits lg (db_gen ?z) (mt_snapshot (db_mem ?z)) (?z\<lparr>db_seq := db_seq ?z + 1\<rparr>)" using fits by simp
  obtain k1 where d1: "dur s1 None [] k1" "rest_ok (Suc n) (e\<lparr>en_db := s1\<rparr>)" "unat (db_seq s1) \<le> unat (db_seq ?s) + 1" "db_gen s1 = db_gen ?s"
  proof -
    consider "s1 = ?z" "mt_empty (db_mem ?z)" | "dur s1 None [] 0" "rest_ok (Suc n) (e\<lparr>en_db := s1\<rparr>)"
      "unat (db_seq s1) \<le> unat (db_seq ?z) + 1" "db_gen s1 = db_gen ?z"
      using flush_rest [OF d0 inv0 s1(1) ok0 R0 left fits0 run1] by blast
    then show thesis
    proof cases
      case 1
      then have "w = []" using d0 empty_mem_no_records by (simp add: dur_def)
      then show thesis using that [of k] d0 rest_stay [OF R0] 1(1) by simp
    next
      case 2
      then show thesis using that [of 0] by simp
    qed
  qed
  then have "k1 = 0" by (simp add: dur_def)
  then have d1': "dur s1 None [] 0" using d1(1) by simp
  have unf: "gc_value_log no_faults lg ?s =
      (if db_ssts s1 = [] then supd (\<lambda>s. s\<lparr>db_compacting := False\<rparr>) else gc_body no_faults lg (db_ssts s1)) s1"
    using run1 by (simp add: gc_value_log_body sbind_def)
  have inv': "db_inv s'" using I by (simp add: engine_inv_def)
  note seq = budget_seq [OF p(8) left]
  have "dur s' None [] 0 \<and> rest_ok (Suc n) (e\<lparr>en_db := s'\<rparr>)"
  proof (cases "db_ssts s1 = []")
    case True
    then have "s' = s1\<lparr>db_compacting := False\<rparr>" using unf run by simp
    then show ?thesis
      using d1' d1(2) pc by (simp add: dur_def vlog_on_def levels_ok_def rest_ok_def claims_ok_def claims_def fl_claim_def fl_built_def
          mg_built_def dead_logs_def budget_def)
  next
    case False
    then have body: "gc_body no_faults lg (db_ssts s1) s1 = (Inr (), s')" using unf run by simp
    have lt: "unat (db_seq s1) < UINT32_MAX" using d1(3) seq(2) by simp
    obtain t where eq: "s' = s1\<lparr>db_disk := db_disk s', db_vlogs := db_vlogs s', db_level := db_level s', db_ssts := db_ssts s', db_stat := db_stat s',
      db_next_obj := db_next_obj s', db_seq := db_seq s1 + 1, db_gen := db_gen s1 + 1, db_compacting := False,
      db_dead_ssts := db_dead_ssts s1 @ map sst_mark_obsolete (db_ssts s1),
      db_dead_vlogs := db_dead_vlogs s1 @ map (vlog_mark_obsolete \<circ> snd) (db_vlogs s1)\<rparr>"
      by (rule dur_gc_body [OF d1' s1(1) inv' fits1 lt body])
    have "db_seq s' = db_seq s1 + 1" "db_gen s' = db_gen s1 + 1" by (subst eq, simp)+
    moreover have "unat (db_gen s1 + 1) \<le> unat (db_gen ?s) + 1" using d1(4) by (simp add: unat_word_ariths)
    ultimately have b': "budget (Suc n) s'" using p(8) d1(3) u32_seq [OF lt] by (simp add: budget_def)
    show ?thesis by (rule gc_rest [OF d1' s1(1) inv' d1(2) lt _ b' s1(3) pc fits1 body]) (use seq(3) d1(4) in simp)
  qed
  then have d': "dur s' None [] 0" and R': "rest_ok (Suc n) (e\<lparr>en_db := s'\<rparr>)" by blast+
  have "tables_map s' = fold rec_step (fl_recs fl @ w) (tables_map ?s)"
    using dur_abs [OF d'] dur_abs [OF p(5)] abs by (simp add: fl_recs_def)
  then show ?thesis by (intro advance_flushed [OF d' I R']) simp
qed

subsection \<open>Every step keeps the directory ahead of the acknowledgements\<close>

lemma engine_step_durable:
  assumes "engine_step lg e ev e'" and "dinv n e fl w k" and "steps_left n"
  shows "advances n e ev e' fl w k"
  using assms(1)
proof cases
  note sim = engine_step_sim [OF assms(1) dinv_parts(1) [OF assms(2)]]
  note D = assms(2) and left = assms(3) and inv = dinv_parts(2) [OF assms(2)]
  have quiet: "advances n e ev (e\<lparr>en_db := s\<rparr>) fl w k"
    if "engine_inv (e\<lparr>en_db := s\<rparr>)" "s = (en_db e)\<lparr>db_stat := st, db_bloom_on := b, db_stop := h, db_waiters := x\<rparr>"
      "map_step ev = id" "\<not> durable_ev ev" for s st b h x
    by (rule advance_same) (use dinv_quiet [OF D that(1,2)] that(3,4) in simp_all)
  have reap: "advances n e ev (e\<lparr>en_db := s\<rparr>) fl w k"
    if "dinv (Suc n) (e\<lparr>en_db := s\<rparr>) fl w k \<and> tables_map s = tables_map (en_db e)" "ev = EvTau" for s
    by (rule advance_same) (use that in simp_all)
  {
    case (Put key v sync s)
    then show ?thesis using put_step [OF D left] sim by simp
  next
    case (Del key sync s)
    then show ?thesis using del_step [OF D left] sim by simp
  next
    case (Get key a s)
    then obtain st where "s = (en_db e)\<lparr>db_stat := st\<rparr>" using db_get_ok [OF inv, of key] by auto
    then have "s = (en_db e)\<lparr>db_stat := st, db_bloom_on := db_bloom_on (en_db e), db_stop := db_stop (en_db e), db_waiters := db_waiters (en_db e)\<rparr>" by simp
    then show ?thesis unfolding Get(2) by (rule quiet [rotated]) (use sim Get in simp_all)
  next
    case (Scan a b out s)
    obtain out' st where "db_scan no_faults a b (en_db e) = (Inr out', (en_db e)\<lparr>db_stat := st\<rparr>)" by (rule db_scan_ok [OF inv])
    then have "s = (en_db e)\<lparr>db_stat := st, db_bloom_on := db_bloom_on (en_db e), db_stop := db_stop (en_db e), db_waiters := db_waiters (en_db e)\<rparr>"
      using Scan by simp
    then show ?thesis unfolding Scan(2) by (rule quiet [rotated]) (use sim Scan in simp_all)
  next
    case (Sync s)
    then show ?thesis using sync_step [OF D] sim by simp
  next
    case (Wake s)
    then show ?thesis using wake_step [OF D left] sim by simp
  next
    case (Flush s)
    then show ?thesis using flush_step [OF D left] sim by simp
  next
    case (Bloom x s)
    then have "s = (en_db e)\<lparr>db_stat := db_stat (en_db e), db_bloom_on := x, db_stop := db_stop (en_db e), db_waiters := db_waiters (en_db e)\<rparr>"
      by (auto simp: set_bloom_enabled_def)
    then show ?thesis unfolding Bloom(2) by (rule quiet [rotated]) (use sim Bloom in simp_all)
  next
    case (Gc s1 s)
    then show ?thesis using gc_durable [OF D left] sim by simp
  next
    case FlBegin
    then show ?thesis using fl_begin_step [OF D] sim by simp
  next
    case (FlWork j res s)
    then show ?thesis using fl_work_durable [OF D] sim by simp
  next
    case (FlInstall res s)
    then show ?thesis using fl_install_durable [OF D left] sim by simp
  next
    case (MgBegin j s)
    then show ?thesis using mg_begin_durable [OF D left] sim by simp
  next
    case (MgWork j ctx res s)
    then show ?thesis using mg_work_durable [OF D] sim by simp
  next
    case (MgInstall j res s)
    then show ?thesis using mg_install_durable [OF D left] sim by simp
  next
    case ReapSst
    then show ?thesis using reap [OF reap_sst_step [OF D]] sim by simp
  next
    case ReapVlog
    then show ?thesis using reap [OF reap_vlog_step [OF D]] sim by simp
  next
    case Stop
    show ?thesis unfolding Stop(2)
      by (intro quiet [of _ "db_waiters (en_db e)" True "db_bloom_on (en_db e)" "db_stat (en_db e)"]) (use sim Stop in simp_all)
  }
qed

lemma engine_run_durable:
  assumes "engine_run lg e evs e'" and "dinv n e fl w k" and "n + length evs < 2 ^ 31"
    and "hist past m0 (tables_map (en_db e)) (fl_recs fl @ w) (length (fl_recs fl) + k)"
  shows "\<exists>fl' w' k'. dinv (n + length evs) e' fl' w' k' \<and>
    hist (past @ evs) m0 (tables_map (en_db e')) (fl_recs fl' @ w') (length (fl_recs fl') + k')"
  using assms
proof (induction arbitrary: n fl w k past rule: engine_run.induct)
  case (Start e)
  then show ?case by auto
next
  case (Step e ev e1 evs e')
  have "steps_left n" using Step.prems(2) by (simp add: steps_left_def)
  then obtain fl1 w1 k1 where s1: "dinv (Suc n) e1 fl1 w1 k1"
    "hist (past @ [ev]) m0 (tables_map (en_db e1)) (fl_recs fl1 @ w1) (length (fl_recs fl1) + k1)"
    using engine_step_durable [OF Step.hyps(1) Step.prems(1)] Step.prems(3) unfolding advances_def by blast
  from Step.IH [OF s1(1) _ s1(2)] Step.prems(2) show ?case by simp
qed

lemma engine_run_crash:
  assumes run: "engine_run lg e evs e'" and D: "dinv n e fl w k" and n: "n + length evs < 2 ^ 31"
    and h: "hist [] m0 (tables_map (en_db e)) (fl_recs fl @ w) (length (fl_recs fl) + k)"
    and c: "crash_cut (db_disk (en_db e')) d'" and fits: "recovery_fits lg cf d'"
  obtains m s' where "db_open no_faults lg cf d' = (Inr (), s')" and "db_inv s'" and "acked evs \<le> m" and "m \<le> length evs"
    and "abs_db s' = fold map_step (take m evs) m0"
proof -
  obtain fl' w' k' where e': "dinv (n + length evs) e' fl' w' k'"
    "hist evs m0 (tables_map (en_db e')) (fl_recs fl' @ w') (length (fl_recs fl') + k')"
    using engine_run_durable [OF run D n h] by auto
  obtain j s' where s': "db_open no_faults lg cf d' = (Inr (), s')" "db_inv s'" "length (fl_recs fl') + k' \<le> j"
    "abs_db s' = fold rec_step (take j (fl_recs fl' @ w')) (tables_map (en_db e'))"
    by (rule dur_crash [OF dinv_parts(5) [OF e'(1)] c fits])
  then obtain m where "acked evs \<le> m" "m \<le> length evs" "abs_db s' = fold map_step (take m evs) m0"
    using e'(2) unfolding hist_def by metis
  then show thesis using that s' by blast
qed

subsection \<open>The first open\<close>

lemma disk1_wf: "dwf disk1"
  by (auto simp: dwf_def disk_wf_def synced_ok_def known_names_def known_name_def disk1_def d_ino_def split: if_splits)

lemma fresh_dinv:
  assumes run: "db_open no_faults lg cf disk0 = (Inr (), s)"
  shows "dinv 0 (engine0 s) None [] 0" and "tables_map s = Map.empty"
proof -
  obtain s' d where s': "db_open no_faults lg cf disk0 = (Inr (), s')" "db_inv s'" "engine_inv (engine0 s')" "s' = (db1 cf)\<lparr>db_disk := d\<rparr>"
    by (rule fresh_open)
  then have inv: "db_inv s" "engine_inv (engine0 s)" and s: "s = (db1 cf)\<lparr>db_disk := d\<rparr>" using run by simp_all
  have wr: "write_manifest_locked no_faults (db1 cf) = (Inr (), s)" using run by (simp add: db_open_def fresh_ctor)
  have h: "holds (db_disk s) man_name (manifest_bytes (db_manifest s))"
    by (rule write_manifest_holds [of "db1 cf"]) (use wr in \<open>auto simp: s db_manifest_def\<close>)
  have "quiet {man_name, man_tmp_name} (db_disk (db1 cf)) (db_disk s)" by (rule dquiet_run [OF dquiet_manifest wr]) simp
  then have q: "quiet {man_name, man_tmp_name} disk1 (db_disk s)" by (simp add: db1_def db_init_def)
  note f = quietD [OF q disk1_wf]
  have same: "same_file disk1 (db_disk s) wal_name" "same_file disk1 (db_disk s) flushing_wal_name" "same_file disk1 (db_disk s) (vlog_name 0)"
    by (rule f(2), simp)+
  have v: "vlog_on s" using same(3) by (simp add: vlog_on_def s db1_def db_init_def same_file_def disk1_def d_ino_def)
  have "logs_on disk1 None [] 0" by (simp add: logs_on_def disk1_def d_ino_def fresh_names wal_bytes_def)
  then have l: "logs_on (db_disk s) None [] 0" by (rule logs_on_frame [OF _ same(1,2)])
  have "d_read disk1 wal_name = Some []" by (simp add: d_read_def disk1_def d_ino_def fresh_names)
  then have rd: "d_read (db_disk s) wal_name = Some (wal_bytes [])" using same_file_read [OF same(1)] by (simp add: wal_bytes_def)
  have lv: "levels_ok s" and nm: "named s" and ts: "db_ssts s = []" by (simp_all add: s db1_def db_init_def levels_ok_def named_def)
  have "store_on (db_disk s) (db_gen s) (db_seq s) (db_ssts s)"
    by (rule store_on_commit [OF f(1) h lv nm]) (use v vlog_len [OF inv(1) v] in \<open>auto simp: vlog_on_def ts\<close>)
  then have "dur s None [] 0"
    using v lv l rd unfolding dur_def by (auto simp: s db1_def db_init_def)
  moreover have "rest_ok 0 (engine0 s)"
    by (simp add: rest_ok_def engine0_def claims_ok_def claims_def fl_claim_def mg_claim_def fl_built_def mg_built_def dead_logs_def
        budget_def s db1_def db_init_def)
  ultimately show "dinv 0 (engine0 s) None [] 0" using inv(2) by (simp add: dinv_def engine0_def)
  show "tables_map s = Map.empty" by (rule ext) (simp add: tables_map_def ts)
qed

text \<open>Without a sealed log nothing is flushed while opening.\<close>

lemma idle_recovery_fits:
  assumes d: "dur s None w k" and c: "crash_cut (db_disk s) d'"
  shows "recovery_fits lg cf d'"
proof -
  obtain q where st: "store_on (db_disk s) (db_gen s) q (db_ssts s)" and l: "logs_on (db_disk s) None w k" using d by (auto simp: dur_def)
  have ok: "synced_ok (db_disk s)" using st by (simp add: store_on_def)
  show ?thesis
    by (rule load_ok [OF crash_store_on(1) [OF c st] crash_logs_on [OF c ok l], of cf]) (simp add: recovery_fits_def)
qed

definition lose_unsynced :: "disk \<Rightarrow> disk" where
  "lose_unsynced d = d\<lparr>blobs := (\<lambda>i. take (synced d i) (blobs d i)), synced := (\<lambda>i. length (take (synced d i) (blobs d i)))\<rparr>"

lemma crash_cut_worst: "crash_cut d (lose_unsynced d)"
  by (auto simp: crash_cut_def lose_unsynced_def)

subsection \<open>A store that can be collected\<close>

lemma inline_relocate:
  assumes "\<forall>r\<in>set rs. \<not> rec_separated r"
  shows "sfold (relocate_step no_faults) rs (out, nv, n) s = (Inr (out @ rs, nv, n), s)"
  using assms by (induction rs arbitrary: out) (simp_all add: relocate_step_def sbind_def)

lemma inline_gc_fits:
  assumes inv: "\<forall>t\<in>set (db_ssts s). sst_inv t" and m: "live_filter True (merge_spec (map sst_records (db_ssts s))) = rs"
    and rs: "\<forall>r\<in>set rs. \<not> rec_separated r" "sst_fits lg rs"
    and fresh: "d_ino (db_disk s) (vlog_name (db_gen s + 1)) = None" "db_gen s + 1 \<notin> fst ` set (db_vlogs s)"
  shows "gc_fits lg s"
proof -
  have mr: "merge_records no_faults (db_ssts s) True = Inr rs" using merge_records_spec [OF inv] m by simp
  have "sum_list (map reloc_cost rs) = 0" using rs(1) by (induction rs) (auto simp: reloc_cost_def)
  moreover have "file_len (vlog_name (db_gen s + 1)) (db_disk s) = 0" using fresh(1) by (simp add: file_len_def d_read_def)
  ultimately have "file_len (vlog_name (db_gen s + 1)) (db_disk s) + sum_list (map reloc_cost rs) < 2 ^ 64"
    by (simp del: sum_list_eq_0_iff)
  then show ?thesis
    using fresh(2) rs mr inline_relocate [OF rs(1)] by (auto simp: gc_fits_def Let_def split: sum.split prod.split)
qed

lemma fresh_next_gen:
  assumes "db_open no_faults lg cf disk0 = (Inr (), s)"
  shows "d_ino (db_disk s) (vlog_name (db_gen s + 1)) = None"
proof -
  obtain s' d where "db_open no_faults lg cf disk0 = (Inr (), s')" "s' = (db1 cf)\<lparr>db_disk := d\<rparr>" by (rule fresh_open)
  then have g: "db_gen s = 0" using assms by (simp add: db1_def db_init_def)
  have "write_manifest_locked no_faults (db1 cf) = (Inr (), s)" using assms by (simp add: db_open_def fresh_ctor)
  from dquiet_run [OF dquiet_manifest this, of "{man_name, man_tmp_name}"]
  have "quiet {man_name, man_tmp_name} disk1 (db_disk s)" by (simp add: db1_def db_init_def)
  from quietD(2) [OF this disk1_wf, of "vlog_name 1"] show ?thesis
    by (simp add: g same_file_def disk1_def d_ino_def vlog_name_inj)
qed

lemma small_gc:
  obtains s s1 where "db_inv s" and "gc_ready s" and "abs_db s = [[1] \<mapsto> [2]]"
    and "flush_fits lg_const (db_gen s) (mt_snapshot (db_mem s)) (s\<lparr>db_compacting := True, db_seq := db_seq s + 1\<rparr>)"
    and "flush_locked no_faults lg_const (s\<lparr>db_compacting := True\<rparr>) = (Inr (), s1)" and "gc_fits lg_const s1"
    and "length (db_ssts s1) = 1"
proof -
  let ?r = "mk_record Put [1] [2]"
  obtain s0 where s0: "db_open no_faults lg_const conf0 disk0 = (Inr (), s0)" "rested s0" "abs_db s0 = Map.empty" "db_ssts s0 = []"
    by (rule fresh_rested)
  obtain s where s: "db_put no_faults [1] [2] True s0 = (Inr (), s)" "db_inv s" "db_mem s = mt_put [1] [2] memtable0" "db_ssts s = db_ssts s0"
    "\<not> db_has_flushing s" "\<not> db_compacting s" "abs_db s = (abs_db s0)([1] \<mapsto> [2])" "settled s0 s"
    "wal_append no_faults ?r True (db_wal s0) (db_disk s0) = (Inr (), db_disk s)" "db_gen s = db_gen s0"
    by (rule small_put [OF s0(2), of "[1]" "[2]"]) simp_all
  have snap: "\<not> mt_empty (db_mem s)" "mt_snapshot (db_mem s) = [?r]" "length [2::8 word] < db_sep_threshold s"
    by (rule small_write [OF s0(2) _ _ s(3,2,8)]; simp)+
  have step: "engine_step lg_const (engine0 s0) (EvPut [1] [2] True) (engine0 s)"
    using engine_step.Put [of "[1]" "[2]" True "engine0 s0" s] s(1) by (simp add: engine0_def UINT32_MAX_def)
  obtain fl l k where D: "dinv 1 (engine0 s) fl l k"
    using engine_step_durable [OF step fresh_dinv(1) [OF s0(1)]] by (auto simp: advances_def steps_left_def)
  have "fl = None" using dinv_parts(5) [OF D] s(5) by (simp add: dur_def engine0_def)
  then have d: "dur s None l k" using dinv_parts(5) [OF D] by (simp add: engine0_def)
  have ok0: "sst_rec_ok ?r" by (simp add: sst_rec_ok_def UINT32_MAX_def)
  have fit1: "sst_fits lg_const [?r]" using one_record_buildable [OF ok0] by (simp add: buildable_def)
  let ?s = "s\<lparr>db_compacting := True\<rparr>"
  have d': "dur ?s None l k" using d by (simp add: dur_def vlog_on_def levels_ok_def)
  have inv': "db_inv ?s" "db_inv (?s\<lparr>db_seq := db_seq s + 1\<rparr>)"
    using inv_start [OF s(2), of ?s True "db_seq s"] inv_start [OF s(2), of "?s\<lparr>db_seq := db_seq s + 1\<rparr>" True "db_seq s + 1"] by simp_all
  have fits: "flush_fits lg_const (db_gen s) (mt_snapshot (db_mem s)) (s\<lparr>db_compacting := True, db_seq := db_seq s + 1\<rparr>)"
    using inline_flush_fits [OF inv'(2), of "[?r]" lg_const] snap fit1 by simp
  obtain s1 t where s1: "flush_locked no_faults lg_const ?s = (Inr (), s1)" "db_inv s1" "db_ssts s1 = t # db_ssts ?s"
    "\<exists>w z. separate no_faults (db_sep_threshold ?s) (db_gen ?s) (mt_snapshot (db_mem ?s)) (?s\<lparr>db_seq := db_seq ?s + 1\<rparr>)
      = (Inr (sst_records t, w), z)"
    by (rule flush_locked_ok [OF inv'(1)]) (use snap fits in simp_all)
  have recs: "sst_records t = [?r]" using s1(4) snap(2,3) separate_inline [of "[?r]" "db_sep_threshold s"] by auto
  have seq: "unat (db_seq ?s) < UINT32_MAX" using budget_seq(1) [OF dinv_parts(8) [OF D]] by (simp add: engine0_def steps_left_def)
  have ne: "\<not> mt_empty (db_mem ?s)" using snap by simp
  have fits': "flush_fits lg_const (db_gen ?s) (mt_snapshot (db_mem ?s)) (?s\<lparr>db_seq := db_seq ?s + 1\<rparr>)" using fits by simp
  obtain t' where f: "dur s1 None [] 0" "s1 = ?s\<lparr>db_disk := db_disk s1, db_vlogs := db_vlogs s1, db_stat := db_stat s1, db_next_obj := db_next_obj s1,
      db_level := db_level s1, db_ssts := db_ssts s1, db_mem := db_mem s1, db_wal := db_wal s1, db_seq := db_seq ?s + 1\<rparr>"
    "quiet {vlog_name (db_gen ?s), sst_name (db_seq ?s), sst_name (db_seq ?s) @ tmp_suffix, man_name, man_tmp_name, wal_name}
      (db_disk ?s) (db_disk s1)"
    by (rule dur_flush_locked [OF d' inv'(1) s1(2) ne fits' seq s1(1)])
  have g: "db_gen s1 = db_gen s" by (subst f(2), simp)
  have ok: "wal_ok ?r" by (simp add: wal_ok_def UINT32_MAX_def)
  have "quiet {wal_name} (db_disk s0) (db_disk s)" using append_inv(3) [OF _ ok s(9) refl] s0(2) by (simp add: rested_def)
  note q0 = quietD(2) [OF this dinv_parts(9) [OF fresh_dinv(1) [OF s0(1)], simplified engine0_def, simplified]]
  have "d_ino (db_disk s) (vlog_name (db_gen s + 1)) = None"
    using q0 [of "vlog_name (db_gen s + 1)"] fresh_next_gen [OF s0(1)] s(10) by (simp add: same_file_def)
  then have fresh: "d_ino (db_disk s1) (vlog_name (db_gen s1 + 1)) = None"
    using quietD(2) [OF f(3) dur_dwf [OF d'], of "vlog_name (db_gen s + 1)"] g by (simp add: same_file_def vlog_name_inj)
  have "live_filter True (merge_spec (map sst_records (db_ssts s1))) = [?r]"
    by (simp add: s1(3) s(4) s0(4) recs merge_spec_def src_keys_def live_filter_def)
  moreover have "\<forall>t\<in>set (db_ssts s1). sst_inv t" using s1(2) by (auto simp: db_inv_def ssts_ok_def)
  moreover have "db_gen s1 + 1 \<notin> fst ` set (db_vlogs s1)" using f(1) by (auto simp: dur_def vlog_on_def)
  ultimately have "gc_fits lg_const s1" using inline_gc_fits [of s1 "[?r]"] fit1 fresh by simp
  moreover have "gc_ready s" "length (db_ssts s1) = 1" using s(4-6) s0(4) s1(3) by (simp_all add: gc_ready_def)
  ultimately show thesis using that [OF s(2) _ _ fits s1(1)] s(7) s0(3) by simp
qed

end
