(* ===== verification/Reopen.thy ===== *)
theory Reopen
  imports Crash_Safety
begin

text \<open>
  Opening a directory that an earlier process left behind, and going on from there. As long
  as the write-ahead log ends at a record boundary, the store that comes back satisfies the
  same invariant as the first one, so that everything known about one process holds again
  for the next.
\<close>

subsection \<open>The log ends at a record\<close>

definition untorn :: "disk \<Rightarrow> bool" where
  "untorn d \<longleftrightarrow> (case d_read d wal_name of None \<Rightarrow> True | Some b \<Rightarrow> wal_bytes (replay_loop b 0 []) = b)"

lemma replay_whole: "list_all wal_ok rs \<Longrightarrow> replay_loop (wal_bytes rs) 0 [] = rs"
  using wal_records_bytes [of rs "[]"] by (simp add: replay_records wal_records_none wal_parse_def)

lemma table_on_obj: "table_on d g t \<Longrightarrow> table_on d g (t\<lparr>sst_obj := n\<rparr>)"
  using sst_parse_obj(1) by (auto simp: table_on_def)

lemma store_on_reobj: "store_on d g q ts \<Longrightarrow> store_on d g q (reobj n ts)"
proof -
  assume st: "store_on d g q ts"
  have "table_on d g t \<and> (\<exists>n < q. sst_path t = sst_name n)" if t: "t \<in> set (reobj n ts)" for t
  proof -
    obtain u k where u: "u \<in> set ts" "t = u\<lparr>sst_obj := k\<rparr>" using in_reobj [OF t] by blast
    then show ?thesis using st table_on_obj by (simp add: store_on_def)
  qed
  then show ?thesis using st by (simp add: store_on_def reobj_facts)
qed

lemma reopen:
  assumes st: "store_on d g q ts" and l: "logs_on d fl w k" and k: "k \<le> length w" and rd: "d_read d wal_name = Some (wal_bytes w)"
    and fits: "recovery_fits lg cf d" and q: "unat q < UINT32_MAX"
  obtains s w' k' where "db_open no_faults lg cf d = (Inr (), s)" and "db_inv s" and "dur s None w' k'"
    and "fl = None \<and> w' = w \<and> k' = k \<and> tables_map s = recovered d g ts [] \<or>
      w' = [] \<and> k' = 0 \<and> tables_map s = fold rec_step (fl_recs fl @ w) (recovered d g ts [])"
    and "db_gen s = g" and "unat (db_seq s) \<le> unat q + 1" and "db_dead_ssts s = []" and "db_dead_vlogs s = []"
    and "\<not> db_has_flushing s" and "\<not> db_compacting s"
proof -
  obtain m s man where s: "db_load (db_init cf d) = (Inr (Some man, fl \<noteq> None), s)" "db_inv s"
    "abs_db s = recovered d g ts (fl_recs fl @ take m w)" "\<not> db_has_flushing s" "db_mem s = fold apply_rec (fl_recs fl @ take m w) memtable0"
    "db_gen s = g" "db_seq s = q" "store_on (db_disk s) g q ts" "logs_on (db_disk s) fl w k" "db_ssts s = reobj 0 ts"
    "db_dead_ssts s = []" "db_dead_vlogs s = []" "\<forall>x l. db_level s x = Some l \<longrightarrow> - (2 ^ 31) \<le> l \<and> l < 2 ^ 31"
    "\<exists>v. db_vlogs s = [(g, v)] \<and> d_ino (db_disk s) (vlog_name g) = Some (vl_fd v)"
    "wal_replay no_faults wal_name (db_disk s) = Inr (take m w)" "d_ino (db_disk s) wal_name = Some (ino_of wal_name d)"
    "blobs (db_disk s) = blobs (snd (d_create wal_name d))" "recovered (db_disk s) g ts = recovered d g ts" "\<not> db_compacting s"
    by (rule load_ok [OF st l, of cf])
  obtain i where i: "d_ino d wal_name = Some i" "blobs d i = wal_bytes w" using rd by (auto simp: d_read_def split: option.splits)
  have rd': "d_read (db_disk s) wal_name = Some (wal_bytes w)"
    using s(16,17) i by (simp add: d_read_def ino_of_def d_create_def)
  have "list_all wal_ok w" using l by (simp add: logs_on_def)
  then have m: "take m w = w" using s(15) rd' replay_whole by (simp add: wal_replay_def no_faults_def)
  note rc = s(3,5) [unfolded m]
  have vl: "vlog_on s" and lv: "levels_ok s" using s(6,13,14) by (simp_all add: vlog_on_def levels_ok_def)
  have st': "store_on (db_disk s) (db_gen s) q (db_ssts s)" using store_on_reobj [OF s(8)] s(6,10) by simp
  then have b: "backed s" using vl lv s(7) by (auto simp: backed_def)
  have base: "tables_map s = recovered d g ts []"
    unfolding fun_eq_iff tables_map_on [OF st' vl] s(18) [symmetric] by (simp add: recovered_def s(6,10) reobj_facts)
  have rfold: "recovered d g ts rs = fold rec_step rs (recovered d g ts [])" for rs
    by (simp add: fun_eq_iff fold_rec_step recovered_def split: option.split)
  show thesis
  proof (cases fl)
    case None
    then have run: "db_open no_faults lg cf d = (Inr (), s)" using s(1) by (simp add: db_open_def db_ctor_load sbind_Inr)
    have "dur s None w k" by (rule backed_dur [OF b]) (use s(4,9) rc(2) k rd' None in \<open>simp_all add: fl_recs_def\<close>)
    then show thesis using that [OF run s(2)] None base s(4,6,7,11,12,19) by simp
  next
    case (Some fr)
    have "\<exists>s1. flush_locked no_faults lg s = (Inr (), s1) \<and> db_inv s1 \<and> abs_db s1 = abs_db s \<and> backed s1 \<and> db_mem s1 = memtable0 \<and>
        (\<exists>i. d_ino (db_disk s1) wal_name = Some i \<and> blobs (db_disk s1) i = []) \<and> db_gen s1 = g \<and> unat (db_seq s1) \<le> unat q + 1 \<and>
        db_dead_ssts s1 = [] \<and> db_dead_vlogs s1 = [] \<and> \<not> db_has_flushing s1 \<and> \<not> db_compacting s1"
    proof (cases "mt_empty (db_mem s)")
      case True
      then have "fl_recs fl @ w = []" using empty_mem_no_records [of "fl_recs fl @ w"] by (simp only: rc(2))
      then have "db_mem s = memtable0" "w = []" using rc(2) by simp_all
      moreover have "flush_locked no_faults lg s = (Inr (), s)" using True by (simp add: flush_locked_def sbind_def)
      ultimately show ?thesis using s(2,4,6,7,11,12,16,19) b rd' by (auto simp: d_read_def)
    next
      case False
      have fit: "flush_fits lg (db_gen s) (mt_snapshot (db_mem s)) (s\<lparr>db_seq := db_seq s + 1\<rparr>)"
        using fits s(1) Some False by (auto simp: recovery_fits_def)
      obtain s1 where s1: "flush_locked no_faults lg s = (Inr (), s1)" "db_inv s1" "abs_db s1 = abs_db s"
        by (rule flush_locked_abs [OF s(2,4) fit])
      have seq: "unat (db_seq s) < UINT32_MAX" using q s(7) by simp
      obtain t i where f: "backed s1"
        "s1 = s\<lparr>db_disk := db_disk s1, db_vlogs := db_vlogs s1, db_stat := db_stat s1, db_next_obj := db_next_obj s1,
          db_level := db_level s1, db_ssts := db_ssts s1, db_mem := db_mem s1, db_wal := db_wal s1, db_seq := db_seq s + 1\<rparr>"
        "d_ino (db_disk s1) wal_name = Some i" "blobs (db_disk s1) i = []" "db_mem s1 = memtable0"
        by (rule backed_flush_locked [OF b s(2) s1(2) False fit seq s1(1)])
      have g: "db_gen s1 = db_gen s" "db_seq s1 = db_seq s + 1" "db_dead_ssts s1 = db_dead_ssts s" "db_dead_vlogs s1 = db_dead_vlogs s"
        "db_has_flushing s1 = db_has_flushing s" "db_compacting s1 = db_compacting s" by (subst f(2), simp)+
      show ?thesis using s1 f(1,3-5) s(4,6,7,11,12,19) u32_seq [OF seq] by (auto simp: g)
    qed
    then obtain s1 i where s1: "flush_locked no_faults lg s = (Inr (), s1)" "db_inv s1" "abs_db s1 = abs_db s" "backed s1" "db_mem s1 = memtable0"
      "d_ino (db_disk s1) wal_name = Some i" "blobs (db_disk s1) i = []" "db_gen s1 = g" "unat (db_seq s1) \<le> unat q + 1"
      "db_dead_ssts s1 = []" "db_dead_vlogs s1 = []" "\<not> db_has_flushing s1" "\<not> db_compacting s1" by blast
    let ?s2 = "s1\<lparr>db_disk := d_unlink flushing_wal_name (db_disk s1)\<rparr>"
    have run: "db_open no_faults lg cf d = (Inr (), ?s2)"
      using s(1) s1(1) Some
      by (simp add: db_open_def db_ctor_load sbind_def on_disk_def fsync_dir_ok fs_remove_def no_faults_def [of "''fs::remove''"])
    have vs: "vs_inv (db_vlogs s1) (db_disk s1)" using s1(2) by (simp add: db_inv_def)
    have inv2: "db_inv ?s2 \<and> abs_db ?s2 = abs_db s1 \<and> keeps s1 ?s2"
      by (rule same_data [OF s1(2) calm_unlink [OF vs]]) (use dead_okI [OF s1(2)] in \<open>simp_all add: dead_ok_def d_unlink_eqs\<close>)
    have q2: "quiet {flushing_wal_name} (db_disk s1) (db_disk ?s2)" by (simp add: quiet_unlink)
    have vg: "same_file (db_disk s1) (db_disk ?s2) (vlog_name g)" by (rule quietD(2) [OF q2 backed_dwf [OF s1(4)]]) simp
    have on: "vlog_on ?s2" by (rule vlog_on_frame [of s1]) (use s1(4,8) vg in \<open>simp_all add: backed_def same_file_def\<close>)
    have lv2: "levels_ok ?s2" using s1(4) by (simp add: backed_def levels_ok_def)
    have "flushing_wal_name \<noteq> sst_path t" if "t \<in> set (db_ssts s1)" for t using backed_tables(2) [OF s1(4) that] by auto
    then have N: "{flushing_wal_name} \<inter> ({man_name} \<union> sst_path ` set (db_ssts s1)) = {}" by auto
    have b2: "backed ?s2" by (rule backed_frame(1) [OF s1(4) q2 N on]) (use vg inv2 lv2 s1(8) in \<open>simp_all add: same_grown\<close>)
    have "logs_on (db_disk ?s2) None [] 0 \<and> d_read (db_disk ?s2) wal_name = Some (wal_bytes [])"
      by (intro logs_on_fresh [of _ i]) (use s1(6,7) in \<open>simp_all add: d_unlink_eqs\<close>)
    then have dur2: "dur ?s2 None [] 0" by (intro backed_dur [OF b2]) (use s1(5,12) in simp_all)
    have "abs_db ?s2 = tables_map ?s2" using dur_abs [OF dur2] by (simp add: fl_recs_def)
    then have "tables_map ?s2 = fold rec_step (fl_recs fl @ w) (recovered d g ts [])"
      unfolding rfold [of "fl_recs fl @ w", symmetric] using inv2 s1(3) rc(1) by simp
    then show thesis using that [OF run _ dur2] inv2 s1(8-13) by simp
  qed
qed

text \<open>The engine starts again, with its invariant.\<close>

lemma backed_claims:
  assumes "backed s" and "db_dead_ssts s = []" and "\<not> db_has_flushing s"
  shows "claims_ok (engine0 s)"
proof -
  have "distinct (map sst_path (db_ssts s))" using assms(1) by (auto simp: backed_def store_on_def)
  moreover have "\<exists>n<db_seq s. sst_path t = sst_name n" if "t \<in> set (db_ssts s)" for t by (rule backed_tables(2) [OF assms(1) that])
  ultimately show ?thesis using assms(2,3) by (auto simp: claims_ok_def claims_def engine0_def fl_claim_def mg_claim_def)
qed

lemma dinv_restart:
  assumes "dur s None w k" and "db_inv s" and "budget n s" and "db_dead_ssts s = []" and "db_dead_vlogs s = []"
  shows "dinv n (engine0 s) None w k"
proof -
  have free: "\<not> db_has_flushing s" using assms(1) by (simp add: dur_def)
  have "engine_inv (engine0 s)" using assms(2) by (simp add: engine_inv_def engine0_def fl_ok_def mg_ok_def apart_def)
  moreover have "rest_ok n (engine0 s)"
    using backed_claims [OF dur_backed [OF assms(1)] assms(4) free] assms(3,5)
    by (simp add: rest_ok_def engine0_def fl_built_def mg_built_def dead_logs_def)
  ultimately show ?thesis using assms(1) by (simp add: dinv_def engine0_def)
qed

lemma dur_recovered:
  assumes "dur s fl w k" and "store_on (db_disk s) (db_gen s) q (db_ssts s)"
  shows "recovered (db_disk s) (db_gen s) (db_ssts s) [] = tables_map s"
  using tables_map_on [OF assms(2)] assms(1) by (auto simp: dur_def recovered_def fun_eq_iff)

text \<open>Another process opens the files as they are; nothing is lost and nothing becomes more durable.\<close>

lemma process_restart:
  assumes D: "dinv n e fl w k" and left: "steps_left n" and fits: "recovery_fits lg cf (db_disk (en_db e))"
    and h: "hist evs m0 (tables_map (en_db e)) (fl_recs fl @ w) (length (fl_recs fl) + k)"
  obtains s w' k' where "db_open no_faults lg cf (db_disk (en_db e)) = (Inr (), s)" and "dinv (Suc n) (engine0 s) None w' k'"
    and "hist evs m0 (tables_map s) w' k'" and "gc_ready s"
proof -
  let ?s = "en_db e"
  note d = dinv_parts(5) [OF D]
  obtain q where q: "q \<le> db_seq ?s" "store_on (db_disk ?s) (db_gen ?s) q (db_ssts ?s)" using d by (auto simp: dur_def)
  have l: "logs_on (db_disk ?s) fl w k" "k \<le> length w" "d_read (db_disk ?s) wal_name = Some (wal_bytes w)" using d by (simp_all add: dur_def)
  have qn: "unat q \<le> unat (db_seq ?s)" using q(1) by (simp add: word_le_nat_alt)
  then have small: "unat q < UINT32_MAX" using budget_seq(1) [OF dinv_parts(8) [OF D] left] by simp
  obtain s w' k' where s: "db_open no_faults lg cf (db_disk ?s) = (Inr (), s)" "db_inv s" "dur s None w' k'"
    "fl = None \<and> w' = w \<and> k' = k \<and> tables_map s = recovered (db_disk ?s) (db_gen ?s) (db_ssts ?s) [] \<or>
      w' = [] \<and> k' = 0 \<and> tables_map s = fold rec_step (fl_recs fl @ w) (recovered (db_disk ?s) (db_gen ?s) (db_ssts ?s) [])"
    "db_gen s = db_gen ?s" "unat (db_seq s) \<le> unat q + 1" "db_dead_ssts s = []" "db_dead_vlogs s = []" "\<not> db_has_flushing s" "\<not> db_compacting s"
    by (rule reopen [OF q(2) l fits small])
  have "budget (Suc n) s" using dinv_parts(8) [OF D] s(5,6) qn by (simp add: budget_def)
  from dinv_restart [OF s(3,2) this s(7,8)] have D': "dinv (Suc n) (engine0 s) None w' k'" .
  have "hist evs m0 (fold rec_step (fl_recs fl @ w) (tables_map ?s)) [] 0"
    using hist_flush [OF h, of "length (fl_recs fl @ w)"] l(2) by simp
  then have "hist evs m0 (tables_map s) w' k'"
    using s(4) h unfolding dur_recovered [OF d q(2)] by (elim disjE conjE) (simp_all add: fl_recs_def)
  moreover have "gc_ready s" using s(9,10) by (simp add: gc_ready_def)
  ultimately show thesis using that s(1) D' by blast
qed

text \<open>After a crash everything that is still there is durable, and a new history begins.\<close>

lemma machine_restart:
  assumes D: "dinv n e fl w k" and left: "steps_left n" and c: "crash_cut (db_disk (en_db e)) d" and un: "untorn d"
    and fits: "recovery_fits lg cf d" and h: "hist evs m0 (tables_map (en_db e)) (fl_recs fl @ w) (length (fl_recs fl) + k)"
  obtains s w' k' m where "db_open no_faults lg cf d = (Inr (), s)" and "dinv (Suc n) (engine0 s) None w' k'"
    and "acked evs \<le> m" and "m \<le> length evs" and "abs_db s = fold map_step (take m evs) m0" and "hist [] (abs_db s) (tables_map s) w' k'"
proof -
  let ?s = "en_db e"
  note d = dinv_parts(5) [OF D]
  obtain q where q: "q \<le> db_seq ?s" "store_on (db_disk ?s) (db_gen ?s) q (db_ssts ?s)" using d by (auto simp: dur_def)
  have l: "logs_on (db_disk ?s) fl w k" "k \<le> length w" "d_read (db_disk ?s) wal_name = Some (wal_bytes w)" using d by (simp_all add: dur_def)
  have ok: "synced_ok (db_disk ?s)" using q(2) by (simp add: store_on_def)
  have qn: "unat q \<le> unat (db_seq ?s)" using q(1) by (simp add: word_le_nat_alt)
  then have small: "unat q < UINT32_MAX" using budget_seq(1) [OF dinv_parts(8) [OF D] left] by simp
  note st = crash_store_on [OF c q(2)]
  note lc = crash_logs_on [OF c ok l(1)]
  obtain i where i: "d_ino d wal_name = Some i" using l(3) crash_ino [OF c, of wal_name] by (auto simp: d_read_def split: option.splits)
  have okd: "synced_ok d" and full: "synced d i = length (blobs d i)" using crash_blob(4) [OF c ok] by (simp_all add: synced_ok_def)
  obtain m where m: "k \<le> m \<or> length w \<le> m" "wal_replay no_faults wal_name d = Inr (take m w)" by (rule logs_on_replay [OF lc okd])
  let ?w = "take m w"
  have rd: "d_read d wal_name = Some (wal_bytes ?w)"
    using un m(2) i by (simp add: untorn_def wal_replay_def no_faults_def d_read_def)
  then have "blobs d i = wal_bytes ?w" using i by (simp add: d_read_def)
  then have "(\<exists>n. blobs d i = take n (wal_bytes ?w)) \<and> length (wal_bytes (take (length ?w) ?w)) \<le> synced d i"
    using full by (metis order_refl take_all)
  then have lw: "logs_on d fl ?w (length ?w)" using lc i by (auto simp: logs_on_def list_all_iff dest: in_set_takeD)
  obtain s w' k' where s: "db_open no_faults lg cf d = (Inr (), s)" "db_inv s" "dur s None w' k'"
    "fl = None \<and> w' = ?w \<and> k' = length ?w \<and> tables_map s = recovered d (db_gen ?s) (db_ssts ?s) [] \<or>
      w' = [] \<and> k' = 0 \<and> tables_map s = fold rec_step (fl_recs fl @ ?w) (recovered d (db_gen ?s) (db_ssts ?s) [])"
    "db_gen s = db_gen ?s" "unat (db_seq s) \<le> unat q + 1" "db_dead_ssts s = []" "db_dead_vlogs s = []"
    by (rule reopen [OF st(1) lw order_refl rd fits small])
  have base: "recovered d (db_gen ?s) (db_ssts ?s) [] = tables_map ?s"
    using dur_recovered [OF d q(2)] st(2) by (simp add: recovered_def fun_eq_iff)
  have "budget (Suc n) s" using dinv_parts(8) [OF D] s(5,6) qn by (simp add: budget_def)
  from dinv_restart [OF s(3,2) this s(7,8)] have D': "dinv (Suc n) (engine0 s) None w' k'" .
  have abs: "abs_db s = fold rec_step w' (tables_map s)" using dur_abs [OF s(3)] by (simp add: fl_recs_def)
  then have "abs_db s = fold rec_step (take (length (fl_recs fl) + m) (fl_recs fl @ w)) (tables_map ?s)"
    using s(4) unfolding base by (auto simp: fl_recs_def)
  moreover have "length (fl_recs fl) + k \<le> length (fl_recs fl) + m \<or> take (length (fl_recs fl) + m) (fl_recs fl @ w) = take (length (fl_recs fl) + length w) (fl_recs fl @ w)"
    using m(1) by auto
  ultimately obtain j where j: "acked evs \<le> j" "j \<le> length evs" "abs_db s = fold map_step (take j evs) m0"
    using h l(2) unfolding hist_def by (metis add_le_cancel_left)
  have "length w' \<le> k'" using s(4) by auto
  then have "hist [] (abs_db s) (tables_map s) w' k'" using abs by (auto simp: hist_def)
  then show thesis using that [OF s(1) D' j] by blast
qed

subsection \<open>The destructor\<close>

text \<open>\<open>~DB\<close> removes the files of the objects that are no longer in use, as the threads would have done.\<close>

lemma dinv_same_budget: "dinv (Suc n) e fl w k \<Longrightarrow> budget n (en_db e) \<Longrightarrow> dinv n e fl w k"
  by (simp add: dinv_def rest_ok_def)

lemma reap_all_ssts:
  assumes "dinv n e fl w k"
  shows "\<exists>s. dinv n (e\<lparr>en_db := s\<rparr>) fl w k \<and> tables_map s = tables_map (en_db e) \<and>
    s = (en_db e)\<lparr>db_disk := fold sst_destroy (db_dead_ssts (en_db e)) (db_disk (en_db e)), db_dead_ssts := []\<rparr>"
  using assms
proof (induction "db_dead_ssts (en_db e)" arbitrary: e)
  case Nil
  then show ?case by (intro exI [of _ "en_db e"]) simp
next
  case (Cons t ts)
  let ?s = "reap_sst (en_db e)"
  let ?e = "e\<lparr>en_db := ?s\<rparr>"
  have s: "?s = (en_db e)\<lparr>db_dead_ssts := ts, db_disk := sst_destroy t (db_disk (en_db e))\<rparr>"
    using Cons.hyps(2) [symmetric] by (simp add: reap_sst_def)
  have "engine_step lg e EvTau ?e" for lg by (rule engine_step.ReapSst)
  from engine_step_sim [OF this dinv_parts(1) [OF Cons.prems]] have "engine_inv ?e" by simp
  note r = reap_sst_step [OF Cons.prems this]
  have "budget n (en_db ?e)" using dinv_parts(8) [OF Cons.prems] by (simp add: s budget_def)
  then have "dinv n ?e fl w k" using r dinv_same_budget by blast
  from Cons.hyps(1) [OF _ this] obtain z where "dinv n (?e\<lparr>en_db := z\<rparr>) fl w k" "tables_map z = tables_map ?s"
    "z = ?s\<lparr>db_disk := fold sst_destroy ts (db_disk ?s), db_dead_ssts := []\<rparr>" by (auto simp: s)
  then show ?case using r by (intro exI [of _ z]) (simp add: s Cons.hyps(2) [symmetric])
qed

lemma reap_all_vlogs:
  assumes "dinv n e fl w k"
  shows "\<exists>s. dinv n (e\<lparr>en_db := s\<rparr>) fl w k \<and> tables_map s = tables_map (en_db e) \<and>
    s = (en_db e)\<lparr>db_disk := fold vlog_destroy (db_dead_vlogs (en_db e)) (db_disk (en_db e)), db_dead_vlogs := []\<rparr>"
  using assms
proof (induction "db_dead_vlogs (en_db e)" arbitrary: e)
  case Nil
  then show ?case by (intro exI [of _ "en_db e"]) simp
next
  case (Cons v vs)
  let ?s = "reap_vlog (en_db e)"
  let ?e = "e\<lparr>en_db := ?s\<rparr>"
  have s: "?s = (en_db e)\<lparr>db_dead_vlogs := vs, db_disk := vlog_destroy v (db_disk (en_db e))\<rparr>"
    using Cons.hyps(2) [symmetric] by (simp add: reap_vlog_def)
  have "engine_step lg e EvTau ?e" for lg by (rule engine_step.ReapVlog)
  from engine_step_sim [OF this dinv_parts(1) [OF Cons.prems]] have "engine_inv ?e" by simp
  note r = reap_vlog_step [OF Cons.prems this]
  have "budget n (en_db ?e)" using dinv_parts(8) [OF Cons.prems] by (simp add: s budget_def)
  then have "dinv n ?e fl w k" using r dinv_same_budget by blast
  from Cons.hyps(1) [OF _ this] obtain z where "dinv n (?e\<lparr>en_db := z\<rparr>) fl w k" "tables_map z = tables_map ?s"
    "z = ?s\<lparr>db_disk := fold vlog_destroy vs (db_disk ?s), db_dead_vlogs := []\<rparr>" by (auto simp: s)
  then show ?case using r by (intro exI [of _ z]) (simp add: s Cons.hyps(2) [symmetric])
qed

lemma live_objects_stay:
  assumes "db_inv s"
  shows "fold sst_destroy (db_ssts s) d = d" and "fold vlog_destroy (map snd (db_vlogs s)) d = d"
proof -
  have "\<forall>t\<in>set (db_ssts s). \<not> sst_obsolete t" using assms by (auto simp: db_inv_def ssts_ok_def)
  moreover have "fold sst_destroy ts d = d" if "\<forall>t\<in>set ts. \<not> sst_obsolete t" for ts
    using that by (induction ts) (simp_all add: sst_destroy_def)
  ultimately show "fold sst_destroy (db_ssts s) d = d" by blast
  have "\<forall>v\<in>set (map snd (db_vlogs s)). \<not> vl_obsolete v" using assms by (auto simp: db_inv_def vs_inv_def vlog_inv_def)
  moreover have "fold vlog_destroy vs d = d" if "\<forall>v\<in>set vs. \<not> vl_obsolete v" for vs
    using that by (induction vs) (simp_all add: vlog_destroy_def)
  ultimately show "fold vlog_destroy (map snd (db_vlogs s)) d = d" by blast
qed

lemma dinv_close:
  assumes "dinv n e fl w k"
  obtains s where "dinv n (e\<lparr>en_db := s\<rparr>) fl w k" and "tables_map s = tables_map (en_db e)" and "db_disk s = db_close (en_db e)"
    and "abs_db s = abs_db (en_db e)"
proof -
  obtain s1 where s1: "dinv n (e\<lparr>en_db := s1\<rparr>) fl w k" "tables_map s1 = tables_map (en_db e)"
    "s1 = (en_db e)\<lparr>db_disk := fold sst_destroy (db_dead_ssts (en_db e)) (db_disk (en_db e)), db_dead_ssts := []\<rparr>"
    using reap_all_ssts [OF assms] by blast
  obtain s2 where s2: "dinv n (e\<lparr>en_db := s2\<rparr>) fl w k" "tables_map s2 = tables_map s1"
    "s2 = s1\<lparr>db_disk := fold vlog_destroy (db_dead_vlogs s1) (db_disk s1), db_dead_vlogs := []\<rparr>"
    using reap_all_vlogs [OF s1(1)] by auto
  have "db_disk s2 = db_close (en_db e)"
    using live_objects_stay [OF dinv_parts(2) [OF assms]] by (simp add: s2(3) s1(3) db_close_def Let_def)
  moreover have "abs_db s2 = abs_db (en_db e)"
    using dur_abs [OF dinv_parts(5) [OF s2(1)]] dur_abs [OF dinv_parts(5) [OF assms]] s1(2) s2(2) by simp
  ultimately show thesis using that [OF s2(1)] s1(2) s2(2) by simp
qed

definition left_behind :: "db \<Rightarrow> disk \<Rightarrow> bool" where
  "left_behind s d \<longleftrightarrow> d = db_disk s \<or> d = db_close s"

lemma left_behind_restart:
  assumes D: "dinv n e fl w k" and left: "steps_left n" and end_: "left_behind (en_db e) d" and fits: "recovery_fits lg cf d"
    and h: "hist evs m0 (tables_map (en_db e)) (fl_recs fl @ w) (length (fl_recs fl) + k)"
  obtains s w' k' where "db_open no_faults lg cf d = (Inr (), s)" and "dinv (Suc n) (engine0 s) None w' k'"
    and "hist evs m0 (tables_map s) w' k'" and "gc_ready s"
proof (cases "d = db_disk (en_db e)")
  case True
  then show thesis using process_restart [OF D left _ h] fits that by blast
next
  case False
  obtain s where s: "dinv n (e\<lparr>en_db := s\<rparr>) fl w k" "tables_map s = tables_map (en_db e)" "db_disk s = db_close (en_db e)"
    by (rule dinv_close [OF D])
  have d: "d = db_disk (en_db (e\<lparr>en_db := s\<rparr>))" using False end_ s(3) by (simp add: left_behind_def)
  have fits': "recovery_fits lg cf (db_disk (en_db (e\<lparr>en_db := s\<rparr>)))" using fits d by simp
  have h': "hist evs m0 (tables_map (en_db (e\<lparr>en_db := s\<rparr>))) (fl_recs fl @ w) (length (fl_recs fl) + k)" using h s(2) by simp
  show thesis by (rule process_restart [OF s(1) left fits' h']) (use that d in simp)
qed

subsection \<open>The life of a store\<close>

text \<open>
  A directory from its creation on: steps of the running process, a process that ends at any
  moment, by its destructor or by a signal, and is followed by another one, and crashes of the machine
  that leave the log at a record boundary. \<open>life lg eps evs e\<close>: \<open>e\<close> is the running engine,
  \<open>evs\<close> what happened since the last crash of the machine, \<open>eps\<close> what happened in the epochs
  between earlier crashes.
\<close>

inductive life :: "(real \<Rightarrow> real) \<Rightarrow> event list list \<Rightarrow> event list \<Rightarrow> engine \<Rightarrow> bool" for lg where
  Create: "db_open no_faults lg cf disk0 = (Inr (), s) \<Longrightarrow> life lg [] [] (engine0 s)"
| Step: "\<lbrakk>life lg eps evs e; engine_step lg e ev e'\<rbrakk> \<Longrightarrow> life lg eps (evs @ [ev]) e'"
| Restart: "\<lbrakk>life lg eps evs e; left_behind (en_db e) d; recovery_fits lg cf d; db_open no_faults lg cf d = (Inr (), s)\<rbrakk>
    \<Longrightarrow> life lg eps (evs @ [EvTau]) (engine0 s)"
| Crash: "\<lbrakk>life lg eps evs e; crash_cut (db_disk (en_db e)) d; untorn d; recovery_fits lg cf d; db_open no_faults lg cf d = (Inr (), s)\<rbrakk>
    \<Longrightarrow> life lg (eps @ [evs]) [] (engine0 s)"

text \<open>What may be left of a list of epochs: of each a prefix with all that was acknowledged as durable.\<close>

inductive survives :: "event list list \<Rightarrow> event list \<Rightarrow> bool" where
  Nothing: "survives [] []"
| Epoch: "\<lbrakk>survives eps h; acked evs \<le> n; n \<le> length evs\<rbrakk> \<Longrightarrow> survives (eps @ [evs]) (h @ take n evs)"

definition life_len :: "event list list \<Rightarrow> event list \<Rightarrow> nat" where
  "life_len eps evs = sum_list (map (\<lambda>ep. Suc (length ep)) eps) + length evs"

lemma life_len_simps [simp]:
  "life_len eps (evs @ [ev]) = Suc (life_len eps evs)" "life_len (eps @ [evs]) [] = Suc (life_len eps evs)" "life_len [] [] = 0"
  by (simp_all add: life_len_def)

lemma trace_ok_snoc: "trace_ok (evs @ [ev]) m \<longleftrightarrow> trace_ok evs m \<and> reports ev (fold map_step evs m)"
  by (induction evs arbitrary: m) auto

lemma hist_tau: "hist evs m0 B R D \<Longrightarrow> hist (evs @ [EvTau]) m0 B R D"
  by (rule hist_read) simp_all

lemma life_dinv:
  assumes "life lg eps evs e" and "life_len eps evs < 2 ^ 31"
  shows "\<exists>h fl w k. survives eps h \<and> trace_ok evs (fold map_step h Map.empty) \<and> dinv (life_len eps evs) e fl w k \<and>
    hist evs (fold map_step h Map.empty) (tables_map (en_db e)) (fl_recs fl @ w) (length (fl_recs fl) + k)"
  using assms
proof (induction rule: life.induct)
  case (Create cf s)
  note f = fresh_dinv [OF Create.hyps]
  have "hist [] Map.empty (tables_map (en_db (engine0 s))) (fl_recs None @ []) (length (fl_recs None) + 0)"
    using f(2) hist_start by (simp add: engine0_def fl_recs_def)
  then show ?case
    using f(1) survives.Nothing by (intro exI [of _ "[]"] exI [of _ None] exI [of _ "[]"] exI [of _ 0]) simp
next
  case (Step eps evs e ev e')
  then obtain h fl w k where i: "survives eps h" "trace_ok evs (fold map_step h Map.empty)" "dinv (life_len eps evs) e fl w k"
    "hist evs (fold map_step h Map.empty) (tables_map (en_db e)) (fl_recs fl @ w) (length (fl_recs fl) + k)" by auto
  have "steps_left (life_len eps evs)" using Step.prems by (simp add: steps_left_def)
  then obtain fl' w' k' where n: "dinv (Suc (life_len eps evs)) e' fl' w' k'"
    "hist (evs @ [ev]) (fold map_step h Map.empty) (tables_map (en_db e')) (fl_recs fl' @ w') (length (fl_recs fl') + k')"
    using engine_step_durable [OF Step.hyps(2) i(3)] i(4) unfolding advances_def by blast
  have "abs_db (en_db e) = fold map_step evs (fold map_step h Map.empty)"
    using dur_abs [OF dinv_parts(5) [OF i(3)]] i(4) by (simp add: hist_def)
  then have "reports ev (fold map_step evs (fold map_step h Map.empty))"
    using engine_step_sim [OF Step.hyps(2) dinv_parts(1) [OF i(3)]] by simp
  then have "trace_ok (evs @ [ev]) (fold map_step h Map.empty)" using i(2) by (simp add: trace_ok_snoc)
  then show ?case using i(1) n by auto
next
  case (Restart eps evs e d cf s)
  then obtain h fl w k where i: "survives eps h" "trace_ok evs (fold map_step h Map.empty)" "dinv (life_len eps evs) e fl w k"
    "hist evs (fold map_step h Map.empty) (tables_map (en_db e)) (fl_recs fl @ w) (length (fl_recs fl) + k)" by auto
  have "steps_left (life_len eps evs)" using Restart.prems by (simp add: steps_left_def)
  then obtain s' w' k' where s: "db_open no_faults lg cf d = (Inr (), s')" "dinv (Suc (life_len eps evs)) (engine0 s') None w' k'"
    "hist evs (fold map_step h Map.empty) (tables_map s') w' k'" using left_behind_restart [OF i(3) _ Restart.hyps(2,3) i(4)] by metis
  have "s' = s" using s(1) Restart.hyps(4) by simp
  moreover have "trace_ok (evs @ [EvTau]) (fold map_step h Map.empty)" using i(2) by (simp add: trace_ok_snoc)
  moreover have "hist (evs @ [EvTau]) (fold map_step h Map.empty) (tables_map (en_db (engine0 s'))) (fl_recs None @ w') (length (fl_recs None) + k')"
    using hist_tau [OF s(3)] by (simp add: engine0_def fl_recs_def)
  ultimately show ?case using i(1) s(2) by auto
next
  case (Crash eps evs e d cf s)
  then obtain h fl w k where i: "survives eps h" "trace_ok evs (fold map_step h Map.empty)" "dinv (life_len eps evs) e fl w k"
    "hist evs (fold map_step h Map.empty) (tables_map (en_db e)) (fl_recs fl @ w) (length (fl_recs fl) + k)" by auto
  have left: "steps_left (life_len eps evs)" using Crash.prems by (simp add: steps_left_def)
  obtain s' w' k' m where s: "db_open no_faults lg cf d = (Inr (), s')" "dinv (Suc (life_len eps evs)) (engine0 s') None w' k'"
    "acked evs \<le> m" "m \<le> length evs" "abs_db s' = fold map_step (take m evs) (fold map_step h Map.empty)"
    "hist [] (abs_db s') (tables_map s') w' k'"
    by (rule machine_restart [OF i(3) left Crash.hyps(2-4) i(4)])
  have eq: "s' = s" using s(1) Crash.hyps(5) by simp
  let ?h = "h @ take m evs"
  have "survives (eps @ [evs]) ?h" by (rule survives.Epoch [OF i(1) s(3,4)])
  moreover have "hist [] (fold map_step ?h Map.empty) (tables_map (en_db (engine0 s))) (fl_recs None @ w') (length (fl_recs None) + k')"
    using s(5,6) eq by (simp add: engine0_def fl_recs_def)
  ultimately show ?case using s(2) eq by (intro exI [of _ ?h] exI [of _ None] exI [of _ w'] exI [of _ k']) simp
qed

text \<open>What every moment of a life gives.\<close>

lemma life_abs:
  assumes "dinv n e fl w k" and "hist evs m0 (tables_map (en_db e)) (fl_recs fl @ w) (length (fl_recs fl) + k)"
  shows "abs_db (en_db e) = fold map_step evs m0"
  using dur_abs [OF dinv_parts(5) [OF assms(1)]] assms(2) by (simp add: hist_def)

lemma life_idle_fits:
  assumes "life lg eps evs e" and "life_len eps evs < 2 ^ 31" and "\<not> db_has_flushing (en_db e)" and "crash_cut (db_disk (en_db e)) d"
  shows "recovery_fits lg' cf d"
proof -
  obtain fl w k where "dinv (life_len eps evs) e fl w k" using life_dinv [OF assms(1,2)] by blast
  then have d: "dur (en_db e) fl w k" by (rule dinv_parts)
  then have "fl = None" using assms(3) by (simp add: dur_def)
  with d idle_recovery_fits assms(4) show ?thesis by blast
qed

text \<open>Without a sealed log, opening does not depend on what a process has already done.\<close>

lemma life_restart:
  assumes l: "life lg eps evs e" "life_len eps evs + 1 < 2 ^ 31" and end_: "left_behind (en_db e) d" and fits: "recovery_fits lg cf d"
  obtains s where "db_open no_faults lg cf d = (Inr (), s)" and "abs_db s = abs_db (en_db e)" and "db_inv s" and "gc_ready s"
proof -
  obtain h fl w k where i: "dinv (life_len eps evs) e fl w k"
    "hist evs (fold map_step h Map.empty) (tables_map (en_db e)) (fl_recs fl @ w) (length (fl_recs fl) + k)"
    using life_dinv [OF l(1)] l(2) by force
  have left: "steps_left (life_len eps evs)" using l(2) by (simp add: steps_left_def)
  obtain s w' k' where s: "db_open no_faults lg cf d = (Inr (), s)" "dinv (Suc (life_len eps evs)) (engine0 s) None w' k'"
    "hist evs (fold map_step h Map.empty) (tables_map s) w' k'" "gc_ready s" by (rule left_behind_restart [OF i(1) left end_ fits i(2)])
  have "abs_db s = fold map_step evs (fold map_step h Map.empty)"
    using life_abs [OF s(2)] s(3) by (simp add: engine0_def fl_recs_def)
  then have "abs_db s = abs_db (en_db e)" using life_abs [OF i] by simp
  then show thesis using that s(1,4) dinv_parts(2) [OF s(2)] by (simp add: engine0_def)
qed

lemma idle_open_fits:
  assumes "dur s None w k"
  shows "recovery_fits lg cf (db_disk s)"
proof -
  obtain q where "store_on (db_disk s) (db_gen s) q (db_ssts s)" "logs_on (db_disk s) None w k" using assms by (auto simp: dur_def)
  then show ?thesis by (rule load_ok [of _ _ _ _ _ _ _ cf]) (simp add: recovery_fits_def)
qed

lemma life_end_fits:
  assumes l: "life lg eps evs e" "life_len eps evs < 2 ^ 31" and idle: "\<not> db_has_flushing (en_db e)" and end_: "left_behind (en_db e) d"
  shows "recovery_fits lg' cf d"
proof -
  obtain fl w k where D: "dinv (life_len eps evs) e fl w k" using life_dinv [OF l] by blast
  obtain s where s: "dinv (life_len eps evs) (e\<lparr>en_db := s\<rparr>) fl w k" "db_disk s = db_close (en_db e)" by (rule dinv_close [OF D])
  have d: "dur (en_db e) fl w k" "dur s fl w k" using dinv_parts(5) [OF D] dinv_parts(5) [OF s(1)] by simp_all
  then have "fl = None" using idle by (simp add: dur_def)
  then show ?thesis using idle_open_fits d end_ s(2) unfolding left_behind_def by metis
qed

lemma left_behind_now: "left_behind s (db_disk s)" "left_behind s (db_close s)"
  by (simp_all add: left_behind_def)

lemma idle_restart:
  assumes l: "life lg eps evs e" "\<not> db_has_flushing (en_db e)" "life_len eps evs + 1 < 2 ^ 31"
  shows "\<exists>s. life lg eps (evs @ [EvTau]) (engine0 s)"
proof -
  have "life_len eps evs < 2 ^ 31" using l(3) by linarith
  then have fits: "recovery_fits lg cf (db_disk (en_db e))" by (rule life_end_fits [OF l(1) _ l(2) left_behind_now(1)])
  note now = left_behind_now(1) [of "en_db e"]
  obtain s where "db_open no_faults lg cf (db_disk (en_db e)) = (Inr (), s)" by (rule life_restart [OF l(1,3) now fits])
  then show ?thesis using life.Restart [OF l(1) now fits] by blast
qed

subsection \<open>A first write\<close>

lemma fresh_put_step:
  obtains s s1 where "db_open no_faults lg_const conf0 disk0 = (Inr (), s)"
    and "engine_step lg_const (engine0 s) (EvPut [1] [2] True) (engine0 s1)" and "\<not> db_has_flushing s1" and "abs_db s1 [1] = Some [2]"
proof -
  obtain s where s: "db_open no_faults lg_const conf0 disk0 = (Inr (), s)" "rested s" by (rule fresh_rested)
  obtain s1 where s1: "db_put no_faults [1] [2] True s = (Inr (), s1)" "\<not> db_has_flushing s1" "abs_db s1 = (abs_db s)([1] \<mapsto> [2])"
    by (rule small_put [OF s(2), of "[1]" "[2]"]) simp_all
  have "engine_step lg_const (engine0 s) (EvPut [1] [2] True) (engine0 s1)"
    using engine_step.Put [of "[1]" "[2]" True "engine0 s" s1] s1(1) by (simp add: engine0_def UINT32_MAX_def)
  then show thesis using that s(1) s1(2,3) by simp
qed

end
