(* ===== verification/Cli.thy ===== *)
theory Cli
  imports Reopen
begin

text \<open>
  The command line program (\<open>cli/main.cpp\<close>). One invocation opens the store in the
  directory, runs one operation, prints and exits; the model is the run of the main thread,
  from \<open>argv\<close> and the directory to the exit status, the two output streams and the directory
  that the destructor leaves. Any sequence of invocations behaves like the same commands on
  a map.
\<close>

subsection \<open>The program\<close>

record cli_result =
  cli_status :: nat
  cli_out :: bytes
  cli_err :: bytes

definition cli_ok :: "bytes \<Rightarrow> cli_result" where
  "cli_ok out = \<lparr>cli_status = 0, cli_out = out, cli_err = []\<rparr>"

text \<open>A line break of the output, and the tab between key and value.\<close>

definition nl :: bytes where "nl = [10]"

definition tab :: bytes where "tab = [9]"

definition usage :: cli_result where
  "usage = \<lparr>cli_status = 2, cli_out = [],
     cli_err = lit ''usage:'' @ nl @
       lit ''  lsmkv <dir> put <key> <value>'' @ nl @
       lit ''  lsmkv <dir> get <key>'' @ nl @
       lit ''  lsmkv <dir> del <key>'' @ nl @
       lit ''  lsmkv <dir> scan <start> <end>'' @ nl @
       lit ''  lsmkv <dir> gc'' @ nl\<rparr>"

definition scan_lines :: "(bytes \<times> bytes) list \<Rightarrow> bytes" where
  "scan_lines out = concat (map (\<lambda>(key, value). key @ tab @ value @ nl) out)"

text \<open>The settings of \<open>DB(dir)\<close>: the default arguments of the constructor.\<close>

definition default_config :: db_config where
  "default_config = \<lparr>cf_threshold = 4 * 1024 * 1024, cf_min_merge = 4, cf_size_ratio = 2, cf_sep_threshold = 128,
     cf_leveled = False\<rparr>"

text \<open>The commands; \<open>args\<close> is \<open>argv\<close> from index 3 on.\<close>

definition cli_command :: "io \<Rightarrow> (real \<Rightarrow> real) \<Rightarrow> bytes \<Rightarrow> bytes list \<Rightarrow> (db, cli_result) prog" where
  "cli_command io lg cmd args =
     (if cmd = lit ''put'' then
        (case args of
           [key, value] \<Rightarrow> sbind (db_put io key value True) (\<lambda>_. sret (cli_ok (lit ''OK'' @ nl)))
         | _ \<Rightarrow> sret usage)
      else if cmd = lit ''get'' then
        (case args of
           [key] \<Rightarrow> sbind (db_get io key) (\<lambda>v.
             sret (case v of
               None \<Rightarrow> \<lparr>cli_status = 1, cli_out = [], cli_err = lit ''(not found)'' @ nl\<rparr>
             | Some v \<Rightarrow> cli_ok (v @ nl)))
         | _ \<Rightarrow> sret usage)
      else if cmd = lit ''del'' then
        (case args of
           [key] \<Rightarrow> sbind (db_del io key True) (\<lambda>_. sret (cli_ok (lit ''OK'' @ nl)))
         | _ \<Rightarrow> sret usage)
      else if cmd = lit ''scan'' then
        (case args of
           [start, stop] \<Rightarrow> sbind (db_scan io start stop) (\<lambda>out. sret (cli_ok (scan_lines out)))
         | _ \<Rightarrow> sret usage)
      else if cmd = lit ''gc'' then
        (case args of
           [] \<Rightarrow> sbind (gc_value_log io lg) (\<lambda>_. sret (cli_ok (lit ''OK'' @ nl)))
         | _ \<Rightarrow> sret usage)
      else sret usage)"

text \<open>
  \<open>argv\<close> without the name of the program; the directory is the one the disk models. An
  exception leaves \<open>main\<close> and ends the process without running the destructor.
\<close>

definition cli_main :: "io \<Rightarrow> (real \<Rightarrow> real) \<Rightarrow> bytes list \<Rightarrow> disk \<Rightarrow> cli_result res \<times> disk" where
  "cli_main io lg argv d =
     (case argv of
        dir # cmd # args \<Rightarrow>
          (case db_open io lg default_config d of
             (Inl e, s) \<Rightarrow> (Inl e, db_disk s)
           | (Inr _, s) \<Rightarrow>
               (case cli_command io lg cmd args s of
                  (Inl e, s) \<Rightarrow> (Inl e, db_disk s)
                | (Inr r, s) \<Rightarrow> (Inr r, db_close s)))
      | _ \<Rightarrow> (Inr usage, d))"

fun cli_runs :: "(real \<Rightarrow> real) \<Rightarrow> bytes list list \<Rightarrow> disk \<Rightarrow> cli_result list res" where
  "cli_runs lg [] d = Inr []"
| "cli_runs lg (argv # rest) d =
     (case cli_main no_faults lg argv d of
        (Inl e, _) \<Rightarrow> Inl e
      | (Inr r, d') \<Rightarrow> rbind (cli_runs lg rest d') (\<lambda>rs. Inr (r # rs)))"

subsection \<open>The same commands on a map\<close>

definition map_scan :: "bytes \<Rightarrow> bytes \<Rightarrow> (bytes \<rightharpoonup> bytes) \<Rightarrow> (bytes \<times> bytes) list" where
  "map_scan a b m = map (\<lambda>k. (k, the (m k))) (sorted_list_of_set {k. a \<le> k \<and> k < b \<and> m k \<noteq> None})"

definition cli_spec :: "bytes list \<Rightarrow> (bytes \<rightharpoonup> bytes) \<Rightarrow> cli_result \<times> (bytes \<rightharpoonup> bytes)" where
  "cli_spec argv m =
     (case argv of
        [dir, cmd, x, y] \<Rightarrow>
          if cmd = lit ''put'' then (cli_ok (lit ''OK'' @ nl), m(x \<mapsto> y))
          else if cmd = lit ''scan'' then (cli_ok (scan_lines (map_scan x y m)), m)
          else (usage, m)
      | [dir, cmd, x] \<Rightarrow>
          if cmd = lit ''get'' then
            (case m x of
               None \<Rightarrow> \<lparr>cli_status = 1, cli_out = [], cli_err = lit ''(not found)'' @ nl\<rparr>
             | Some v \<Rightarrow> cli_ok (v @ nl), m)
          else if cmd = lit ''del'' then (cli_ok (lit ''OK'' @ nl), m(x := None))
          else (usage, m)
      | [dir, cmd] \<Rightarrow> if cmd = lit ''gc'' then (cli_ok (lit ''OK'' @ nl), m) else (usage, m)
      | _ \<Rightarrow> (usage, m))"

fun cli_specs :: "bytes list list \<Rightarrow> (bytes \<rightharpoonup> bytes) \<Rightarrow> cli_result list" where
  "cli_specs [] m = []"
| "cli_specs (argv # rest) m = fst (cli_spec argv m) # cli_specs rest (snd (cli_spec argv m))"

lemma map_scan_unique:
  assumes "ssorted (map fst out)" and "set out = {(k, v). a \<le> k \<and> k < b \<and> m k = Some v}"
  shows "out = map_scan a b m"
proof -
  have "set (map fst out) = {k. a \<le> k \<and> k < b \<and> m k \<noteq> None}" using assms(2) by force
  moreover have "sorted_list_of_set (set (map fst out)) = map fst out"
    using assms(1) by (intro sorted_list_of_set.idem_if_sorted_distinct) (auto simp: strict_sorted_iff)
  ultimately have "map fst out = sorted_list_of_set {k. a \<le> k \<and> k < b \<and> m k \<noteq> None}" by simp
  moreover have "map (\<lambda>k. (k, the (m k))) (map fst out) = out"
    using assms(2) by (intro map_idI [of out "(\<lambda>k. (k, the (m k))) \<circ> fst", folded map_map]) auto
  ultimately show ?thesis by (simp add: map_scan_def)
qed

subsection \<open>Every invocation does what its command does to the map\<close>

text \<open>Sizes: arguments that fit the length fields, and tables that fit the format.\<close>

definition collect_fits :: "(real \<Rightarrow> real) \<Rightarrow> db \<Rightarrow> bool" where
  "collect_fits lg s \<longleftrightarrow>
     flush_fits lg (db_gen s) (mt_snapshot (db_mem s)) (s\<lparr>db_compacting := True, db_seq := db_seq s + 1\<rparr>) \<and>
     (case flush_locked no_faults lg (s\<lparr>db_compacting := True\<rparr>) of (Inl e, s1) \<Rightarrow> True | (Inr _, s1) \<Rightarrow> gc_fits lg s1)"

definition cli_fits :: "(real \<Rightarrow> real) \<Rightarrow> bytes list \<Rightarrow> disk \<Rightarrow> bool" where
  "cli_fits lg argv d \<longleftrightarrow> list_all (\<lambda>x. length x \<le> UINT32_MAX) argv \<and> recovery_fits lg default_config d \<and>
     (tl argv = [lit ''gc''] \<longrightarrow>
        (case db_open no_faults lg default_config d of (Inl e, s) \<Rightarrow> True | (Inr _, s) \<Rightarrow> collect_fits lg s))"

fun cli_all_fit :: "(real \<Rightarrow> real) \<Rightarrow> bytes list list \<Rightarrow> disk \<Rightarrow> bool" where
  "cli_all_fit lg [] d \<longleftrightarrow> True"
| "cli_all_fit lg (argv # rest) d \<longleftrightarrow> cli_fits lg argv d \<and> cli_all_fit lg rest (snd (cli_main no_faults lg argv d))"

text \<open>A directory between two invocations, after at most \<open>n\<close> steps.\<close>

definition cli_state :: "(real \<Rightarrow> real) \<Rightarrow> nat \<Rightarrow> disk \<Rightarrow> (bytes \<rightharpoonup> bytes) \<Rightarrow> bool" where
  "cli_state lg n d m \<longleftrightarrow> d = disk0 \<and> m = Map.empty \<or>
     (\<exists>evs e. life lg [] evs e \<and> length evs \<le> n \<and> left_behind (en_db e) d \<and> abs_db (en_db e) = m)"

lemma cli_state_mono: "cli_state lg n d m \<Longrightarrow> n \<le> n' \<Longrightarrow> cli_state lg n' d m"
  unfolding cli_state_def by (elim disjE) (simp, metis order_trans)

lemma cli_open:
  assumes st: "cli_state lg n d m" and n: "n + 1 < 2 ^ 31" and fits: "recovery_fits lg default_config d"
  obtains s evs where "db_open no_faults lg default_config d = (Inr (), s)" and "life lg [] evs (engine0 s)" and "length evs \<le> n + 1"
    and "abs_db s = m" and "db_inv s" and "gc_ready s"
proof -
  from st consider "d = disk0" "m = Map.empty"
    | evs e where "life lg [] evs e" "length evs \<le> n" "left_behind (en_db e) d" "abs_db (en_db e) = m"
    unfolding cli_state_def by blast
  then show thesis
  proof cases
    case 1
    obtain s d' where s: "db_open no_faults lg default_config disk0 = (Inr (), s)" "db_inv s" "abs_db s = Map.empty"
      "s = (db1 default_config)\<lparr>db_disk := d'\<rparr>" by (rule fresh_open)
    have "gc_ready s" unfolding s(4) by (simp add: gc_ready_def db1_def db_init_def)
    then show thesis using that [of s "[]"] s(1-3) 1 life.Create [OF s(1)] by simp
  next
    case (2 evs e)
    have len: "life_len [] evs + 1 < 2 ^ 31" using 2(2) n by (simp add: life_len_def)
    obtain s where s: "db_open no_faults lg default_config d = (Inr (), s)" "abs_db s = abs_db (en_db e)" "db_inv s" "gc_ready s"
      by (rule life_restart [OF 2(1) len 2(3) fits])
    from that [OF s(1) life.Restart [OF 2(1,3) fits s(1)] _ _ s(3,4)] s(2) 2(2,4) show thesis by simp
  qed
qed

lemma cli_state_step:
  assumes "life lg [] evs (engine0 s)" and "length evs \<le> n" and "engine_step lg (engine0 s) ev (engine0 s')" and "abs_db s' = m"
  shows "cli_state lg (Suc n) (db_close s') m"
proof -
  have "life lg [] (evs @ [ev]) (engine0 s')" by (rule life.Step [OF assms(1,3)])
  moreover have "left_behind (en_db (engine0 s')) (db_close s')" by (simp add: left_behind_def engine0_def)
  ultimately show ?thesis using assms(2,4) unfolding cli_state_def by (intro disjI2 exI [of _ "evs @ [ev]"] exI [of _ "engine0 s'"]) (simp add: engine0_def)
qed

lemma cli_state_stay:
  assumes "life lg [] evs (engine0 s)" and "length evs \<le> n" and "abs_db s = m"
  shows "cli_state lg (Suc n) (db_close s) m"
proof -
  have "left_behind (en_db (engine0 s)) (db_close s)" by (simp add: left_behind_def engine0_def)
  then show ?thesis using assms unfolding cli_state_def by (intro disjI2 exI [of _ evs] exI [of _ "engine0 s"]) (simp add: engine0_def)
qed

lemma cli_words [simp]:
  "lit ''put'' \<noteq> lit ''get''" "lit ''put'' \<noteq> lit ''del''" "lit ''put'' \<noteq> lit ''scan''" "lit ''put'' \<noteq> lit ''gc''"
  "lit ''get'' \<noteq> lit ''put''" "lit ''get'' \<noteq> lit ''del''" "lit ''get'' \<noteq> lit ''scan''" "lit ''get'' \<noteq> lit ''gc''"
  "lit ''del'' \<noteq> lit ''put''" "lit ''del'' \<noteq> lit ''get''" "lit ''del'' \<noteq> lit ''scan''" "lit ''del'' \<noteq> lit ''gc''"
  "lit ''scan'' \<noteq> lit ''put''" "lit ''scan'' \<noteq> lit ''get''" "lit ''scan'' \<noteq> lit ''del''" "lit ''scan'' \<noteq> lit ''gc''"
  "lit ''gc'' \<noteq> lit ''put''" "lit ''gc'' \<noteq> lit ''get''" "lit ''gc'' \<noteq> lit ''del''" "lit ''gc'' \<noteq> lit ''scan''"
  by code_simp+

lemma cli_cases:
  obtains (put) k v where "cmd = lit ''put''" "args = [k, v]" | (get) k where "cmd = lit ''get''" "args = [k]"
    | (del) k where "cmd = lit ''del''" "args = [k]" | (scan) a b where "cmd = lit ''scan''" "args = [a, b]"
    | (gc) "cmd = lit ''gc''" "args = []"
    | (other) "cli_command no_faults lg cmd args s = (Inr usage, s)" "cli_spec (dir # cmd # args) m = (usage, m)"
proof -
  consider "args = []" | x where "args = [x]" | x y where "args = [x, y]" | x y z r where "args = x # y # z # r"
    by (metis list.exhaust)
  then show thesis
  proof cases
    case 1
    then show thesis using gc other by (cases "cmd = lit ''gc''") (simp_all add: cli_command_def cli_spec_def)
  next
    case (2 x)
    then show thesis using get del other
      by (cases "cmd = lit ''get''"; cases "cmd = lit ''del''") (simp_all add: cli_command_def cli_spec_def)
  next
    case (3 x y)
    then show thesis using put scan other
      by (cases "cmd = lit ''put''"; cases "cmd = lit ''scan''") (simp_all add: cli_command_def cli_spec_def)
  next
    case 4
    then show thesis using other by (simp add: cli_command_def cli_spec_def)
  qed
qed

lemma cli_command_spec:
  assumes inv: "db_inv s" and ready: "gc_ready s" and l: "life lg [] evs (engine0 s)" "length evs \<le> n"
    and len: "list_all (\<lambda>x. length x \<le> UINT32_MAX) args"
    and collect: "cmd = lit ''gc'' \<and> args = [] \<longrightarrow> collect_fits lg s"
  shows "\<exists>s'. cli_command no_faults lg cmd args s = (Inr (fst (cli_spec (dir # cmd # args) (abs_db s))), s') \<and>
    cli_state lg (Suc n) (db_close s') (snd (cli_spec (dir # cmd # args) (abs_db s)))"
proof -
  note step = cli_state_step [OF l] and stay = cli_state_stay [OF l refl]
  have run: "engine_step lg (engine0 s) ev (engine0 s')" if "engine_step lg (engine0 s) ev ((engine0 s)\<lparr>en_db := s'\<rparr>)" for ev s'
    using that by (simp add: engine0_def)
  show ?thesis
  proof (cases rule: cli_cases [where cmd = cmd and args = args and lg = lg and s = s and dir = dir and m = "abs_db s"])
    case (put k v)
    obtain s' where s': "db_put no_faults k v True s = (Inr (), s')" "abs_db s' = (abs_db s)(k \<mapsto> v)"
      by (rule db_put_ok [OF inv, of k v True]) (use len put in simp_all)
    have "engine_step lg (engine0 s) (EvPut k v True) (engine0 s')"
      by (rule run, rule engine_step.Put) (use len put s'(1) in \<open>simp_all add: engine0_def\<close>)
    from step [OF this s'(2)] s'(1) put show ?thesis by (simp add: cli_command_def cli_spec_def sbind_def)
  next
    case (get k)
    obtain st where s': "db_get no_faults k s = (Inr (abs_db s k), s\<lparr>db_stat := st\<rparr>)" using db_get_ok [OF inv] by blast
    have "engine_step lg (engine0 s) (EvGet k (abs_db s k)) (engine0 (s\<lparr>db_stat := st\<rparr>))"
      by (rule run, rule engine_step.Get) (use s' in \<open>simp add: engine0_def\<close>)
    moreover from engine_step_sim [OF this] inv have "abs_db (s\<lparr>db_stat := st\<rparr>) = abs_db s"
      by (simp add: engine0_def engine_inv_def fl_ok_def mg_ok_def apart_def)
    ultimately have "cli_state lg (Suc n) (db_close (s\<lparr>db_stat := st\<rparr>)) (abs_db s)" by (rule step)
    then show ?thesis using s' get by (simp add: cli_command_def cli_spec_def sbind_def)
  next
    case (del k)
    obtain s' where s': "db_del no_faults k True s = (Inr (), s')" "abs_db s' = (abs_db s)(k := None)"
      by (rule db_del_ok [OF inv, of k True]) (use len del in simp_all)
    have "engine_step lg (engine0 s) (EvDel k True) (engine0 s')"
      by (rule run, rule engine_step.Del) (use len del s'(1) in \<open>simp_all add: engine0_def\<close>)
    from step [OF this s'(2)] s'(1) del show ?thesis by (simp add: cli_command_def cli_spec_def sbind_def)
  next
    case (scan a b)
    obtain out st where s': "db_scan no_faults a b s = (Inr out, s\<lparr>db_stat := st\<rparr>)" "ssorted (map fst out)"
      "\<forall>k v. (k, v) \<in> set out \<longleftrightarrow> a \<le> k \<and> k < b \<and> abs_db s k = Some v" by (rule db_scan_ok [OF inv])
    have "engine_step lg (engine0 s) (EvScan a b out) (engine0 (s\<lparr>db_stat := st\<rparr>))"
      by (rule run, rule engine_step.Scan) (use s'(1) in \<open>simp add: engine0_def\<close>)
    moreover from engine_step_sim [OF this] inv have "abs_db (s\<lparr>db_stat := st\<rparr>) = abs_db s"
      by (simp add: engine0_def engine_inv_def fl_ok_def mg_ok_def apart_def)
    ultimately have "cli_state lg (Suc n) (db_close (s\<lparr>db_stat := st\<rparr>)) (abs_db s)" by (rule step)
    moreover have "out = map_scan a b (abs_db s)" by (rule map_scan_unique [OF s'(2)]) (use s'(3) in auto)
    ultimately show ?thesis using s'(1) scan by (simp add: cli_command_def cli_spec_def sbind_def)
  next
    case gc
    let ?z = "s\<lparr>db_compacting := True\<rparr>"
    have fits: "flush_fits lg (db_gen s) (mt_snapshot (db_mem s)) (s\<lparr>db_compacting := True, db_seq := db_seq s + 1\<rparr>)"
      "case flush_locked no_faults lg ?z of (Inl e, s1) \<Rightarrow> True | (Inr _, s1) \<Rightarrow> gc_fits lg s1"
      using collect gc by (simp_all add: collect_fits_def)
    have z: "db_inv ?z" using inv_start [OF inv, of ?z True "db_seq s"] by simp
    obtain s1 where s1: "flush_locked no_faults lg ?z = (Inr (), s1)"
      by (rule flush_locked_abs [OF z, of lg]) (use fits(1) ready in \<open>simp_all add: gc_ready_def\<close>)
    have g1: "gc_fits lg s1" using fits(2) s1 by simp
    obtain s' where s': "gc_value_log no_faults lg s = (Inr (), s')" "abs_db s' = abs_db s"
      by (rule gc_value_log_ok [OF inv ready fits(1) s1 g1])
    have "engine_step lg (engine0 s) EvTau (engine0 s')"
      by (rule run, rule engine_step.Gc) (use ready fits(1) s1 g1 s'(1) in \<open>simp_all add: engine0_def\<close>)
    from step [OF this s'(2)] s'(1) gc show ?thesis by (simp add: cli_command_def cli_spec_def sbind_def)
  next
    case other
    then show ?thesis using stay by simp
  qed
qed

lemma cli_main_spec:
  assumes st: "cli_state lg n d m" and n: "n + 2 < 2 ^ 31" and fits: "cli_fits lg argv d"
  shows "\<exists>d'. cli_main no_faults lg argv d = (Inr (fst (cli_spec argv m)), d') \<and> cli_state lg (n + 2) d' (snd (cli_spec argv m))"
proof (cases "\<exists>dir cmd args. argv = dir # cmd # args")
  case True
  then obtain dir cmd args where argv: "argv = dir # cmd # args" by blast
  have rf: "recovery_fits lg default_config d" using fits by (simp add: cli_fits_def)
  have n1: "n + 1 < 2 ^ 31" using n by simp
  obtain s evs where s: "db_open no_faults lg default_config d = (Inr (), s)" "life lg [] evs (engine0 s)" "length evs \<le> n + 1"
    "abs_db s = m" "db_inv s" "gc_ready s" by (rule cli_open [OF st n1 rf])
  have f: "list_all (\<lambda>x. length x \<le> UINT32_MAX) args"
    "cmd = lit ''gc'' \<and> args = [] \<longrightarrow> collect_fits lg s"
    using fits s(1) argv by (simp_all add: cli_fits_def)
  obtain s' where "cli_command no_faults lg cmd args s = (Inr (fst (cli_spec argv m)), s')" "cli_state lg (Suc (n + 1)) (db_close s') (snd (cli_spec argv m))"
    using cli_command_spec [OF s(5,6,2,3) f, of dir] unfolding argv s(4) by blast
  then show ?thesis using s(1) argv by (simp add: cli_main_def)
next
  case False
  then consider "argv = []" | x where "argv = [x]" by (metis list.exhaust)
  then have "cli_main no_faults lg argv d = (Inr usage, d)" "cli_spec argv m = (usage, m)"
    by (cases; simp add: cli_main_def cli_spec_def)+
  moreover have "cli_state lg (n + 2) d m" by (rule cli_state_mono [OF st]) simp
  ultimately show ?thesis by simp
qed

lemma cli_runs_spec:
  assumes "cli_state lg n d m" and "n + 2 * length argvs < 2 ^ 31" and "cli_all_fit lg argvs d"
  shows "cli_runs lg argvs d = Inr (cli_specs argvs m)"
  using assms
proof (induction argvs arbitrary: n d m)
  case (Cons argv rest)
  have n: "n + 2 < 2 ^ 31" using Cons.prems(2) by simp
  obtain d' where d': "cli_main no_faults lg argv d = (Inr (fst (cli_spec argv m)), d')" "cli_state lg (n + 2) d' (snd (cli_spec argv m))"
    using cli_main_spec [OF Cons.prems(1) n] Cons.prems(3) by auto
  have "cli_runs lg rest d' = Inr (cli_specs rest (snd (cli_spec argv m)))"
    by (rule Cons.IH [OF d'(2)]) (use Cons.prems d'(1) in simp_all)
  then show ?case using d'(1) by simp
qed simp


lemma recovery_fits_disk0: "recovery_fits lg cf disk0"
  using fresh_pieces [of cf] by (simp add: recovery_fits_def db_load_def sbind_def)


end
