(* ===== verification/Json_Text.thy ===== *)
theory Json_Text
  imports Naming
begin

text \<open>
  JSON text as the dashboard writes it. \<open>json_escape\<close> is the function of
  \<open>dashboard/stats_server.cpp\<close>; the rest is what a client does: the documents, their text, and
  a strict reader of that text. Every document is read back from its text.
\<close>

subsection \<open>Escaping\<close>

definition hex_digit :: "nat \<Rightarrow> byte" where
  "hex_digit n = (if n < 10 then 48 + of_nat n else 87 + of_nat n)"

text \<open>\<open>%04x\<close> of a byte.\<close>

definition hex4 :: "byte \<Rightarrow> bytes" where
  "hex4 c = [48, 48, hex_digit (unat c div 16), hex_digit (unat c mod 16)]"

definition json_escape_char :: "byte \<Rightarrow> bytes" where
  "json_escape_char c =
     (if c = 34 then [92, 34]
      else if c = 92 then [92, 92]
      else if c = 10 then [92, 110]
      else if c = 13 then [92, 114]
      else if c = 9 then [92, 116]
      else if c < 0x20 then [92, 117] @ hex4 c
      else [c])"

definition json_escape :: "bytes \<Rightarrow> bytes" where
  "json_escape s = foldl (\<lambda>out c. out @ json_escape_char c) [] s"

lemma json_escape_concat: "json_escape s = concat (map json_escape_char s)"
proof -
  have "foldl (\<lambda>out c. out @ json_escape_char c) acc s = acc @ concat (map json_escape_char s)" for acc
    by (induction s arbitrary: acc) simp_all
  then show ?thesis by (simp add: json_escape_def)
qed

text \<open>The reader's side of a string: the characters up to the closing quote.\<close>

definition hex_val :: "byte \<Rightarrow> nat option" where
  "hex_val c = (if is_digit c then Some (unat c - 48) else if 97 \<le> c \<and> c \<le> 102 then Some (unat c - 87) else None)"

definition unescape :: "byte \<Rightarrow> byte option" where
  "unescape c = (if c = 34 \<or> c = 92 \<or> c = 47 then Some c else if c = 110 then Some 10
     else if c = 114 then Some 13 else if c = 116 then Some 9 else if c = 98 then Some 8
     else if c = 102 then Some 12 else None)"

text \<open>Code points from \<open>0x80\<close> on are more than one byte and not written by \<open>json_escape\<close>.\<close>

definition unescape_hex :: "bytes \<Rightarrow> byte option" where
  "unescape_hex cs =
     (case cs of
        [a, b, c, d] \<Rightarrow>
          (case (hex_val a, hex_val b, hex_val c, hex_val d) of
             (Some 0, Some 0, Some x, Some y) \<Rightarrow> if x < 8 then Some (of_nat (16 * x + y)) else None
           | _ \<Rightarrow> None)
      | _ \<Rightarrow> None)"

definition cons_char :: "byte \<Rightarrow> (bytes \<times> bytes) option \<Rightarrow> (bytes \<times> bytes) option" where
  "cons_char c r = map_option (\<lambda>(s, rest). (c # s, rest)) r"

fun read_chars :: "bytes \<Rightarrow> (bytes \<times> bytes) option" where
  "read_chars [] = None"
| "read_chars (c # s) =
     (if c = 34 then Some ([], s)
      else if c = 92 then
        (case s of
           [] \<Rightarrow> None
         | e # t \<Rightarrow>
             if e = 117 then
               (case unescape_hex (take 4 t) of
                  None \<Rightarrow> None
                | Some b \<Rightarrow> cons_char b (read_chars (drop 4 t)))
             else
               (case unescape e of
                  None \<Rightarrow> None
                | Some b \<Rightarrow> cons_char b (read_chars t)))
      else if c < 0x20 then None
      else cons_char c (read_chars s))"

lemma hex_digit_val: "n < 16 \<Longrightarrow> hex_val (hex_digit n) = Some n"
proof -
  assume "n < 16"
  then have "n \<in> {0,1,2,3,4,5,6,7,8,9,10,11,12,13,14,15}" by (simp; presburger)
  then show ?thesis by (auto simp: hex_val_def hex_digit_def is_digit_def)
qed

lemma unescape_hex4: "c < 0x20 \<Longrightarrow> unescape_hex (hex4 c) = Some c"
proof -
  assume c: "c < 0x20"
  then have u: "unat c < 32" by (simp add: word_less_nat_alt)
  then have "hex_val (hex_digit (unat c div 16)) = Some (unat c div 16)" "hex_val (hex_digit (unat c mod 16)) = Some (unat c mod 16)"
    by (auto intro!: hex_digit_val)
  moreover have "hex_val 48 = Some 0" by (simp add: hex_val_def is_digit_def)
  moreover have "16 * (unat c div 16) + unat c mod 16 = unat c" by simp
  ultimately show ?thesis using u by (simp add: unescape_hex_def hex4_def)
qed

lemma read_escaped: "read_chars (json_escape_char c @ s) = cons_char c (read_chars s)"
proof (cases "c \<in> {34, 92, 10, 13, 9}")
  case True
  then show ?thesis by (auto simp: json_escape_char_def unescape_def)
next
  case False
  then show ?thesis
    using unescape_hex4 [of c] by (auto simp: json_escape_char_def hex4_def)
qed

lemma read_json_escape: "read_chars (json_escape k @ 34 # rest) = Some (k, rest)"
  by (induction k) (simp_all add: json_escape_concat read_escaped cons_char_def)

subsection \<open>Documents and their text\<close>

datatype json = JNum int | JBool bool | JStr bytes | JList "json list" | JObj "(bytes \<times> json) list"

text \<open>Integers as \<open>operator<<\<close> and \<open>std::to_string\<close> print them.\<close>

definition int_text :: "int \<Rightarrow> bytes" where
  "int_text i = (if i < 0 then 45 # dec_digits (nat (- i)) else dec_digits (nat i))"

fun commas :: "bytes list \<Rightarrow> bytes" where
  "commas [] = []"
| "commas [x] = x"
| "commas (x # xs) = x @ 44 # commas xs"

fun json_text :: "json \<Rightarrow> bytes" where
  "json_text (JNum i) = int_text i"
| "json_text (JBool b) = (if b then lit ''true'' else lit ''false'')"
| "json_text (JStr s) = 34 # json_escape s @ [34]"
| "json_text (JList js) = 91 # commas (map json_text js) @ [93]"
| "json_text (JObj ms) = 123 # commas (map (\<lambda>(k, j). 34 # json_escape k @ [34, 58] @ json_text j) ms) @ [125]"

subsection \<open>Reading\<close>

text \<open>
  A number is a minus sign or not and digits without leading zeros; the fuel counts values
  and is enough when it exceeds the length of the text.
\<close>

definition read_num :: "bytes \<Rightarrow> (json \<times> bytes) option" where
  "read_num s =
     (let neg = (s \<noteq> [] \<and> hd s = 45); t = (if neg then tl s else s);
          ds = takeWhile is_digit t in
      if ds = [] \<or> hd ds = 48 \<and> length ds \<noteq> 1 then None
      else Some (JNum (if neg then - int (digits_val ds) else int (digits_val ds)), dropWhile is_digit t))"

definition expect :: "bytes \<Rightarrow> bytes \<Rightarrow> bytes option" where
  "expect w s = (if take (length w) s = w then Some (drop (length w) s) else None)"

definition starts :: "byte \<Rightarrow> bytes \<Rightarrow> bool" where
  "starts c s \<longleftrightarrow> s \<noteq> [] \<and> hd s = c"

fun read_value :: "nat \<Rightarrow> bytes \<Rightarrow> (json \<times> bytes) option"
  and read_items :: "nat \<Rightarrow> bytes \<Rightarrow> (json list \<times> bytes) option"
  and read_members :: "nat \<Rightarrow> bytes \<Rightarrow> ((bytes \<times> json) list \<times> bytes) option" where
  "read_value 0 s = None"
| "read_value (Suc n) s =
     (if starts 34 s then map_option (\<lambda>(k, r). (JStr k, r)) (read_chars (tl s))
      else if starts 91 s then
        (if starts 93 (tl s) then Some (JList [], drop 2 s)
         else map_option (\<lambda>(js, r). (JList js, r)) (read_items n (tl s)))
      else if starts 123 s then
        (if starts 125 (tl s) then Some (JObj [], drop 2 s)
         else map_option (\<lambda>(ms, r). (JObj ms, r)) (read_members n (tl s)))
      else if starts 116 s then map_option (Pair (JBool True)) (expect (lit ''true'') s)
      else if starts 102 s then map_option (Pair (JBool False)) (expect (lit ''false'') s)
      else read_num s)"
| "read_items 0 s = None"
| "read_items (Suc n) s =
     Option.bind (read_value n s) (\<lambda>(j, r).
       if starts 44 r then map_option (\<lambda>(js, r'). (j # js, r')) (read_items n (tl r))
       else if starts 93 r then Some ([j], tl r)
       else None)"
| "read_members 0 s = None"
| "read_members (Suc n) s =
     Option.bind (expect [34] s) (\<lambda>t.
     Option.bind (read_chars t) (\<lambda>(k, u).
     Option.bind (expect [58] u) (\<lambda>v.
     Option.bind (read_value n v) (\<lambda>(j, r).
       if starts 44 r then map_option (\<lambda>(ms, r'). ((k, j) # ms, r')) (read_members n (tl r))
       else if starts 125 r then Some ([(k, j)], tl r)
       else None))))"

definition json_read :: "bytes \<Rightarrow> json option" where
  "json_read s = (case read_value (Suc (length s)) s of Some (j, []) \<Rightarrow> Some j | _ \<Rightarrow> None)"

subsection \<open>Every document is read back\<close>

lemma dec_digits_no_zero: "hd (dec_digits n) = 48 \<Longrightarrow> length (dec_digits n) = 1"
proof (induction n rule: dec_digits.induct)
  case (1 n)
  show ?case
  proof (cases "n < 10")
    case True
    then show ?thesis by (subst dec_digits.simps) simp
  next
    case False
    then have e: "dec_digits n = dec_digits (n div 10) @ [48 + of_nat (n mod 10)]" by (subst dec_digits.simps) simp
    then have "length (dec_digits (n div 10)) = 1" "hd (dec_digits (n div 10)) = 48" using 1 False by simp_all
    then have "dec_digits (n div 10) = [48]" by (cases "dec_digits (n div 10)") auto
    then have "n div 10 = 0" using digits_val_dec [of "n div 10"] by (simp add: digits_val_def)
    then show ?thesis using False by simp
  qed
qed

lemma dec_digits_span:
  assumes "rest = [] \<or> \<not> is_digit (hd rest)"
  shows "takeWhile is_digit (dec_digits n @ rest) = dec_digits n" "dropWhile is_digit (dec_digits n @ rest) = rest"
proof -
  have "\<forall>c\<in>set (dec_digits n). is_digit c" using dec_digits_digit by (simp add: list_all_iff)
  then show "takeWhile is_digit (dec_digits n @ rest) = dec_digits n" "dropWhile is_digit (dec_digits n @ rest) = rest"
    using assms by (cases rest; simp)+
qed

lemma dec_digits_hd: "\<exists>c ds. dec_digits n = c # ds \<and> is_digit c"
  using dec_digits_digit [of n] dec_digits_not_Nil [of n] by (cases "dec_digits n") auto

lemma read_num_text:
  assumes "rest = [] \<or> \<not> is_digit (hd rest)"
  shows "read_num (int_text i @ rest) = Some (JNum i, rest)"
proof -
  have h: "hd (dec_digits m @ rest) \<noteq> 45" for m using dec_digits_hd [of m] by (auto simp: is_digit_def)
  show ?thesis
    using dec_digits_span [OF assms] dec_digits_no_zero h by (auto simp: read_num_def int_text_def digits_val_dec Let_def)
qed

lemma int_text_hd: "\<exists>c ds. int_text i = c # ds \<and> (c = 45 \<or> is_digit c)"
  using dec_digits_hd [of "nat i"] by (auto simp: int_text_def)

lemma int_text_starts: "c \<noteq> 45 \<Longrightarrow> \<not> is_digit c \<Longrightarrow> \<not> starts c (int_text i @ rest)"
  using int_text_hd [of i] by (auto simp: starts_def)

text \<open>No text of a document starts with a closing bracket or brace.\<close>

lemma json_text_hd: "\<exists>c t. json_text j = c # t \<and> c \<noteq> 93 \<and> c \<noteq> 125"
proof (cases j)
  case (JNum i)
  then show ?thesis using int_text_hd [of i] by (auto simp: is_digit_def)
qed (simp_all add: lit_def)

definition delim :: "bytes \<Rightarrow> bool" where
  "delim rest \<longleftrightarrow> rest = [] \<or> \<not> is_digit (hd rest)"

definition readable :: "json \<Rightarrow> bool" where
  "readable j \<longleftrightarrow> (\<forall>n rest. length (json_text j) < n \<longrightarrow> delim rest \<longrightarrow> read_value n (json_text j @ rest) = Some (j, rest))"

lemma starts_Cons [simp]: "starts c (d # s) \<longleftrightarrow> d = c" by (auto simp: starts_def)
lemma expect_Cons [simp]: "expect [c] (c # s) = Some s" by (simp add: expect_def)
lemma delim_Cons [simp]: "delim (c # s) \<longleftrightarrow> \<not> is_digit c" by (simp add: delim_def)
lemma seps [simp]: "\<not> is_digit 44" "\<not> is_digit 93" "\<not> is_digit 125" "\<not> is_digit 58" by (simp_all add: is_digit_def)

lemma read_items_text:
  assumes "\<forall>j\<in>set js. readable j" and "js \<noteq> []" and "Suc (length (commas (map json_text js))) < n"
  shows "read_items n (commas (map json_text js) @ 93 # rest) = Some (js, rest)"
  using assms
proof (induction js arbitrary: n)
  case (Cons j js)
  then obtain m where n: "n = Suc m" by (cases n) auto
  have r: "read_value m (json_text j @ t) = Some (j, t)" if "length (json_text j) < m" "delim t" for t
    using Cons.prems(1) that by (simp add: readable_def)
  show ?case
  proof (cases js)
    case Nil
    then show ?thesis using Cons.prems(3) r [of "93 # rest"] n by simp
  next
    case (Cons j2 js2)
    let ?t = "commas (map json_text js)"
    have e: "commas (map json_text (j # js)) = json_text j @ 44 # ?t" using Cons by simp
    have l: "length (json_text j) < m" "Suc (length ?t) < m"
      using Cons.prems(3) e n by simp_all
    have "read_items m (?t @ 93 # rest) = Some (js, rest)"
      using Cons.IH [of m] Cons.prems(1) l(2) Cons by simp
    then show ?thesis using r [of "44 # ?t @ 93 # rest"] l(1) e n by simp
  qed
qed simp

abbreviation member_text :: "bytes \<times> json \<Rightarrow> bytes" where
  "member_text \<equiv> \<lambda>(k, j). 34 # json_escape k @ [34, 58] @ json_text j"

lemma read_members_text:
  assumes "\<forall>(k, j)\<in>set ms. readable j" and "ms \<noteq> []" and "Suc (length (commas (map member_text ms))) < n"
  shows "read_members n (commas (map member_text ms) @ 125 # rest) = Some (ms, rest)"
  using assms
proof (induction ms arbitrary: n)
  case (Cons p ms)
  obtain k j where p: "p = (k, j)" by fastforce
  obtain m where n: "n = Suc m" using Cons.prems(3) by (cases n) auto
  have r: "read_value m (json_text j @ t) = Some (j, t)" if "length (json_text j) < m" "delim t" for t
    using Cons.prems(1) that p by (simp add: readable_def)
  show ?case
  proof (cases ms)
    case Nil
    then show ?thesis using Cons.prems(3) r [of "125 # rest"] n p by (simp add: read_json_escape)
  next
    case (Cons p2 ms2)
    let ?t = "commas (map member_text ms)"
    have e: "commas (map member_text (p # ms)) = 34 # json_escape k @ 34 # 58 # json_text j @ 44 # ?t" using Cons p by simp
    have l: "length (json_text j) < m" "Suc (length ?t) < m"
      using Cons.prems(3) e n by simp_all
    have "read_members m (?t @ 125 # rest) = Some (ms, rest)"
      using Cons.IH [of m] Cons.prems(1) l(2) Cons by simp
    then show ?thesis using r [of "44 # ?t @ 125 # rest"] l(1) n p unfolding e by (simp add: read_json_escape)
  qed
qed simp

lemma commas_starts: "xs \<noteq> [] \<Longrightarrow> hd xs = d # t \<Longrightarrow> starts c (commas xs @ r) \<longleftrightarrow> d = c"
  by (cases xs rule: commas.cases) simp_all

lemma readableI:
  assumes "\<And>n rest. length (json_text j) \<le> n \<Longrightarrow> delim rest \<Longrightarrow> read_value (Suc n) (json_text j @ rest) = Some (j, rest)"
  shows "readable j"
  unfolding readable_def
proof (intro allI impI)
  fix n rest
  assume "length (json_text j) < n" and d: "delim rest"
  then obtain m where "n = Suc m" "length (json_text j) \<le> m" by (cases n) auto
  then show "read_value n (json_text j @ rest) = Some (j, rest)" using assms d by simp
qed

lemma readable_list:
  assumes "\<forall>j\<in>set js. readable j"
  shows "readable (JList js)"
proof (rule readableI)
  fix n rest
  assume n: "length (json_text (JList js)) \<le> n"
  show "read_value (Suc n) (json_text (JList js) @ rest) = Some (JList js, rest)"
  proof (cases "js = []")
    case False
    have "\<not> starts 93 (commas (map json_text js) @ 93 # rest)"
      using False json_text_hd [of "hd js"] by (auto simp: commas_starts hd_map)
    then show ?thesis using read_items_text [OF assms False, of n rest] n by simp
  qed simp
qed

lemma readable_obj:
  assumes "\<forall>(k, j)\<in>set ms. readable j"
  shows "readable (JObj ms)"
proof (rule readableI)
  fix n rest
  assume n: "length (json_text (JObj ms)) \<le> n"
  show "read_value (Suc n) (json_text (JObj ms) @ rest) = Some (JObj ms, rest)"
  proof (cases "ms = []")
    case False
    have "\<not> starts 125 (commas (map member_text ms) @ 125 # rest)"
      using False by (cases "hd ms") (auto simp: commas_starts hd_map)
    then show ?thesis using read_members_text [OF assms False, of n rest] n by simp
  qed simp
qed

lemma json_readable: "readable j"
proof (induction j)
  case (JNum i)
  have s: "\<not> starts c (int_text i @ rest)" if "c \<in> {34, 91, 123, 116, 102}" for c rest
    by (rule int_text_starts) (use that in \<open>auto simp: is_digit_def\<close>)
  show ?case by (rule readableI) (use read_num_text s in \<open>simp add: delim_def\<close>)
next
  case (JBool b)
  show ?case by (rule readableI) (simp add: lit_def expect_def)
next
  case (JStr k)
  show ?case by (rule readableI) (simp add: read_json_escape)
next
  case (JList js)
  then show ?case by (intro readable_list) blast
next
  case (JObj ms)
  then show ?case by (intro readable_obj) (auto simp: prod_set_simps)
qed

lemma json_read_text: "json_read (json_text j) = Some j"
proof -
  have "read_value (Suc (length (json_text j))) (json_text j @ []) = Some (j, [])"
    using json_readable [of j] unfolding readable_def by (simp add: delim_def del: json_text.simps read_value.simps)
  then show ?thesis by (simp add: json_read_def del: read_value.simps)
qed

end
