(* ===== verification/Dashboard.thy ===== *)
theory Dashboard
  imports Cli Json_Text
begin

text \<open>
  The dashboard (\<open>dashboard/stats_server.cpp\<close>): an HTTP server that prints the counters of a
  store as JSON and runs a workload on it in a thread of its own. Sockets are the sequence
  of byte strings that \<open>recv\<close> returns, the files of the page a function from names to
  contents. The random numbers of the workload and the number of its rounds, which a clock
  decides, are arguments.
\<close>

subsection \<open>The statistics as JSON\<close>

definition jkey :: "string \<Rightarrow> bytes" where
  "jkey k = 34 # lit k @ [34, 58]"

definition u64_text :: "u64 \<Rightarrow> bytes" where
  "u64_text w = dec_digits (unat w)"

definition bool_text :: "bool \<Rightarrow> bytes" where
  "bool_text b = (if b then lit ''true'' else lit ''false'')"

definition table_text :: "sstable_info \<Rightarrow> bytes" where
  "table_text t =
     lit ''{'' @ jkey ''size'' @ u64_text (si_size_bytes t) @ lit '','' @ jkey ''records'' @ u64_text (si_records t) @
     lit '','' @ jkey ''tier'' @ int_text (si_tier t) @ lit '','' @ jkey ''min'' @ [34] @ json_escape (si_min_key t) @
     [34] @ lit '','' @ jkey ''max'' @ [34] @ json_escape (si_max_key t) @ [34] @ lit ''}''"

fun tables_text :: "nat \<Rightarrow> sstable_info list \<Rightarrow> bytes" where
  "tables_text i [] = []"
| "tables_text i (t # infos) = (if i \<noteq> 0 then lit '','' else []) @ table_text t @ tables_text (Suc i) infos"

text \<open>
  Every accessor takes the lock for itself, so each may see a different state: \<open>seen i\<close> is the
  state at the \<open>i\<close>-th call.
\<close>

definition build_stats_json :: "(real \<Rightarrow> real) \<Rightarrow> (nat \<Rightarrow> db) \<Rightarrow> bool \<Rightarrow> bool \<Rightarrow> bytes" where
  "build_stats_json lg seen running grp =
     (let s = db_stats_of (seen 0) in
      lit ''{'' @
      jkey ''memtable'' @ lit ''{'' @
        jkey ''entries'' @ dec_digits (memtable_entry_count (seen 1)) @ lit '','' @
        jkey ''bytes'' @ u64_text (memtable_bytes (seen 2)) @ lit '','' @
        jkey ''threshold'' @ dec_digits (db_threshold (seen 3)) @ lit '','' @
        jkey ''tombstones'' @ dec_digits (memtable_tombstones (seen 4)) @ lit ''},'' @
      jkey ''counters'' @ lit ''{'' @
        jkey ''reads'' @ u64_text (st_reads s) @ lit '','' @
        jkey ''writes'' @ u64_text (st_writes s) @ lit '','' @
        jkey ''deletes'' @ u64_text (st_deletes s) @ lit '','' @
        jkey ''compactions'' @ u64_text (st_compactions s) @ lit ''},'' @
      jkey ''bloom'' @ lit ''{'' @
        jkey ''checks'' @ u64_text (st_bloom_checks s) @ lit '','' @
        jkey ''skips'' @ u64_text (st_bloom_skips s) @ lit '','' @
        jkey ''falsePositives'' @ u64_text (st_bloom_fps s) @ lit ''},'' @
      jkey ''writeAmp'' @ lit ''{'' @
        jkey ''user'' @ u64_text (st_user_bytes s) @ lit '','' @
        jkey ''wal'' @ u64_text (st_wal_bytes s) @ lit '','' @
        jkey ''flush'' @ u64_text (st_flush_bytes s) @ lit '','' @
        jkey ''compaction'' @ u64_text (st_compaction_bytes s) @ lit ''},'' @
      jkey ''disk'' @ u64_text (disk_bytes (seen 5)) @ lit '','' @
      jkey ''workload'' @ lit ''{'' @ jkey ''running'' @ bool_text running @ lit '','' @
        jkey ''group'' @ bool_text grp @ lit ''},'' @
      jkey ''sstables'' @ lit ''['' @ tables_text 0 (sstable_infos lg (seen 6)) @ lit '']}'')"

text \<open>What a client is meant to read.\<close>

definition jnum :: "u64 \<Rightarrow> json" where
  "jnum w = JNum (uint w)"

definition table_doc :: "sstable_info \<Rightarrow> json" where
  "table_doc t = JObj [(lit ''size'', jnum (si_size_bytes t)), (lit ''records'', jnum (si_records t)),
     (lit ''tier'', JNum (si_tier t)), (lit ''min'', JStr (si_min_key t)), (lit ''max'', JStr (si_max_key t))]"

definition stats_doc :: "(real \<Rightarrow> real) \<Rightarrow> (nat \<Rightarrow> db) \<Rightarrow> bool \<Rightarrow> bool \<Rightarrow> json" where
  "stats_doc lg seen running grp =
     (let s = db_stats_of (seen 0) in
      JObj [(lit ''memtable'', JObj [(lit ''entries'', JNum (int (memtable_entry_count (seen 1)))),
               (lit ''bytes'', jnum (memtable_bytes (seen 2))), (lit ''threshold'', JNum (int (db_threshold (seen 3)))),
               (lit ''tombstones'', JNum (int (memtable_tombstones (seen 4))))]),
            (lit ''counters'', JObj [(lit ''reads'', jnum (st_reads s)), (lit ''writes'', jnum (st_writes s)),
               (lit ''deletes'', jnum (st_deletes s)), (lit ''compactions'', jnum (st_compactions s))]),
            (lit ''bloom'', JObj [(lit ''checks'', jnum (st_bloom_checks s)), (lit ''skips'', jnum (st_bloom_skips s)),
               (lit ''falsePositives'', jnum (st_bloom_fps s))]),
            (lit ''writeAmp'', JObj [(lit ''user'', jnum (st_user_bytes s)), (lit ''wal'', jnum (st_wal_bytes s)),
               (lit ''flush'', jnum (st_flush_bytes s)), (lit ''compaction'', jnum (st_compaction_bytes s))]),
            (lit ''disk'', jnum (disk_bytes (seen 5))),
            (lit ''workload'', JObj [(lit ''running'', JBool running), (lit ''group'', JBool grp)]),
            (lit ''sstables'', JList (map table_doc (sstable_infos lg (seen 6))))])"

lemma jnum_text: "json_text (jnum w) = u64_text w"
  by (simp add: jnum_def u64_text_def int_text_def)

lemma int_nat_text: "int_text (int n) = dec_digits n"
  by (simp add: int_text_def)

lemma jkey_text: "34 # json_escape (lit k) @ 34 # 58 # r = jkey k @ r" if "list_all (\<lambda>c. json_escape_char (of_char c) = [of_char c]) k"
proof -
  have "json_escape (lit k) = lit k" using that by (induction k) (simp_all add: json_escape_concat lit_def)
  then show ?thesis by (simp add: jkey_def)
qed

lemma tables_text_commas: "tables_text 0 infos = commas (map table_text infos)"
proof -
  have "tables_text (Suc i) infos = concat (map (\<lambda>t. 44 # table_text t) infos)" for i infos
    by (induction infos arbitrary: i) (simp_all add: lit_def)
  moreover have "commas (x # xs) = x @ concat (map (Cons 44) xs)" for x and xs :: "bytes list"
    by (induction xs arbitrary: x) simp_all
  ultimately show ?thesis by (cases infos) (simp_all add: comp_def)
qed

lemma table_doc_text: "json_text (table_doc t) = table_text t"
  by (simp add: table_doc_def table_text_def jnum_text jkey_text json_escape_char_def lit_def [of "[_]"])

lemma stats_doc_text: "json_text (stats_doc lg seen running grp) = build_stats_json lg seen running grp"
  by (simp add: stats_doc_def build_stats_json_def Let_def jnum_text int_nat_text jkey_text json_escape_char_def
      comp_def table_doc_text tables_text_commas bool_text_def lit_def [of "[_]"] lit_def [of "[_, _]"])

subsection \<open>HTTP\<close>

definition crlf :: bytes where
  "crlf = [13, 10]"

definition http_response :: "bytes \<Rightarrow> bytes \<Rightarrow> bytes \<Rightarrow> bytes" where
  "http_response status ctype body =
     lit ''HTTP/1.1 '' @ status @ crlf @
     lit ''Content-Type: '' @ ctype @ crlf @
     lit ''Content-Length: '' @ dec_digits (length body) @ crlf @
     lit ''Connection: close'' @ crlf @ crlf @
     body"

definition serve_file :: "bytes option \<Rightarrow> bytes \<Rightarrow> bytes" where
  "serve_file contents ctype =
     (case contents of
        None \<Rightarrow> http_response (lit ''404 Not Found'') (lit ''text/plain'') (lit ''not found'')
      | Some ss \<Rightarrow> http_response (lit ''200 OK'') ctype ss)"

text \<open>\<open>find\<close> of a string in another.\<close>

fun str_find :: "bytes \<Rightarrow> bytes \<Rightarrow> bool" where
  "str_find w [] \<longleftrightarrow> w = []"
| "str_find w (c # s) \<longleftrightarrow> take (length w) (c # s) = w \<or> str_find w s"

text \<open>The request: what \<open>recv\<close> returns, an empty string standing for a result of 0 or less.\<close>

fun recv_loop :: "bytes \<Rightarrow> bytes list \<Rightarrow> bytes" where
  "recv_loop req [] = req"
| "recv_loop req (buf # bufs) =
     (if str_find (crlf @ crlf) req then req
      else if buf = [] then req
      else if length (req @ buf) > 2 ^ 20 then req @ buf
      else recv_loop (req @ buf) bufs)"

definition is_space :: "byte \<Rightarrow> bool" where
  "is_space c \<longleftrightarrow> c = 32 \<or> 9 \<le> c \<and> c \<le> 13"

text \<open>\<open>line >> word\<close>: the next word and what is left.\<close>

definition next_word :: "bytes \<Rightarrow> bytes \<times> bytes" where
  "next_word s = (let t = dropWhile is_space s in (takeWhile (Not \<circ> is_space) t, dropWhile (Not \<circ> is_space) t))"

definition request_line :: "bytes \<Rightarrow> bytes \<times> bytes" where
  "request_line req = (let (verb, rest) = next_word req; (path, _) = next_word rest in (verb, path))"

subsection \<open>The workload\<close>

text \<open>The calls a workload thread makes, as events of the engine.\<close>

definition workload_call :: "bool \<Rightarrow> int \<Rightarrow> event" where
  "workload_call grp k =
     (let key = lit ''key'' @ int_text k; sync = (\<not> grp) in
      if k mod 17 = 0 then EvDel key sync else EvPut key (replicate 100 120) sync)"

text \<open>\<open>draws\<close> holds the random numbers of each round of the outer loop.\<close>

definition run_workload :: "bool \<Rightarrow> int list list \<Rightarrow> event list" where
  "run_workload grp draws =
     concat (map (\<lambda>ks. map (workload_call grp) ks @ (if grp then [EvSync] else [])) draws) @
     (if grp then [EvSync] else [])"

definition draws_ok :: "bool \<Rightarrow> int list list \<Rightarrow> bool" where
  "draws_ok grp draws \<longleftrightarrow>
     (\<forall>ks\<in>set draws. length ks = (if grp then 1000 else 50) \<and> (\<forall>k\<in>set ks. 0 \<le> k \<and> k \<le> 200000))"

subsection \<open>The server\<close>

text \<open>The engine, the two flags, and the calls that each live workload thread has left.\<close>

record server =
  sv_engine :: engine
  sv_running :: bool
  sv_group :: bool
  sv_threads :: "event list list"

definition handle ::
  "(real \<Rightarrow> real) \<Rightarrow> (bytes \<Rightarrow> bytes option) \<Rightarrow> (nat \<Rightarrow> db) \<Rightarrow> (bool \<Rightarrow> int list list) \<Rightarrow> bytes \<Rightarrow> bytes \<Rightarrow> server \<Rightarrow> bytes \<times> server"
where
  "handle lg files seen draws verb path sv =
     (if verb = lit ''GET'' \<and> (path = lit ''/'' \<or> path = lit ''/index.html'') then
        (serve_file (files (lit ''index.html'')) (lit ''text/html''), sv)
      else if verb = lit ''GET'' \<and> path = lit ''/app.js'' then
        (serve_file (files (lit ''app.js'')) (lit ''application/javascript''), sv)
      else if verb = lit ''GET'' \<and> path = lit ''/stats'' then
        (http_response (lit ''200 OK'') (lit ''application/json'')
           (build_stats_json lg seen (sv_running sv) (sv_group sv)), sv)
      else if verb = lit ''POST'' \<and> take 9 path = lit ''/workload'' then
        (let grp = str_find (lit ''mode=group'') path; started = (\<not> sv_running sv) in
         (http_response (lit ''200 OK'') (lit ''application/json'')
            (if started then lit ''{'' @ jkey ''ok'' @ lit ''true}''
             else lit ''{'' @ jkey ''ok'' @ lit ''false,'' @ jkey ''busy'' @ lit ''true}''),
          if started then sv\<lparr>sv_running := True, sv_group := grp, sv_threads := sv_threads sv @ [run_workload grp (draws grp)]\<rparr>
          else sv))
      else (http_response (lit ''404 Not Found'') (lit ''text/plain'') (lit ''not found''), sv))"

text \<open>One turn of the accept loop.\<close>

definition serve_client ::
  "(real \<Rightarrow> real) \<Rightarrow> (bytes \<Rightarrow> bytes option) \<Rightarrow> (nat \<Rightarrow> db) \<Rightarrow> (bool \<Rightarrow> int list list) \<Rightarrow> bytes list \<Rightarrow> server \<Rightarrow> bytes \<times> server"
where
  "serve_client lg files seen draws bufs sv =
     (let (verb, path) = request_line (recv_loop [] bufs) in handle lg files seen draws verb path sv)"

text \<open>The settings of the dashboard's store.\<close>

definition dashboard_config :: db_config where
  "dashboard_config = default_config\<lparr>cf_threshold := 64 * 1024, cf_min_merge := 4\<rparr>"

subsection \<open>A client\<close>

text \<open>A line up to its line break, a header field, and a response with its declared length.\<close>

fun cut_line :: "bytes \<Rightarrow> (bytes \<times> bytes) option" where
  "cut_line [] = None"
| "cut_line (c # s) =
     (if c = 13 \<and> starts 10 s then Some ([], tl s) else map_option (\<lambda>(l, r). (c # l, r)) (cut_line s))"

fun cut_field :: "bytes \<Rightarrow> (bytes \<times> bytes) option" where
  "cut_field [] = None"
| "cut_field (c # s) =
     (if c = 58 \<and> starts 32 s then Some ([], tl s) else map_option (\<lambda>(n, v). (c # n, v)) (cut_field s))"

fun read_fields :: "nat \<Rightarrow> bytes \<Rightarrow> ((bytes \<times> bytes) list \<times> bytes) option" where
  "read_fields 0 s = None"
| "read_fields (Suc n) s =
     Option.bind (cut_line s) (\<lambda>(l, r).
       if l = [] then Some ([], r)
       else Option.bind (cut_field l) (\<lambda>f. map_option (\<lambda>(fs, body). (f # fs, body)) (read_fields n r)))"

definition http_read :: "bytes \<Rightarrow> (bytes \<times> bytes \<times> bytes) option" where
  "http_read s =
     Option.bind (cut_line s) (\<lambda>(l, r).
     Option.bind (expect (lit ''HTTP/1.1 '') l) (\<lambda>status.
     Option.bind (read_fields (length r) r) (\<lambda>(fs, body).
     Option.bind (map_of fs (lit ''Content-Type'')) (\<lambda>ctype.
     Option.bind (map_of fs (lit ''Content-Length'')) (\<lambda>ds.
       if digits_val ds = length body then Some (status, ctype, body) else None)))))"

lemma cut_line_crlf: "13 \<notin> set l \<Longrightarrow> cut_line (l @ 13 # 10 # r) = Some (l, r)"
  by (induction l) auto

lemma cut_field_colon: "58 \<notin> set n \<Longrightarrow> cut_field (n @ 58 # 32 # v) = Some (n, v)"
  by (induction n) auto

lemma read_fields_field:
  assumes "58 \<notin> set n" and "13 \<notin> set n" and "13 \<notin> set v"
  shows "read_fields (Suc m) (n @ 58 # 32 # v @ 13 # 10 # r) = map_option (\<lambda>(fs, body). ((n, v) # fs, body)) (read_fields m r)"
  using cut_line_crlf [of "n @ 58 # 32 # v" r] cut_field_colon [OF assms(1), of v] assms(2,3) by simp

lemma digits_no_cr: "13 \<notin> set (dec_digits n)"
  using dec_digits_digit [of n] by (auto simp: list_all_iff is_digit_def)

lemma http_response_read:
  assumes "13 \<notin> set status" and "13 \<notin> set ctype"
  shows "http_read (http_response status ctype body) = Some (status, ctype, body)"
proof -
  let ?b = "13 # 10 # body"
  let ?c = "lit ''Connection'' @ 58 # 32 # lit ''close'' @ 13 # 10 # ?b"
  let ?l = "lit ''Content-Length'' @ 58 # 32 # dec_digits (length body) @ 13 # 10 # ?c"
  let ?t = "lit ''Content-Type'' @ 58 # 32 # ctype @ 13 # 10 # ?l"
  have r: "http_response status ctype body = (lit ''HTTP/1.1 '' @ status) @ 13 # 10 # ?t"
    by (simp add: http_response_def crlf_def lit_def)
  have line: "cut_line ((lit ''HTTP/1.1 '' @ status) @ 13 # 10 # ?t) = Some (lit ''HTTP/1.1 '' @ status, ?t)"
    by (rule cut_line_crlf) (use assms in \<open>simp add: lit_def\<close>)
  have b: "read_fields (Suc m) ?b = Some ([], body)" for m by simp
  have c: "read_fields (Suc (Suc m)) ?c = Some ([(lit ''Connection'', lit ''close'')], body)" for m
    by (subst read_fields_field) (simp_all only: b, simp_all add: lit_def)
  have l: "read_fields (Suc (Suc (Suc m))) ?l = Some ([(lit ''Content-Length'', dec_digits (length body)), (lit ''Connection'', lit ''close'')], body)" for m
    by (subst read_fields_field) (simp_all only: c, simp_all add: lit_def digits_no_cr)
  have t: "read_fields (Suc (Suc (Suc (Suc m)))) ?t =
    Some ([(lit ''Content-Type'', ctype), (lit ''Content-Length'', dec_digits (length body)), (lit ''Connection'', lit ''close'')], body)" for m
    by (subst read_fields_field) (simp_all only: l, simp_all add: lit_def assms)
  obtain m where m: "length ?t = Suc (Suc (Suc (Suc m)))" by (simp add: lit_def)
  have ex: "expect (lit ''HTTP/1.1 '') (lit ''HTTP/1.1 '' @ status) = Some status" by (simp add: expect_def)
  show ?thesis
    unfolding http_read_def r line using t [of m] ex by (simp only: m Option.bind.simps case_prod_conv) (simp add: lit_def digits_val_dec)
qed

subsection \<open>Reading a request\<close>

lemma recv_loop_prefix: "\<exists>rest. req @ concat bufs = recv_loop req bufs @ rest"
proof (induction bufs arbitrary: req)
  case (Cons buf bufs)
  then show ?case using Cons.IH [of "req @ buf"] by auto
qed simp

lemma recv_loop_length: "length req \<le> 2 ^ 20 \<Longrightarrow> \<forall>b\<in>set bufs. length b \<le> 4096 \<Longrightarrow> length (recv_loop req bufs) \<le> 2 ^ 20 + 4096"
  by (induction req bufs rule: recv_loop.induct) auto

text \<open>The loop ends with the blank line, or has everything.\<close>

lemma recv_loop_whole:
  assumes "length (req @ concat bufs) \<le> 2 ^ 20" and "\<forall>b\<in>set bufs. b \<noteq> []"
  shows "str_find (crlf @ crlf) (recv_loop req bufs) \<or> recv_loop req bufs = req @ concat bufs"
  using assms by (induction req bufs rule: recv_loop.induct) auto

lemma str_find_cases: "str_find w s \<longleftrightarrow> (\<exists>a b. s = a @ w @ b)"
proof (induction s)
  case (Cons c s)
  have "take (length w) (c # s) = w \<longleftrightarrow> (\<exists>b. c # s = w @ b)"
    by (metis append_eq_conv_conj append_take_drop_id)
  with Cons show ?case by (auto simp: Cons_eq_append_conv)
qed auto

lemma next_word_first:
  assumes "w \<noteq> []" and "\<forall>c\<in>set w. \<not> is_space c"
  shows "next_word (w @ 32 # s) = (w, 32 # s)" "next_word (32 # w @ 32 # s) = (w, 32 # s)"
proof -
  have sp: "is_space 32" by (simp add: is_space_def)
  have h: "dropWhile is_space (w @ 32 # s) = w @ 32 # s" using assms by (cases w) simp_all
  have t: "takeWhile (Not \<circ> is_space) (w @ 32 # s) = w" "dropWhile (Not \<circ> is_space) (w @ 32 # s) = 32 # s"
    using assms(2) sp by simp_all
  show "next_word (w @ 32 # s) = (w, 32 # s)" "next_word (32 # w @ 32 # s) = (w, 32 # s)"
    using h t sp by (simp_all add: next_word_def Let_def)
qed

lemma request_line_words:
  assumes "verb \<noteq> []" and "path \<noteq> []" and "\<forall>c\<in>set verb \<union> set path. \<not> is_space c"
  shows "request_line (verb @ 32 # path @ 32 # s) = (verb, path)"
  using next_word_first [of verb "path @ 32 # s"] next_word_first [of path s] assms by (simp add: request_line_def)

lemma cut_before_blank:
  assumes "p @ s = r @ rest" and "str_find (13 # v) r" and "13 \<notin> set p"
  shows "\<exists>s'. r = p @ s'"
proof -
  obtain a b where r: "r = a @ (13 # v) @ b" using assms(2) str_find_cases [of "13 # v" r] by blast
  have "length p \<le> length a"
  proof (rule ccontr)
    assume "\<not> length p \<le> length a"
    then have "p ! length a = (p @ s) ! length a" "length a < length p" by (simp_all add: nth_append)
    then have "13 \<in> set p" using assms(1) r by (auto simp: nth_append in_set_conv_nth)
    with assms(3) show False by simp
  qed
  then have "p = take (length p) r" using assms(1) r
    by (metis append_eq_append_conv_if append_eq_conv_conj length_append nat_le_iff_add trans_le_add1)
  then show ?thesis by (metis append_take_drop_id)
qed



subsection \<open>Responses\<close>


lemma no_cr [simp]:
  "13 \<notin> set (lit ''200 OK'')" "13 \<notin> set (lit ''404 Not Found'')" "13 \<notin> set (lit ''text/html'')" "13 \<notin> set (lit ''text/plain'')"
  "13 \<notin> set (lit ''application/javascript'')" "13 \<notin> set (lit ''application/json'')"
  by (simp_all add: lit_def)

lemma workload_replies:
  "json_read (lit ''{'' @ jkey ''ok'' @ lit ''true}'') = Some (JObj [(lit ''ok'', JBool True)])"
  "json_read (lit ''{'' @ jkey ''ok'' @ lit ''false,'' @ jkey ''busy'' @ lit ''true}'') =
     Some (JObj [(lit ''ok'', JBool False), (lit ''busy'', JBool True)])"
  using json_read_text [of "JObj [(lit ''ok'', JBool True)]"]
    json_read_text [of "JObj [(lit ''ok'', JBool False), (lit ''busy'', JBool True)]"]
  by (simp_all add: jkey_def lit_def json_escape_concat json_escape_char_def)

lemma serve_file_read:
  "13 \<notin> set ctype \<Longrightarrow> http_read (serve_file (Some f) ctype) = Some (lit ''200 OK'', ctype, f)"
  "http_read (serve_file None ctype) = Some (lit ''404 Not Found'', lit ''text/plain'', lit ''not found'')"
  by (simp_all add: serve_file_def http_response_read)

definition started :: "server \<Rightarrow> bool \<Rightarrow> int list list \<Rightarrow> server" where
  "started sv grp draws = sv\<lparr>sv_running := True, sv_group := grp, sv_threads := sv_threads sv @ [run_workload grp draws]\<rparr>"

lemma http_words:
  "lit ''POST'' \<noteq> lit ''GET''" "lit ''GET'' \<noteq> lit ''POST''"
  "lit ''/stats'' \<noteq> lit ''/''" "lit ''/stats'' \<noteq> lit ''/index.html''" "lit ''/stats'' \<noteq> lit ''/app.js''"
  "lit ''text/html'' \<noteq> lit ''application/json''" "lit ''text/plain'' \<noteq> lit ''application/json''"
  "lit ''application/javascript'' \<noteq> lit ''application/json''"
  by (simp_all add: lit_def)

lemma handle_ok:
  assumes "handle lg files seen draws verb path sv = (resp, sv')"
  shows "\<exists>status ctype body. http_read resp = Some (status, ctype, body) \<and>
    status \<in> {lit ''200 OK'', lit ''404 Not Found''} \<and>
    (ctype = lit ''application/json'' \<longrightarrow> json_read body \<noteq> None) \<and>
    (verb = lit ''GET'' \<and> path = lit ''/stats'' \<longrightarrow>
       status = lit ''200 OK'' \<and> json_read body = Some (stats_doc lg seen (sv_running sv) (sv_group sv))) \<and>
    (if verb = lit ''POST'' \<and> take 9 path = lit ''/workload'' \<and> \<not> sv_running sv
     then json_read body = Some (JObj [(lit ''ok'', JBool True)]) \<and> (\<exists>grp. sv' = started sv grp (draws grp))
     else sv' = sv)"
proof -
  note words = http_words
  let ?page = "verb = lit ''GET'' \<and> (path = lit ''/'' \<or> path = lit ''/index.html'')"
  let ?script = "verb = lit ''GET'' \<and> path = lit ''/app.js''"
  let ?stats = "verb = lit ''GET'' \<and> path = lit ''/stats''"
  let ?post = "verb = lit ''POST'' \<and> take 9 path = lit ''/workload''"
  consider (page) ?page | (script) ?script "\<not> ?page" | (stats) ?stats "\<not> ?page" "\<not> ?script"
    | (start) ?post "\<not> sv_running sv" | (busy) ?post "sv_running sv" | (other) "\<not> ?page" "\<not> ?script" "\<not> ?stats" "\<not> ?post"
    by blast
  then show ?thesis
  proof cases
    case page
    then have "resp = serve_file (files (lit ''index.html'')) (lit ''text/html'')" "sv' = sv" "\<not> ?stats" "\<not> ?post"
      using assms words by (auto simp: handle_def)
    then show ?thesis using words by (cases "files (lit ''index.html'')") (auto simp: serve_file_read)
  next
    case script
    then have "resp = serve_file (files (lit ''app.js'')) (lit ''application/javascript'')" "sv' = sv" "\<not> ?stats" "\<not> ?post"
      using assms words by (auto simp: handle_def)
    then show ?thesis using words by (cases "files (lit ''app.js'')") (auto simp: serve_file_read)
  next
    case stats
    then have "resp = http_response (lit ''200 OK'') (lit ''application/json'') (build_stats_json lg seen (sv_running sv) (sv_group sv))"
      "sv' = sv" "\<not> ?post" using assms words by (auto simp: handle_def)
    then show ?thesis using json_read_text [of "stats_doc lg seen (sv_running sv) (sv_group sv)"]
      by (auto simp: http_response_read stats_doc_text)
  next
    case start
    then have "resp = http_response (lit ''200 OK'') (lit ''application/json'') (lit ''{'' @ jkey ''ok'' @ lit ''true}'')"
      "sv' = started sv (str_find (lit ''mode=group'') path) (draws (str_find (lit ''mode=group'') path))" "\<not> ?stats"
      using assms words by (auto simp: handle_def started_def Let_def)
    then show ?thesis using start by (auto simp: http_response_read workload_replies)
  next
    case busy
    then have "resp = http_response (lit ''200 OK'') (lit ''application/json'')
        (lit ''{'' @ jkey ''ok'' @ lit ''false,'' @ jkey ''busy'' @ lit ''true}'')" "sv' = sv" "\<not> ?stats"
      using assms words by (auto simp: handle_def Let_def)
    then show ?thesis using busy by (auto simp: http_response_read workload_replies)
  next
    case other
    then have "resp = http_response (lit ''404 Not Found'') (lit ''text/plain'') (lit ''not found'')" "sv' = sv"
      using assms by (auto simp: handle_def)
    then show ?thesis using other words by (auto simp: http_response_read)
  qed
qed

text \<open>
  Property C28: every request is answered with a response that a client can take apart, whose
  declared length is its length. JSON is announced only for JSON; \<open>/stats\<close> carries the
  statistics; and the server changes only when a workload is started, which happens exactly
  when a \<open>POST\<close> to \<open>/workload\<close> finds none running, as the response says.
\<close>

theorem handle_reply:
  assumes "handle lg files seen draws verb path sv = (resp, sv')"
  shows "\<exists>status ctype body. http_read resp = Some (status, ctype, body) \<and>
    status \<in> {lit ''200 OK'', lit ''404 Not Found''} \<and>
    (ctype = lit ''application/json'' \<longrightarrow> json_read body \<noteq> None) \<and>
    (verb = lit ''GET'' \<and> path = lit ''/stats'' \<longrightarrow>
       status = lit ''200 OK'' \<and> json_read body = Some (stats_doc lg seen (sv_running sv) (sv_group sv))) \<and>
    (if verb = lit ''POST'' \<and> take 9 path = lit ''/workload'' \<and> \<not> sv_running sv
     then json_read body = Some (JObj [(lit ''ok'', JBool True)]) \<and> (\<exists>grp. sv' = started sv grp (draws grp))
     else sv' = sv)"
  using assms by (rule handle_ok)

definition server0 :: "engine \<Rightarrow> server" where
  "server0 e = \<lparr>sv_engine = e, sv_running = False, sv_group = False, sv_threads = []\<rparr>"

theorem handle_reply_witness:
  "\<exists>s resp sv. handle lg_const (\<lambda>_. None) (\<lambda>_. s) (\<lambda>_. []) (lit ''POST'') (lit ''/workload?mode=group'') (server0 (engine0 s)) = (resp, sv) \<and>
     http_read resp \<noteq> None \<and> sv_running sv"
proof -
  fix s
  obtain resp sv where h: "handle lg_const (\<lambda>_. None) (\<lambda>_. s) (\<lambda>_. []) (lit ''POST'') (lit ''/workload?mode=group'') (server0 (engine0 s)) = (resp, sv)"
    by fastforce
  have "take 9 (lit ''/workload?mode=group'') = lit ''/workload''" by (simp add: lit_def)
  then have "http_read resp \<noteq> None" "sv_running sv"
    using handle_reply [OF h] by (auto simp: server0_def started_def)
  with h show ?thesis by blast
qed

subsection \<open>Runs of the server\<close>

datatype server_event = SvReply bytes | SvDb event | SvEnd

text \<open>
  A client is served, a workload thread makes its next call, a background thread of the store
  works, or a workload thread ends. The accessors of \<open>/stats\<close> may see any states.
\<close>

inductive server_step :: "(real \<Rightarrow> real) \<Rightarrow> (bytes \<Rightarrow> bytes option) \<Rightarrow> server \<Rightarrow> server_event \<Rightarrow> server \<Rightarrow> bool" for lg files where
  Serve: "\<lbrakk>\<forall>grp. draws_ok grp (draws grp); serve_client lg files seen draws bufs sv = (resp, sv')\<rbrakk>
    \<Longrightarrow> server_step lg files sv (SvReply resp) sv'"
| Work: "\<lbrakk>sv_threads sv = pre @ (ev # evs) # post; engine_step lg (sv_engine sv) ev e\<rbrakk>
    \<Longrightarrow> server_step lg files sv (SvDb ev) (sv\<lparr>sv_engine := e, sv_threads := pre @ evs # post\<rparr>)"
| Background: "engine_step lg (sv_engine sv) EvTau e \<Longrightarrow> server_step lg files sv (SvDb EvTau) (sv\<lparr>sv_engine := e\<rparr>)"
| End: "sv_threads sv = pre @ [] # post \<Longrightarrow> server_step lg files sv SvEnd (sv\<lparr>sv_running := False, sv_threads := pre @ post\<rparr>)"

inductive_cases server_step_cases: "server_step lg files sv ev sv'"

inductive server_run :: "(real \<Rightarrow> real) \<Rightarrow> (bytes \<Rightarrow> bytes option) \<Rightarrow> server \<Rightarrow> server_event list \<Rightarrow> server \<Rightarrow> bool" for lg files where
  Start: "server_run lg files sv [] sv"
| Step: "server_step lg files sv ev sv1 \<Longrightarrow> server_run lg files sv1 evs sv2 \<Longrightarrow> server_run lg files sv (ev # evs) sv2"

definition db_events :: "server_event list \<Rightarrow> event list" where
  "db_events evs = concat (map (\<lambda>ev. case ev of SvDb x \<Rightarrow> [x] | _ \<Rightarrow> []) evs)"

text \<open>What a workload calls and what it leaves in the store.\<close>

definition workload_event :: "event \<Rightarrow> bool" where
  "workload_event ev \<longleftrightarrow> ev = EvSync \<or> (\<exists>grp k. 0 \<le> k \<and> k \<le> 200000 \<and> ev = workload_call grp k)"

definition workload_pair :: "bytes \<Rightarrow> bytes \<Rightarrow> bool" where
  "workload_pair k v \<longleftrightarrow> v = replicate 100 120 \<and> (\<exists>i\<ge>0. i \<le> 200000 \<and> i mod 17 \<noteq> 0 \<and> k = lit ''key'' @ int_text i)"

definition server_inv :: "server \<Rightarrow> bool" where
  "server_inv sv \<longleftrightarrow> engine_inv (sv_engine sv) \<and> length (sv_threads sv) \<le> 1 \<and> (sv_running sv \<longleftrightarrow> sv_threads sv \<noteq> []) \<and>
     (\<forall>evs\<in>set (sv_threads sv). \<forall>ev\<in>set evs. workload_event ev) \<and>
     (\<forall>k v. abs_db (en_db (sv_engine sv)) k = Some v \<longrightarrow> workload_pair k v)"

lemma run_workload_events: "draws_ok grp draws \<Longrightarrow> \<forall>ev\<in>set (run_workload grp draws). workload_event ev"
  by (auto simp: run_workload_def draws_ok_def workload_event_def)

lemma workload_event_pairs:
  assumes "workload_event ev" and "\<forall>k v. m k = Some v \<longrightarrow> workload_pair k v"
  shows "\<forall>k v. map_step ev m k = Some v \<longrightarrow> workload_pair k v"
  using assms by (auto simp: workload_event_def workload_call_def workload_pair_def Let_def split: if_splits)

fun sv_map :: "server_event \<Rightarrow> (bytes \<rightharpoonup> bytes) \<Rightarrow> (bytes \<rightharpoonup> bytes)" where
  "sv_map (SvDb ev) m = map_step ev m"
| "sv_map _ m = m"

lemma fold_sv_map: "fold sv_map evs m = fold map_step (db_events evs) m"
proof (induction evs arbitrary: m)
  case (Cons ev evs)
  then show ?case by (cases ev) (simp_all add: db_events_def)
qed (simp add: db_events_def)

definition reply_ok :: "server_event \<Rightarrow> bool" where
  "reply_ok ev \<longleftrightarrow> (\<forall>resp. ev = SvReply resp \<longrightarrow> http_read resp \<noteq> None)"

lemma server_step_sim:
  assumes "server_step lg files sv ev sv'" and inv: "server_inv sv"
  shows "server_inv sv' \<and> abs_db (en_db (sv_engine sv')) = sv_map ev (abs_db (en_db (sv_engine sv))) \<and> reply_ok ev"
  using assms(1)
proof cases
  case (Serve draws seen bufs resp)
  obtain verb path where h: "handle lg files seen draws verb path sv = (resp, sv')"
    using Serve(3) by (auto simp: serve_client_def split: prod.splits)
  from handle_ok [OF h] have "http_read resp \<noteq> None" "sv' = sv \<or> \<not> sv_running sv \<and> (\<exists>grp. sv' = started sv grp (draws grp))"
    by (auto split: if_splits)
  moreover have "\<forall>x\<in>set (run_workload grp (draws grp)). workload_event x" for grp
    by (rule run_workload_events) (use Serve(2) in simp)
  ultimately show ?thesis
    using inv Serve(1) by (auto simp: server_inv_def started_def reply_ok_def)
next
  case (Work pre x evs post e)
  have e: "engine_inv e" "abs_db (en_db e) = map_step x (abs_db (en_db (sv_engine sv)))"
    using engine_step_sim [OF Work(4)] inv by (auto simp: server_inv_def)
  have "workload_event x" "\<forall>evs'\<in>set (pre @ evs # post). \<forall>y\<in>set evs'. workload_event y"
    using inv Work(3) by (auto simp: server_inv_def)
  then show ?thesis
    using inv e Work(1-3) workload_event_pairs [of x "abs_db (en_db (sv_engine sv))"] by (auto simp: server_inv_def reply_ok_def)
next
  case (Background e)
  then show ?thesis using engine_step_sim [OF Background(3)] inv by (auto simp: server_inv_def reply_ok_def)
next
  case (End pre post)
  then show ?thesis using inv by (auto simp: server_inv_def reply_ok_def)
qed

lemma server_run_sim:
  assumes "server_run lg files sv evs sv'" and "server_inv sv"
  shows "server_inv sv' \<and> abs_db (en_db (sv_engine sv')) = fold sv_map evs (abs_db (en_db (sv_engine sv))) \<and> list_all reply_ok evs"
  using assms
proof (induction rule: server_run.induct)
  case (Step sv ev sv1 evs sv2)
  then show ?case using server_step_sim [OF Step.hyps(1) Step.prems] by simp
qed simp

text \<open>
  Property C9: the dashboard as a whole. In every run of the server on an empty directory, with
  any clients, at most one workload is active, the flag says whether one is, every reply can
  be taken apart, the store holds the map of the workload's calls, and it never holds
  anything but the workload's keys and values.
\<close>

theorem dashboard_run:
  assumes "db_open no_faults lg dashboard_config disk0 = (Inr (), s)" and "server_run lg files (server0 (engine0 s)) evs sv"
  shows "length (sv_threads sv) \<le> 1 \<and> (sv_running sv \<longleftrightarrow> sv_threads sv \<noteq> []) \<and>
    (\<forall>resp. SvReply resp \<in> set evs \<longrightarrow> http_read resp \<noteq> None) \<and>
    abs_db (en_db (sv_engine sv)) = fold map_step (db_events evs) Map.empty \<and>
    (\<forall>k v. abs_db (en_db (sv_engine sv)) k = Some v \<longrightarrow> workload_pair k v)"
proof -
  have fresh: "engine_inv (engine0 s)" "abs_db s = Map.empty" using fresh_open [of lg dashboard_config] assms(1) by auto
  then have "server_inv (server0 (engine0 s))" by (simp add: server_inv_def server0_def engine0_def)
  from server_run_sim [OF assms(2) this] show ?thesis
    using fresh(2) by (auto simp: server_inv_def server0_def engine0_def fold_sv_map list_all_iff reply_ok_def)
qed

theorem dashboard_run_witness:
  "\<exists>s resp sv. db_open no_faults lg_const dashboard_config disk0 = (Inr (), s) \<and>
     server_run lg_const (\<lambda>_. None) (server0 (engine0 s)) [SvReply resp, SvDb (workload_call False 1)] sv \<and>
     http_read resp \<noteq> None \<and> abs_db (en_db (sv_engine sv)) (lit ''key1'') = Some (replicate 100 120)"
proof -
  define draws where "draws = (\<lambda>grp. [replicate (if grp then 1000 else 50) (1 :: int)])"
  obtain s where s: "db_open no_faults lg_const dashboard_config disk0 = (Inr (), s)" "db_inv s" by (rule fresh_open)
  let ?sv = "server0 (engine0 s)"
  let ?bufs = "[lit ''POST /workload '']"
  obtain resp sv1 where r: "serve_client lg_const (\<lambda>_. None) (\<lambda>_. s) draws ?bufs ?sv = (resp, sv1)" by fastforce
  have "request_line (recv_loop [] ?bufs) = (lit ''POST'', lit ''/workload'')"
    by (simp add: lit_def crlf_def request_line_def next_word_def is_space_def)
  then have "handle lg_const (\<lambda>_. None) (\<lambda>_. s) draws (lit ''POST'') (lit ''/workload'') ?sv = (resp, sv1)"
    using r by (simp add: serve_client_def)
  then have sv1: "sv1 = started ?sv False (draws False)"
    by (simp add: handle_def server0_def started_def Let_def lit_def)
  have key: "workload_call False 1 = EvPut (lit ''key1'') (replicate 100 120) True"
    by (simp add: workload_call_def int_text_def lit_def dec_digits.simps Let_def)
  have "run_workload False (draws False) = workload_call False 1 # replicate 49 (workload_call False 1)"
    by (simp add: run_workload_def draws_def) (simp add: numeral_eq_Suc)
  then have th: "sv_threads sv1 = [] @ (workload_call False 1 # replicate 49 (workload_call False 1)) # []"
    and e1: "sv_engine sv1 = engine0 s" by (simp_all add: sv1 started_def server0_def)
  obtain s1 where s1: "db_put no_faults (lit ''key1'') (replicate 100 120) True s = (Inr (), s1)"
    by (rule db_put_ok [OF s(2), of "lit ''key1''" "replicate 100 120" True]) (simp_all add: UINT32_MAX_def lit_def)
  have put: "engine_step lg_const (sv_engine sv1) (workload_call False 1) (engine0 s1)"
    using engine_step.Put [of "lit ''key1''" "replicate 100 120" True "engine0 s" s1] s1
    by (simp add: e1 key engine0_def UINT32_MAX_def lit_def)
  let ?sv2 = "sv1\<lparr>sv_engine := engine0 s1, sv_threads := [] @ replicate 49 (workload_call False 1) # []\<rparr>"
  have "\<forall>grp. draws_ok grp (draws grp)" by (simp add: draws_def draws_ok_def)
  then have run: "server_run lg_const (\<lambda>_. None) ?sv [SvReply resp, SvDb (workload_call False 1)] ?sv2"
    using server_run.Step [OF server_step.Serve [OF _ r] server_run.Step [OF server_step.Work [OF th put] server_run.Start]] by simp
  from dashboard_run [OF s(1) run] have "http_read resp \<noteq> None" "abs_db (en_db (sv_engine ?sv2)) (lit ''key1'') = Some (replicate 100 120)"
    by (auto simp: db_events_def key)
  with s(1) run show ?thesis by blast
qed

end
