(* ===== verification/Level_Order.thy ===== *)
theory Level_Order
  imports Db_Merge
begin

text \<open>
  The shape of the table list under leveled compaction. Level 0 holds tables newest first;
  the tables of a deeper level have disjoint key ranges and come in key order; a shallower
  level comes before a deeper one. \<open>before\<close> is that order, and the lookup of a key answers
  with the record of the first table, in that order, that holds the key. The merge of some
  tables of one level into the next is then a fact about sets of tables.
\<close>

type_synonym placed = "int \<times> sstable"

definition before :: "placed \<Rightarrow> placed \<Rightarrow> bool" where
  "before x y \<longleftrightarrow> fst x < fst y \<or> fst x = fst y \<and>
     (if fst x = 0 then seq_or_0 (snd y) < seq_or_0 (snd x) else sst_max_key (snd x) < sst_min_key (snd y))"

definition placed_ok :: "placed \<Rightarrow> bool" where
  "placed_ok x \<longleftrightarrow> 0 \<le> fst x \<and> sst_inv (snd x) \<and> (fst x \<noteq> 0 \<longrightarrow> sst_records (snd x) \<noteq> [])"

abbreviation hit :: "bytes \<Rightarrow> placed \<Rightarrow> kv_record option" where
  "hit k x \<equiv> find_rec k (sst_records (snd x))"

definition answer :: "bytes \<Rightarrow> placed list \<Rightarrow> kv_record option" where
  "answer k ps = find_rec k (concat (map sst_records (map snd ps)))"

lemma answer_simps [simp]:
  "answer k [] = None"
  "answer k (x # ps) = (case hit k x of None \<Rightarrow> answer k ps | Some r \<Rightarrow> Some r)"
  by (simp_all add: answer_def find_rec_append split: option.split)

subsection \<open>The order\<close>

lemma record_in_range:
  assumes "sst_inv t" and "r \<in> set (sst_records t)"
  shows "sst_min_key t \<le> rec_key r" and "rec_key r \<le> sst_max_key t"
proof -
  have s: "ssorted (map rec_key (sst_records t))" and ne: "sst_records t \<noteq> []" using assms by (auto simp: sst_inv_def)
  have e: "sst_min_key t = rec_key (hd (sst_records t))" "sst_max_key t = rec_key (last (sst_records t))"
    using assms(1) ne by (simp_all add: sst_inv_def)
  show "sst_min_key t \<le> rec_key r" using s ne assms(2) unfolding e by (cases "sst_records t") auto
  show "rec_key r \<le> sst_max_key t"
    using s ne assms(2) unfolding e by (cases "sst_records t" rule: rev_cases) (auto simp: ssorted_append)
qed

lemma range_nonempty: "sst_inv t \<Longrightarrow> sst_records t \<noteq> [] \<Longrightarrow> sst_min_key t \<le> sst_max_key t"
  using record_in_range [of t "hd (sst_records t)"] by (metis hd_in_set order_trans)

lemma placed_range: "placed_ok x \<Longrightarrow> fst x \<noteq> 0 \<Longrightarrow> sst_min_key (snd x) \<le> sst_max_key (snd x)"
  by (simp add: placed_ok_def range_nonempty)

lemma hit_range:
  assumes "placed_ok x" and "hit k x \<noteq> None"
  shows "sst_min_key (snd x) \<le> k" and "k \<le> sst_max_key (snd x)"
proof -
  obtain r where "r \<in> set (sst_records (snd x))" "rec_key r = k" using assms(2) find_rec_key by blast
  with record_in_range [of "snd x" r] assms(1) show "sst_min_key (snd x) \<le> k" "k \<le> sst_max_key (snd x)"
    by (auto simp: placed_ok_def)
qed

lemma before_trans:
  assumes "placed_ok y" and "before x y" and "before y z"
  shows "before x z"
proof (cases "fst x = fst y \<and> fst y = fst z")
  case True
  show ?thesis
  proof (cases "fst y = 0")
    case False
    then show ?thesis
      using True assms(2,3) placed_range [OF assms(1)] unfolding before_def by (metis order_less_le_trans order_less_trans less_irrefl)
  qed (use True assms(2,3) in \<open>auto simp: before_def\<close>)
qed (use assms(2,3) in \<open>auto simp: before_def\<close>)

lemma before_irrefl: "placed_ok x \<Longrightarrow> \<not> before x x"
  using placed_range [of x] by (auto simp: before_def)

lemma before_asym: "placed_ok x \<Longrightarrow> placed_ok y \<Longrightarrow> before x y \<Longrightarrow> \<not> before y x"
  using before_trans [of y x x] before_irrefl [of x] by blast

text \<open>Two tables of a deeper level that both hold a key are not ordered.\<close>

lemma same_level_hits:
  assumes "placed_ok x" and "placed_ok y" and "hit k x \<noteq> None" and "hit k y \<noteq> None"
    and "fst x = fst y" and "fst x \<noteq> 0"
  shows "\<not> before x y"
  using hit_range(2) [OF assms(1,3)] hit_range(1) [OF assms(2,4)] assms(5,6) by (auto simp: before_def)

lemma before_level: "before x y \<Longrightarrow> fst x \<le> fst y"
  by (auto simp: before_def)

definition ordered :: "placed list \<Rightarrow> bool" where
  "ordered ps \<longleftrightarrow> (\<forall>x\<in>set ps. placed_ok x) \<and> sorted_wrt before ps"

lemma ordered_Cons: "ordered (x # ps) \<longleftrightarrow> placed_ok x \<and> (\<forall>y\<in>set ps. before x y) \<and> ordered ps"
  by (auto simp: ordered_def)

text \<open>The table that answers.\<close>

definition owner :: "bytes \<Rightarrow> placed set \<Rightarrow> placed \<Rightarrow> bool" where
  "owner k P x \<longleftrightarrow> x \<in> P \<and> hit k x \<noteq> None \<and> (\<forall>y\<in>P. hit k y \<noteq> None \<longrightarrow> y = x \<or> before x y)"

lemma answer_None: "answer k ps = None \<longleftrightarrow> (\<forall>x\<in>set ps. hit k x = None)"
  by (induction ps) (auto split: option.splits)

lemma answer_owner:
  assumes "ordered ps" and "owner k (set ps) x"
  shows "answer k ps = hit k x"
  using assms
proof (induction ps)
  case Nil
  then show ?case by (simp add: owner_def)
next
  case (Cons y ps)
  show ?case
  proof (cases "hit k y")
    case None
    then have "owner k (set ps) x" using Cons.prems(2) by (auto simp: owner_def)
    then show ?thesis using Cons None by (simp add: ordered_Cons)
  next
    case (Some r)
    have "x = y"
    proof (rule ccontr)
      assume "x \<noteq> y"
      then have "before x y" "x \<in> set ps" using Cons.prems(2) Some by (auto simp: owner_def)
      then show False using Cons.prems(1) before_asym [of x y] by (auto simp: ordered_Cons ordered_def)
    qed
    then show ?thesis using Some by simp
  qed
qed

lemma owner_exists:
  assumes "ordered ps" and "answer k ps \<noteq> None"
  obtains x where "owner k (set ps) x"
  using assms
proof (induction ps arbitrary: thesis)
  case (Cons y ps)
  show ?case
  proof (cases "hit k y")
    case None
    then have "answer k ps \<noteq> None" using Cons.prems(3) by simp
    then obtain x where "owner k (set ps) x" using Cons by (auto simp: ordered_Cons)
    then show ?thesis using Cons.prems(1) [of x] None by (auto simp: owner_def)
  next
    case (Some r)
    then show ?thesis using Cons.prems(1) [of y] Cons.prems(2) by (auto simp: owner_def ordered_Cons)
  qed
qed simp

subsection \<open>Sorting by level\<close>

lemma set_stable_insert [simp]: "set (stable_insert lt x ys) = insert x (set ys)"
  by (induction ys) auto

lemma set_stable_sort [simp]: "set (stable_sort lt xs) = set xs"
  by (induction xs) (auto simp: stable_sort_def)

lemma level_less_before:
  assumes "placed_ok x" and "placed_ok y" and "before x y"
  shows "level_less x y" and "\<not> level_less y x"
proof -
  have "sst_min_key (snd x) < sst_min_key (snd y)" if "fst x = fst y" "fst x \<noteq> 0"
    using assms(3) placed_range [OF assms(1)] that by (simp add: before_def)
  then show "level_less x y" "\<not> level_less y x"
    using assms(3) unfolding level_less_def before_def by (metis less_irrefl less_asym)+
qed

definition comparable :: "placed set \<Rightarrow> bool" where
  "comparable P \<longleftrightarrow> (\<forall>x\<in>P. \<forall>y\<in>P. x \<noteq> y \<longrightarrow> before x y \<or> before y x)"

lemma ordered_stable_insert:
  assumes "ordered ps" and "placed_ok x" and "x \<notin> set ps" and "comparable (insert x (set ps))"
  shows "ordered (stable_insert level_less x ps)"
  using assms
proof (induction ps)
  case Nil
  then show ?case by (simp add: ordered_def)
next
  case (Cons y ps)
  have y: "placed_ok y" using Cons.prems(1) by (simp add: ordered_Cons)
  have rest: "ordered (stable_insert level_less x ps)"
    using Cons by (auto simp: ordered_Cons comparable_def)
  consider "before y x" | "before x y" using Cons.prems(3,4) by (auto simp: comparable_def)
  then show ?case
  proof cases
    case 1
    then show ?thesis
      using level_less_before(1) [OF y Cons.prems(2)] rest Cons.prems(1) by (auto simp: ordered_Cons)
  next
    case 2
    then show ?thesis
      using level_less_before(2) [OF Cons.prems(2) y] Cons.prems(1,2) before_trans [OF y 2] by (auto simp: ordered_Cons)
  qed
qed

lemma ordered_stable_sort:
  assumes "\<forall>x\<in>set ps. placed_ok x" and "distinct ps" and "comparable (set ps)"
  shows "ordered (stable_sort level_less ps)"
  using assms
proof (induction ps)
  case Nil
  then show ?case by (simp add: ordered_def stable_sort_def)
next
  case (Cons x ps)
  then have "ordered (stable_sort level_less ps)" by (auto simp: comparable_def)
  then have "ordered (stable_insert level_less x (stable_sort level_less ps))"
    using Cons.prems by (intro ordered_stable_insert) auto
  then show ?case by (simp add: stable_sort_def)
qed

lemma ordered_comparable: "ordered ps \<Longrightarrow> comparable (set ps)"
  by (induction ps) (auto simp: ordered_Cons comparable_def)

lemma ordered_filter: "ordered ps \<Longrightarrow> ordered (filter P ps)"
  by (auto simp: ordered_def sorted_wrt_filter)

lemma ordered_distinct: "ordered ps \<Longrightarrow> distinct ps"
  using before_irrefl by (induction ps) (auto simp: ordered_Cons)

subsection \<open>Merging into the next level\<close>

text \<open>
  \<open>level_merge src lo hi dead P S D\<close>: of the tables \<open>P\<close>, the tables \<open>S\<close> of level \<open>src\<close>, all in
  the key range from \<open>lo\<close> to \<open>hi\<close>, and the tables \<open>D\<close> of the next level are merged.
\<close>

definition level_merge :: "int \<Rightarrow> bytes \<Rightarrow> bytes \<Rightarrow> bool \<Rightarrow> placed set \<Rightarrow> placed set \<Rightarrow> placed set \<Rightarrow> bool" where
  "level_merge src lo hi dead P S D \<longleftrightarrow> 0 \<le> src \<and> S \<subseteq> P \<and> D \<subseteq> P \<and>
     (\<forall>x\<in>S. fst x = src \<and> lo \<le> sst_min_key (snd x) \<and> sst_max_key (snd x) \<le> hi) \<and>
     (\<forall>x\<in>D. fst x = src + 1 \<and> lo \<le> sst_max_key (snd x) \<and> sst_min_key (snd x) \<le> hi) \<and>
     (\<forall>x\<in>P. fst x = src + 1 \<longrightarrow> x \<in> D \<or> sst_max_key (snd x) < lo \<or> hi < sst_min_key (snd x)) \<and>
     (src = 0 \<longrightarrow> (\<forall>x\<in>P. fst x = 0 \<longrightarrow> x \<in> S \<or> (\<forall>y\<in>S. before x y))) \<and>
     (dead \<longrightarrow> (\<forall>x\<in>P. fst x \<le> src + 1))"

text \<open>A table that stays and holds a key of the table that answered lies below the destination.\<close>

lemma level_merge_below:
  assumes lm: "level_merge src lo hi dead P S D" and ok: "\<forall>z\<in>P. placed_ok z"
    and x: "x \<in> S \<union> D" "hit k x \<noteq> None" and y: "y \<in> P - (S \<union> D)" "hit k y \<noteq> None" and xy: "before x y"
  shows "src + 1 < fst y"
proof (rule ccontr)
  assume low: "\<not> src + 1 < fst y"
  have P: "x \<in> P" "placed_ok x" "placed_ok y" using lm ok x(1) y(1) by (auto simp: level_merge_def)
  note rx = hit_range [OF P(2) x(2)] and ry = hit_range [OF P(3) y(2)]
  have neq: False if "fst x = fst y" "fst x \<noteq> 0"
    using same_level_hits [OF P(2,3) x(2) y(2) that] xy by simp
  have src: "0 \<le> src" using lm by (simp add: level_merge_def)
  show False
  proof (cases "x \<in> S")
    case True
    then have xs: "fst x = src" "lo \<le> sst_min_key (snd x)" "sst_max_key (snd x) \<le> hi"
      using lm by (auto simp: level_merge_def)
    consider "fst y = src" | "fst y = src + 1" using before_level [OF xy] xs(1) low by fastforce
    then show False
    proof cases
      case 1
      show False
      proof (cases "src = 0")
        case True
        then have "before y x" using lm 1 y(1) \<open>x \<in> S\<close> by (auto simp: level_merge_def)
        then show False using before_asym [OF P(2,3) xy] by simp
      qed (use neq 1 xs(1) in simp)
    next
      case 2
      then have "sst_max_key (snd y) < lo \<or> hi < sst_min_key (snd y)" using lm y(1) by (auto simp: level_merge_def)
      then show False using rx ry xs(2,3) by (meson leD order_trans)
    qed
  next
    case False
    then have "fst x = src + 1" using lm x(1) by (auto simp: level_merge_def)
    then show False using neq before_level [OF xy] low src by simp
  qed
qed

text \<open>The merge keeps every answer, except that it may forget a deletion when told to.\<close>

lemma level_merge_answer:
  assumes lm: "level_merge src lo hi dead (set ps) S D" and ps: "ordered ps" and qs: "ordered qs"
    and ins: "set is = S \<union> D" "ordered is"
    and setq: "set qs = (set ps - (S \<union> D)) \<union> Out" and lev: "\<forall>x\<in>Out. fst x = src + 1"
    and out: "\<And>k. (\<forall>x\<in>Out. hit k x = None) \<longleftrightarrow> (case answer k is of None \<Rightarrow> True | Some r \<Rightarrow> dead \<and> rec_op r = Delete)"
      "\<And>k x. x \<in> Out \<Longrightarrow> hit k x \<noteq> None \<Longrightarrow> hit k x = answer k is"
  shows "answer k qs = answer k ps \<or> (answer k qs = None \<and> dead \<and> (\<exists>r. answer k ps = Some r \<and> rec_op r = Delete))"
proof (cases "answer k ps")
  case None
  then have none: "\<forall>x\<in>set ps. hit k x = None" by (simp add: answer_None)
  then have "answer k is = None" using lm ins(1) by (auto simp: answer_None level_merge_def)
  then have "\<forall>x\<in>set qs. hit k x = None" using none setq out(1) [of k] by auto
  then have "answer k qs = None" unfolding answer_None .
  then show ?thesis using None by simp
next
  case (Some r)
  have okp: "\<forall>z\<in>set ps. placed_ok z" and okq: "\<forall>z\<in>set qs. placed_ok z" using ps qs by (auto simp: ordered_def)
  have src: "0 \<le> src" and sub: "S \<union> D \<subseteq> set ps" using lm by (auto simp: level_merge_def)
  obtain x where x: "owner k (set ps) x" using owner_exists [OF ps] Some by blast
  then have hx: "hit k x = Some r" "x \<in> set ps" using answer_owner [OF ps x] Some by (auto simp: owner_def)
  show ?thesis
  proof (cases "x \<in> S \<union> D")
    case False
    have "y = x \<or> before x y" if "y \<in> set qs" "hit k y \<noteq> None" for y
    proof (cases "y \<in> set ps")
      case True
      then show ?thesis using x that(2) by (auto simp: owner_def)
    next
      case notp: False
      then have y: "y \<in> Out" using that(1) setq by blast
      then have "answer k is \<noteq> None" using out(2) that(2) by metis
      then obtain z where z: "z \<in> S \<union> D" "hit k z \<noteq> None" using ins(1) by (auto simp: answer_None)
      then have xz: "before x z" using x sub False by (auto simp: owner_def)
      have "fst x \<noteq> src + 1"
      proof
        assume dest: "fst x = src + 1"
        have "fst z = src \<or> fst z = src + 1" using z(1) lm by (auto simp: level_merge_def)
        then have "fst z = fst x" using before_level [OF xz] dest by auto
        then show False
          using same_level_hits [of x z k] okp hx z sub xz dest src by auto
      qed
      moreover have "fst x \<le> src + 1" using before_level [OF xz] z(1) lm by (auto simp: level_merge_def)
      ultimately show ?thesis using lev y by (auto simp: before_def)
    qed
    then have "owner k (set qs) x" using False hx setq by (auto simp: owner_def)
    then show ?thesis using answer_owner [OF qs] hx(1) Some by simp
  next
    case True
    then have "owner k (set is) x" using x ins(1) sub by (auto simp: owner_def)
    then have m: "answer k is = Some r" using answer_owner [OF ins(2)] hx(1) by simp
    have below: "src + 1 < fst y" if "y \<in> set ps - (S \<union> D)" "hit k y \<noteq> None" for y
      using level_merge_below [OF lm okp True _ that] x hx(1) that True by (auto simp: owner_def)
    show ?thesis
    proof (cases "dead \<and> rec_op r = Delete")
      case True
      then have gone: "\<forall>y\<in>Out. hit k y = None" and deep: "\<forall>y\<in>set ps. \<not> src + 1 < fst y"
        using out(1) [of k] m lm by (auto simp: level_merge_def)
      have "hit k y = None" if "y \<in> set qs" for y
        using that setq gone deep below [of y] by blast
      then have "answer k qs = None" unfolding answer_None by blast
      then show ?thesis using True Some by simp
    next
      case False
      then obtain y where y: "y \<in> Out" "hit k y \<noteq> None" using out(1) [of k] m by auto
      have "w = y \<or> before y w" if w: "w \<in> set qs" "hit k w \<noteq> None" for w
      proof (cases "w \<in> Out")
        case True
        have "\<not> before w y" "\<not> before y w"
          using same_level_hits [of w y k] same_level_hits [of y w k] okq setq True y w lev src by auto
        then show ?thesis using ordered_comparable [OF qs] w(1) y(1) setq by (auto simp: comparable_def)
      next
        case False
        then show ?thesis using below w setq lev y(1) by (auto simp: before_def)
      qed
      then have "owner k (set qs) y" using y setq by (auto simp: owner_def)
      then show ?thesis using answer_owner [OF qs] out(2) [OF y] m Some by simp
    qed
  qed
qed

text \<open>The tables that stay at the destination level lie to one side of everything that is merged.\<close>

lemma level_merge_side:
  assumes lm: "level_merge src lo hi dead P S D" and ok: "\<forall>z\<in>P. placed_ok z" and cmp: "comparable P"
    and y: "y \<in> P - (S \<union> D)" "fst y = src + 1"
  shows "(\<forall>x\<in>S \<union> D. sst_max_key (snd y) < sst_min_key (snd x)) \<or>
    (\<forall>x\<in>S \<union> D. sst_max_key (snd x) < sst_min_key (snd y))"
proof -
  have src: "0 \<le> src" and oky: "placed_ok y" using lm ok y(1) by (auto simp: level_merge_def)
  then have ry: "sst_min_key (snd y) \<le> sst_max_key (snd y)" using placed_range y(2) by simp
  have dest: "sst_max_key (snd y) < sst_min_key (snd x) \<or> sst_max_key (snd x) < sst_min_key (snd y)"
    if "x \<in> D" for x
  proof -
    have lx: "fst x = fst y" "fst y \<noteq> 0" and "x \<in> P" "x \<noteq> y" using that lm y src by (auto simp: level_merge_def)
    then have "before x y \<or> before y x" using cmp y(1) by (auto simp: comparable_def)
    then show ?thesis using lx by (simp add: before_def disj_commute)
  qed
  have S: "lo \<le> sst_min_key (snd x)" "sst_max_key (snd x) \<le> hi" if "x \<in> S" for x
    using that lm by (auto simp: level_merge_def)
  have D: "lo \<le> sst_max_key (snd x)" "sst_min_key (snd x) \<le> hi" if "x \<in> D" for x
    using that lm by (auto simp: level_merge_def)
  consider "sst_max_key (snd y) < lo" | "hi < sst_min_key (snd y)" using lm y by (auto simp: level_merge_def)
  then show ?thesis
  proof cases
    case 1
    have "sst_max_key (snd y) < sst_min_key (snd x)" if x: "x \<in> S \<union> D" for x
    proof (cases "x \<in> S")
      case True
      then show ?thesis using S(1) [OF True] 1 by simp
    next
      case False
      then have "x \<in> D" using x by simp
      from dest [OF this] show ?thesis using D(1) [OF \<open>x \<in> D\<close>] 1 ry by auto
    qed
    then show ?thesis by blast
  next
    case 2
    have "sst_max_key (snd x) < sst_min_key (snd y)" if x: "x \<in> S \<union> D" for x
    proof (cases "x \<in> S")
      case True
      then show ?thesis using S(2) [OF True] 2 by simp
    next
      case False
      then have "x \<in> D" using x by simp
      from dest [OF this] show ?thesis using D(2) [OF \<open>x \<in> D\<close>] 2 ry by auto
    qed
    then show ?thesis by blast
  qed
qed

end
