(* ===== verification/Db_Leveled.thy ===== *)
theory Db_Leveled
  imports Level_Order
begin

text \<open>
  Leveled compaction against the abstract store. \<open>linv\<close> is the shape the table list has in a
  leveled store, where a sealed memtable already owns the number of its table; a compaction round finds its inputs, merges them into files of the next
  level and installs them, keeps \<open>linv\<close>, and leaves every lookup as it was, also when
  flushes have put new tables in front while the merge ran.
\<close>

definition placed_of :: "db \<Rightarrow> placed list" where
  "placed_of s = map (\<lambda>t. (the (db_level s (sst_obj t)), t)) (db_ssts s)"

definition linv :: "db \<Rightarrow> bool" where
  "linv s \<longleftrightarrow> (\<forall>t\<in>set (db_ssts s). db_level s (sst_obj t) \<noteq> None \<and> (\<exists>q. sst_path t = sst_name q)) \<and>
     ordered (placed_of s) \<and> (\<forall>x\<in>set (placed_of s). fst x = 0 \<longrightarrow> seq_or_0 (snd x) < db_seq s) \<and>
     (db_has_flushing s \<longrightarrow> db_fseq s < db_seq s \<and>
        (\<forall>x\<in>set (placed_of s). fst x = 0 \<longrightarrow> seq_or_0 (snd x) < db_fseq s))"

lemma levels_of_map:
  "(\<forall>t\<in>set ts. lv (sst_obj t) \<noteq> None) \<Longrightarrow> levels_of lv ts = Inr (map (\<lambda>t. (the (lv (sst_obj t)), t)) ts)"
  by (induction ts) auto

lemma linv_levels: "linv s \<Longrightarrow> levels_of (db_level s) (db_ssts s) = Inr (placed_of s)"
  by (simp add: linv_def placed_of_def levels_of_map)

lemma snd_placed [simp]: "map snd (placed_of s) = db_ssts s"
  by (simp add: placed_of_def comp_def)

lemma placed_in: "x \<in> set (placed_of s) \<longleftrightarrow> snd x \<in> set (db_ssts s) \<and> fst x = the (db_level s (sst_obj (snd x)))"
  by (cases x) (auto simp: placed_of_def)

lemma at_level_placed: "map (Pair l) (at_level l ps) = filter (\<lambda>(m, _). m = l) ps"
  by (induction ps) (auto simp: at_level_def)

lemma at_level_in: "t \<in> set (at_level l ps) \<longleftrightarrow> (l, t) \<in> set ps"
  by (force simp: at_level_def)

subsection \<open>Choosing the inputs\<close>

lemma fold_min_le:
  fixes f :: "'a \<Rightarrow> 'b::linorder"
  shows "fold (\<lambda>t m. min (f t) m) ts a \<le> a \<and> (\<forall>t\<in>set ts. fold (\<lambda>t m. min (f t) m) ts a \<le> f t)"
proof (induction ts arbitrary: a)
  case (Cons t ts)
  from Cons [of "min (f t) a"] show ?case by auto
qed simp

lemma fold_max_ge:
  fixes f :: "'a \<Rightarrow> 'b::linorder"
  shows "a \<le> fold (\<lambda>t m. max (f t) m) ts a \<and> (\<forall>t\<in>set ts. f t \<le> fold (\<lambda>t m. max (f t) m) ts a)"
proof (induction ts arbitrary: a)
  case (Cons t ts)
  from Cons [of "max (f t) a"] show ?case by auto
qed simp

lemma key_lo_min: "key_lo ts lo = fold (\<lambda>t m. min (sst_min_key t) m) ts lo"
  unfolding key_lo_def by (rule fold_cong) (auto simp: min_def fun_eq_iff)

lemma key_hi_max: "key_hi ts hi = fold (\<lambda>t m. max (sst_max_key t) m) ts hi"
  unfolding key_hi_def by (rule fold_cong) (auto simp: max_def fun_eq_iff)

lemma key_range:
  "t \<in> set ts \<Longrightarrow> key_lo ts lo \<le> sst_min_key t" "t \<in> set ts \<Longrightarrow> sst_max_key t \<le> key_hi ts hi"
  using fold_min_le [of sst_min_key ts lo] fold_max_ge [of hi sst_max_key ts] by (simp_all add: key_lo_min key_hi_max)

lemma max_level_ge: "x \<in> set ps \<Longrightarrow> fst x \<le> max_level_of ps"
proof -
  assume "x \<in> set ps"
  moreover have "max_level_of ps = fold (\<lambda>x m. max (fst x) m) ps 0"
    unfolding max_level_of_def by (rule fold_cong) (auto simp: max.commute split: prod.split)
  ultimately show ?thesis using fold_max_ge [of 0 fst ps] by simp
qed

lemma min_table_in: "min_table ts = Some t \<Longrightarrow> t \<in> set ts"
  by (induction ts arbitrary: t) (auto split: option.splits if_splits)

lemma min_table_total: "\<exists>u. min_table (t # ts) = Some u"
  by (simp split: option.split)

lemma int_of_size_small: "n < 2 ^ 31 \<Longrightarrow> int_of_size n = int n"
  by (simp add: int_of_size_def sint_uint uint_nat unat_of_nat signed_take_bit_int_eq_self)

text \<open>A running merge: what its inputs are, also after more tables have come in front.\<close>

definition ljob_ok :: "level_job \<Rightarrow> placed list \<Rightarrow> bool" where
  "ljob_ok j ps \<longleftrightarrow> (\<exists>src lo hi srcs dsts. lj_dest j = src + 1 \<and> lj_inputs j = srcs @ dsts \<and>
     level_merge src lo hi (lj_drop j) (set ps) (Pair src ` set srcs) (Pair (src + 1) ` set dsts) \<and>
     ordered (map (Pair src) srcs @ map (Pair (src + 1)) dsts))"

lemma ordered_append: "ordered (xs @ ys) \<longleftrightarrow> ordered xs \<and> ordered ys \<and> (\<forall>x\<in>set xs. \<forall>y\<in>set ys. before x y)"
  by (auto simp: ordered_def sorted_wrt_append)

lemma at_level_filter: "map (Pair l) (filter Q (at_level l ps)) = filter (\<lambda>x. fst x = l \<and> Q (snd x)) ps"
  by (induction ps) (auto simp: at_level_def)

lemma source_tables_level:
  assumes "find_source_level s ps = Some src"
  shows "0 \<le> src" and "set (source_tables src ps) \<subseteq> set (at_level src ps)"
    and "ordered ps \<Longrightarrow> ordered (map (Pair src) (source_tables src ps))"
proof -
  have "src = 0 \<or> src \<in> set [1..max_level_of ps]"
    using assms by (auto simp: find_source_level_def find_Some_iff split: if_splits)
  then show "0 \<le> src" by auto
  show sub: "set (source_tables src ps) \<subseteq> set (at_level src ps)"
    using min_table_in by (auto simp: source_tables_def split: option.splits)
  show "ordered (map (Pair src) (source_tables src ps))" if ps: "ordered ps"
  proof (cases "src = 0")
    case True
    then show ?thesis using at_level_filter [of 0 "\<lambda>_. True" ps] ps by (simp add: source_tables_def ordered_filter)
  next
    case False
    then have "source_tables src ps = [] \<or> (\<exists>t. source_tables src ps = [t])"
      by (simp add: source_tables_def split: option.split)
    then show ?thesis using sub ps by (auto simp: at_level_in ordered_def)
  qed
qed

text \<open>
  With a merge width of at least one and counts that fit an \<open>int\<close>, the chosen level has a table.
\<close>

lemma source_tables_nonempty:
  assumes "find_source_level s ps = Some src" and "0 < db_min_merge s" "db_min_merge s < 2 ^ 31" "length ps < 2 ^ 31"
  shows "source_tables src ps \<noteq> []"
proof -
  have "length (at_level 0 ps) \<le> length ps" by (simp add: at_level_def)
  then have sz: "int_of_size (length (at_level 0 ps)) = int (length (at_level 0 ps))"
    "int_of_size (db_min_merge s) = int (db_min_merge s)"
    using assms(3,4) by (simp_all add: int_of_size_small)
  show ?thesis
  proof (cases "int_of_size (length (at_level 0 ps)) \<ge> int_of_size (db_min_merge s)")
    case True
    then have "src = 0" "0 < length (at_level 0 ps)" using assms(1,2) sz by (auto simp: find_source_level_def)
    then show ?thesis by (simp add: source_tables_def)
  next
    case False
    then have "src \<noteq> 0" "total_bytes (at_level src ps) > level_budget s src"
      using assms(1) by (auto simp: find_source_level_def find_Some_iff)
    moreover from this have "at_level src ps \<noteq> []" by (intro notI) (simp add: total_bytes_def)
    ultimately show ?thesis
      by (cases "at_level src ps") (auto simp: source_tables_def split: option.splits)
  qed
qed

definition dest_tables :: "bytes \<Rightarrow> bytes \<Rightarrow> int \<Rightarrow> placed list \<Rightarrow> sstable list" where
  "dest_tables lo hi l ps = filter (\<lambda>t. \<not> (sst_max_key t < lo \<or> sst_min_key t > hi)) (at_level l ps)"

lemma chosen_ljob_ok:
  assumes src: "find_source_level s ps = Some src" and ps: "ordered ps" and st: "st = source_tables src ps"
    and lo: "lo = key_lo st (sst_min_key (hd st))" and hi: "hi = key_hi st (sst_max_key (hd st))"
  shows "ljob_ok \<lparr>lj_inputs = st @ dest_tables lo hi (src + 1) ps, lj_dest = src + 1,
    lj_drop = (src + 1 \<ge> max_level_of ps)\<rparr> ps"
proof -
  note f = source_tables_level [OF src, folded st]
  let ?D = "dest_tables lo hi (src + 1) ps"
  have od: "ordered (map (Pair (src + 1)) ?D)" by (simp add: dest_tables_def at_level_filter ordered_filter [OF ps])
  have "ordered (map (Pair src) st @ map (Pair (src + 1)) ?D)"
    using f(3) [OF ps] od by (auto simp: ordered_append before_def)
  moreover have "level_merge src lo hi (src + 1 \<ge> max_level_of ps) (set ps) (Pair src ` set st) (Pair (src + 1) ` set ?D)"
  proof -
    have "(0, t) \<in> Pair src ` set st" if "src = 0" "(0, t) \<in> set ps" for t
      using that by (simp add: st source_tables_def at_level_in)
    moreover have "t \<in> set ?D \<or> sst_max_key t < lo \<or> hi < sst_min_key t" if "(src + 1, t) \<in> set ps" for t
      using that by (auto simp: dest_tables_def at_level_in)
    moreover have "lo \<le> sst_max_key t \<and> sst_min_key t \<le> hi \<and> (src + 1, t) \<in> set ps" if "t \<in> set ?D" for t
      using that by (auto simp: dest_tables_def at_level_in not_less)
    moreover have "(src, t) \<in> set ps" "lo \<le> sst_min_key t" "sst_max_key t \<le> hi" if "t \<in> set st" for t
      using that f(2) key_range [of t st] by (auto simp: at_level_in lo hi)
    ultimately show ?thesis
      using f(1) max_level_ge [of _ ps] unfolding level_merge_def by (fastforce intro: order_trans)
  qed
  ultimately show ?thesis unfolding ljob_ok_def by fastforce
qed

lemma leveled_begin_job:
  assumes inv: "linv s" and run: "leveled_begin s = (Inr (Some j), s')"
  shows "s' = s\<lparr>db_compacting := True\<rparr>" and "ljob_ok j (placed_of s)"
proof -
  obtain src where src: "find_source_level s (placed_of s) = Some src"
    using run linv_levels [OF inv] by (auto simp: leveled_begin_def split: sum.splits if_splits option.splits)
  have ps: "ordered (placed_of s)" using inv by (simp add: linv_def)
  show "s' = s\<lparr>db_compacting := True\<rparr>" "ljob_ok j (placed_of s)"
    using run linv_levels [OF inv] src chosen_ljob_ok [OF src ps refl refl refl]
    by (auto simp: leveled_begin_def Let_def dest_tables_def split: sum.splits if_splits)
qed

lemma leveled_begin_ok:
  assumes inv: "linv s" and small: "0 < db_min_merge s" "db_min_merge s < 2 ^ 31" "length (db_ssts s) < 2 ^ 31"
  obtains "leveled_begin s = (Inr None, s)"
    | j where "leveled_begin s = (Inr (Some j), s\<lparr>db_compacting := True\<rparr>)" and "ljob_ok j (placed_of s)"
proof -
  have len: "length (placed_of s) < 2 ^ 31" using small(3) by (simp add: placed_of_def)
  have "leveled_begin s = (Inr None, s) \<or> (\<exists>j s'. leveled_begin s = (Inr (Some j), s'))"
    using linv_levels [OF inv] source_tables_nonempty [OF _ small(1,2) len]
    by (simp add: leveled_begin_def leveled_pending_locked_def Let_def split: option.split)
  then show thesis using that leveled_begin_job [OF inv] by metis
qed

subsection \<open>Splitting and building the files\<close>

lemma split_groups_concat: "concat (split_groups target rs cur n gs) = concat gs @ cur @ rs"
  by (induction target rs cur n gs rule: split_groups.induct) (auto simp: Let_def)

lemma split_groups_nonempty: "[] \<notin> set gs \<Longrightarrow> [] \<notin> set (split_groups target rs cur n gs)"
  by (induction target rs cur n gs rule: split_groups.induct) (auto simp: Let_def)

definition lj_merged :: "level_job \<Rightarrow> kv_record list" where
  "lj_merged j = merged \<lparr>mj_inputs = lj_inputs j, mj_drop = lj_drop j, mj_seq = 0\<rparr>"

definition lj_groups :: "u64 \<Rightarrow> level_job \<Rightarrow> kv_record list list" where
  "lj_groups target j = split_groups target (lj_merged j) [] 0 []"

lemma lj_groups_facts:
  shows "concat (lj_groups target j) = lj_merged j" and "[] \<notin> set (lj_groups target j)"
  by (simp_all add: lj_groups_def split_groups_concat split_groups_nonempty)

text \<open>The sizes of the output files stay within the fields of the format.\<close>

definition leveled_fits :: "(real \<Rightarrow> real) \<Rightarrow> level_job \<Rightarrow> db \<Rightarrow> bool" where
  "leveled_fits lg j s \<longleftrightarrow>
     (case merge_records no_faults (lj_inputs j) (lj_drop j) of
        Inl _ \<Rightarrow> True
      | Inr rs \<Rightarrow>
          (let gs = split_groups (db_target_bytes s) rs [] 0 [] in
           list_all (sst_fits lg) gs \<and> unat (db_seq s) + length gs < 2 ^ 64))"

definition file_of :: "u64 \<times> kv_record list \<Rightarrow> sstable \<Rightarrow> bool" where
  "file_of job t \<longleftrightarrow> sst_inv t \<and> \<not> sst_obsolete t \<and> sst_path t = sst_name (fst job) \<and> sst_records t = snd job"

lemma build_group_ok:
  assumes vs: "vs_inv (db_vlogs s) (db_disk s)" and b: "buildable lg g"
  obtains n d' t where "build_group no_faults lg (q, g) (total1, outs) s
      = (Inr (total1 + n, outs @ [t]), s\<lparr>db_disk := d', db_next_obj := Suc (db_next_obj s)\<rparr>)"
    and "file_of (q, g) t" and "sst_obj t = db_next_obj s" and "calm (db_vlogs s) (db_disk s) d'"
    and "d_ino d' wal_name = d_ino (db_disk s) wal_name"
proof -
  obtain file1 d' where br: "build_rename no_faults lg ''leveled rename'' q g s = (Inr (of_nat (length file1)), s\<lparr>db_disk := d'\<rparr>)"
    "build_file lg g = Inr file1" "d_read d' (sst_name q) = Some file1"
    "calm (db_vlogs s) (db_disk s) d'" "d_ino d' wal_name = d_ino (db_disk s) wal_name"
    by (rule build_rename_ok [OF vs b])
  have rd: "d_read (db_disk (s\<lparr>db_disk := d'\<rparr>)) (sst_name q) = Some file1" using br(3) by simp
  obtain t where t: "make_sst no_faults (sst_name q) (s\<lparr>db_disk := d'\<rparr>)
      = (Inr t, (s\<lparr>db_disk := d'\<rparr>)\<lparr>db_next_obj := Suc (db_next_obj (s\<lparr>db_disk := d'\<rparr>))\<rparr>)"
    "sst_inv t" "sst_records t = g" "sst_obj t = db_next_obj (s\<lparr>db_disk := d'\<rparr>)"
    "sst_path t = sst_name q" "\<not> sst_obsolete t"
    by (rule make_sst_ok [OF b br(2) rd])
  show thesis
    by (rule that [of "of_nat (length file1)" t d'])
       (use br(1,4,5) t in \<open>simp_all add: build_group_def sbind_def file_of_def\<close>)
qed

lemma build_groups_ok:
  assumes vs: "vs_inv (db_vlogs s) (db_disk s)" and b: "\<forall>(q, g)\<in>set jobs. buildable lg g"
  shows "\<exists>n news d'. sfold (build_group no_faults lg) jobs (total1, outs) s
      = (Inr (n, outs @ news), s\<lparr>db_disk := d', db_next_obj := db_next_obj s + length jobs\<rparr>) \<and>
    list_all2 file_of jobs news \<and> map sst_obj news = [db_next_obj s..<db_next_obj s + length jobs] \<and>
    calm (db_vlogs s) (db_disk s) d' \<and> d_ino d' wal_name = d_ino (db_disk s) wal_name"
  using assms
proof (induction jobs arbitrary: s total1 outs)
  case Nil
  then show ?case using calm_refl by (intro exI [of _ total1] exI [of _ "[]"] exI [of _ "db_disk s"]) simp
next
  case (Cons job jobs)
  obtain q g where job: "job = (q, g)" by (cases job)
  have "buildable lg g" using Cons.prems(2) job by simp
  then obtain n d1 t where t: "build_group no_faults lg (q, g) (total1, outs) s
      = (Inr (total1 + n, outs @ [t]), s\<lparr>db_disk := d1, db_next_obj := Suc (db_next_obj s)\<rparr>)"
    "file_of (q, g) t" "sst_obj t = db_next_obj s" "calm (db_vlogs s) (db_disk s) d1"
    "d_ino d1 wal_name = d_ino (db_disk s) wal_name"
    by (rule build_group_ok [OF Cons.prems(1)])
  let ?s1 = "s\<lparr>db_disk := d1, db_next_obj := Suc (db_next_obj s)\<rparr>"
  have vs1: "vs_inv (db_vlogs ?s1) (db_disk ?s1)" using calm_vs_inv [OF Cons.prems(1) t(4)] by simp
  have b1: "\<forall>(q, g)\<in>set jobs. buildable lg g" using Cons.prems(2) by simp
  obtain m news d' where rest: "sfold (build_group no_faults lg) jobs (total1 + n, outs @ [t]) ?s1
      = (Inr (m, (outs @ [t]) @ news), ?s1\<lparr>db_disk := d', db_next_obj := db_next_obj ?s1 + length jobs\<rparr>)"
    "list_all2 file_of jobs news" "map sst_obj news = [db_next_obj ?s1..<db_next_obj ?s1 + length jobs]"
    "calm (db_vlogs ?s1) (db_disk ?s1) d'" "d_ino d' wal_name = d_ino (db_disk ?s1) wal_name"
    using Cons.IH [OF vs1 b1] by blast
  have "[db_next_obj s..<db_next_obj s + length (job # jobs)] = db_next_obj s # map sst_obj news"
    using rest(3) by (simp add: upt_conv_Cons del: upt_Suc)
  then show ?case
    using t rest calm_trans [of "db_vlogs s" "db_disk s" d1 d'] job
    by (intro exI [of _ m] exI [of _ "t # news"] exI [of _ d']) (simp add: sbind_def)
qed

text \<open>Finished files that nothing refers to yet, cut out of the merged run.\<close>

definition loutput_ok :: "level_job \<Rightarrow> sstable list \<Rightarrow> db \<Rightarrow> bool" where
  "loutput_ok j outs s \<longleftrightarrow> concat (map sst_records outs) = lj_merged j \<and> distinct (map sst_obj outs) \<and>
     (\<forall>t\<in>set outs. sst_inv t \<and> \<not> sst_obsolete t \<and> (\<exists>q. sst_path t = sst_name q) \<and> sst_records t \<noteq> [] \<and>
        sst_obj t < db_next_obj s \<and> sst_obj t \<notin> sst_obj ` set (db_ssts s))"

lemma list_all2_file_of:
  assumes "list_all2 file_of (zip qs gs) outs" and "length qs = length gs"
  shows "map sst_records outs = gs" and "t \<in> set outs \<Longrightarrow> sst_inv t \<and> \<not> sst_obsolete t \<and> (\<exists>q. sst_path t = sst_name q)"
proof -
  have "list_all2 (\<lambda>job t. sst_records t = snd job) (zip qs gs) outs"
    using assms(1) by (rule list_all2_mono) (simp add: file_of_def)
  then have "map sst_records outs = map snd (zip qs gs)" by (induction rule: list_all2_induct) simp_all
  then show "map sst_records outs = gs" using assms(2) by simp
  show "sst_inv t \<and> \<not> sst_obsolete t \<and> (\<exists>q. sst_path t = sst_name q)" if t: "t \<in> set outs"
  proof -
    obtain job where "file_of job t" using assms(1) t by (metis in_set_conv_nth list_all2_conv_all_nth)
    then show ?thesis by (auto simp: file_of_def)
  qed
qed

lemma group_buildable:
  assumes ins: "\<forall>t\<in>set (lj_inputs j). sst_inv t" and fit: "list_all (sst_fits lg) (lj_groups target j)" and g: "g \<in> set (lj_groups target j)"
  shows "buildable lg g" and "set g \<subseteq> set (lj_merged j)"
proof -
  obtain xs ys where "lj_groups target j = xs @ g # ys" using split_list [OF g] by blast
  then have cat: "lj_merged j = concat xs @ g @ concat ys" using lj_groups_facts(1) [of target j] by simp
  moreover have "list_all sst_rec_ok (lj_merged j)" using ins unfolding lj_merged_def by (intro merged_ok) simp
  ultimately show "buildable lg g"
    using merged_sorted [of "\<lparr>mj_inputs = lj_inputs j, mj_drop = lj_drop j, mj_seq = 0\<rparr>"] fit g
    by (auto simp: buildable_def ssorted_append list_all_iff lj_merged_def)
  show "set g \<subseteq> set (lj_merged j)" unfolding cat by auto
qed

lemma leveled_work_ok:
  assumes vs: "vs_inv (db_vlogs s) (db_disk s)" and ins: "\<forall>t\<in>set (lj_inputs j). sst_inv t"
    and fits: "leveled_fits lg j s" and obj: "\<forall>t\<in>set (db_ssts s). sst_obj t < db_next_obj s"
  obtains n outs d' s' where "leveled_work no_faults lg j s = (Inr (n, outs), s')"
    and "s' = s\<lparr>db_seq := db_seq s + of_nat (length outs), db_disk := d', db_next_obj := db_next_obj s + length outs\<rparr>"
    and "unat (db_seq s) + length outs < 2 ^ 64"
    and "loutput_ok j outs s'" and "calm (db_vlogs s) (db_disk s) d'" and "d_ino d' wal_name = d_ino (db_disk s) wal_name"
    and "\<forall>t\<in>set outs. db_next_obj s \<le> sst_obj t"
proof -
  let ?gs = "lj_groups (db_target_bytes s) j"
  have m: "merge_records no_faults (lj_inputs j) (lj_drop j) = Inr (lj_merged j)"
    using merge_records_spec [OF ins] by (simp add: lj_merged_def merged_def)
  have cat: "concat ?gs = lj_merged j" by (rule lj_groups_facts)
  have fit: "list_all (sst_fits lg) ?gs" "unat (db_seq s) + length ?gs < 2 ^ 64"
    using fits m by (simp_all add: leveled_fits_def lj_groups_def Let_def)
  note b = group_buildable(1) [OF ins fit(1)]
  let ?qs = "map (\<lambda>i. db_seq s + of_nat i) [0..<length ?gs]"
  let ?s1 = "s\<lparr>db_seq := db_seq s + of_nat (length ?gs)\<rparr>"
  have vs1: "vs_inv (db_vlogs ?s1) (db_disk ?s1)" using vs by simp
  have b1: "\<forall>(q, g)\<in>set (zip ?qs ?gs). buildable lg g" using b by (auto dest: set_zip_rightD)
  obtain n outs d' where r: "sfold (build_group no_faults lg) (zip ?qs ?gs) (0, []) ?s1
      = (Inr (n, [] @ outs), ?s1\<lparr>db_disk := d', db_next_obj := db_next_obj ?s1 + length (zip ?qs ?gs)\<rparr>)"
    "list_all2 file_of (zip ?qs ?gs) outs" "map sst_obj outs = [db_next_obj ?s1..<db_next_obj ?s1 + length (zip ?qs ?gs)]"
    "calm (db_vlogs ?s1) (db_disk ?s1) d'" "d_ino d' wal_name = d_ino (db_disk ?s1) wal_name"
    using build_groups_ok [OF vs1 b1, of 0 "[]"] by blast
  have recs: "map sst_records outs = ?gs" by (rule list_all2_file_of(1) [OF r(2)]) simp
  then have len: "length outs = length ?gs" using map_eq_imp_length_eq [of sst_records outs id ?gs] by simp
  let ?s' = "s\<lparr>db_seq := db_seq s + of_nat (length outs), db_disk := d', db_next_obj := db_next_obj s + length outs\<rparr>"
  have run: "leveled_work no_faults lg j s = (Inr (n, outs), ?s')"
    using r(1) m len by (simp add: leveled_work_def sbind_def reserve_seqs_def on_disk_def fsync_dir_ok lj_groups_def)
  have obs: "sst_obj ` set outs = {db_next_obj s..<db_next_obj s + length outs}" "distinct (map sst_obj outs)"
    using r(3) len by (simp_all flip: set_map)
  have "sst_records t \<noteq> []" if "t \<in> set outs" for t
    using that recs lj_groups_facts(2) [of "db_target_bytes s" j] by (metis image_eqI set_map)
  moreover have "sst_obj t < db_next_obj s + length outs \<and> sst_obj t \<notin> sst_obj ` set (db_ssts s)" if "t \<in> set outs" for t
  proof -
    have "sst_obj t \<in> {db_next_obj s..<db_next_obj s + length outs}" using that obs(1) by blast
    then show ?thesis using obj by auto
  qed
  ultimately have out: "loutput_ok j outs ?s'"
    using list_all2_file_of(2) [OF r(2)] recs cat obs(2) by (simp add: loutput_ok_def)
  have "unat (db_seq s) + length outs < 2 ^ 64" using fit(2) len by simp
  moreover have "\<forall>t\<in>set outs. db_next_obj s \<le> sst_obj t"
  proof
    fix t assume "t \<in> set outs"
    then have "sst_obj t \<in> {db_next_obj s..<db_next_obj s + length outs}" using obs(1) by blast
    then show "db_next_obj s \<le> sst_obj t" by simp
  qed
  ultimately show thesis by (intro that [OF run refl _ out]) (use r(4,5) in simp_all)
qed

subsection \<open>Installing the files\<close>

lemma erase_levels_eq: "erase_levels ts lv i = (if i \<in> sst_obj ` set ts then None else lv i)"
  unfolding erase_levels_def by (induction ts arbitrary: lv) auto

lemma add_levels_eq: "add_levels l ts lv i = (if i \<in> sst_obj ` set ts then Some l else lv i)"
  unfolding add_levels_def by (induction ts arbitrary: lv) auto

lemma seqs_of_named: "\<forall>t\<in>set ts. \<exists>q. sst_path t = sst_name q \<Longrightarrow> \<exists>ns. seqs_of ts = Inr ns"
  by (induction ts) (auto simp: seq_of_path_def parse_seq_sst_name)

lemma stable_sort_short: "length xs \<le> 1 \<Longrightarrow> stable_sort lt xs = xs"
  by (cases xs) (auto simp: stable_sort_def)

lemma reorder_ok:
  assumes "\<forall>t\<in>set (db_ssts s). db_level s (sst_obj t) \<noteq> None \<and> (\<exists>q. sst_path t = sst_name q)"
  shows "reorder_sstables_locked s = (Inr (), s\<lparr>db_ssts := map snd (stable_sort level_less (placed_of s))\<rparr>)"
proof (cases "length (db_ssts s) \<le> 1")
  case True
  then have "stable_sort level_less (placed_of s) = placed_of s"
    by (intro stable_sort_short) (simp add: placed_of_def)
  then show ?thesis using True by (simp add: reorder_sstables_locked_def)
next
  case False
  have lv: "levels_of (db_level s) (db_ssts s) = Inr (placed_of s)"
    using assms by (simp add: placed_of_def levels_of_map)
  have "\<exists>ns. seqs_of (at_level 0 (placed_of s)) = Inr ns"
    by (rule seqs_of_named) (use assms in \<open>auto simp: at_level_in placed_in\<close>)
  then show ?thesis using False lv by (auto simp: reorder_sstables_locked_def)
qed

lemma placed_resort:
  assumes "db_ssts s' = map snd qs" and "db_level s' = db_level s" and "set qs \<subseteq> set (placed_of s)"
  shows "placed_of s' = qs"
  unfolding placed_of_def assms(1,2) using assms(3) by (auto simp: placed_in intro!: map_idI)

lemma placed_unique: "x \<in> set (placed_of s) \<Longrightarrow> y \<in> set (placed_of s) \<Longrightarrow> snd x = snd y \<Longrightarrow> x = y"
  by (simp add: placed_in prod_eq_iff)

text \<open>The files of one merge are in key order.\<close>

lemma outputs_ordered:
  assumes "ssorted (map rec_key (concat (map sst_records outs)))" and "\<forall>t\<in>set outs. sst_inv t \<and> sst_records t \<noteq> []" and "0 < l"
  shows "ordered (map (Pair l) outs)"
  using assms(1,2)
proof (induction outs)
  case Nil
  then show ?case by (simp add: ordered_def)
next
  case (Cons t ts)
  have "sst_max_key t < sst_min_key u" if u: "u \<in> set ts" for u
  proof -
    have e: "sst_max_key t = rec_key (last (sst_records t))" "sst_min_key u = rec_key (hd (sst_records u))"
      and ne: "sst_records t \<noteq> []" "sst_records u \<noteq> []"
      using Cons.prems(2) u by (auto simp: sst_inv_def)
    have "last (sst_records t) \<in> set (sst_records t)" "hd (sst_records u) \<in> set (concat (map sst_records ts))"
      using hd_in_set [OF ne(2)] last_in_set [OF ne(1)] u by auto
    then show ?thesis using Cons.prems(1) unfolding e by (auto simp: ssorted_append)
  qed
  then show ?case using Cons assms(3) by (auto simp: ordered_Cons before_def placed_ok_def ssorted_append)
qed

lemma ljob_inputs:
  assumes "ljob_ok j (placed_of s)"
  shows "set (lj_inputs j) \<subseteq> set (db_ssts s)"
proof -
  obtain src lo hi srcs dsts where j: "lj_inputs j = srcs @ dsts"
    and lm: "level_merge src lo hi (lj_drop j) (set (placed_of s)) (Pair src ` set srcs) (Pair (src + 1) ` set dsts)"
    using assms unfolding ljob_ok_def by metis
  have "Pair src ` set srcs \<subseteq> set (placed_of s)" "Pair (src + 1) ` set dsts \<subseteq> set (placed_of s)"
    using lm by (simp_all add: level_merge_def)
  then have "t \<in> set (db_ssts s)" if "t \<in> set (lj_inputs j)" for t
    using that j by (auto simp: image_subset_iff placed_in)
  then show ?thesis by (rule subsetI)
qed

text \<open>The placed tables after the exchange, before they are sorted.\<close>

lemma placed_exchange:
  assumes ok: "ssts_ok s" and out: "loutput_ok j outs s" and ins: "set (lj_inputs j) \<subseteq> set (db_ssts s)"
    and s1: "s1 = s\<lparr>db_ssts := filter (\<lambda>t. sst_obj t \<notin> sst_obj ` set (lj_inputs j)) (db_ssts s) @ outs,
      db_level := add_levels (lj_dest j) outs (erase_levels (lj_inputs j) (db_level s))\<rparr>"
  shows "placed_of s1 = filter (\<lambda>x. snd x \<notin> set (lj_inputs j)) (placed_of s) @ map (Pair (lj_dest j)) outs"
proof -
  have inj: "inj_on sst_obj (set (db_ssts s))" using ok by (simp add: ssts_ok_def distinct_map)
  then have same: "sst_obj t \<in> sst_obj ` set (lj_inputs j) \<longleftrightarrow> t \<in> set (lj_inputs j)" if "t \<in> set (db_ssts s)" for t
    using that ins by (simp add: inj_on_image_mem_iff)
  have "filter (\<lambda>t. sst_obj t \<notin> sst_obj ` set (lj_inputs j)) (db_ssts s) = filter (\<lambda>t. t \<notin> set (lj_inputs j)) (db_ssts s)"
    using same by (auto intro: filter_cong)
  moreover have "map (\<lambda>t. (the (db_level s1 (sst_obj t)), t)) (filter (\<lambda>t. t \<notin> set (lj_inputs j)) (db_ssts s))
      = map (\<lambda>t. (the (db_level s (sst_obj t)), t)) (filter (\<lambda>t. t \<notin> set (lj_inputs j)) (db_ssts s))"
  proof (rule map_cong [OF refl])
    fix t assume "t \<in> set (filter (\<lambda>t. t \<notin> set (lj_inputs j)) (db_ssts s))"
    then have t: "t \<in> set (db_ssts s)" "t \<notin> set (lj_inputs j)" by simp_all
    have "\<forall>u\<in>set outs. sst_obj u \<notin> sst_obj ` set (db_ssts s)" using out by (simp add: loutput_ok_def)
    then have "sst_obj t \<notin> sst_obj ` set (lj_inputs j)" "sst_obj t \<notin> sst_obj ` set outs"
      using same [OF t(1)] t by (simp, metis image_iff)
    then show "(the (db_level s1 (sst_obj t)), t) = (the (db_level s (sst_obj t)), t)"
      by (simp add: s1 add_levels_eq erase_levels_eq)
  qed
  moreover have "map (\<lambda>t. (the (db_level s1 (sst_obj t)), t)) outs = map (Pair (lj_dest j)) outs"
    by (simp add: s1 add_levels_eq)
  ultimately show ?thesis by (simp add: placed_of_def s1 filter_map comp_def)
qed

lemma loutput_apart: "loutput_ok j outs s \<Longrightarrow> t \<in> set (db_ssts s) \<Longrightarrow> sst_obj t \<notin> sst_obj ` set outs"
  unfolding loutput_ok_def by (metis image_iff)

lemma exchange_levels:
  assumes "\<forall>t\<in>set (db_ssts s). db_level s (sst_obj t) \<noteq> None \<and> (\<exists>q. sst_path t = sst_name q)"
    and "loutput_ok j outs s"
    and "s1 = s\<lparr>db_ssts := filter (\<lambda>t. sst_obj t \<notin> sst_obj ` set (lj_inputs j)) (db_ssts s) @ outs,
      db_level := add_levels (lj_dest j) outs (erase_levels (lj_inputs j) (db_level s))\<rparr>"
  shows "\<forall>t\<in>set (db_ssts s1). db_level s1 (sst_obj t) \<noteq> None \<and> (\<exists>q. sst_path t = sst_name q)"
  using assms by (auto simp: add_levels_eq erase_levels_eq loutput_ok_def)

text \<open>Sorting by level puts the remaining tables and the new files in the order that lookups rely on.\<close>

lemma exchange_ordered:
  assumes lm: "level_merge src lo hi dead (set ps) S D" and ps: "ordered ps"
    and out: "ordered (map (Pair (src + 1)) outs)"
    and cover: "\<forall>t\<in>set outs. \<forall>r\<in>set (sst_records t). \<exists>x\<in>S \<union> D. r \<in> set (sst_records (snd x))"
    and qs: "set qs = (set ps - (S \<union> D)) \<union> Pair (src + 1) ` set outs" "distinct qs"
  shows "ordered (stable_sort level_less qs)"
proof (rule ordered_stable_sort [OF _ qs(2)])
  have ok: "\<forall>x\<in>set ps. placed_ok x" and oko: "\<forall>t\<in>set outs. placed_ok (src + 1, t)"
    using ps out by (auto simp: ordered_def)
  then show "\<forall>x\<in>set qs. placed_ok x" using qs(1) by auto
  have src: "0 \<le> src" and sub: "S \<union> D \<subseteq> set ps" using lm by (auto simp: level_merge_def)
  have side: "before y (src + 1, t) \<or> before (src + 1, t) y" if y: "y \<in> set ps - (S \<union> D)" and t: "t \<in> set outs" for y t
  proof (cases "fst y = src + 1")
    case True
    have ot: "sst_inv t" "sst_records t \<noteq> []" using oko t src by (auto simp: placed_ok_def)
    let ?f = "hd (sst_records t)" and ?l = "last (sst_records t)"
    have keys: "sst_min_key t = rec_key ?f" "sst_max_key t = rec_key ?l" using ot by (simp_all add: sst_inv_def)
    obtain x z where x: "x \<in> S \<union> D" "?f \<in> set (sst_records (snd x))" and z: "z \<in> S \<union> D" "?l \<in> set (sst_records (snd z))"
      using cover t ot(2) by (metis hd_in_set last_in_set)
    have "sst_min_key (snd x) \<le> sst_min_key t" "sst_max_key t \<le> sst_max_key (snd z)"
      using record_in_range [of "snd x" ?f] record_in_range [of "snd z" ?l] x z ok sub
      by (auto simp: keys placed_ok_def)
    moreover have "sst_max_key (snd y) < sst_min_key (snd x) \<or> sst_max_key (snd z) < sst_min_key (snd y)"
      using level_merge_side [OF lm ok ordered_comparable [OF ps] y True] x(1) z(1) by blast
    ultimately have "sst_max_key (snd y) < sst_min_key t \<or> sst_max_key t < sst_min_key (snd y)"
      by (meson order_le_less_trans order_less_le_trans)
    then show ?thesis using True src by (auto simp: before_def)
  qed (auto simp: before_def)
  have cp: "comparable (set ps)" and co: "comparable (Pair (src + 1) ` set outs)"
    using ordered_comparable [OF ps] ordered_comparable [OF out] by simp_all
  have "x = y \<or> before x y \<or> before y x" if xy: "x \<in> set qs" "y \<in> set qs" for x y
  proof -
    consider "x \<in> set ps" "y \<in> set ps" | "x \<in> Pair (src + 1) ` set outs" "y \<in> Pair (src + 1) ` set outs"
      | "x \<in> set ps - (S \<union> D)" "y \<in> Pair (src + 1) ` set outs" | "y \<in> set ps - (S \<union> D)" "x \<in> Pair (src + 1) ` set outs"
      using xy unfolding qs(1) by blast
    then show ?thesis
    proof cases
      case 3
      then show ?thesis using side [OF 3(1)] by blast
    next
      case 4
      then show ?thesis using side [OF 4(1)] by blast
    next
      case 1
      then show ?thesis using cp unfolding comparable_def by blast
    next
      case 2
      then show ?thesis using co unfolding comparable_def by blast
    qed
  qed
  then show "comparable (set qs)" by (auto simp: comparable_def)
qed

text \<open>The new list answers every lookup as the old one did.\<close>

lemma exchange_alike:
  assumes lm: "level_merge src lo hi (lj_drop j) (set ps) (Pair src ` set srcs) (Pair (src + 1) ` set dsts)"
    and ins: "lj_inputs j = srcs @ dsts" "ordered (map (Pair src) srcs @ map (Pair (src + 1)) dsts)"
    and ps: "ordered ps" and qs: "ordered qs"
    and setq: "set qs = (set ps - (Pair src ` set srcs \<union> Pair (src + 1) ` set dsts)) \<union> Pair (src + 1) ` set outs"
    and out: "concat (map sst_records outs) = lj_merged j" "\<forall>t\<in>set outs. sst_inv t"
  shows "ojoin (look vl d (concat (map sst_records (map snd qs))) k) = ojoin (look vl d (concat (map sst_records (map snd ps))) k)"
proof -
  let ?is = "map (Pair src) srcs @ map (Pair (src + 1)) dsts"
  have ans: "answer k ?is = find_rec k (concat (map sst_records (lj_inputs j)))" for k
    by (simp add: answer_def ins(1) comp_def)
  have mf: "find_rec k (lj_merged j) = (case answer k ?is of None \<Rightarrow> None
      | Some r \<Rightarrow> if lj_drop j \<and> rec_op r = Delete then None else Some r)" for k
    by (simp add: lj_merged_def merged_find ans split: option.split)
  have dist: "distinct (map rec_key (concat (map sst_records outs)))"
    unfolding out(1) lj_merged_def by (rule ssorted_distinct [OF merged_sorted])
  have all: "(\<forall>x\<in>Pair (src + 1) ` set outs. hit k x = None) \<longleftrightarrow> find_rec k (lj_merged j) = None" for k
    unfolding out(1) [symmetric] find_rec_None by (auto simp: find_rec_None)
  have one: "hit k x = find_rec k (lj_merged j)" if x: "x \<in> Pair (src + 1) ` set outs" and h: "hit k x \<noteq> None" for k x
  proof -
    obtain r where r: "hit k x = Some r" using h by blast
    then have "r \<in> set (concat (map sst_records outs))" "rec_key r = k" using find_rec_key [OF r] x by auto
    then show ?thesis using find_rec_in [OF dist] r out(1) by metis
  qed
  have "answer k qs = answer k ps \<or> (answer k qs = None \<and> lj_drop j \<and> (\<exists>r. answer k ps = Some r \<and> rec_op r = Delete))"
  proof (rule level_merge_answer [OF lm ps qs _ ins(2) setq])
    show "set ?is = Pair src ` set srcs \<union> Pair (src + 1) ` set dsts" by simp
    show "\<forall>x\<in>Pair (src + 1) ` set outs. fst x = src + 1" by auto
    show "(\<forall>x\<in>Pair (src + 1) ` set outs. hit k x = None) \<longleftrightarrow>
      (case answer k ?is of None \<Rightarrow> True | Some r \<Rightarrow> lj_drop j \<and> rec_op r = Delete)" for k
      unfolding all mf by (simp split: option.split)
    show "hit k x = answer k ?is" if "x \<in> Pair (src + 1) ` set outs" "hit k x \<noteq> None" for k x
      using one [OF that] that(2) mf [of k] by (auto split: option.splits if_splits)
  qed
  then show ?thesis by (auto simp: look_def answer_def rec_ans_def)
qed

lemma tables_fromI:
  assumes "distinct (map sst_obj ts)" and "\<forall>t\<in>set ts. t \<in> set (db_ssts s) \<or> t \<in> set outs" and "loutput_ok j outs s"
    and "\<forall>t\<in>set outs. \<forall>r\<in>set (sst_records t). \<exists>u\<in>set ins. r \<in> set (sst_records u)" and "set ins \<subseteq> set (db_ssts s)"
  shows "tables_from s ts"
proof -
  have "sst_inv t \<and> \<not> sst_obsolete t \<and> sst_path t \<noteq> wal_name \<and> sst_obj t < db_next_obj s" if "t \<in> set outs" for t
    using assms(3) that by (auto simp: loutput_ok_def)
  moreover have "\<exists>u\<in>set (db_ssts s). r \<in> set (sst_records u)" if "t \<in> set outs" "r \<in> set (sst_records t)" for t r
    using assms(4,5) that by blast
  ultimately show ?thesis using assms(1,2) unfolding tables_from_def by metis
qed

lemma exchange_objs:
  assumes ok: "ssts_ok s" and out: "loutput_ok j outs s"
  shows "distinct (map sst_obj (filter P (db_ssts s) @ outs))"
proof -
  have "distinct (map sst_obj (db_ssts s))" "distinct (map sst_obj outs)"
    using ok out by (simp_all add: ssts_ok_def loutput_ok_def)
  moreover have "sst_obj ` set (filter P (db_ssts s)) \<inter> sst_obj ` set outs = {}"
    using loutput_apart [OF out] by (intro equals0I) (metis IntE filter_is_subset imageE subsetD)
  ultimately show ?thesis by (simp add: distinct_map_filter del: set_filter)
qed

text \<open>All there is to know about the list that a merge installs.\<close>

lemma leveled_exchange:
  assumes inv: "db_inv s" and li: "linv s" and job: "ljob_ok j (placed_of s)" and out: "loutput_ok j outs s"
    and s1: "s1 = s\<lparr>db_ssts := filter (\<lambda>t. sst_obj t \<notin> sst_obj ` set (lj_inputs j)) (db_ssts s) @ outs,
      db_level := add_levels (lj_dest j) outs (erase_levels (lj_inputs j) (db_level s))\<rparr>"
    and qs: "qs = stable_sort level_less (placed_of s1)"
  shows "ordered qs" and "set qs = set (placed_of s1)" and "tables_from s (map snd qs)"
    and "\<And>d k. ojoin (look (db_vlogs s) d (concat (map sst_records (map snd qs))) k)
      = ojoin (look (db_vlogs s) d (concat (map sst_records (db_ssts s))) k)"
    and "x \<in> set qs \<Longrightarrow> fst x = 0 \<Longrightarrow> x \<in> set (placed_of s)"
proof -
  obtain src lo hi srcs dsts where j: "lj_dest j = src + 1" "lj_inputs j = srcs @ dsts"
    and lm: "level_merge src lo hi (lj_drop j) (set (placed_of s)) (Pair src ` set srcs) (Pair (src + 1) ` set dsts)"
    and ois: "ordered (map (Pair src) srcs @ map (Pair (src + 1)) dsts)"
    using job unfolding ljob_ok_def by metis
  let ?S = "Pair src ` set srcs" and ?D = "Pair (src + 1) ` set dsts" and ?O = "Pair (src + 1) ` set outs"
  have ok: "ssts_ok s" and ps: "ordered (placed_of s)" using inv li by (simp_all add: db_inv_def linv_def)
  have src: "0 \<le> src" and sub: "?S \<union> ?D \<subseteq> set (placed_of s)" using lm by (auto simp: level_merge_def)
  have ins: "set (lj_inputs j) \<subseteq> set (db_ssts s)" by (rule ljob_inputs [OF job])
  note p1 = placed_exchange [OF ok out ins s1]
  have "x \<in> ?S \<union> ?D" if x: "x \<in> set (placed_of s)" "snd x \<in> set (lj_inputs j)" for x
  proof -
    have "(src, snd x) \<in> ?S \<or> (src + 1, snd x) \<in> ?D" using x(2) j(2) by auto
    then obtain y where "y \<in> ?S \<union> ?D" "snd y = snd x" by (metis UnI1 UnI2 snd_conv)
    moreover from this have "y = x" using placed_unique [OF _ x(1)] sub by blast
    ultimately show ?thesis by simp
  qed
  then have setq: "set (placed_of s1) = (set (placed_of s) - (?S \<union> ?D)) \<union> ?O"
    using p1 j by fastforce
  have outi: "\<forall>t\<in>set outs. sst_inv t \<and> sst_records t \<noteq> []" and cat: "concat (map sst_records outs) = lj_merged j"
    using out by (auto simp: loutput_ok_def)
  have oo: "ordered (map (Pair (src + 1)) outs)"
    by (rule outputs_ordered) (use outi src cat merged_sorted in \<open>simp_all add: lj_merged_def\<close>)
  have objs: "distinct (map sst_obj (db_ssts s1))" using exchange_objs [OF ok out] by (simp add: s1)
  then have inj: "inj_on (sst_obj \<circ> snd) (set (placed_of s1))" "distinct (placed_of s1)"
    unfolding snd_placed [symmetric] map_map distinct_map by blast+
  have cover: "\<forall>t\<in>set outs. \<forall>r\<in>set (sst_records t). \<exists>u\<in>set (lj_inputs j). r \<in> set (sst_records u)"
  proof (intro ballI)
    fix t r assume "t \<in> set outs" "r \<in> set (sst_records t)"
    then have "r \<in> set (lj_merged j)" unfolding cat [symmetric] by auto
    then show "\<exists>u\<in>set (lj_inputs j). r \<in> set (sst_records u)" unfolding lj_merged_def using merged_subset by force
  qed
  show oq: "ordered qs" unfolding qs
    by (rule exchange_ordered [OF lm ps oo _ setq inj(2)]) (use cover j(2) in \<open>simp add: bex_Un\<close>)
  show sq: "set qs = set (placed_of s1)" by (simp add: qs)
  show "ojoin (look (db_vlogs s) d (concat (map sst_records (map snd qs))) k)
      = ojoin (look (db_vlogs s) d (concat (map sst_records (db_ssts s))) k)" for d k
    using exchange_alike [OF lm j(2) ois ps oq _ cat] sq setq outi by simp
  have "distinct (map sst_obj (map snd qs))"
    using ordered_distinct [OF oq] inj(1) by (simp add: distinct_map sq)
  then show "tables_from s (map snd qs)"
    by (rule tables_fromI [OF _ _ out cover ins]) (use sq setq in \<open>auto simp: placed_in\<close>)
  show "x \<in> set (placed_of s)" if "x \<in> set qs" "fst x = 0" using that sq setq src by auto
qed

text \<open>What installing does, step by step.\<close>

lemma leveled_install_run:
  assumes inv: "db_inv s" and li: "linv s" and job: "ljob_ok j (placed_of s)" and out: "loutput_ok j outs s"
    and lv: "lv = add_levels (lj_dest j) outs (erase_levels (lj_inputs j) (db_level s))"
    and s1: "s1 = s\<lparr>db_ssts := filter (\<lambda>t. sst_obj t \<notin> sst_obj ` set (lj_inputs j)) (db_ssts s) @ outs, db_level := lv\<rparr>"
    and qs: "qs = stable_sort level_less (placed_of s1)"
  obtains d' s' st s2 where "leveled_install no_faults j (bytes, outs) s = (Inr (), s')"
    and "s2 = s\<lparr>db_stat := st, db_ssts := map snd qs, db_level := lv\<rparr>"
    and "write_manifest_locked no_faults s2 = (Inr (), s2\<lparr>db_disk := d'\<rparr>)"
    and "s' = (retire (lj_inputs j) (s2\<lparr>db_disk := d'\<rparr>))\<lparr>db_compacting := False\<rparr>"
    and "db_inv s'" and "abs_db s' = abs_db s" and "tables_map s' = tables_map s" and "calm (db_vlogs s) (db_disk s) d'"
    and "\<forall>t\<in>set (db_ssts s1). db_level s1 (sst_obj t) \<noteq> None \<and> (\<exists>q. sst_path t = sst_name q)"
proof -
  note e = leveled_exchange [OF inv li job out s1 [unfolded lv] qs]
  have named: "\<forall>t\<in>set (db_ssts s). db_level s (sst_obj t) \<noteq> None \<and> (\<exists>q. sst_path t = sst_name q)"
    using li by (simp add: linv_def)
  note nm1 = exchange_levels [OF named out s1 [unfolded lv]]
  define st where "st = (db_stat s)\<lparr>st_compaction_bytes := st_compaction_bytes (db_stat s) + bytes,
                         st_compactions := st_compactions (db_stat s) + 1\<rparr>"
  let ?s2 = "s\<lparr>db_stat := st, db_ssts := map snd qs, db_level := lv\<rparr>"
  obtain d' s' where d': "write_manifest_locked no_faults ?s2 = (Inr (), ?s2\<lparr>db_disk := d'\<rparr>)"
    "s' = (retire (lj_inputs j) (?s2\<lparr>db_disk := d'\<rparr>))\<lparr>db_compacting := False\<rparr>"
    "db_inv s'" "abs_db s' = abs_db s" "tables_map s' = tables_map s" "calm (db_vlogs s) (db_disk s) d'"
    by (rule swap_tables_ok [OF inv e(3) ljob_inputs [OF job] e(4) refl])
  have order: "s\<lparr>db_level := lv, db_ssts := ts, db_stat := st\<rparr> = s\<lparr>db_stat := st, db_ssts := ts, db_level := lv\<rparr>" for ts
    by (cases s) simp
  have r: "reorder_sstables_locked s1 = (Inr (), s\<lparr>db_level := lv, db_ssts := map snd qs\<rparr>)"
    using reorder_ok [OF nm1] by (simp add: s1 qs)
  have "leveled_install no_faults j (bytes, outs) s = (Inr (), s')"
    using d'(1,2) r by (simp add: leveled_install_def sbind_def add_stats_def s1 lv [symmetric] st_def [symmetric] order)
  then show thesis by (rule that [OF _ refl d' nm1])
qed

lemma leveled_install_ok:
  assumes inv: "db_inv s" and li: "linv s" and job: "ljob_ok j (placed_of s)" and out: "loutput_ok j outs s"
  obtains s' where "leveled_install no_faults j (bytes, outs) s = (Inr (), s')" and "db_inv s'" and "linv s'"
    and "abs_db s' = abs_db s" and "\<not> db_compacting s'" and "set (db_ssts s') \<subseteq> set (db_ssts s) \<union> set outs"
    and "db_has_flushing s' = db_has_flushing s" and "db_fmem s' = db_fmem s" and "db_gen s' = db_gen s"
    and "db_vlogs s' = db_vlogs s" and "calm (db_vlogs s) (db_disk s) (db_disk s')"
    and "db_next_obj s' = db_next_obj s" and "db_fseq s' = db_fseq s" and "db_leveled s' = db_leveled s"
proof -
  define lv where "lv = add_levels (lj_dest j) outs (erase_levels (lj_inputs j) (db_level s))"
  define s1 where "s1 = s\<lparr>db_ssts := filter (\<lambda>t. sst_obj t \<notin> sst_obj ` set (lj_inputs j)) (db_ssts s) @ outs, db_level := lv\<rparr>"
  define qs where "qs = stable_sort level_less (placed_of s1)"
  note e = leveled_exchange [OF inv li job out s1_def [unfolded lv_def] qs_def]
  obtain d' s' st s2 where d': "leveled_install no_faults j (bytes, outs) s = (Inr (), s')"
    "s2 = s\<lparr>db_stat := st, db_ssts := map snd qs, db_level := lv\<rparr>"
    "s' = (retire (lj_inputs j) (s2\<lparr>db_disk := d'\<rparr>))\<lparr>db_compacting := False\<rparr>"
    "db_inv s'" "abs_db s' = abs_db s" "calm (db_vlogs s) (db_disk s) d'"
    "\<forall>t\<in>set (db_ssts s1). db_level s1 (sst_obj t) \<noteq> None \<and> (\<exists>q. sst_path t = sst_name q)"
    by (rule leveled_install_run [OF inv li job out lv_def s1_def qs_def])
  have f: "db_ssts s' = map snd qs" "db_level s' = db_level s1" "db_seq s' = db_seq s"
    "db_has_flushing s' = db_has_flushing s" "db_fseq s' = db_fseq s"
    by (simp_all add: d'(2,3) retire_def s1_def)
  have pl: "placed_of s' = qs" by (rule placed_resort [OF f(1,2)]) (simp add: e(2))
  have sub: "set (db_ssts s') = set (db_ssts s1)" using f(1) e(2) by (metis set_map snd_placed)
  then have "linv s'" using e(1,5) d'(7) li by (simp add: linv_def pl f(2-))
  moreover have "set (db_ssts s1) \<subseteq> set (db_ssts s) \<union> set outs" by (auto simp: s1_def)
  ultimately show thesis
    by (intro that [OF d'(1,4) _ d'(5)]) (use sub d'(6) in \<open>simp_all add: d'(2,3) retire_def\<close>)
qed

subsection \<open>Whole rounds, and tables that come in front\<close>

lemma linv_same:
  assumes "linv s" and "db_ssts s' = db_ssts s" and "db_level s' = db_level s" and "db_seq s \<le> db_seq s'"
    and "db_has_flushing s' = db_has_flushing s" and "db_fseq s' = db_fseq s"
  shows "linv s'"
proof -
  have "placed_of s' = placed_of s" using assms(2,3) by (simp add: placed_of_def)
  then show ?thesis using assms unfolding linv_def by (auto intro: order_less_le_trans)
qed

lemma leveled_work_linv:
  assumes "linv s" and "s' = s\<lparr>db_seq := db_seq s + of_nat n, db_disk := d', db_next_obj := m\<rparr>" and "unat (db_seq s) + n < 2 ^ 64"
  shows "linv s'" and "placed_of s' = placed_of s"
proof -
  have "unat (db_seq s + of_nat n) = unat (db_seq s) + n"
    using assms(3) by (simp add: unat_word_ariths unat_of_nat take_bit_nat_eq_self)
  then have "db_seq s \<le> db_seq s'" using assms(2) by (simp add: word_le_nat_alt)
  then show "linv s'" by (intro linv_same [OF assms(1)]) (simp_all add: assms(2))
  show "placed_of s' = placed_of s" by (simp add: placed_of_def assms(2))
qed

lemma moved_tables_ok:
  assumes inv: "db_inv s" and c: "calm (db_vlogs s) (db_disk s) d'" and wal: "d_ino d' wal_name = d_ino (db_disk s) wal_name"
    and s': "s' = s\<lparr>db_seq := q, db_disk := d', db_next_obj := m\<rparr>" and m: "db_next_obj s \<le> m"
  shows "db_inv s'" and "abs_db s' = abs_db s"
proof -
  have vs: "vs_inv (db_vlogs s) (db_disk s)" and ok: "ssts_ok s" using inv by (simp_all add: db_inv_def)
  note mo = moved_on_calm [OF vs c]
  have "ssts_ok s'" using ok m moved_on_ptrs [OF mo] by (fastforce simp: ssts_ok_def s')
  then show "db_inv s'" using inv wal mo by (simp add: db_inv_def wal_inv_def dead_ok_def moved_on_def s')
  have "abs_db s' k = abs_db s k" for k
    using moved_on_look [OF mo ssts_ptrs_ok [OF ok], of k] by (simp add: abs_db_alt s' split: option.split)
  then show "abs_db s' = abs_db s" by (rule ext)
qed

lemma leveled_whole_ok:
  assumes inv: "db_inv s" and li: "linv s" and small: "0 < db_min_merge s" "db_min_merge s < 2 ^ 31" "length (db_ssts s) < 2 ^ 31"
    and fits: "\<And>j s1. leveled_begin s = (Inr (Some j), s1) \<Longrightarrow> leveled_fits lg j s1"
  shows "\<exists>s'. do_leveled_compaction no_faults lg s = (Inr (), s') \<and> db_inv s' \<and> linv s' \<and> abs_db s' = abs_db s"
proof (cases rule: leveled_begin_ok [OF li small])
  case 1
  then have "do_leveled_compaction no_faults lg s = (Inr (), s)" by (simp add: do_leveled_compaction_def sbind_def)
  then show ?thesis using inv li by blast
next
  case (2 j)
  let ?s1 = "s\<lparr>db_compacting := True\<rparr>"
  have inv1: "db_inv ?s1" and abs1: "abs_db ?s1 = abs_db s" using inv_start [OF inv, where q = "db_seq s" and b = True] by simp_all
  have li1: "linv ?s1" by (rule linv_same [OF li]) simp_all
  have pl: "placed_of ?s1 = placed_of s" by (simp add: placed_of_def)
  have vs: "vs_inv (db_vlogs ?s1) (db_disk ?s1)" and ok: "ssts_ok ?s1" using inv1 by (simp_all add: db_inv_def)
  have ins: "\<forall>t\<in>set (lj_inputs j). sst_inv t" and obj: "\<forall>t\<in>set (db_ssts ?s1). sst_obj t < db_next_obj ?s1"
    using ok ljob_inputs [OF 2(2)] by (auto simp: ssts_ok_def)
  obtain n outs d' s2 where w: "leveled_work no_faults lg j ?s1 = (Inr (n, outs), s2)"
    "s2 = ?s1\<lparr>db_seq := db_seq ?s1 + of_nat (length outs), db_disk := d', db_next_obj := db_next_obj ?s1 + length outs\<rparr>"
    "unat (db_seq ?s1) + length outs < 2 ^ 64" "loutput_ok j outs s2" "calm (db_vlogs ?s1) (db_disk ?s1) d'"
    "d_ino d' wal_name = d_ino (db_disk ?s1) wal_name"
    by (rule leveled_work_ok [OF vs ins fits [OF 2(1)] obj])
  note li2 = leveled_work_linv [OF li1 w(2,3)]
  have inv2: "db_inv s2" and abs2: "abs_db s2 = abs_db ?s1" by (rule moved_tables_ok [OF inv1 w(5,6,2)]; simp)+
  have job: "ljob_ok j (placed_of s2)" using 2(2) li2(2) pl by simp
  obtain s' where "leveled_install no_faults j (n, outs) s2 = (Inr (), s')" "db_inv s'" "linv s'" "abs_db s' = abs_db s2"
    by (rule leveled_install_ok [OF inv2 li2(1) job w(4)])
  then show ?thesis using 2(1) w(1) abs1 abs2 by (auto simp: do_leveled_compaction_def sbind_Inr)
qed

text \<open>A table put in front keeps the shape, and does not disturb a merge that is under way.\<close>

lemma seq_or_0_named: "sst_path t = sst_name q \<Longrightarrow> seq_or_0 t = q"
  by (simp add: seq_or_0_def seq_of_path_def parse_seq_sst_name)

lemma linv_front:
  assumes li: "linv s" and t: "sst_inv t" "sst_path t = sst_name q" "sst_obj t \<notin> sst_obj ` set (db_ssts s)"
    and q: "\<forall>x\<in>set (placed_of s). fst x = 0 \<longrightarrow> seq_or_0 (snd x) < q" "q < db_seq s'"
    and s': "db_ssts s' = t # db_ssts s" "db_level s' = (db_level s)(sst_obj t \<mapsto> 0)" "db_seq s \<le> db_seq s'" "\<not> db_has_flushing s'"
  shows "linv s'" and "placed_of s' = (0, t) # placed_of s" and "\<forall>x\<in>set (placed_of s). before (0, t) x"
proof -
  have ne: "sst_obj u \<noteq> sst_obj t" if "u \<in> set (db_ssts s)" for u using that t(3) by (metis imageI)
  show pl: "placed_of s' = (0, t) # placed_of s" using ne by (auto simp: placed_of_def s'(1,2))
  have ps: "ordered (placed_of s)" using li by (simp add: linv_def)
  then have nonneg: "0 \<le> fst x" if "x \<in> set (placed_of s)" for x using that by (auto simp: ordered_def placed_ok_def)
  show bef: "\<forall>x\<in>set (placed_of s). before (0, t) x"
    using nonneg q(1) seq_or_0_named [OF t(2)] by (fastforce simp: before_def)
  have "placed_ok (0, t)" using t(1) by (simp add: placed_ok_def)
  then have "ordered (placed_of s')" using ps bef by (simp add: pl ordered_Cons)
  moreover have "\<forall>x\<in>set (placed_of s'). fst x = 0 \<longrightarrow> seq_or_0 (snd x) < db_seq s'"
    using li q(2) s'(3) seq_or_0_named [OF t(2)] unfolding pl linv_def by (auto intro: order_less_le_trans)
  ultimately show "linv s'" using li t(2) s' by (auto simp: linv_def)
qed

lemma ljob_ok_front:
  assumes "ljob_ok j ps" and bef: "\<forall>x\<in>set ps. before (0, t) x"
  shows "ljob_ok j ((0, t) # ps)"
proof -
  obtain src lo hi srcs dsts where j: "lj_dest j = src + 1" "lj_inputs j = srcs @ dsts"
    and lm: "level_merge src lo hi (lj_drop j) (set ps) (Pair src ` set srcs) (Pair (src + 1) ` set dsts)"
    and ois: "ordered (map (Pair src) srcs @ map (Pair (src + 1)) dsts)"
    using assms(1) unfolding ljob_ok_def by metis
  have "level_merge src lo hi (lj_drop j) (set ((0, t) # ps)) (Pair src ` set srcs) (Pair (src + 1) ` set dsts)"
    using lm bef unfolding level_merge_def by (auto simp: subset_iff)
  then show ?thesis using j ois unfolding ljob_ok_def by metis
qed

end
