(* ===== verification/Table_Frame.thy ===== *)
theory Table_Frame
  imports Frames
begin

text \<open>
  What the pieces of an operation leave alone of the table list: the tables, their levels and
  numbers, and the memtable that is being flushed. The frame is the same for every pattern
  of failing system calls, and a successful run can be cut at every such piece.
\<close>

definition shelf :: "db \<Rightarrow> db \<Rightarrow> bool" where
  "shelf s s' \<longleftrightarrow> db_ssts s' = db_ssts s \<and> db_level s' = db_level s \<and> db_seq s' = db_seq s \<and>
     db_has_flushing s' = db_has_flushing s \<and> db_fseq s' = db_fseq s \<and> db_leveled s' = db_leveled s"

interpretation sh: frame_rel shelf
  by unfold_locales (auto simp: shelf_def)

lemma shelf_piece:
  "(\<And>s. shelf s (f s)) \<Longrightarrow> framed shelf (supd f)" "framed shelf (add_stats g)" "framed shelf (on_disk m)"
  "framed shelf (make_sst io path)" "framed shelf (db_vlog_sync io gen)" "framed shelf (db_vlog_append io gen key val)"
  by (auto simp: framed_def shelf_def add_stats_def on_disk_def make_sst_def db_vlog_sync_def db_vlog_append_def
      split: sum.split prod.split option.split)

lemmas shelf_rules = sh.framed_rules shelf_piece

lemma shelf_separate: "framed shelf (separate io sep gen recs)"
  unfolding separate_def separate_step_def by (intro shelf_rules allI)

lemma shelf_files:
  "framed shelf (build_rename io lg ctx seq recs)" "framed shelf (write_manifest_locked io)" "framed shelf (open_wal io tr)"
  unfolding build_rename_def write_manifest_locked_def open_wal_def Let_def
  by (intro shelf_rules; simp add: shelf_def)+

lemma shelf_db_sync: "framed shelf (db_sync io)"
  unfolding db_sync_def by (intro shelf_rules)

lemma take_seq_run: "take_seq s = (Inr (db_seq s), s\<lparr>db_seq := db_seq s + 1\<rparr>)"
  by (simp add: take_seq_def)

lemma make_sst_path: "make_sst io path s = (Inr t, s') \<Longrightarrow> sst_path t = path"
  by (auto simp: make_sst_def sst_open_def sst_parse_def Let_def rbind_def split: sum.splits option.splits if_splits prod.splits)

lemma shelf_then:
  assumes "sbind m f s = (Inr y, s')" and "framed shelf m"
  obtains x s1 where "m s = (Inr x, s1)" and "shelf s s1" and "f x s1 = (Inr y, s')"
proof -
  obtain x s1 where x: "m s = (Inr x, s1)" "f x s1 = (Inr y, s')" using assms(1) by (auto simp: sbind_eq_Inr)
  show thesis by (rule that [OF x(1) framed_run [OF assms(2) x(1)] x(2)])
qed

lemma shelf_also:
  assumes "shelf s0 s" and "sbind m f s = (Inr y, s')" and "framed shelf m"
  obtains x s1 where "m s = (Inr x, s1)" and "shelf s0 s1" and "f x s1 = (Inr y, s')"
  by (rule shelf_then [OF assms(2,3)]) (use assms(1) sh.frame_trans that in blast)

end
