(* ===== verification/Leveled_Engine.thy ===== *)
theory Leveled_Engine
  imports Db_Leveled Table_Frame Fresh_Store
begin

text \<open>
  The engine of a leveled store: the steps of the engine, interleaved with the three steps of a
  leveled compaction. The shape of the table list is an invariant of every interleaving, and
  the map of keys to values is changed by writes only.
\<close>

subsection \<open>What the operations do to the table list\<close>

text \<open>Sealing takes a number for the table to come; a flush puts its table in front.\<close>

definition sealed :: "db \<Rightarrow> db \<Rightarrow> bool" where
  "sealed s s' \<longleftrightarrow> db_ssts s' = db_ssts s \<and> db_level s' = db_level s \<and> db_seq s' = db_seq s + 1 \<and>
     \<not> db_has_flushing s \<and> db_has_flushing s' \<and> db_fseq s' = db_seq s \<and> db_leveled s' = db_leveled s"

definition fronted :: "u64 \<Rightarrow> sstable \<Rightarrow> db \<Rightarrow> db \<Rightarrow> bool" where
  "fronted q t s s' \<longleftrightarrow> db_ssts s' = t # db_ssts s \<and> db_level s' = (db_level s)(sst_obj t \<mapsto> 0) \<and>
     sst_path t = sst_name q \<and> db_leveled s' = db_leveled s"

lemma seal_sealed:
  assumes "seal_locked io s = (Inr (), s')" and "\<not> db_has_flushing s"
  shows "shelf s s' \<or> sealed s s'"
proof (cases "mt_empty (db_mem s)")
  case True
  then show ?thesis using assms by (simp add: seal_locked_def sbind_def sh.frame_refl)
next
  case False
  then obtain w s1 s2 s3 s4 where
    "on_disk (wal_sync io w) s = (Inr (), s1)"
    "on_disk (d_rename io ''seal WAL rename'' wal_name flushing_wal_name) s1 = (Inr (), s2)"
    "on_disk (fsync_dir io) s2 = (Inr (), s3)" "open_wal io True s3 = (Inr (), s4)"
    and s': "s' = s4\<lparr>db_seq := db_seq s4 + 1, db_fseq := db_seq s4, db_fmem := db_mem s4, db_mem := memtable0, db_has_flushing := True\<rparr>"
    using assms(1) by (auto simp: seal_locked_def sbind_eq_Inr take_seq_def)
  then have "shelf s s1" "shelf s1 s2" "shelf s2 s3" "shelf s3 s4"
    using framed_run [OF shelf_piece(3)] framed_run [OF shelf_files(3)] by blast+
  then have "shelf s s4" using sh.frame_trans by blast
  then have "sealed s s'" using assms(2) by (simp add: sealed_def shelf_def s')
  then show ?thesis ..
qed

lemma maybe_seal_sealed:
  assumes "maybe_seal io s = (Inr (), s')"
  shows "shelf s s' \<or> sealed s s'"
  using assms seal_sealed [of io s s'] by (auto simp: maybe_seal_def slot_free_def shelf_def split: if_splits)

lemma shelf_sealed: "shelf s s1 \<Longrightarrow> shelf s1 s' \<or> sealed s1 s' \<Longrightarrow> shelf s s' \<or> sealed s s'"
  by (auto simp: shelf_def sealed_def)

definition seals :: "(db, unit) prog \<Rightarrow> bool" where
  "seals m \<longleftrightarrow> (\<forall>s s'. m s = (Inr (), s') \<longrightarrow> shelf s s' \<or> sealed s s')"

lemma seals_bind:
  assumes "framed shelf m" and f: "\<And>x. seals (f x)"
  shows "seals (sbind m f)"
  unfolding seals_def
proof (intro allI impI)
  fix s s' assume "sbind m f s = (Inr (), s')"
  then obtain x s1 where "shelf s s1" "f x s1 = (Inr (), s')" using assms(1) by (rule shelf_then)
  then show "shelf s s' \<or> sealed s s'" using f [of x] shelf_sealed unfolding seals_def by blast
qed

lemma writes_sealed: "seals (db_put io k v sync)" "seals (db_del io k sync)"
  unfolding db_put_def db_del_def
  by (intro seals_bind shelf_rules; (simp add: shelf_def)?; (use maybe_seal_sealed in \<open>auto simp: seals_def\<close>)?)+

lemma wake_sealed:
  assumes "maybe_seal_wake io s = (Inr (), s')" and "slot_free s"
  shows "shelf s s' \<or> sealed s s'"
proof -
  let ?s = "s\<lparr>db_waiters := db_waiters s - 1\<rparr>"
  have s: "shelf s ?s" by (simp add: shelf_def)
  show ?thesis
  proof (cases "db_stop s")
    case True
    then show ?thesis using assms(1) s by (simp add: maybe_seal_wake_def Let_def)
  next
    case False
    then have "seal_locked io ?s = (Inr (), s')" "\<not> db_has_flushing ?s"
      using assms by (simp_all add: maybe_seal_wake_def Let_def slot_free_def)
    then show ?thesis using shelf_sealed [OF s] seal_sealed by blast
  qed
qed

lemma flush_fronted:
  assumes "flush_locked io lg s = (Inr (), s')"
  shows "shelf s s' \<or> (\<exists>t. fronted (db_seq s) t s s' \<and> db_seq s' = db_seq s + 1 \<and>
    db_has_flushing s' = db_has_flushing s \<and> db_fseq s' = db_fseq s)"
proof (cases "mt_empty (db_mem s)")
  case True
  then show ?thesis using assms by (simp add: flush_locked_def sbind_def sh.frame_refl)
next
  case False
  let ?s0 = "s\<lparr>db_seq := db_seq s + 1\<rparr>"
  have "\<exists>t s5 s6. shelf ?s0 s5 \<and> sst_path t = sst_name (db_seq s) \<and> shelf (insert_flushed t s5) s6 \<and> shelf (s6\<lparr>db_mem := memtable0\<rparr>) s'"
    using assms False unfolding flush_locked_def
    apply (simp add: sbind_Inr [of "sget f" for f] sbind_Inr [OF take_seq_run])
    apply (erule shelf_then [OF _ shelf_separate], clarsimp)
    apply (erule (1) shelf_also [OF _ _ shelf_files(1)])
    apply (erule (1) shelf_also [OF _ _ shelf_piece(3)])
    apply (erule (1) shelf_also [OF _ _ shelf_piece(2)])
    apply (erule (1) shelf_also [OF _ _ shelf_piece(4)])
    apply (simp add: sbind_Inr [of "supd f" for f])
    apply (erule shelf_then [OF _ shelf_files(2)])
    apply (simp add: sbind_Inr [of "supd f" for f])
    apply (drule make_sst_path, drule framed_run [OF shelf_files(3)])
    apply (intro exI conjI, assumption+)
    done
  then show ?thesis by (auto simp: shelf_def fronted_def insert_flushed_def)
qed

lemma flush_work_shelf:
  assumes "flush_work io lg j s = (Inr (t, b, w), s')"
  shows "shelf s s' \<and> sst_path t = sst_name (fj_seq j)"
  using assms unfolding flush_work_def
  apply (simp add: sbind_Inr [of "sget f" for f])
  apply (erule shelf_then [OF _ shelf_separate], clarsimp)
  apply (erule (1) shelf_also [OF _ _ shelf_files(1)])
  apply (erule (1) shelf_also [OF _ _ shelf_piece(3)])
  apply (erule (1) shelf_also [OF _ _ shelf_piece(4)])
  apply (drule make_sst_path, simp)
  done

lemma flush_install_fronted:
  assumes "flush_install io (t, b, w) s = (Inr (), s')" and "sst_path t = sst_name q"
  shows "fronted q t s s' \<and> db_seq s' = db_seq s \<and> \<not> db_has_flushing s'"
proof -
  have "\<exists>s1. shelf (insert_flushed t s) s1 \<and> shelf (s1\<lparr>db_fmem := memtable0, db_has_flushing := False\<rparr>) s'"
    using assms(1) unfolding flush_install_def
    apply (simp add: sbind_Inr [of "supd f" for f])
    apply (erule shelf_then [OF _ shelf_files(2)])
    apply (erule (1) shelf_also [OF _ _ shelf_piece(2)])
    apply (simp add: sbind_Inr [of "supd f" for f])
    apply (intro exI conjI, assumption)
    apply (auto simp: shelf_def split: option.splits)
    done
  then show ?thesis using assms(2) by (auto simp: shelf_def fronted_def insert_flushed_def)
qed

text \<open>Garbage collection leaves one table, or none.\<close>

definition single :: "u64 \<Rightarrow> db \<Rightarrow> bool" where
  "single q s \<longleftrightarrow> (\<exists>t. db_ssts s = [t] \<and> db_level s = [sst_obj t \<mapsto> 0] \<and> sst_path t = sst_name q \<and> db_seq s = q + 1)"

lemma shelf_relocate: "framed shelf (sfold (relocate_step io) rs acc)"
  unfolding relocate_step_def by (intro shelf_rules allI)

lemma shelf_seq: "shelf s t \<Longrightarrow> shelf (s\<lparr>db_seq := db_seq s + 1\<rparr>) (t\<lparr>db_seq := db_seq t + 1\<rparr>) \<and> db_seq t = db_seq s"
  by (simp add: shelf_def)

lemma shelf_tidy: "framed shelf (supd (retire ts))" "framed shelf (supd (gc_drop_old g))" "framed shelf (supd (\<lambda>s. s\<lparr>db_compacting := b\<rparr>))"
  by (intro shelf_rules; simp add: shelf_def retire_def gc_drop_old_def)+

lemma gc_rest_single:
  assumes "gc_body io lg ins s = (Inr (), s')"
  shows "single (db_seq s) s' \<and> db_has_flushing s' = db_has_flushing s \<and> db_leveled s' = db_leveled s"
proof -
  have "\<exists>g v t s5. shelf (s\<lparr>db_seq := db_seq s + 1\<rparr>) s5 \<and> sst_path t = sst_name (db_seq s) \<and> shelf (gc_swap g v t s5) s'"
    using assms unfolding gc_body_def
    apply -
    apply (erule shelf_then [OF _ sh.framed_lift])
    apply (erule (1) shelf_also [OF _ _ sh.framed_get])
    apply (erule (1) shelf_also [OF _ _ shelf_piece(3)])
    apply (erule (1) shelf_also [OF _ _ shelf_relocate], clarsimp split: prod.splits)
    apply (erule (1) shelf_also [OF _ _ shelf_piece(3)])
    apply (simp add: sbind_Inr [OF take_seq_run], drule shelf_seq, erule conjE)
    apply (erule (1) shelf_also [OF _ _ shelf_files(1)])
    apply (erule (1) shelf_also [OF _ _ shelf_piece(3)])
    apply (erule (1) shelf_also [OF _ _ shelf_piece(4)])
    apply (simp add: sbind_Inr [of "supd (gc_swap g v t)" for g v t])
    apply (erule shelf_then [OF _ shelf_files(2)])
    apply (erule (1) shelf_also [OF _ _ shelf_tidy(1)])
    apply (erule (1) shelf_also [OF _ _ shelf_tidy(2)])
    apply (erule (1) shelf_also [OF _ _ shelf_piece(2)])
    apply (drule framed_run [OF shelf_tidy(3)], drule make_sst_path, drule (1) sh.frame_trans [of "gc_swap g v t s5" for g v t s5])
    apply (intro exI conjI, assumption+)
    done
  then show ?thesis by (auto simp: shelf_def single_def gc_swap_def)
qed

lemma gc_single:
  assumes "gc_value_log io lg s = (Inr (), s')"
  shows "(db_ssts s' = [] \<or> single (db_seq s) s' \<or> single (db_seq s + 1) s') \<and>
    db_has_flushing s' = db_has_flushing s \<and> db_leveled s' = db_leveled s"
proof -
  let ?s0 = "s\<lparr>db_compacting := True\<rparr>"
  obtain s1 where s1: "flush_locked io lg ?s0 = (Inr (), s1)"
    and rest: "(if db_ssts s1 = [] then supd (\<lambda>s. s\<lparr>db_compacting := False\<rparr>) else gc_body io lg (db_ssts s1)) s1 = (Inr (), s')"
    using assms by (auto simp: gc_value_log_body sbind_eq_Inr)
  have f: "db_seq s1 = db_seq s \<or> db_seq s1 = db_seq s + 1" "db_has_flushing s1 = db_has_flushing s" "db_leveled s1 = db_leveled s"
    using flush_fronted [OF s1] by (auto simp: shelf_def fronted_def)
  show ?thesis
  proof (cases "db_ssts s1 = []")
    case True
    then show ?thesis using rest f by auto
  next
    case False
    then have "gc_body io lg (db_ssts s1) s1 = (Inr (), s')" using rest by simp
    from gc_rest_single [OF this] f show ?thesis by auto
  qed
qed

subsection \<open>States and steps\<close>

datatype lv_pc =
    LvIdle
  | LvWorking level_job
  | LvBuilt level_job "u64 \<times> sstable list"

text \<open>
  A step of the engine that the sequence numbers have room for, or a piece of a leveled
  compaction. In a leveled store the engine starts no size-tiered merge. \<open>compact_all\<close> is not a
  step either: its output is a level-0 table that is not a flush.
\<close>

inductive leveled_step :: "(real \<Rightarrow> real) \<Rightarrow> engine \<times> lv_pc \<Rightarrow> event \<Rightarrow> engine \<times> lv_pc \<Rightarrow> bool" for lg where
  Engine: "\<lbrakk>engine_step lg e ev e'; unat (db_seq (en_db e)) + 2 < 2 ^ 64\<rbrakk> \<Longrightarrow> leveled_step lg (e, pc) ev (e', pc)"
| LvBegin: "leveled_begin (en_db e) = (Inr (Some j), s)
    \<Longrightarrow> leveled_step lg (e, LvIdle) EvTau (e\<lparr>en_db := s\<rparr>, LvWorking j)"
| LvWork: "\<lbrakk>leveled_fits lg j (en_db e); leveled_work no_faults lg j (en_db e) = (Inr res, s)\<rbrakk>
    \<Longrightarrow> leveled_step lg (e, LvWorking j) EvTau (e\<lparr>en_db := s\<rparr>, LvBuilt j res)"
| LvInstall: "leveled_install no_faults j res (en_db e) = (Inr (), s)
    \<Longrightarrow> leveled_step lg (e, LvBuilt j res) EvTau (e\<lparr>en_db := s\<rparr>, LvIdle)"

definition lv_ok :: "db \<Rightarrow> lv_pc \<Rightarrow> bool" where
  "lv_ok s pc = (case pc of
       LvIdle \<Rightarrow> True
     | LvWorking j \<Rightarrow> db_compacting s \<and> ljob_ok j (placed_of s)
     | LvBuilt j (_, outs) \<Rightarrow> db_compacting s \<and> ljob_ok j (placed_of s) \<and> loutput_ok j outs s)"

definition lv_apart :: "flusher_pc \<Rightarrow> lv_pc \<Rightarrow> bool" where
  "lv_apart fl pc = (case fl of
       FlBuilt (t, _, _) \<Rightarrow> (case pc of LvBuilt _ (_, outs) \<Rightarrow> sst_obj t \<notin> sst_obj ` set outs | _ \<Rightarrow> True)
     | _ \<Rightarrow> True)"

definition fl_named :: "db \<Rightarrow> flusher_pc \<Rightarrow> bool" where
  "fl_named s fl = (case fl of
       FlIdle \<Rightarrow> True
     | FlWorking j \<Rightarrow> fj_seq j = db_fseq s
     | FlBuilt (t, _, _) \<Rightarrow> sst_path t = sst_name (db_fseq s))"

definition leveled_inv :: "engine \<times> lv_pc \<Rightarrow> bool" where
  "leveled_inv x = (case x of (e, pc) \<Rightarrow>
     engine_inv e \<and> en_mg e = MgIdle \<and> db_leveled (en_db e) \<and> linv (en_db e) \<and> lv_ok (en_db e) pc \<and>
     lv_apart (en_fl e) pc \<and> fl_named (en_db e) (en_fl e))"

lemma fl_named_same: "fl_named s fl \<Longrightarrow> db_fseq s' = db_fseq s \<Longrightarrow> fl_named s' fl"
  by (auto simp: fl_named_def split: flusher_pc.splits)

lemma seq_room: "unat (q :: u64) + 2 < 2 ^ 64 \<Longrightarrow> q < q + 1 \<and> q + 1 < q + 1 + 1"
  by (simp add: word_less_nat_alt unat_word_ariths)

lemma linv_sealed:
  assumes "linv s" and "sealed s s'" and "unat (db_seq s) + 2 < 2 ^ 64"
  shows "linv s'"
proof -
  have "placed_of s' = placed_of s" using assms(2) by (simp add: placed_of_def sealed_def)
  moreover have "db_seq s < db_seq s + 1" using seq_room [OF assms(3)] by simp
  ultimately show ?thesis using assms(1,2) unfolding linv_def by (auto simp: sealed_def intro: order_less_trans)
qed

text \<open>A step that keeps the tables and their levels, or puts one table in front.\<close>

lemma lv_ok_same:
  assumes "lv_ok s pc" and "placed_of s' = placed_of s" and "db_ssts s' = db_ssts s" and "db_compacting s' = db_compacting s"
    and "db_next_obj s \<le> db_next_obj s'"
  shows "lv_ok s' pc"
  using assms by (auto simp: lv_ok_def loutput_ok_def split: lv_pc.splits)

lemma lv_ok_front:
  assumes "lv_ok s pc" and "placed_of s' = (0, t) # placed_of s" and "\<forall>x\<in>set (placed_of s). before (0, t) x"
    and "db_ssts s' = t # db_ssts s" and "db_compacting s' = db_compacting s" and "db_next_obj s \<le> db_next_obj s'"
    and "\<And>j n outs. pc = LvBuilt j (n, outs) \<Longrightarrow> sst_obj t \<notin> sst_obj ` set outs"
  shows "lv_ok s' pc"
proof (cases pc)
  case (LvWorking j)
  then show ?thesis using assms(1,2,5) ljob_ok_front [OF _ assms(3)] by (simp add: lv_ok_def)
next
  case (LvBuilt j res)
  then obtain n outs where res: "res = (n, outs)" by (cases res)
  have "sst_obj t \<notin> sst_obj ` set outs" using assms(7) LvBuilt res by simp
  then have "\<forall>u\<in>set outs. sst_obj u \<noteq> sst_obj t" by (metis imageI)
  then have "loutput_ok j outs s'"
    using assms(1,4,6) LvBuilt res by (auto simp: lv_ok_def loutput_ok_def)
  then show ?thesis using assms(1,2,5) ljob_ok_front [OF _ assms(3)] LvBuilt res by (simp add: lv_ok_def)
qed (simp add: lv_ok_def)

text \<open>A built table of the flusher has an identity that a finished merge cannot have taken.\<close>

lemma lv_fresh:
  assumes "lv_ok s pc" and "db_next_obj s \<le> i" and "pc = LvBuilt j (n, outs)"
  shows "i \<notin> sst_obj ` set outs"
  using assms by (fastforce simp: lv_ok_def loutput_ok_def)

lemma still_step:
  assumes inv: "leveled_inv (e, pc)" and db: "db_inv s'" and k: "keeps (en_db e) s'"
    and sh: "shelf (en_db e) s' \<or> sealed (en_db e) s'" and room: "unat (db_seq (en_db e)) + 2 < 2 ^ 64"
  shows "leveled_inv (e\<lparr>en_db := s'\<rparr>, pc)"
proof -
  let ?s = "en_db e"
  have e: "engine_inv e" and li: "linv ?s" and lv: "lv_ok ?s pc" and fl: "fl_named ?s (en_fl e)"
    using inv by (simp_all add: leveled_inv_def)
  have flk: "fl_ok ?s (en_fl e)" using e by (simp add: engine_inv_def)
  have same: "db_ssts s' = db_ssts ?s" "db_level s' = db_level ?s" "db_leveled s' = db_leveled ?s"
    using sh by (auto simp: shelf_def sealed_def)
  have "linv s'" using sh linv_sealed [OF li _ room] linv_same [OF li] by (auto simp: shelf_def)
  moreover have "lv_ok s' pc"
    by (rule lv_ok_same [OF lv]) (use same k in \<open>simp_all add: placed_of_def keeps_def\<close>)
  moreover have "fl_named s' (en_fl e)"
    using sh fl flk by (auto simp: shelf_def sealed_def fl_named_def fl_ok_def split: flusher_pc.splits)
  ultimately show ?thesis using inv same(3) keeps_engine [OF e k db] by (simp add: leveled_inv_def)
qed

text \<open>A table in front, made by \<open>flush\<close> or by the flusher.\<close>

lemma front_facts:
  assumes inv: "leveled_inv (e, pc)" and db: "db_inv s'" and fr: "fronted q t (en_db e) s'"
    and q: "\<forall>x\<in>set (placed_of (en_db e)). fst x = 0 \<longrightarrow> seq_or_0 (snd x) < q" "q < db_seq s'"
    and s': "db_seq (en_db e) \<le> db_seq s'" "\<not> db_has_flushing s'"
    and ob: "db_compacting s' = db_compacting (en_db e)" "db_next_obj (en_db e) \<le> db_next_obj s'"
    and ap: "\<And>j n outs. pc = LvBuilt j (n, outs) \<Longrightarrow> sst_obj t \<notin> sst_obj ` set outs"
  shows "linv s'" and "lv_ok s' pc" and "db_leveled s'"
proof -
  let ?s = "en_db e"
  have li: "linv ?s" and lv: "lv_ok ?s pc" and le: "db_leveled ?s" using inv by (simp_all add: leveled_inv_def)
  have f: "db_ssts s' = t # db_ssts ?s" "db_level s' = (db_level ?s)(sst_obj t \<mapsto> 0)" "sst_path t = sst_name q"
    "db_leveled s' = db_leveled ?s" using fr by (simp_all add: fronted_def)
  have t: "sst_inv t" "sst_obj t \<notin> sst_obj ` set (db_ssts ?s)"
    using db f(1) by (auto simp: db_inv_def ssts_ok_def)
  note l = linv_front [OF li t(1) f(3) t(2) q f(1,2) s']
  show "linv s'" by (rule l)
  show "lv_ok s' pc" by (rule lv_ok_front [OF lv l(2,3) f(1) ob ap])
  show "db_leveled s'" using f(4) le by simp
qed

lemma lv_flush_step:
  assumes inv: "leveled_inv (e, pc)" and free: "slot_free (en_db e)" and run: "db_flush no_faults lg (en_db e) = (Inr (), s')"
    and db: "db_inv s'" and k: "keeps (en_db e) s'" and room: "unat (db_seq (en_db e)) + 2 < 2 ^ 64"
  shows "leveled_inv (e\<lparr>en_db := s'\<rparr>, pc)"
proof -
  let ?s = "en_db e"
  have e: "engine_inv e" and li: "linv ?s" and lv: "lv_ok ?s pc" using inv by (simp_all add: leveled_inv_def)
  have "shelf ?s s' \<or> flush_locked no_faults lg ?s = (Inr (), s') \<and> \<not> db_stop ?s"
    using run by (auto simp: db_flush_def sbind_def sh.frame_refl split: if_splits)
  then consider "shelf ?s s'" | t where "fronted (db_seq ?s) t ?s s'" "db_seq s' = db_seq ?s + 1"
    "db_has_flushing s' = db_has_flushing ?s" "\<not> db_stop ?s" using flush_fronted by blast
  then show ?thesis
  proof cases
    case 1
    then show ?thesis using still_step [OF inv db k _ room] by blast
  next
    case 2
    have nf: "\<not> db_has_flushing ?s" using free 2(4) by (simp add: slot_free_def)
    then have idle: "en_fl e = FlIdle" using e by (auto simp: engine_inv_def fl_ok_def split: flusher_pc.splits)
    have q: "\<forall>x\<in>set (placed_of ?s). fst x = 0 \<longrightarrow> seq_or_0 (snd x) < db_seq ?s" using li by (simp add: linv_def)
    have lt: "db_seq ?s < db_seq s'" using seq_room [OF room] 2(2) by simp
    have new: "db_next_obj ?s \<le> sst_obj t" using k 2(1) by (auto simp: keeps_def fronted_def)
    have kp: "db_compacting s' = db_compacting ?s" "db_next_obj ?s \<le> db_next_obj s'" using k by (simp_all add: keeps_def)
    have nf': "\<not> db_has_flushing s'" using 2(3) nf by simp
    note f = front_facts [OF inv db 2(1) q lt less_imp_le [OF lt] nf' kp lv_fresh [OF lv new]]
    show ?thesis
      using f keeps_engine [OF e k db] inv idle by (simp add: leveled_inv_def fl_named_def lv_apart_def)
  qed
qed

lemma install_step:
  assumes inv: "leveled_inv (e, pc)" and pc: "en_fl e = FlBuilt res" and run: "flush_install no_faults res (en_db e) = (Inr (), s')"
  shows "leveled_inv (e\<lparr>en_db := s', en_fl := FlIdle\<rparr>, pc)"
proof -
  let ?s = "en_db e"
  obtain t b w where res: "res = (t, b, w)" by (cases res)
  have e: "engine_inv e" and li: "linv ?s" and nm: "sst_path t = sst_name (db_fseq ?s)"
    and ap: "lv_apart (FlBuilt (t, b, w)) pc"
    using inv pc res by (simp_all add: leveled_inv_def fl_named_def)
  have db: "db_inv ?s" and fl: "db_has_flushing ?s" "flushed_ok t ?s"
    using e pc res by (simp_all add: engine_inv_def fl_ok_def)
  obtain s1 where s1: "flush_install no_faults (t, b, w) ?s = (Inr (), s1)" "db_inv s1"
    "db_next_obj s1 = db_next_obj ?s" "db_compacting s1 = db_compacting ?s" by (rule flush_install_ok [OF db fl])
  have eq: "s1 = s'" using s1(1) run res by simp
  note s = s1 [unfolded eq]
  have e': "engine_inv (e\<lparr>en_db := s', en_fl := FlIdle\<rparr>)" using fl_install_step [OF e pc run] by simp
  have f: "fronted (db_fseq ?s) t ?s s'" "db_seq s' = db_seq ?s" "\<not> db_has_flushing s'"
    using flush_install_fronted [OF s(1) nm] by simp_all
  have q: "db_fseq ?s < db_seq s'" "\<forall>x\<in>set (placed_of ?s). fst x = 0 \<longrightarrow> seq_or_0 (snd x) < db_fseq ?s"
    using li fl(1) f(2) by (simp_all add: linv_def)
  have out: "sst_obj t \<notin> sst_obj ` set outs" if "pc = LvBuilt j (n, outs)" for j n outs
    using ap that by (simp add: lv_apart_def)
  note g = front_facts [OF inv s(2) f(1) q(2,1) _ f(3) s(4) _ out]
  show ?thesis using g e' inv s(3) f(2) by (simp add: leveled_inv_def fl_named_def lv_apart_def)
qed

lemma work_step:
  assumes inv: "leveled_inv (e, pc)" and pc: "en_fl e = FlWorking j"
    and fits: "flush_fits lg (fj_gen j) (fj_records j) (en_db e)" and run: "flush_work no_faults lg j (en_db e) = (Inr res, s')"
  shows "leveled_inv (e\<lparr>en_db := s', en_fl := FlBuilt res\<rparr>, pc)"
proof -
  let ?s = "en_db e"
  obtain t b w where res: "res = (t, b, w)" by (cases res)
  have e: "engine_inv e" and li: "linv ?s" and lv: "lv_ok ?s pc" and nm: "fj_seq j = db_fseq ?s"
    using inv pc by (simp_all add: leveled_inv_def fl_named_def)
  have db: "db_inv ?s" and fl: "fj_records j = mt_snapshot (db_fmem ?s)" using e pc by (simp_all add: engine_inv_def fl_ok_def)
  obtain t' b' w' s1 where s1: "flush_work no_faults lg j ?s = (Inr (t', b', w'), s1)" "keeps ?s s1" "sst_obj t' = db_next_obj ?s"
    using flush_work_ok [OF db fl fits [unfolded fl]] by metis
  have eq: "s1 = s'" "t' = t" using s1(1) run res by simp_all
  have sh: "shelf ?s s'" "sst_path t = sst_name (fj_seq j)" using flush_work_shelf run res by blast+
  have k: "keeps ?s s'" and ob: "sst_obj t = db_next_obj ?s" using s1 eq by simp_all
  have "lv_ok s' pc"
    by (rule lv_ok_same [OF lv]) (use sh(1) k in \<open>simp_all add: shelf_def placed_of_def keeps_def\<close>)
  moreover have "linv s'" by (rule linv_same [OF li]) (use sh(1) in \<open>simp_all add: shelf_def\<close>)
  moreover have "lv_apart (FlBuilt res) pc"
    using lv_fresh [OF lv, of "sst_obj t"] ob res by (auto simp: lv_apart_def split: lv_pc.split)
  ultimately show ?thesis
    using inv sh nm fl_work_step [OF e pc fits run] res by (simp add: leveled_inv_def fl_named_def shelf_def)
qed

lemma collect_step:
  assumes inv: "leveled_inv (e, pc)" and ready: "gc_ready (en_db e)" and run: "gc_value_log no_faults lg (en_db e) = (Inr (), s')"
    and db: "db_inv s'" and e': "engine_inv (e\<lparr>en_db := s'\<rparr>)" and room: "unat (db_seq (en_db e)) + 2 < 2 ^ 64"
  shows "leveled_inv (e\<lparr>en_db := s'\<rparr>, pc)"
proof -
  let ?s = "en_db e"
  have e: "engine_inv e" and lv: "lv_ok ?s pc" using inv by (simp_all add: leveled_inv_def)
  have idle: "en_fl e = FlIdle" "pc = LvIdle"
    using e lv ready by (auto simp: engine_inv_def gc_ready_def fl_ok_def lv_ok_def split: flusher_pc.splits lv_pc.splits)
  have g: "db_ssts s' = [] \<or> single (db_seq ?s) s' \<or> single (db_seq ?s + 1) s'" "\<not> db_has_flushing s'" "db_leveled s'"
    using gc_single [OF run] ready inv by (auto simp: gc_ready_def leveled_inv_def)
  have "linv s'" if one: "single q s'" and lt: "q < q + 1" for q
  proof -
    obtain t where t: "db_ssts s' = [t]" "db_level s' = [sst_obj t \<mapsto> 0]" "sst_path t = sst_name q" "db_seq s' = q + 1"
      using one by (auto simp: single_def)
    have "sst_inv t" using db t(1) by (simp add: db_inv_def ssts_ok_def)
    then show ?thesis
      using t lt g(2) seq_or_0_named [OF t(3)] by (auto simp: linv_def placed_of_def ordered_def placed_ok_def)
  qed
  moreover have "linv s'" if "db_ssts s' = []" using that g(2) by (simp add: linv_def placed_of_def ordered_def)
  ultimately have "linv s'" using g(1) seq_room [OF room] by blast
  then show ?thesis using inv e' g(3) idle by (simp add: leveled_inv_def lv_ok_def lv_apart_def fl_named_def)
qed

text \<open>Every step of the engine is one of these.\<close>

lemma engine_leveled:
  assumes step: "engine_step lg e ev e'" and inv: "leveled_inv (e, pc)" and room: "unat (db_seq (en_db e)) + 2 < 2 ^ 64"
  shows "leveled_inv (e', pc)"
proof -
  have e: "engine_inv e" and mg: "en_mg e = MgIdle" and le: "db_leveled (en_db e)"
    using inv by (simp_all add: leveled_inv_def)
  have db: "db_inv (en_db e)" using e by (simp add: engine_inv_def)
  have e': "engine_inv e'" using engine_step_sim [OF step e] by simp
  then have db': "db_inv (en_db e')" by (simp add: engine_inv_def)
  have data: "leveled_inv (e\<lparr>en_db := s\<rparr>, pc)" if "shelf (en_db e) s" "db_inv s \<and> abs_db s = abs_db (en_db e) \<and> keeps (en_db e) s" for s
    using still_step [OF inv _ _ _ room] that by blast
  have same: "leveled_inv (e\<lparr>en_db := s\<rparr>, pc)"
    if "shelf (en_db e) s" "db_disk s = db_disk (en_db e)" "db_mem s = db_mem (en_db e)" "db_fmem s = db_fmem (en_db e)"
      "db_vlogs s = db_vlogs (en_db e)" "db_gen s = db_gen (en_db e)" "db_wal s = db_wal (en_db e)"
      "db_next_obj s = db_next_obj (en_db e)" "db_compacting s = db_compacting (en_db e)"
      "db_dead_ssts s = db_dead_ssts (en_db e)" "db_dead_vlogs s = db_dead_vlogs (en_db e)" for s
    by (rule data [OF that(1)], rule same_disk [OF db]) (use that dead_okI [OF db] in \<open>simp_all add: shelf_def dead_ok_def\<close>)
  show ?thesis
    using step
  proof (cases rule: engine_step_cases [consumes 1, case_names Put Del Get Scan Sync Wake Flush Bloom Gc FlBegin
        FlWork FlInstall MgBegin MgWork MgInstall ReapSst ReapVlog Stop])
    case (Put k v sync s)
    obtain s1 where "db_put no_faults k v sync (en_db e) = (Inr (), s1)" "keeps (en_db e) s1" using db_put_ok [OF db Put(3,4)] by metis
    then show ?thesis
      using still_step [OF inv db' _ _ room] writes_sealed(1) [of no_faults k v sync] Put by (auto simp: seals_def)
  next
    case (Del k sync s)
    obtain s1 where "db_del no_faults k sync (en_db e) = (Inr (), s1)" "keeps (en_db e) s1" using db_del_ok [OF db Del(3)] by metis
    then show ?thesis
      using still_step [OF inv db' _ _ room] writes_sealed(2) [of no_faults k sync] Del by (auto simp: seals_def)
  next
    case (Get k a s)
    then obtain st where "s = (en_db e)\<lparr>db_stat := st\<rparr>" using db_get_ok [OF db, of k] by auto
    then show ?thesis using same [of s] Get by (simp add: shelf_def)
  next
    case (Scan a b out s)
    then obtain st where "s = (en_db e)\<lparr>db_stat := st\<rparr>" using db_scan_ok [OF db, of a b] by (metis prod.inject)
    then show ?thesis using same [of s] Scan by (simp add: shelf_def)
  next
    case (Sync s)
    obtain s1 where "db_sync no_faults (en_db e) = (Inr (), s1)" "db_inv s1 \<and> abs_db s1 = abs_db (en_db e) \<and> keeps (en_db e) s1"
      by (rule db_sync_ok [OF db])
    then show ?thesis using data [of s] framed_run [OF shelf_db_sync Sync(3)] Sync by simp
  next
    case (Wake s)
    obtain s1 where "maybe_seal_wake no_faults (en_db e) = (Inr (), s1)" "db_inv s1 \<and> abs_db s1 = abs_db (en_db e) \<and> keeps (en_db e) s1"
      by (rule wake_ok [OF db Wake(4)])
    then show ?thesis using still_step [OF inv _ _ wake_sealed [OF Wake(5,4)] room] Wake by simp
  next
    case (Flush s)
    obtain s1 where "db_flush no_faults lg (en_db e) = (Inr (), s1)" "db_inv s1 \<and> abs_db s1 = abs_db (en_db e) \<and> keeps (en_db e) s1"
      by (rule db_flush_ok [OF db Flush(3,4)])
    then show ?thesis using lv_flush_step [OF inv Flush(3,5) _ _ room] Flush by simp
  next
    case (Bloom b s)
    then have "s = (en_db e)\<lparr>db_bloom_on := b\<rparr>" by (simp add: set_bloom_enabled_def)
    then show ?thesis using same [of s] Bloom by (simp add: shelf_def)
  next
    case (Gc s1 s)
    then show ?thesis using collect_step [OF inv Gc(3,7) _ _ room] db' e' by simp
  next
    case FlBegin
    then show ?thesis using inv e' by (simp add: leveled_inv_def fl_named_def lv_apart_def flush_begin_def)
  next
    case (FlWork j res s)
    then show ?thesis using work_step [OF inv FlWork(3,4,5)] by simp
  next
    case (FlInstall res s)
    then show ?thesis using install_step [OF inv FlInstall(3,4)] by simp
  next
    case ReapSst
    then show ?thesis using data [OF _ reap_ok(1) [OF db]] by (simp add: shelf_def reap_sst_def split: list.split)
  next
    case ReapVlog
    then show ?thesis using data [OF _ reap_ok(2) [OF db]] by (simp add: shelf_def reap_vlog_def split: list.split)
  next
    case Stop
    then show ?thesis using same by (simp add: shelf_def)
  qed (use mg le in simp_all)
qed

subsection \<open>The steps of a compaction\<close>

lemma lv_begin_step:
  assumes inv: "leveled_inv (e, LvIdle)" and run: "leveled_begin (en_db e) = (Inr (Some j), s)"
  shows "leveled_inv (e\<lparr>en_db := s\<rparr>, LvWorking j)" and "abs_db s = abs_db (en_db e)"
proof -
  let ?s = "en_db e"
  have e: "engine_inv e" and li: "linv ?s" and mg: "en_mg e = MgIdle" using inv by (simp_all add: leveled_inv_def)
  note b = leveled_begin_job [OF li run]
  have db: "db_inv ?s" and fl: "fl_ok ?s (en_fl e)" using e by (simp_all add: engine_inv_def)
  have db': "db_inv s" "abs_db s = abs_db ?s" using inv_start [OF db, where s' = s and q = "db_seq ?s" and b = True] b(1) by simp_all
  then show "abs_db s = abs_db ?s" by simp
  have "fl_ok s (en_fl e)" using fl b(1) by (auto simp: fl_ok_def flushed_ok_def split: flusher_pc.splits)
  then have "engine_inv (e\<lparr>en_db := s\<rparr>)"
    using db' mg by (simp add: engine_inv_def mg_ok_def apart_def split: flusher_pc.split prod.split)
  moreover have "linv s" by (rule linv_same [OF li]) (simp_all add: b(1))
  moreover have "placed_of s = placed_of ?s" by (simp add: placed_of_def b(1))
  ultimately show "leveled_inv (e\<lparr>en_db := s\<rparr>, LvWorking j)"
    using inv b by (auto simp: leveled_inv_def lv_ok_def lv_apart_def fl_named_def split: flusher_pc.splits)
qed

lemma lv_work_step:
  assumes inv: "leveled_inv (e, LvWorking j)" and fits: "leveled_fits lg j (en_db e)"
    and run: "leveled_work no_faults lg j (en_db e) = (Inr res, s)"
  shows "leveled_inv (e\<lparr>en_db := s\<rparr>, LvBuilt j res)" and "abs_db s = abs_db (en_db e)"
proof -
  let ?s = "en_db e"
  have e: "engine_inv e" and li: "linv ?s" and job: "ljob_ok j (placed_of ?s)" and cp: "db_compacting ?s"
    using inv by (simp_all add: leveled_inv_def lv_ok_def)
  have db: "db_inv ?s" and fl: "fl_ok ?s (en_fl e)" using e by (simp_all add: engine_inv_def)
  have vs: "vs_inv (db_vlogs ?s) (db_disk ?s)" and ok: "ssts_ok ?s" using db by (simp_all add: db_inv_def)
  have ins: "\<forall>t\<in>set (lj_inputs j). sst_inv t" and obj: "\<forall>t\<in>set (db_ssts ?s). sst_obj t < db_next_obj ?s"
    using ok ljob_inputs [OF job] by (auto simp: ssts_ok_def)
  obtain n outs d' s' where w: "leveled_work no_faults lg j ?s = (Inr (n, outs), s')"
    "s' = ?s\<lparr>db_seq := db_seq ?s + of_nat (length outs), db_disk := d', db_next_obj := db_next_obj ?s + length outs\<rparr>"
    "unat (db_seq ?s) + length outs < 2 ^ 64" "loutput_ok j outs s'" "calm (db_vlogs ?s) (db_disk ?s) d'"
    "d_ino d' wal_name = d_ino (db_disk ?s) wal_name" "\<forall>t\<in>set outs. db_next_obj ?s \<le> sst_obj t"
    by (rule leveled_work_ok [OF vs ins fits obj])
  have eq: "s' = s" "res = (n, outs)" using w(1) run by simp_all
  note s = w(2) [unfolded eq]
  have db': "db_inv s" and abs: "abs_db s = abs_db ?s" by (rule moved_tables_ok [OF db w(5,6) s]; simp)+
  show "abs_db s = abs_db ?s" by (rule abs)
  note l = leveled_work_linv [OF li s w(3)]
  have k: "keeps ?s s" using moved_on_calm [OF vs w(5)] by (simp add: keeps_def s)
  have "lv_apart (en_fl e) (LvBuilt j res)"
    using fl w(7) eq by (fastforce simp: lv_apart_def fl_ok_def flushed_ok_def split: flusher_pc.split)
  moreover have "fl_named s (en_fl e)"
    by (rule fl_named_same [where s = ?s]) (use inv in \<open>simp_all add: leveled_inv_def s\<close>)
  moreover have "db_leveled s" "db_compacting s" using inv cp by (simp_all add: leveled_inv_def s)
  ultimately show "leveled_inv (e\<lparr>en_db := s\<rparr>, LvBuilt j res)"
    using inv l job w(4) eq keeps_engine [OF e k db'] by (simp add: leveled_inv_def lv_ok_def)
qed

lemma lv_install_step:
  assumes inv: "leveled_inv (e, LvBuilt j res)" and run: "leveled_install no_faults j res (en_db e) = (Inr (), s)"
  shows "leveled_inv (e\<lparr>en_db := s\<rparr>, LvIdle)" and "abs_db s = abs_db (en_db e)"
proof -
  let ?s = "en_db e"
  obtain n outs where res: "res = (n, outs)" by (cases res)
  have e: "engine_inv e" and li: "linv ?s" and job: "ljob_ok j (placed_of ?s)" and out: "loutput_ok j outs ?s"
    and ap: "lv_apart (en_fl e) (LvBuilt j (n, outs))" and mg: "en_mg e = MgIdle"
    using inv by (simp_all add: leveled_inv_def lv_ok_def res)
  have db: "db_inv ?s" and fl: "fl_ok ?s (en_fl e)" using e by (simp_all add: engine_inv_def)
  have vs: "vs_inv (db_vlogs ?s) (db_disk ?s)" using db by (simp add: db_inv_def)
  obtain s' where w: "leveled_install no_faults j (n, outs) ?s = (Inr (), s')" "db_inv s'" "linv s'"
    "abs_db s' = abs_db ?s" "\<not> db_compacting s'" "set (db_ssts s') \<subseteq> set (db_ssts ?s) \<union> set outs"
    "db_has_flushing s' = db_has_flushing ?s" "db_fmem s' = db_fmem ?s" "db_gen s' = db_gen ?s" "db_vlogs s' = db_vlogs ?s"
    "calm (db_vlogs ?s) (db_disk ?s) (db_disk s')" "db_next_obj s' = db_next_obj ?s" "db_fseq s' = db_fseq ?s" "db_leveled s' = db_leveled ?s"
    by (rule leveled_install_ok [OF db li job out])
  have eq: "s' = s" using w(1) run res by simp
  note s = w [unfolded eq]
  show "abs_db s = abs_db ?s" by (rule s(4))
  have "flushed_ok t s" if pc: "en_fl e = FlBuilt (t, b, w)" for t b w
  proof -
    have t: "flushed_ok t ?s" "sst_obj t \<notin> sst_obj ` set outs" using fl ap pc by (simp_all add: fl_ok_def lv_apart_def)
    then have "sst_obj t \<notin> sst_obj ` set (db_ssts s)" using s(6) unfolding flushed_ok_def by blast
    from calm_flushed [OF t(1) vs s(11,10,8) this s(12)] show ?thesis .
  qed
  then have "fl_ok s (en_fl e)" using fl s(7-9) by (auto simp: fl_ok_def split: flusher_pc.splits prod.splits)
  then have "engine_inv (e\<lparr>en_db := s\<rparr>)"
    using s(2) mg by (simp add: engine_inv_def mg_ok_def apart_def split: flusher_pc.split prod.split)
  then show "leveled_inv (e\<lparr>en_db := s\<rparr>, LvIdle)"
    using inv s(3,13,14) by (auto simp: leveled_inv_def lv_ok_def lv_apart_def fl_named_def split: flusher_pc.splits)
qed

lemma leveled_step_sim:
  assumes "leveled_step lg x ev y" and "leveled_inv x"
  shows "leveled_inv y \<and> abs_db (en_db (fst y)) = map_step ev (abs_db (en_db (fst x))) \<and> reports ev (abs_db (en_db (fst x)))"
  using assms
proof (induction rule: leveled_step.induct)
  case (Engine e ev e' pc)
  then have "engine_inv e" by (simp add: leveled_inv_def)
  from engine_step_sim [OF Engine(1) this] engine_leveled [OF Engine(1,3,2)] show ?case by simp
next
  case (LvBegin e j s)
  from lv_begin_step [OF LvBegin(2,1)] show ?case by simp
next
  case (LvWork j e res s)
  from lv_work_step [OF LvWork(3,1,2)] show ?case by simp
next
  case (LvInstall j res e s)
  from lv_install_step [OF LvInstall(2,1)] show ?case by simp
qed

inductive leveled_run :: "(real \<Rightarrow> real) \<Rightarrow> engine \<times> lv_pc \<Rightarrow> event list \<Rightarrow> engine \<times> lv_pc \<Rightarrow> bool" for lg where
  Start: "leveled_run lg x [] x"
| Step: "\<lbrakk>leveled_step lg x ev y; leveled_run lg y evs z\<rbrakk> \<Longrightarrow> leveled_run lg x (ev # evs) z"

lemma leveled_run_sim:
  assumes "leveled_run lg x evs y" and "leveled_inv x"
  shows "leveled_inv y \<and> abs_db (en_db (fst y)) = fold map_step evs (abs_db (en_db (fst x))) \<and> trace_ok evs (abs_db (en_db (fst x)))"
  using assms
proof (induction rule: leveled_run.induct)
  case (Step x ev y evs z)
  then show ?case using leveled_step_sim [OF Step.hyps(1) Step.prems] by simp
qed simp

text \<open>A leveled store in an empty directory.\<close>

lemma fresh_leveled:
  assumes "cf_leveled cf" and "db_open no_faults lg cf disk0 = (Inr (), s)"
  shows "leveled_inv (engine0 s, LvIdle)" and "abs_db s = Map.empty"
proof -
  obtain s' d where s': "db_open no_faults lg cf disk0 = (Inr (), s')" "abs_db s' = Map.empty"
    "engine_inv (engine0 s')" "s' = (db1 cf)\<lparr>db_disk := d\<rparr>"
    by (rule fresh_open)
  then have eq: "s' = s" using assms(2) by simp
  have "linv s \<and> db_leveled s"
    using assms(1) s'(4) eq by (simp add: linv_def placed_of_def ordered_def db1_def db_init_def)
  then show "leveled_inv (engine0 s, LvIdle)"
    using s'(3) eq by (simp add: leveled_inv_def lv_ok_def lv_apart_def fl_named_def) (simp add: engine0_def)
  show "abs_db s = Map.empty" using s'(2) eq by simp
qed

end
