(* ===== verification/Benchmark.thy ===== *)
theory Benchmark
  imports Leveled_Engine Cli Json_Text
begin

text \<open>
  The benchmark program (\<open>bench/benchmark.cpp\<close>), as far as it is about the store: the keys it
  writes, the order of its calls, what it counts, and the chart. Time is left out, and the
  random permutation is an argument. Flushing, switching the filter and waiting for the
  background threads are silent events of the engine.
\<close>

subsection \<open>Keys\<close>

definition zero_pad :: "nat \<Rightarrow> bytes \<Rightarrow> bytes" where
  "zero_pad w ds = replicate (w - length ds) 48 @ ds"

text \<open>\<open>key%010d\<close>\<close>

definition key_of :: "int \<Rightarrow> bytes" where
  "key_of i = lit ''key'' @ (if i < 0 then 45 # zero_pad 9 (dec_digits (nat (- i))) else zero_pad 10 (dec_digits (nat i)))"

definition missing_key :: "int \<Rightarrow> bytes" where
  "missing_key i = lit ''missing'' @ int_text i"

subsection \<open>Calls\<close>

text \<open>One pass over the keys with a sync after every thousandth put.\<close>

definition write_pass :: "int list \<Rightarrow> bytes \<Rightarrow> event list" where
  "write_pass order val =
     concat (map (\<lambda>(idx, k). EvPut (key_of k) val False # (if idx mod 1000 = 999 then [EvSync] else [])) (enumerate 0 order))"

definition group_writes :: "int \<Rightarrow> bytes \<Rightarrow> event list" where
  "group_writes n val = write_pass [0..n - 1] val @ [EvSync]"

definition strategy_writes :: "int list \<Rightarrow> bytes \<Rightarrow> event list" where
  "strategy_writes order val = write_pass order val @ write_pass order val @ [EvSync]"

definition sync_writes :: "int \<Rightarrow> bytes \<Rightarrow> event list" where
  "sync_writes m val = map (\<lambda>i. EvPut (key_of i) val True) [0..m - 1]"

text \<open>Reads of present keys and of missing keys, with the answers.\<close>

definition present_reads :: "int \<Rightarrow> int list \<Rightarrow> (int \<Rightarrow> bytes option) \<Rightarrow> event list" where
  "present_reads reads order answers = map (\<lambda>k. EvGet (key_of k) (answers k)) (take (nat reads) order)"

definition missing_reads :: "int \<Rightarrow> (int \<Rightarrow> bytes option) \<Rightarrow> event list" where
  "missing_reads reads answers = map (\<lambda>i. EvGet (missing_key i) (answers i)) [0..reads - 1]"

definition found :: "event list \<Rightarrow> nat" where
  "found evs = fold (\<lambda>ev n. case ev of EvGet k (Some v) \<Rightarrow> Suc n | _ \<Rightarrow> n) evs 0"

subsection \<open>Measurements\<close>

record wa_result =
  wa_user :: u64
  wa_wal :: u64
  wa_flush :: u64
  wa_compaction :: u64
  wa_vlog :: u64
  wa_sstable_disk :: u64
  wa_tables :: nat

definition run_wa_result :: "db \<Rightarrow> wa_result" where
  "run_wa_result s =
     (let st = db_stats_of s in
      \<lparr>wa_user = st_user_bytes st, wa_wal = st_wal_bytes st, wa_flush = st_flush_bytes st,
       wa_compaction = st_compaction_bytes st, wa_vlog = st_vlog_bytes st,
       wa_sstable_disk = disk_bytes s, wa_tables = sstable_count s\<rparr>)"

definition wa_of :: "wa_result \<Rightarrow> real" where
  "wa_of r = (if wa_user r \<noteq> 0
     then real (unat (wa_wal r + wa_flush r + wa_compaction r + wa_vlog r)) / real (unat (wa_user r)) else 0)"

definition vlog_disk_bytes :: "disk \<Rightarrow> u64" where
  "vlog_disk_bytes d =
     fold (\<lambda>(n, i) total1. if take 5 n = lit ''vlog-'' then total1 + of_nat (length (blobs d i)) else total1) (dents d) 0"

definition deepest :: "(real \<Rightarrow> real) \<Rightarrow> db \<Rightarrow> int" where
  "deepest lg s = fold (\<lambda>i m. max m (si_tier i)) (sstable_infos lg s) 0"

subsection \<open>The chart\<close>

text \<open>
  The rows of \<open>write_svg\<close>: position and width of each bar, in \<open>int\<close>; \<open>max_element\<close> of an empty
  vector is dereferenced.
\<close>

fun max_element :: "real list \<Rightarrow> real res" where
  "max_element [] = Inl (Undefined ''*std::max_element'')"
| "max_element (v # vs) = Inr (fold (\<lambda>x m. if m < x then x else m) vs v)"

definition bar_width :: "real \<Rightarrow> real \<Rightarrow> int" where
  "bar_width vmax v = (let bw = \<lfloor>400 * (v / vmax)\<rfloor> in if bw < 1 then 1 else bw)"

definition svg_rows :: "real list \<Rightarrow> (int \<times> int) list res" where
  "svg_rows vs =
     rbind (max_element vs) (\<lambda>m.
       let vmax = (if m \<le> 0 then 1 else m) in
       Inr (map (\<lambda>(i, v). (56 + int i * 46, bar_width vmax v)) (enumerate 0 vs)))"

subsection \<open>Answers\<close>

definition visible :: "event list \<Rightarrow> event list" where
  "visible evs = filter (\<lambda>ev. ev \<noteq> EvTau) evs"

lemma trace_visible: "trace_ok (visible evs) m = trace_ok evs m"
  by (induction evs arbitrary: m) (auto simp: visible_def)

lemma trace_append: "trace_ok (xs @ ys) m \<longleftrightarrow> trace_ok xs m \<and> trace_ok ys (fold map_step xs m)"
  by (induction xs arbitrary: m) auto

lemma fold_write_pass:
  "fold map_step (write_pass order val) m = (\<lambda>k. if k \<in> key_of ` set order then Some val else m k)"
proof -
  have "fold map_step (concat (map (\<lambda>(idx, k). EvPut (key_of k) val False # (if idx mod 1000 = 999 then [EvSync] else [])) (enumerate i order))) m =
    (\<lambda>k. if k \<in> key_of ` set order then Some val else m k)" for i
    by (induction order arbitrary: i m) (auto simp: fun_eq_iff)
  then show ?thesis by (simp add: write_pass_def)
qed

lemma fold_sync_writes: "fold map_step (sync_writes n val) m = (\<lambda>k. if k \<in> key_of ` {0..<n} then Some val else m k)"
proof -
  have "fold map_step (map (\<lambda>i. EvPut (key_of i) val True) is) m = (\<lambda>k. if k \<in> key_of ` set is then Some val else m k)" for "is"
    by (induction "is" arbitrary: m) (auto simp: fun_eq_iff)
  moreover have "set [0..n - 1] = {0..<n}" by auto
  ultimately show ?thesis by (simp add: sync_writes_def)
qed

lemma reads_trace: "trace_ok (map (\<lambda>k. EvGet (f k) (a k)) ks) m \<longleftrightarrow> (\<forall>k\<in>set ks. a k = m (f k))"
  "fold map_step (map (\<lambda>k. EvGet (f k) (a k)) ks) m = m"
  by (induction ks) auto

lemma reads_fold: "fold map_step (present_reads r order a) m = m" "fold map_step (missing_reads r a) m = m"
  by (simp_all add: present_reads_def missing_reads_def reads_trace)

lemma missing_not_key: "missing_key i \<noteq> key_of j"
  by (simp add: missing_key_def key_of_def lit_def)

definition bench_writes :: "int \<Rightarrow> int list \<Rightarrow> bytes \<Rightarrow> event list \<Rightarrow> bool" where
  "bench_writes n order val ws \<longleftrightarrow> ws \<in> {group_writes n val, strategy_writes order val, sync_writes n val}"

lemma bench_writes_map:
  assumes "bench_writes n order val ws" and "set order = {0..<n}"
  shows "fold map_step ws Map.empty = (\<lambda>k. if k \<in> key_of ` {0..<n} then Some val else None)"
proof -
  have "set [0..n - 1] = {0..<n}" by auto
  then show ?thesis
    using assms by (auto simp: bench_writes_def group_writes_def strategy_writes_def fold_write_pass fold_sync_writes fun_eq_iff)
qed

lemma found_all: "(\<forall>k\<in>set ks. a k \<noteq> None) \<Longrightarrow> found (map (\<lambda>k. EvGet (f k) (a k)) ks) = length ks"
proof -
  have "fold (\<lambda>ev n. case ev of EvGet k (Some v) \<Rightarrow> Suc n | _ \<Rightarrow> n) (map (\<lambda>k. EvGet (f k) (a k)) ks) m = m + length ks"
    if "\<forall>k\<in>set ks. a k \<noteq> None" for m using that by (induction ks arbitrary: m) auto
  then show "(\<forall>k\<in>set ks. a k \<noteq> None) \<Longrightarrow> found (map (\<lambda>k. EvGet (f k) (a k)) ks) = length ks" by (simp add: found_def)
qed

lemma trace_answers:
  assumes "trace_ok (ws @ present_reads r order a1 @ present_reads r order a2 @ missing_reads r a3 @ missing_reads r a4) Map.empty"
    and "bench_writes n order val ws" and "set order = {0..<n}"
  shows "(\<forall>k\<in>set (take (nat r) order). a1 k = Some val \<and> a2 k = Some val) \<and> (\<forall>i\<in>{0..<r}. a3 i = None \<and> a4 i = None)"
proof -
  let ?m = "\<lambda>k. if k \<in> key_of ` {0..<n} then Some val else None"
  have m: "fold map_step ws Map.empty = ?m" by (rule bench_writes_map [OF assms(2,3)])
  have t: "trace_ok (present_reads r order a1) ?m" "trace_ok (present_reads r order a2) ?m" "trace_ok (missing_reads r a3) ?m"
    "trace_ok (missing_reads r a4) ?m"
    using assms(1) by (simp_all only: trace_append m reads_fold)
  have "a1 k = Some val \<and> a2 k = Some val" if "k \<in> set (take (nat r) order)" for k
  proof -
    have "k \<in> {0..<n}" using in_set_takeD [OF that] assms(3) by simp
    moreover have "a1 k = ?m (key_of k)" "a2 k = ?m (key_of k)"
      using t(1,2) that unfolding present_reads_def reads_trace by blast+
    ultimately show ?thesis by simp
  qed
  moreover have "a3 i = None \<and> a4 i = None" if "i \<in> {0..<r}" for i
  proof -
    have "i \<in> set [0..r - 1]" using that by simp
    then have "a3 i = ?m (missing_key i)" "a4 i = ?m (missing_key i)"
      using t(3,4) unfolding missing_reads_def reads_trace by blast+
    then show ?thesis using missing_not_key [of i] by auto
  qed
  ultimately show ?thesis by blast
qed

text \<open>
  Property C30: the benchmark measures correct reads. Whatever the background threads do, in a
  size-tiered store and in a leveled one, after any of the write phases every read of a
  written key finds the value and every read of a missing key finds nothing, with the
  filters on and off; so the program's count of found keys is the number of reads.
\<close>

theorem bench_answers:
  assumes "db_open no_faults lg cf disk0 = (Inr (), s)"
    and "engine_run lg (engine0 s) evs e \<or> cf_leveled cf \<and> leveled_run lg (engine0 s, LvIdle) evs (e, pc)"
    and "visible evs = ws @ present_reads r order a1 @ present_reads r order a2 @ missing_reads r a3 @ missing_reads r a4"
    and "bench_writes n order val ws" and "set order = {0..<n}"
  shows "(\<forall>k\<in>set (take (nat r) order). a1 k = Some val \<and> a2 k = Some val) \<and> (\<forall>i\<in>{0..<r}. a3 i = None \<and> a4 i = None) \<and>
    found (present_reads r order a1) = min (nat r) (length order)"
proof -
  have fresh: "engine_inv (engine0 s)" "abs_db s = Map.empty" using fresh_open [of lg cf] assms(1) by auto
  have "trace_ok evs Map.empty"
    using assms(2)
  proof
    assume "engine_run lg (engine0 s) evs e"
    then show ?thesis using engine_run_sim [of lg "engine0 s" evs e] fresh by (simp add: engine0_def)
  next
    assume l: "cf_leveled cf \<and> leveled_run lg (engine0 s, LvIdle) evs (e, pc)"
    then show ?thesis
      using leveled_run_sim [of lg "(engine0 s, LvIdle)" evs "(e, pc)"] fresh_leveled [of cf lg s] assms(1) fresh(2) by (simp add: engine0_def)
  qed
  then have a: "trace_ok (visible evs) Map.empty" by (simp add: trace_visible)
  note ans = trace_answers [OF a [unfolded assms(3)] assms(4,5)]
  then have "found (present_reads r order a1) = length (take (nat r) order)"
    unfolding present_reads_def by (intro found_all) auto
  with ans show ?thesis by simp
qed

lemma get_step:
  assumes "engine_inv e"
  obtains e' where "engine_step lg e (EvGet k (abs_db (en_db e) k)) e'" and "engine_inv e'" and "abs_db (en_db e') = abs_db (en_db e)"
proof -
  have "db_inv (en_db e)" using assms by (simp add: engine_inv_def)
  then obtain st where "db_get no_faults k (en_db e) = (Inr (abs_db (en_db e) k), (en_db e)\<lparr>db_stat := st\<rparr>)"
    using db_get_ok [of "en_db e" k] by auto
  then have step: "engine_step lg e (EvGet k (abs_db (en_db e) k)) (e\<lparr>en_db := (en_db e)\<lparr>db_stat := st\<rparr>\<rparr>)"
    by (rule engine_step.Get)
  show thesis by (rule that [OF step]) (use engine_step_sim [OF step assms] in auto)
qed

lemma get_run:
  assumes "engine_inv e"
  shows "\<exists>e'. engine_run lg e (map (\<lambda>k. EvGet k (abs_db (en_db e) k)) ks) e'"
  using assms
proof (induction ks arbitrary: e)
  case Nil
  show ?case using engine_run.Start by auto
next
  case (Cons k ks)
  obtain e1 where e1: "engine_step lg e (EvGet k (abs_db (en_db e) k)) e1" "engine_inv e1" "abs_db (en_db e1) = abs_db (en_db e)"
    by (rule get_step [OF Cons.prems])
  then show ?case using Cons.IH [OF e1(2)] engine_run.Step [OF e1(1)] by auto
qed

theorem bench_answers_witness:
  "\<exists>s evs e. db_open no_faults lg_const conf0 disk0 = (Inr (), s) \<and> engine_run lg_const (engine0 s) evs e \<and>
     visible evs = sync_writes 1 [7] @ present_reads 1 [0] (\<lambda>_. Some [7]) @ present_reads 1 [0] (\<lambda>_. Some [7]) @
       missing_reads 1 (\<lambda>_. None) @ missing_reads 1 (\<lambda>_. None) \<and> found (present_reads 1 [0] (\<lambda>_. Some [7])) = 1"
proof -
  obtain s where s: "db_open no_faults lg_const conf0 disk0 = (Inr (), s)" "rested s" "abs_db s = Map.empty" "engine_inv (engine0 s)"
    by (rule fresh_rested)
  have len: "length (key_of 0) \<le> UINT32_MAX" by (simp add: key_of_def zero_pad_def lit_def UINT32_MAX_def dec_digits.simps)
  obtain s1 where s1: "db_put no_faults (key_of 0) [7] True s = (Inr (), s1)"
    by (rule db_put_ok [of s "key_of 0" "[7]" True]) (use s(2) len in \<open>simp_all add: rested_def UINT32_MAX_def\<close>)
  have put: "engine_step lg_const (engine0 s) (EvPut (key_of 0) [7] True) (engine0 s1)"
    using engine_step.Put [of "key_of 0" "[7]" True "engine0 s" s1] s1 len by (simp add: engine0_def UINT32_MAX_def)
  have e1: "engine_inv (engine0 s1)" "abs_db (en_db (engine0 s1)) = [key_of 0 \<mapsto> [7]]"
    using engine_step_sim [OF put s(4)] s(3) by (simp_all add: engine0_def)
  let ?ks = "[key_of 0, key_of 0, missing_key 0, missing_key 0]"
  let ?evs = "EvPut (key_of 0) [7] True # map (\<lambda>k. EvGet k (abs_db (en_db (engine0 s1)) k)) ?ks"
  obtain e where run: "engine_run lg_const (engine0 s) ?evs e"
    using get_run [OF e1(1), of lg_const ?ks] engine_run.Step [OF put] by blast
  have v: "visible ?evs = sync_writes 1 [7] @ present_reads 1 [0] (\<lambda>_. Some [7]) @ present_reads 1 [0] (\<lambda>_. Some [7]) @
       missing_reads 1 (\<lambda>_. None) @ missing_reads 1 (\<lambda>_. None)"
    using e1(2) missing_not_key by (simp add: visible_def sync_writes_def present_reads_def missing_reads_def upto.simps)
  have "bench_writes 1 [0] [7] (sync_writes 1 [7])" "set [0 :: int] = {0..<1}" by (auto simp: bench_writes_def)
  from bench_answers [OF s(1) disjI1 [OF run] v this] have "found (present_reads 1 [0] (\<lambda>_. Some [7])) = 1" by simp
  with s(1) run v show ?thesis by blast
qed

subsection \<open>Keys in order\<close>

lemma less_append_same: "length xs = length ys \<Longrightarrow> (xs @ us < ys @ vs) = (xs < ys \<or> xs = ys \<and> us < vs)" for xs :: bytes
proof (induction xs ys rule: list_induct2)
  case (Cons x xs y ys)
  then show ?case by auto
qed simp

text \<open>The decimal digits of a number in a field of fixed width.\<close>

fun field :: "nat \<Rightarrow> nat \<Rightarrow> bytes" where
  "field 0 n = []"
| "field (Suc w) n = field w (n div 10) @ [48 + of_nat (n mod 10)]"

lemma length_field [simp]: "length (field w n) = w"
  by (induction w arbitrary: n) simp_all

lemma field_0: "field w 0 = replicate w 48"
  by (induction w) (simp_all add: replicate_append_same)

lemma zero_pad_field: "n < 10 ^ w \<Longrightarrow> 0 < w \<Longrightarrow> zero_pad w (dec_digits n) = field w n"
proof (induction n arbitrary: w rule: dec_digits.induct)
  case (1 n)
  then obtain v where w: "w = Suc v" by (cases w) auto
  show ?case
  proof (cases "n < 10")
    case True
    then show ?thesis by (subst dec_digits.simps) (simp add: w zero_pad_def field_0)
  next
    case False
    have "v \<noteq> 0" using 1(2) False w by (cases v) auto
    moreover have "n div 10 < 10 ^ v" using 1(2) w by (simp add: less_mult_imp_div_less mult.commute)
    ultimately have "zero_pad v (dec_digits (n div 10)) = field v (n div 10)" using 1(1) False by simp
    then show ?thesis using False by (subst dec_digits.simps) (simp add: w zero_pad_def)
  qed
qed

lemma digit_less: "a < 10 \<Longrightarrow> b < 10 \<Longrightarrow> (48 + of_nat a < (48 + of_nat b :: byte)) = (a < b)"
  by (simp add: word_less_nat_alt digit_unat)

lemma digits_less: "b < 10 \<Longrightarrow> d < 10 \<Longrightarrow> (10 * a + b < 10 * c + d) = (a < c \<or> a = c \<and> b < d)" for a b c d :: nat
  by (cases a c rule: linorder_cases) auto

lemma field_less: "n < 10 ^ w \<Longrightarrow> m < 10 ^ w \<Longrightarrow> (field w n < field w m) = (n < m)"
proof (induction w arbitrary: n m)
  case (Suc w)
  have d: "n div 10 < 10 ^ w" "m div 10 < 10 ^ w" using Suc.prems by (simp_all add: less_mult_imp_div_less mult.commute)
  have less: "(field w (n div 10) < field w (m div 10)) = (n div 10 < m div 10)" by (rule Suc.IH [OF d])
  have "(field w (m div 10) < field w (n div 10)) = (m div 10 < n div 10)" by (rule Suc.IH [OF d(2,1)])
  then have eq: "field w (n div 10) = field w (m div 10) \<longleftrightarrow> n div 10 = m div 10" using less by (metis less_irrefl linorder_less_linear)
  have dm: "n < m \<longleftrightarrow> n div 10 < m div 10 \<or> n div 10 = m div 10 \<and> n mod 10 < m mod 10"
    using digits_less [of "n mod 10" "m mod 10" "n div 10" "m div 10"] by simp
  have "(field (Suc w) n < field (Suc w) m) \<longleftrightarrow>
      field w (n div 10) < field w (m div 10) \<or> field w (n div 10) = field w (m div 10) \<and> [48 + of_nat (n mod 10) :: byte] < [48 + of_nat (m mod 10)]"
    by (simp add: less_append_same)
  also have "\<dots> \<longleftrightarrow> n < m" unfolding less eq dm by (simp add: digit_less)
  finally show ?case .
qed simp

text \<open>
  The keys of the benchmark are in the order of their numbers, for every \<open>int\<close> that is not
  negative, so sequential writes are sorted and no key is written twice in a pass.
\<close>

lemma key_of_less:
  assumes "0 \<le> i" and "i < 2 ^ 31" and "0 \<le> j" and "j < 2 ^ 31"
  shows "key_of i < key_of j \<longleftrightarrow> i < j"
proof -
  have n: "nat i < 10 ^ 10" "nat j < 10 ^ 10" using assms by simp_all
  then have "zero_pad 10 (dec_digits (nat i)) = field 10 (nat i)" "zero_pad 10 (dec_digits (nat j)) = field 10 (nat j)"
    by (simp_all add: zero_pad_field)
  then have "key_of i < key_of j \<longleftrightarrow> nat i < nat j"
    using assms(1,3) field_less [OF n] by (simp add: key_of_def less_append_same)
  then show ?thesis using assms(1,3) by auto
qed

subsection \<open>The chart fits\<close>

lemma max_element_Max:
  assumes "vs \<noteq> []"
  shows "max_element vs = Inr (Max (set vs))"
proof -
  obtain v us where vs: "vs = v # us" using assms by (cases vs) auto
  have "(\<lambda>(x :: real) m. if m < x then x else m) = max" by (auto simp: fun_eq_iff max_def)
  then have "max_element vs = Inr (fold max us v)" using vs by simp
  then show ?thesis using Max.set_eq_fold [of v us] vs by simp
qed

text \<open>Every bar has a positive width and stays inside the picture, and rows do not overlap.\<close>

lemma svg_rows_fit:
  assumes "vs \<noteq> []"
  shows "\<exists>rows. svg_rows vs = Inr rows \<and> length rows = length vs \<and>
    (\<forall>i<length rows. fst (rows ! i) = 56 + 46 * int i \<and> 1 \<le> snd (rows ! i) \<and> 250 + snd (rows ! i) < 720)"
proof -
  let ?m = "Max (set vs)"
  define vmax where "vmax = (if ?m \<le> 0 then 1 else ?m)"
  have pos: "0 < vmax" by (simp add: vmax_def)
  have le: "vs ! i \<le> vmax" if "i < length vs" for i
  proof -
    have "vs ! i \<le> ?m" by (rule Max_ge) (use that in simp_all)
    then show ?thesis unfolding vmax_def by (smt (verit))
  qed
  have "bar_width vmax (vs ! i) \<le> 400" if "i < length vs" for i
  proof -
    have "vs ! i / vmax \<le> 1" using le [OF that] pos by simp
    then have "400 * (vs ! i / vmax) \<le> 400" by linarith
    then have "\<lfloor>400 * (vs ! i / vmax)\<rfloor> \<le> 400" by linarith
    then show ?thesis by (simp add: bar_width_def Let_def)
  qed
  moreover have "1 \<le> bar_width vmax v" for v by (simp add: bar_width_def Let_def)
  moreover have "svg_rows vs = Inr (map (\<lambda>(i, v). (56 + int i * 46, bar_width vmax v)) (enumerate 0 vs))"
    using max_element_Max [OF assms] by (simp add: svg_rows_def vmax_def Let_def)
  ultimately show ?thesis by (auto simp: nth_enumerate_eq) fastforce
qed

end
