(* ===== verification/Leveled_Store.thy ===== *)
theory Leveled_Store
  imports Leveled_Engine
begin

text \<open>
  What a leveled store promises: from an empty directory every interleaving of callers, flusher
  and leveled compactor behaves as a map, and a round of compaction by itself is invisible.
  The last property is about a table that the order of the level-0 tables does not foresee.
\<close>

subsection \<open>A small leveled store\<close>

definition conf_leveled :: db_config where
  "conf_leveled = \<lparr>cf_threshold = 10000, cf_min_merge = 1, cf_size_ratio = 2, cf_sep_threshold = 1000, cf_leveled = True\<rparr>"

lemma leveled_one_table:
  obtains s0 s1 s2 t where "db_open no_faults lg_const conf_leveled disk0 = (Inr (), s0)"
    and "leveled_run lg_const (engine0 s0, LvIdle) [EvPut [1] [2] True, EvTau] (engine0 s2, LvIdle)"
    and "leveled_inv (engine0 s2, LvIdle)" and "db_inv s2" and "linv s2" and "abs_db s2 = [[1] \<mapsto> [2]]"
    and "db_ssts s2 = [t]" and "sst_records t = [mk_record Put [1] [2]]" and "db_level s2 (sst_obj t) = Some 0"
    and "db_min_merge s2 = 1" and "unat (db_seq s2) < 10" and "\<not> db_has_flushing s2"
    and "engine_step lg_const (engine0 s0) (EvPut [1] [2] True) (engine0 s1)" and "engine_step lg_const (engine0 s1) EvTau (engine0 s2)"
proof -
  obtain s0 d where s0: "db_open no_faults lg_const conf_leveled disk0 = (Inr (), s0)" "db_inv s0"
    "s0 = (db1 conf_leveled)\<lparr>db_disk := d\<rparr>" by (rule fresh_open)
  have r: "rested s0" using s0(2) unfolding s0(3) by (simp add: rested_def db1_def db_init_def conf_leveled_def)
  have f0: "db_ssts s0 = []" "db_min_merge s0 = 1" "db_seq s0 = 0" unfolding s0(3) by (simp_all add: db1_def db_init_def conf_leveled_def)
  note lv0 = fresh_leveled [OF _ s0(1)]
  have i0: "leveled_inv (engine0 s0, LvIdle)" "abs_db s0 = Map.empty" by (rule lv0; simp add: conf_leveled_def)+
  obtain s1 where s1: "db_put no_faults [1] [2] True s0 = (Inr (), s1)" "db_inv s1" "db_mem s1 = mt_put [1] [2] memtable0"
    "db_ssts s1 = db_ssts s0" "\<not> db_has_flushing s1" "\<not> db_stop s1" "abs_db s1 = (abs_db s0)([1] \<mapsto> [2])" "settled s0 s1"
    by (rule small_put [OF r, of "[1]" "[2]"]) simp_all
  obtain s1' s2 t where s2: "db_put no_faults [1] [2] True s0 = (Inr (), s1')" "db_flush no_faults lg_const s1' = (Inr (), s2)"
    "rested s2" "db_ssts s2 = t # db_ssts s0" "sst_records t = [mk_record Put [1] [2]]" "abs_db s2 = (abs_db s0)([1] \<mapsto> [2])" "settled s0 s2"
    by (rule put_flush [OF r, of "[1]" "[2]"]) simp_all
  have eq: "s1' = s1" using s1(1) s2(1) by simp
  note w = small_write [OF r _ _ s1(3,2,8)]
  have seq1: "shelf s0 s1" using writes_sealed(1) [of no_faults "[1]" "[2]" True] s1(1,5) by (auto simp: seals_def sealed_def)
  have flush: "flush_locked no_faults lg_const s1 = (Inr (), s2)" using s2(2) s1(6) eq by (simp add: db_flush_def sbind_def)
  have fr: "fronted (db_seq s1) t s1 s2" "db_seq s2 = db_seq s1 + 1"
    using flush_fronted [OF flush] s2(4) s1(4) by (auto simp: fronted_def shelf_def)
  have p: "engine_step lg_const (engine0 s0) (EvPut [1] [2] True) (engine0 s1)"
    using engine_step.Put [of "[1]" "[2]" True "engine0 s0" s1] s1(1) by (simp add: engine0_def UINT32_MAX_def)
  have q: "engine_step lg_const (engine0 s1) EvTau (engine0 s2)"
    using engine_step.Flush [of "engine0 s1" lg_const s2] s2(2) eq s1(5) w(4) by (simp add: engine0_def slot_free_def)
  have "leveled_step lg_const (engine0 s0, LvIdle) (EvPut [1] [2] True) (engine0 s1, LvIdle)"
    by (rule leveled_step.Engine [OF p]) (simp add: engine0_def f0)
  moreover have "leveled_step lg_const (engine0 s1, LvIdle) EvTau (engine0 s2, LvIdle)"
    by (rule leveled_step.Engine [OF q]) (use seq1 in \<open>simp add: engine0_def f0 shelf_def\<close>)
  ultimately have run: "leveled_run lg_const (engine0 s0, LvIdle) [EvPut [1] [2] True, EvTau] (engine0 s2, LvIdle)"
    by (blast intro: leveled_run.intros)
  have lev: "db_level s2 (sst_obj t) = Some 0" using fr(1) by (simp add: fronted_def)
  have inv: "leveled_inv (engine0 s2, LvIdle)" using leveled_run_sim [OF run i0(1)] by simp
  show thesis
    by (rule that [OF s0(1) run inv])
       (use inv s2 f0 i0(2) fr(2) seq1 lev p q in \<open>simp_all add: leveled_inv_def rested_def settled_def shelf_def engine0_def\<close>)
qed

lemma distinct_mapD: "distinct (map f xs) \<Longrightarrow> distinct xs"
  by (simp add: distinct_map)

lemma single_leveled_fits:
  assumes inv: "db_inv s" "linv s" and run: "leveled_begin s = (Inr (Some j), s1)" and ts: "db_ssts s = [t]"
    and recs: "sst_records t = [r]" and len: "length (rec_key r) \<le> 100" "length (rec_value r) \<le> 100"
    and seq: "unat (db_seq s) < 10"
  shows "leveled_fits lg_const j s1"
proof -
  note b = leveled_begin_job [OF inv(2) run]
  have sub: "set (lj_inputs j) \<subseteq> {t}" using ljob_inputs [OF b(2)] ts by simp
  have t: "sst_inv t" using inv(1) ts by (simp add: db_inv_def ssts_ok_def)
  have ins: "\<forall>x\<in>set (lj_inputs j). sst_inv x" using sub t by auto
  have m: "merge_records no_faults (lj_inputs j) (lj_drop j) = Inr (lj_merged j)"
    using merge_records_spec [OF ins] by (simp add: lj_merged_def merged_def)
  have "set (lj_merged j) \<subseteq> {r}"
    using merged_subset [of _ "\<lparr>mj_inputs = lj_inputs j, mj_drop = lj_drop j, mj_seq = 0\<rparr>"] sub recs
    unfolding lj_merged_def by fastforce
  moreover have "distinct (lj_merged j)"
    using ssorted_distinct [OF merged_sorted, THEN distinct_mapD] unfolding lj_merged_def .
  ultimately have "lj_merged j = [] \<or> lj_merged j = [r]"
    by (cases "lj_merged j" rule: list.exhaust; cases "tl (lj_merged j)") auto
  moreover have "sst_fits lg_const [r]"
    using one_record_buildable [of r] len t recs by (auto simp: buildable_def sst_inv_def)
  ultimately show ?thesis
    using m seq by (auto simp: leveled_fits_def b(1) Let_def)
qed

lemma single_begin:
  assumes "linv s" and "db_ssts s = [t]" and "db_level s (sst_obj t) = Some 0" and "db_min_merge s = 1"
  obtains j where "leveled_begin s = (Inr (Some j), s\<lparr>db_compacting := True\<rparr>)"
proof -
  have "leveled_begin s \<noteq> (Inr None, s)"
    using assms(2-4) by (simp add: leveled_begin_def leveled_pending_locked_def at_level_def find_source_level_def source_tables_def
        int_of_size_small Let_def)
  then show thesis using leveled_begin_ok [OF assms(1)] assms(2,4) that by auto
qed

subsection \<open>Properties\<close>

text \<open>
  Property C6: a leveled store is a map. Opened in an empty directory and then run in any
  interleaving of callers, background flushes, garbage collections and leveled compactions,
  the engine holds the map that the writes describe, every \<open>get\<close> and \<open>scan\<close> reports the truth
  of its moment, and deeper levels stay sorted with disjoint key ranges.
\<close>

theorem leveled_refines_map:
  assumes "cf_leveled cf" and "db_open no_faults lg cf disk0 = (Inr (), s)"
    and "leveled_run lg (engine0 s, LvIdle) evs (e, pc)"
  shows "abs_db (en_db e) = fold map_step evs Map.empty \<and> trace_ok evs Map.empty \<and>
    sorted_wrt before (placed_of (en_db e))"
  using leveled_run_sim [OF assms(3) fresh_leveled(1) [OF assms(1,2)]] fresh_leveled(2) [OF assms(1,2)]
  by (simp add: engine0_def leveled_inv_def linv_def ordered_def)

theorem leveled_refines_map_witness:
  "\<exists>s0 s. db_open no_faults lg_const conf_leveled disk0 = (Inr (), s0) \<and>
     leveled_run lg_const (engine0 s0, LvIdle) [EvPut [1] [2] True, EvTau] (engine0 s, LvIdle) \<and> abs_db s = [[1] \<mapsto> [2]]"
proof -
  obtain s0 s1 s2 t where s: "db_open no_faults lg_const conf_leveled disk0 = (Inr (), s0)"
    "leveled_run lg_const (engine0 s0, LvIdle) [EvPut [1] [2] True, EvTau] (engine0 s2, LvIdle)" by (rule leveled_one_table)
  from leveled_refines_map [OF _ s] have "abs_db s2 = [[1] \<mapsto> [2]]" by (simp add: conf_leveled_def engine0_def)
  then show ?thesis using s by blast
qed

text \<open>
  Property C16: a round of leveled compaction returns, keeps the invariant and the shape of the
  levels, and changes no lookup: shadowed versions go, and a tombstone goes only into the
  deepest level.
\<close>

theorem leveled_compaction_keeps_map:
  assumes "db_inv s" and "linv s" and "0 < db_min_merge s" and "db_min_merge s < 2 ^ 31" and "length (db_ssts s) < 2 ^ 31"
    and "\<And>j s1. leveled_begin s = (Inr (Some j), s1) \<Longrightarrow> leveled_fits lg j s1"
  shows "\<exists>s'. do_leveled_compaction no_faults lg s = (Inr (), s') \<and> db_inv s' \<and> linv s' \<and> abs_db s' = abs_db s"
  using assms by (rule leveled_whole_ok)

theorem leveled_compaction_keeps_map_witness:
  "\<exists>s j s'. leveled_begin s = (Inr (Some j), s\<lparr>db_compacting := True\<rparr>) \<and>
     do_leveled_compaction no_faults lg_const s = (Inr (), s') \<and> linv s' \<and> abs_db s' = [[1] \<mapsto> [2]]"
proof -
  obtain s0 s1 s t where s: "leveled_inv (engine0 s, LvIdle)" "db_inv s" "linv s" "abs_db s = [[1] \<mapsto> [2]]" "db_ssts s = [t]"
    "sst_records t = [mk_record Put [1] [2]]" "db_level s (sst_obj t) = Some 0" "db_min_merge s = 1" "unat (db_seq s) < 10"
    by (rule leveled_one_table)
  have small: "0 < db_min_merge s" "db_min_merge s < 2 ^ 31" "length (db_ssts s) < 2 ^ 31" using s(5,8) by simp_all
  have fits: "leveled_fits lg_const j s1" if "leveled_begin s = (Inr (Some j), s1)" for j s1
    by (rule single_leveled_fits [OF s(2,3) that s(5,6) _ _ s(9)]) simp_all
  obtain j where "leveled_begin s = (Inr (Some j), s\<lparr>db_compacting := True\<rparr>)" by (rule single_begin [OF s(3,5,7,8)])
  moreover obtain s' where "do_leveled_compaction no_faults lg_const s = (Inr (), s')" "linv s'" "abs_db s' = abs_db s"
    using leveled_compaction_keeps_map [OF s(2,3) small, of lg_const] fits by blast
  ultimately show ?thesis using s(4) by metis
qed

text \<open>
  Property C34: the number of a level-0 table is not always its age. A major compaction takes its
  number after a memtable has been sealed; when its output is in the list behind the table of
  that memtable, sorting by number puts the older contents in front.
\<close>

theorem compact_all_overtakes_flush:
  assumes "compact_all_begin s = (Inr (Some j), s1)" and "db_fseq s < db_seq s"
    and "sst_path f = sst_name (db_fseq s)" and "sst_path c = sst_name (mj_seq j)"
    and "db_ssts s2 = [f, c]" and "db_level s2 (sst_obj f) = Some 0" and "db_level s2 (sst_obj c) = Some 0"
  shows "reorder_sstables_locked s2 = (Inr (), s2\<lparr>db_ssts := [c, f]\<rparr>)"
proof -
  have q: "seq_or_0 f < seq_or_0 c"
    using assms(1-4) compact_all_begin_ok(3) [OF assms(1)] by (simp add: seq_or_0_named)
  have "\<forall>t\<in>set (db_ssts s2). db_level s2 (sst_obj t) \<noteq> None \<and> (\<exists>q. sst_path t = sst_name q)"
    using assms(3-7) by auto
  from reorder_ok [OF this] show ?thesis
    using q assms(5-7) by (simp add: placed_of_def stable_sort_def level_less_def)
qed

theorem compact_all_overtakes_flush_witness:
  "\<exists>s2 f c. find_rec [107] (sst_records f) = Some (mk_record Delete [107] []) \<and> sst_records c = [mk_record Put [107] [1]] \<and>
     db_ssts s2 = [f, c] \<and> reorder_sstables_locked s2 = (Inr (), s2\<lparr>db_ssts := [c, f]\<rparr>)"
proof -
  obtain t u where tu: "sst_records t = [mk_record Delete [107] []]" "sst_records u = [mk_record Put [107] [1]]"
    using small_tables_exist by blast
  let ?f = "t\<lparr>sst_path := sst_name 5, sst_obj := 1\<rparr>" and ?c = "u\<lparr>sst_path := sst_name 6, sst_obj := 2\<rparr>"
  let ?s = "(db_init conf_leveled disk0)\<lparr>db_seq := 6, db_fseq := 5, db_ssts := [t, u]\<rparr>"
  let ?s2 = "(db_init conf_leveled disk0)\<lparr>db_ssts := [?f, ?c], db_level := [1 \<mapsto> 0, 2 \<mapsto> 0]\<rparr>"
  have recs: "sst_records ?f = sst_records t" "sst_records ?c = sst_records u" by (simp_all add: sst_records_def sst_read_block_def)
  have "reorder_sstables_locked ?s2 = (Inr (), ?s2\<lparr>db_ssts := [?c, ?f]\<rparr>)"
    by (rule compact_all_overtakes_flush [of ?s "\<lparr>mj_inputs = [t, u], mj_drop = True, mj_seq = 6\<rparr>"
          "?s\<lparr>db_seq := 7, db_compacting := True\<rparr>"]) (simp_all add: compact_all_begin_def)
  then show ?thesis using recs tu by (intro exI [of _ ?s2] exI [of _ ?f] exI [of _ ?c]) (simp add: db_init_def)
qed

end
