(* ===== verification/Leveled_Durable.thy ===== *)
theory Leveled_Durable
  imports Leveled_Store Crash_Safety
begin

text \<open>
  Crash safety of a leveled store. The invariant of the directory is the one of \<open>Durability\<close>,
  where a running leveled compaction is the list of the files it has built: each of them is
  complete and durable under a name of its own before the manifest names it, and the files it
  replaces are unlinked only when the manifest does not name them any more.
\<close>

subsection \<open>The files of one merge\<close>

definition group_files :: "(u64 \<times> kv_record list) list \<Rightarrow> bytes set" where
  "group_files jobs = (\<Union>q\<in>fst ` set jobs. {sst_name q, sst_name q @ tmp_suffix})"

lemma group_files_simps [simp]:
  "group_files [] = {}"
  "group_files ((q, g) # jobs) = {sst_name q, sst_name q @ tmp_suffix} \<union> group_files jobs"
  by (simp_all add: group_files_def)

lemma group_files_name: "sst_name q \<in> group_files jobs \<longleftrightarrow> q \<in> fst ` set jobs"
  by (auto simp: group_files_def sst_name_inj)

lemma group_files_vlog: "vlog_name g \<notin> group_files jobs"
  by (auto simp: group_files_def)

lemma ptr_safe_quiet:
  assumes "quiet N d d'" and "dwf d" and "vlog_name g \<notin> N" and "ptr_safe d g r"
  shows "ptr_safe d' g r"
proof -
  have "same_file d d' (vlog_name g)" by (rule quietD(2) [OF assms(1-3)])
  then show ?thesis using assms(4) by (intro ptr_safe_mono [OF assms(4)]) (simp_all add: same_file_def)
qed

text \<open>Building the files one after the other.\<close>

definition jobs_ready :: "(real \<Rightarrow> real) \<Rightarrow> db \<Rightarrow> (u64 \<times> kv_record list) list \<Rightarrow> bool" where
  "jobs_ready lg s jobs \<longleftrightarrow> distinct (map fst jobs) \<and>
     (\<forall>(q, g)\<in>set jobs. buildable lg g \<and> sst_name q \<notin> sst_path ` set (db_ssts s) \<and> (\<forall>r\<in>set g. ptr_safe (db_disk s) (db_gen s) r))"

lemma dur_build_group:
  assumes d: "dur s fl w k" and inv: "db_inv s" and ready: "jobs_ready lg s [(q, g)]"
    and run: "build_group no_faults lg (q, g) (total1, outs) s = (Inr acc, s')"
  obtains n t where "acc = (n, outs @ [t])" and "db_inv s'" and "dur s' fl w k" and "tables_map s' = tables_map s"
    and "table_on (db_disk s') (db_gen s) t" and "sst_path t = sst_name q"
    and "quiet {sst_name q, sst_name q @ tmp_suffix} (db_disk s) (db_disk s')"
    and "s' = s\<lparr>db_disk := db_disk s', db_next_obj := Suc (db_next_obj s)\<rparr>"
proof -
  have vs: "vs_inv (db_vlogs s) (db_disk s)" using inv by (simp add: db_inv_def)
  have b: "buildable lg g" and fresh: "sst_name q \<notin> sst_path ` set (db_ssts s)" and safe: "\<forall>r\<in>set g. ptr_safe (db_disk s) (db_gen s) r"
    using ready by (simp_all add: jobs_ready_def)
  obtain n d1 t where t: "build_group no_faults lg (q, g) (total1, outs) s
      = (Inr (total1 + n, outs @ [t]), s\<lparr>db_disk := d1, db_next_obj := Suc (db_next_obj s)\<rparr>)"
    "file_of (q, g) t" "calm (db_vlogs s) (db_disk s) d1" "d_ino d1 wal_name = d_ino (db_disk s) wal_name"
    by (rule build_group_ok [OF vs b])
  have s': "s' = s\<lparr>db_seq := db_seq s, db_disk := d1, db_next_obj := Suc (db_next_obj s)\<rparr>" and acc: "acc = (total1 + n, outs @ [t])"
    using run t(1) by simp_all
  have inv': "db_inv s'" by (rule moved_tables_ok(1) [OF inv t(3,4) s']) simp
  obtain x s1 where r: "build_rename no_faults lg ''leveled rename'' q g s = (Inr x, s1)" "make_sst no_faults (sst_name q) s1 = (Inr t, s')"
    using run acc by (auto simp: build_group_def sbind_eq_Inr)
  have "sst_inv t" "\<forall>r\<in>set (sst_records t). ptr_safe (db_disk s) (db_gen s) r" using t(2) safe by (simp_all add: file_of_def)
  note f = dur_build_table [OF d r inv' this fresh]
  show thesis by (rule that [OF acc inv' _ _ f(2,3,4,5)]) (use f(1) in simp_all)
qed

lemma dur_build_groups:
  assumes "dur s fl w k" and "db_inv s" and "jobs_ready lg s jobs"
    and "sfold (build_group no_faults lg) jobs (total1, outs) s = (Inr (n, all1), s')"
  shows "\<exists>news. all1 = outs @ news \<and> map sst_path news = map (\<lambda>j. sst_name (fst j)) jobs \<and> dur s' fl w k \<and> tables_map s' = tables_map s \<and>
    (\<forall>t\<in>set news. table_on (db_disk s') (db_gen s) t) \<and> quiet (group_files jobs) (db_disk s) (db_disk s') \<and>
    s' = s\<lparr>db_disk := db_disk s', db_next_obj := db_next_obj s'\<rparr>"
  using assms
proof (induction jobs arbitrary: s total1 outs)
  case Nil
  then show ?case by (simp add: qt.frame_refl)
next
  case (Cons job jobs)
  obtain q g where job: "job = (q, g)" by (cases job)
  obtain acc s1 where st: "build_group no_faults lg (q, g) (total1, outs) s = (Inr acc, s1)"
    and rest: "sfold (build_group no_faults lg) jobs acc s1 = (Inr (n, all1), s')"
    using Cons.prems(4) by (auto simp: job sbind_eq_Inr)
  have "jobs_ready lg s [(q, g)]" using Cons.prems(3) by (simp add: jobs_ready_def job)
  then obtain m t where t: "acc = (m, outs @ [t])" "db_inv s1" "dur s1 fl w k" "tables_map s1 = tables_map s"
    "table_on (db_disk s1) (db_gen s) t" "sst_path t = sst_name q"
    "quiet {sst_name q, sst_name q @ tmp_suffix} (db_disk s) (db_disk s1)"
    "s1 = s\<lparr>db_disk := db_disk s1, db_next_obj := Suc (db_next_obj s)\<rparr>"
    by (rule dur_build_group [OF Cons.prems(1,2) _ st])
  define d1 where "d1 = db_disk s1"
  have s1: "s1 = s\<lparr>db_disk := d1, db_next_obj := Suc (db_next_obj s)\<rparr>" using t(8) by (simp add: d1_def)
  have safe: "ptr_safe d1 (db_gen s) r" if "ptr_safe (db_disk s) (db_gen s) r" for r
    unfolding d1_def by (rule ptr_safe_quiet [OF t(7) dur_dwf [OF Cons.prems(1)] _ that]) simp
  have "jobs_ready lg s1 jobs" using Cons.prems(3) safe by (auto simp: jobs_ready_def job s1)
  then obtain news where news: "all1 = (outs @ [t]) @ news" "map sst_path news = map (\<lambda>j. sst_name (fst j)) jobs" "dur s' fl w k"
    "tables_map s' = tables_map s1" "\<forall>t\<in>set news. table_on (db_disk s') (db_gen s1) t"
    "quiet (group_files jobs) (db_disk s1) (db_disk s')" "s' = s1\<lparr>db_disk := db_disk s', db_next_obj := db_next_obj s'\<rparr>"
    using Cons.IH [OF t(3,2) _ rest [unfolded t(1)]] by blast
  have wf1: "dwf (db_disk s1)" by (rule dur_dwf [OF t(3)])
  have "q \<notin> fst ` set jobs" using Cons.prems(3) by (simp add: jobs_ready_def job)
  then have "same_file (db_disk s1) (db_disk s') (sst_path t)"
    using quietD(2) [OF news(6) wf1] by (simp add: t(6) group_files_name)
  from table_on_frame [OF t(5) this quiet_other_vlog [OF news(6) wf1 group_files_vlog]]
  have on: "table_on (db_disk s') (db_gen s) t" .
  have qq: "quiet (group_files (job # jobs)) (db_disk s) (db_disk s')"
    by (rule qt.frame_trans [OF quiet_mono [OF t(7)] quiet_mono [OF news(6)]]) (auto simp: job)
  define d2 m2 where "d2 = db_disk s'" and "m2 = db_next_obj s'"
  have "s' = s\<lparr>db_disk := d2, db_next_obj := m2\<rparr>" using news(7) by (simp add: s1 d2_def m2_def)
  then have "s' = s\<lparr>db_disk := db_disk s', db_next_obj := db_next_obj s'\<rparr>" by simp
  then show ?case
    using news on qq t(4,6) by (intro exI [of _ "t # news"]) (simp add: job s1)
qed

subsection \<open>The invariant\<close>

definition ghost :: "lv_pc \<Rightarrow> merger_pc" where
  "ghost pc = (case pc of LvIdle \<Rightarrow> MgIdle | LvWorking _ \<Rightarrow> MgLeveled [] | LvBuilt _ (_, outs) \<Rightarrow> MgLeveled outs)"

lemma ghost_simps [simp]: "ghost LvIdle = MgIdle" "ghost (LvWorking j) = MgLeveled []" "ghost (LvBuilt j (n, outs)) = MgLeveled outs"
  by (simp_all add: ghost_def)

text \<open>
  The counters are far from wrapping around and the level numbers fit an \<open>int\<close>. A compaction may
  take any number of file names, so this is a condition on the states of a run and not on its length.
\<close>

definition roomy :: "engine \<times> lv_pc \<Rightarrow> bool" where
  "roomy x = (case x of (e, pc) \<Rightarrow>
     unat (db_gen (en_db e)) \<le> 2 ^ 30 \<and> unat (db_seq (en_db e)) \<le> 2 ^ 31 \<and>
     (case pc of LvBuilt j _ \<Rightarrow> lj_dest j < 2 ^ 31 | _ \<Rightarrow> True))"

definition dlinv :: "engine \<times> lv_pc \<Rightarrow> kv_record list option \<Rightarrow> kv_record list \<Rightarrow> nat \<Rightarrow> bool" where
  "dlinv x fl w k = (case x of (e, pc) \<Rightarrow> leveled_inv (e, pc) \<and> (\<exists>n. dinv n (e\<lparr>en_mg := ghost pc\<rparr>) fl w k))"

lemma roomy_dinv:
  assumes "dlinv (e, pc) fl w k" and "roomy (e, pc)"
  shows "dinv (2 ^ 30) (e\<lparr>en_mg := ghost pc\<rparr>) fl w k" and "steps_left (2 ^ 30)"
proof -
  obtain n where "dinv n (e\<lparr>en_mg := ghost pc\<rparr>) fl w k" using assms(1) by (auto simp: dlinv_def)
  then show "dinv (2 ^ 30) (e\<lparr>en_mg := ghost pc\<rparr>) fl w k"
    using assms(2) by (simp add: dinv_def rest_ok_def budget_def roomy_def)
  show "steps_left (2 ^ 30)" by (simp add: steps_left_def)
qed

definition leveled_advances :: "engine \<times> lv_pc \<Rightarrow> event \<Rightarrow> engine \<times> lv_pc \<Rightarrow> kv_record list option \<Rightarrow> kv_record list \<Rightarrow> nat \<Rightarrow> bool" where
  "leveled_advances x ev y fl w k \<longleftrightarrow> (\<exists>fl' w' k'. dlinv y fl' w' k' \<and>
     (\<forall>evs m0. hist evs m0 (tables_map (en_db (fst x))) (fl_recs fl @ w) (length (fl_recs fl) + k) \<longrightarrow>
        hist (evs @ [ev]) m0 (tables_map (en_db (fst y))) (fl_recs fl' @ w') (length (fl_recs fl') + k')))"

lemma advances_leveled:
  assumes "advances n (e\<lparr>en_mg := ghost pc\<rparr>) ev (e'\<lparr>en_mg := ghost pc'\<rparr>) fl w k" and "leveled_inv (e', pc')"
  shows "leveled_advances (e, pc) ev (e', pc') fl w k"
  using assms by (auto simp: advances_def leveled_advances_def dlinv_def)

lemma advance_tau:
  assumes "dlinv y fl w k" and "tables_map (en_db (fst y)) = tables_map (en_db (fst x))"
  shows "leveled_advances x EvTau y fl w k"
  unfolding leveled_advances_def
  using assms hist_read [of _ _ "tables_map (en_db (fst x))" "fl_recs fl @ w" "length (fl_recs fl) + k" EvTau]
  by (intro exI [of _ fl] exI [of _ w] exI [of _ k]) simp

text \<open>A step of the engine does not look at the leveled compaction.\<close>

lemma engine_step_ghost:
  assumes "engine_step lg e ev e'" and "en_mg e = MgIdle" and "db_leveled (en_db e)"
  shows "engine_step lg (e\<lparr>en_mg := m\<rparr>) ev (e'\<lparr>en_mg := m\<rparr>)"
proof -
  have swap: "e\<lparr>en_db := s\<rparr>\<lparr>en_mg := m\<rparr> = e\<lparr>en_mg := m\<rparr>\<lparr>en_db := s\<rparr>"
    "e\<lparr>en_fl := f\<rparr>\<lparr>en_mg := m\<rparr> = e\<lparr>en_mg := m\<rparr>\<lparr>en_fl := f\<rparr>"
    "e\<lparr>en_db := s, en_fl := f\<rparr>\<lparr>en_mg := m\<rparr> = e\<lparr>en_mg := m\<rparr>\<lparr>en_db := s, en_fl := f\<rparr>" for s f
    by (cases e; simp)+
  show ?thesis
    using assms(1)
  proof (cases rule: engine_step_cases [consumes 1, case_names Put Del Get Scan Sync Wake Flush Bloom Gc FlBegin
        FlWork FlInstall MgBegin MgWork MgInstall ReapSst ReapVlog Stop])
    case (Put k v sync s)
    show ?thesis unfolding Put swap by (rule engine_step.Put) (use Put in simp_all)
  next
    case (Del k sync s)
    show ?thesis unfolding Del swap by (rule engine_step.Del) (use Del in simp_all)
  next
    case (Get k a s)
    show ?thesis unfolding Get swap by (rule engine_step.Get) (use Get in simp)
  next
    case (Scan a b out s)
    show ?thesis unfolding Scan swap by (rule engine_step.Scan) (use Scan in simp)
  next
    case (Sync s)
    show ?thesis unfolding Sync swap by (rule engine_step.Sync) (use Sync in simp)
  next
    case (Wake s)
    show ?thesis unfolding Wake swap by (rule engine_step.Wake) (use Wake in simp_all)
  next
    case (Flush s)
    show ?thesis unfolding Flush swap by (rule engine_step.Flush) (use Flush in simp_all)
  next
    case (Bloom b s)
    show ?thesis unfolding Bloom swap by (rule engine_step.Bloom [of b]) (use Bloom in simp)
  next
    case (Gc s1 s)
    show ?thesis unfolding Gc swap by (rule engine_step.Gc [of _ _ s1]) (use Gc in simp_all)
  next
    case FlBegin
    show ?thesis unfolding FlBegin(2) swap FlBegin(1) using engine_step.FlBegin [of "e\<lparr>en_mg := m\<rparr>" lg] FlBegin by simp
  next
    case (FlWork j res s)
    show ?thesis unfolding FlWork(1,2) swap by (rule engine_step.FlWork [of _ j]) (use FlWork in simp_all)
  next
    case (FlInstall res s)
    show ?thesis unfolding FlInstall(1,2) swap by (rule engine_step.FlInstall [of _ res]) (use FlInstall in simp_all)
  next
    case ReapSst
    show ?thesis unfolding ReapSst swap using engine_step.ReapSst [of lg "e\<lparr>en_mg := m\<rparr>"] by simp
  next
    case ReapVlog
    show ?thesis unfolding ReapVlog swap using engine_step.ReapVlog [of lg "e\<lparr>en_mg := m\<rparr>"] by simp
  next
    case Stop
    show ?thesis unfolding Stop swap using engine_step.Stop [of lg "e\<lparr>en_mg := m\<rparr>"] by simp
  qed (use assms(2,3) in simp_all)
qed

lemma engine_leveled_durable:
  assumes step: "engine_step lg e ev e'" and inv: "dlinv (e, pc) fl w k" and room: "roomy (e, pc)"
  shows "leveled_advances (e, pc) ev (e', pc) fl w k"
proof -
  have li: "leveled_inv (e, pc)" using inv by (simp add: dlinv_def)
  then have "engine_step lg (e\<lparr>en_mg := ghost pc\<rparr>) ev (e'\<lparr>en_mg := ghost pc\<rparr>)"
    by (intro engine_step_ghost [OF step]) (simp_all add: leveled_inv_def)
  from engine_step_durable [OF this roomy_dinv [OF inv room]]
  have "advances (2 ^ 30) (e\<lparr>en_mg := ghost pc\<rparr>) ev (e'\<lparr>en_mg := ghost pc\<rparr>) fl w k" .
  moreover have "leveled_inv (e', pc)" by (rule engine_leveled [OF step li]) (use room in \<open>simp add: roomy_def\<close>)
  ultimately show ?thesis by (rule advances_leveled)
qed

subsection \<open>Beginning and building\<close>

lemma ghost_inv:
  assumes "leveled_inv (e, pc)"
  shows "engine_inv (e\<lparr>en_mg := ghost pc\<rparr>)"
  using assms
  by (auto simp: leveled_inv_def engine_inv_def mg_ok_def lv_ok_def apart_def ghost_def split: lv_pc.splits flusher_pc.split)

lemma begin_durable:
  assumes inv: "dlinv (e, LvIdle) fl w k" and run: "leveled_begin (en_db e) = (Inr (Some j), s)"
  shows "leveled_advances (e, LvIdle) EvTau (e\<lparr>en_db := s\<rparr>, LvWorking j) fl w k"
proof (rule advance_tau)
  obtain n where D: "dinv n (e\<lparr>en_mg := MgIdle\<rparr>) fl w k" using inv by (auto simp: dlinv_def)
  have li: "leveled_inv (e, LvIdle)" using inv by (simp add: dlinv_def)
  have li': "leveled_inv (e\<lparr>en_db := s\<rparr>, LvWorking j)" by (rule lv_begin_step [OF li run])
  have s: "s = (en_db e)\<lparr>db_compacting := True\<rparr>" using leveled_begin_job(1) [OF _ run] li by (simp add: leveled_inv_def)
  show "tables_map (en_db (fst (e\<lparr>en_db := s\<rparr>, LvWorking j))) = tables_map (en_db (fst (e, LvIdle)))"
    by (simp add: s tables_map_def fun_eq_iff)
  have "dur s fl w k" using dinv_parts(5) [OF D] by (simp add: s dur_def vlog_on_def levels_ok_def)
  moreover have "rest_ok n (e\<lparr>en_db := s, en_mg := MgLeveled []\<rparr>)"
    using dinv_parts(6) [OF D]
    by (simp add: s rest_ok_def claims_ok_def claims_def fl_claim_def mg_claim_def fl_built_def mg_built_def dead_logs_def budget_def
        cong: flusher_pc.case_cong)
  ultimately have "dinv n (e\<lparr>en_db := s, en_mg := MgLeveled []\<rparr>) fl w k" using ghost_inv [OF li'] by (simp add: dinv_def)
  then show "dlinv (e\<lparr>en_db := s\<rparr>, LvWorking j) fl w k" using li' by (auto simp: dlinv_def)
qed

text \<open>The names that a compaction reserves.\<close>

definition reserved :: "u64 \<Rightarrow> nat \<Rightarrow> u64 list" where
  "reserved q n = map (\<lambda>i. q + of_nat i) [0..<n]"

lemma reserved_unat: "unat q + n < 2 ^ 64 \<Longrightarrow> i \<le> n \<Longrightarrow> unat (q + of_nat i :: u64) = unat q + i"
  by (simp add: unat_word_ariths unat_of_nat take_bit_nat_eq_self)

lemma reserved_facts:
  assumes room: "unat q + n < 2 ^ 64"
  shows "length (reserved q n) = n" and "distinct (reserved q n)" and "x \<in> set (reserved q n) \<Longrightarrow> q \<le> x \<and> x < q + of_nat n"
proof -
  show "length (reserved q n) = n" by (simp add: reserved_def)
  have "inj_on (\<lambda>i. q + of_nat i) (set [0..<n])"
  proof (rule inj_onI)
    fix i j assume ij: "i \<in> set [0..<n]" "j \<in> set [0..<n]" and eq: "q + of_nat i = q + of_nat j"
    have "unat q + i = unat (q + of_nat i)" "unat (q + of_nat j) = unat q + j" using ij by (simp_all only: reserved_unat [OF room] set_upt atLeastLessThan_iff less_imp_le)
    then show "i = j" unfolding eq by linarith
  qed
  then show "distinct (reserved q n)" by (simp add: reserved_def distinct_map)
  show "q \<le> x \<and> x < q + of_nat n" if x: "x \<in> set (reserved q n)"
  proof -
    obtain i where i: "i < n" "x = q + of_nat i" using x by (auto simp: reserved_def)
    then show ?thesis using reserved_unat [OF room, of i] reserved_unat [OF room, of n] by (simp add: word_le_nat_alt word_less_nat_alt)
  qed
qed

lemma claims_reserve:
  assumes c: "claims_ok e" and room: "unat (db_seq (en_db e)) + n < 2 ^ 64" and seq: "db_seq (en_db e') = db_seq (en_db e) + of_nat n"
    and e': "claims e' = claims e @ map sst_name (reserved (db_seq (en_db e)) n)"
  shows "claims_ok e'"
proof -
  let ?q = "db_seq (en_db e)"
  note r = reserved_facts [OF room]
  have le: "?q \<le> db_seq (en_db e')" using reserved_unat [OF room, of n] seq by (simp add: word_le_nat_alt)
  have old: "\<exists>m < ?q. p = sst_name m" if "p \<in> set (claims e)" for p using c that by (simp add: claims_ok_def)
  have "distinct (map sst_name (reserved ?q n))" using r(2) by (simp add: distinct_map inj_on_def sst_name_inj)
  moreover have "sst_name x \<notin> set (claims e)" if "x \<in> set (reserved ?q n)" for x
    using old [of "sst_name x"] r(3) [OF that] by (auto simp: sst_name_inj)
  ultimately have "distinct (claims e')" using c by (auto simp: e' claims_ok_def)
  moreover have "\<exists>m < db_seq (en_db e'). p = sst_name m" if "p \<in> set (claims e')" for p
  proof -
    have "p \<in> set (claims e) \<or> p \<in> sst_name ` set (reserved ?q n)" using that by (auto simp: e')
    then show ?thesis using old [of p] r(3) seq le order_less_le_trans by fastforce
  qed
  ultimately show ?thesis by (simp add: claims_ok_def)
qed

lemma dur_leveled_work:
  assumes d: "dur s fl w k" and inv: "db_inv s" and job: "ljob_ok j (placed_of s)" and fits: "leveled_fits lg j s"
    and run: "leveled_work no_faults lg j s = (Inr (n, outs), s')"
  obtains N where "dur s' fl w k" and "tables_map s' = tables_map s" and "\<forall>t\<in>set outs. table_on (db_disk s') (db_gen s) t"
    and "map sst_path outs = map sst_name (reserved (db_seq s) (length outs))" and "unat (db_seq s) + length outs < 2 ^ 64"
    and "N = (\<Union>q\<in>set (reserved (db_seq s) (length outs)). {sst_name q, sst_name q @ tmp_suffix})"
    and "quiet N (db_disk s) (db_disk s')"
    and "s' = s\<lparr>db_seq := db_seq s + of_nat (length outs), db_disk := db_disk s', db_next_obj := db_next_obj s'\<rparr>"
proof -
  have ins: "\<forall>t\<in>set (lj_inputs j). sst_inv t" and sub: "set (lj_inputs j) \<subseteq> set (db_ssts s)"
    using inv ljob_inputs [OF job] by (auto simp: db_inv_def ssts_ok_def)
  let ?gs = "lj_groups (db_target_bytes s) j"
  let ?m = "length ?gs" and ?q = "db_seq s"
  have m: "merge_records no_faults (lj_inputs j) (lj_drop j) = Inr (lj_merged j)"
    using merge_records_spec [OF ins] by (simp add: lj_merged_def merged_def)
  have room: "unat ?q + ?m < 2 ^ 64" and fit: "list_all (sst_fits lg) ?gs"
    using fits m by (simp_all add: leveled_fits_def lj_groups_def Let_def)
  note rs = reserved_facts [OF room]
  let ?s1 = "s\<lparr>db_seq := ?q + of_nat ?m\<rparr>"
  let ?jobs = "zip (reserved ?q ?m) ?gs"
  have le: "?q \<le> ?q + of_nat ?m" using reserved_unat [OF room, of ?m] by (simp add: word_le_nat_alt)
  have inv1: "db_inv ?s1" using inv_start [OF inv, of ?s1 "db_compacting s" "?q + of_nat ?m"] by simp
  have on: "vlog_on ?s1" "levels_ok ?s1" using d by (simp_all add: dur_def vlog_on_def levels_ok_def)
  have qq: "quiet {} (db_disk s) (db_disk ?s1)" "grown (db_disk s) (db_disk ?s1) (vlog_name (db_gen s))"
    by (simp_all add: qt.frame_refl same_grown)
  have d1: "dur ?s1 fl w k" "tables_map ?s1 = tables_map s"
    by (rule dur_frame [OF d qq(1) _ on(1) qq(2) inv1 _ _ _ _ _ on(2)]; use le in simp)+
  have safe: "ptr_safe (db_disk s) (db_gen s) r" if r: "g \<in> set ?gs" "r \<in> set g" for g r
  proof -
    have "r \<in> set (lj_merged j)" using group_buildable(2) [OF ins fit r(1)] r(2) by blast
    then obtain u where u: "u \<in> set (lj_inputs j)" "r \<in> set (sst_records u)" unfolding lj_merged_def using merged_subset by force
    from dur_tables(1) [OF d, of u] u sub show ?thesis by (auto simp: table_on_def)
  qed
  have fresh: "sst_name x \<notin> sst_path ` set (db_ssts s)" if "x \<in> set (reserved ?q ?m)" for x
    using rs(3) [OF that] dur_tables(2) [OF d] by (fastforce simp: sst_name_inj)
  have ready: "jobs_ready lg ?s1 ?jobs"
    unfolding jobs_ready_def
  proof (intro conjI ballI)
    show "distinct (map fst ?jobs)" using rs(1,2) by simp
    fix job assume mem: "job \<in> set ?jobs"
    obtain x g where xg: "job = (x, g)" by (cases job)
    have "x \<in> set (reserved ?q ?m)" "g \<in> set ?gs" using mem xg by (auto dest: set_zip_leftD set_zip_rightD)
    then show "case job of (q, g) \<Rightarrow> buildable lg g \<and> sst_name q \<notin> sst_path ` set (db_ssts ?s1) \<and>
        (\<forall>r\<in>set g. ptr_safe (db_disk ?s1) (db_gen ?s1) r)"
      using group_buildable(1) [OF ins fit] safe fresh xg by simp
  qed
  have r: "sfold (build_group no_faults lg) ?jobs (0, []) ?s1 = (Inr (n, outs), s')"
    using run m by (simp add: leveled_work_def sbind_def reserve_seqs_def on_disk_def fsync_dir_ok lj_groups_def reserved_def split: sum.splits prod.splits)
  obtain news where a: "outs = [] @ news" "map sst_path news = map (\<lambda>j. sst_name (fst j)) ?jobs" "dur s' fl w k"
    "tables_map s' = tables_map ?s1" "\<forall>t\<in>set news. table_on (db_disk s') (db_gen ?s1) t"
    "quiet (group_files ?jobs) (db_disk ?s1) (db_disk s')" "s' = ?s1\<lparr>db_disk := db_disk s', db_next_obj := db_next_obj s'\<rparr>"
    using dur_build_groups [OF d1(1) inv1 ready r] by blast
  have names: "map sst_path outs = map sst_name (reserved ?q ?m)"
    using a(1,2) rs(1) map_fst_zip [of "reserved ?q ?m" ?gs] by (simp flip: map_map [of sst_name fst, unfolded comp_def])
  then have len: "length outs = ?m" using rs(1) by (metis length_map)
  define d2 m2 where "d2 = db_disk s'" and "m2 = db_next_obj s'"
  have s': "s' = s\<lparr>db_seq := ?q + of_nat ?m, db_disk := d2, db_next_obj := m2\<rparr>" using a(7) by (simp add: d2_def m2_def)
  have "group_files ?jobs = (\<Union>q\<in>set (reserved ?q ?m). {sst_name q, sst_name q @ tmp_suffix})"
    using map_fst_zip [of "reserved ?q ?m" ?gs] rs(1) by (simp add: group_files_def flip: set_map)
  then show thesis
    by (intro that [OF a(3)]) (use a d1(2) names room len s' in simp_all)
qed

lemma work_durable:
  assumes inv: "dlinv (e, LvWorking j) fl w k" and room: "roomy (e, LvWorking j)" and fits: "leveled_fits lg j (en_db e)"
    and run: "leveled_work no_faults lg j (en_db e) = (Inr res, s)"
  shows "leveled_advances (e, LvWorking j) EvTau (e\<lparr>en_db := s\<rparr>, LvBuilt j res) fl w k"
proof -
  let ?s = "en_db e" and ?g = "e\<lparr>en_mg := MgLeveled []\<rparr>"
  obtain x outs where res: "res = (x, outs)" by (cases res)
  have D: "dinv (2 ^ 30) ?g fl w k" using roomy_dinv(1) [OF inv room] by simp
  note p = dinv_parts [OF D]
  have li: "leveled_inv (e, LvWorking j)" using inv by (simp add: dlinv_def)
  note li' = lv_work_step [OF li fits run]
  have job: "ljob_ok j (placed_of ?s)" using li by (simp add: leveled_inv_def lv_ok_def)
  have dur: "dur ?s fl w k" and db: "db_inv ?s" using p(2,5) by simp_all
  let ?q = "db_seq ?s" and ?n = "length outs"
  obtain N where f: "dur s fl w k" "tables_map s = tables_map ?s" "\<forall>t\<in>set outs. table_on (db_disk s) (db_gen ?s) t"
    "map sst_path outs = map sst_name (reserved ?q ?n)" "unat ?q + ?n < 2 ^ 64"
    "N = (\<Union>q\<in>set (reserved ?q ?n). {sst_name q, sst_name q @ tmp_suffix})" "quiet N (db_disk ?s) (db_disk s)"
    "s = ?s\<lparr>db_seq := ?q + of_nat ?n, db_disk := db_disk s, db_next_obj := db_next_obj s\<rparr>"
    by (rule dur_leveled_work [OF dur db job fits run [unfolded res]])
  have g: "db_dead_ssts s = db_dead_ssts ?s" "db_dead_vlogs s = db_dead_vlogs ?s" "db_gen s = db_gen ?s" "db_seq s = ?q + of_nat ?n"
    "db_has_flushing s = db_has_flushing ?s" "db_fseq s = db_fseq ?s" "db_ssts s = db_ssts ?s"
    by (subst f(8), simp)+
  let ?e' = "e\<lparr>en_db := s, en_mg := MgLeveled outs\<rparr>"
  have c': "claims ?e' = claims ?g @ map sst_name (reserved ?q ?n)"
    using f(4) by (simp add: claims_def fl_claim_def mg_claim_def g)
  have c: "claims_ok ?e'" by (rule claims_reserve [OF p(7) _ _ ]) (use f(5) g(4) c' in simp_all)
  have "distinct (claims ?g @ map sst_name (reserved ?q ?n))" using c c' by (simp add: claims_ok_def)
  then have fresh: "sst_name q \<notin> set (fl_claim ?s)" if "q \<in> set (reserved ?q ?n)" for q
    using that by (auto simp: claims_def)
  have other: "r \<noteq> sst_name q @ tmp_suffix" if "r \<in> set (fl_claim ?s)" for r q
    using claims_names(6) [OF p(7), of r] that by (auto simp: claims_def)
  have N: "N \<inter> set (fl_claim ?s) = {}" unfolding f(6) using fresh other by auto
  have v: "vlog_name h \<notin> N" for h unfolding f(6) by auto
  have wf: "dwf (db_disk ?s)" by (rule dur_dwf [OF dur])
  have fl: "fl_ok ?s (en_fl e)" "fl_built ?s (en_fl e)" using p(3,6) by (simp_all add: rest_ok_def)
  have "fl_built s (en_fl e)"
    by (rule fl_built_frame [OF fl(2,1) f(7) wf N quiet_other_vlog [OF f(7) wf v] g(3) g(6)])
  moreover have "mg_built s (MgLeveled outs)" using f(3) g(3) by (simp add: mg_built_def)
  moreover have "dead_logs s" using p(6) g by (simp add: rest_ok_def dead_logs_def)
  ultimately have "rest_ok (unat (db_gen s) + unat (db_seq s)) ?e'" using c by (simp add: rest_ok_def budget_def)
  then have "dinv (unat (db_gen s) + unat (db_seq s)) ?e' fl w k"
    using f(1) ghost_inv [OF li'(1)] by (simp add: dinv_def res)
  then have "dlinv (e\<lparr>en_db := s\<rparr>, LvBuilt j res) fl w k" using li'(1) by (auto simp: dlinv_def res)
  then show ?thesis by (rule advance_tau) (simp add: f(2))
qed

subsection \<open>Installing\<close>

lemma ljob_distinct:
  assumes "ljob_ok j (placed_of s)"
  shows "distinct (lj_inputs j)" and "0 < lj_dest j"
proof -
  obtain src lo hi srcs dsts where j: "lj_dest j = src + 1" "lj_inputs j = srcs @ dsts"
    and lm: "level_merge src lo hi (lj_drop j) (set (placed_of s)) (Pair src ` set srcs) (Pair (src + 1) ` set dsts)"
    and ois: "ordered (map (Pair src) srcs @ map (Pair (src + 1)) dsts)"
    using assms unfolding ljob_ok_def by metis
  show "0 < lj_dest j" using lm j(1) by (simp add: level_merge_def)
  have "(src, t) \<in> set (placed_of s)" if "t \<in> set srcs" for t using lm that by (auto simp: level_merge_def)
  moreover have "(src + 1, t) \<in> set (placed_of s)" if "t \<in> set dsts" for t using lm that by (auto simp: level_merge_def)
  ultimately have "t \<notin> set dsts" if "t \<in> set srcs" for t using that placed_unique [of "(src, t)" s "(src + 1, t)"] by auto
  then have "set srcs \<inter> set dsts = {}" by blast
  moreover have "distinct srcs \<and> distinct dsts" using ordered_distinct [OF ois] by (simp add: distinct_map)
  ultimately show "distinct (lj_inputs j)" by (simp add: j(2))
qed

text \<open>The tables after the exchange are the old ones without the inputs, and the new files.\<close>

lemma exchange_mset:
  assumes inv: "db_inv s" and li: "linv s" and job: "ljob_ok j (placed_of s)" and out: "loutput_ok j outs s"
    and s1: "s1 = s\<lparr>db_ssts := filter (\<lambda>t. sst_obj t \<notin> sst_obj ` set (lj_inputs j)) (db_ssts s) @ outs,
      db_level := add_levels (lj_dest j) outs (erase_levels (lj_inputs j) (db_level s))\<rparr>"
    and qs: "qs = stable_sort level_less (placed_of s1)"
  shows "mset (map snd qs) + mset (lj_inputs j) = mset (db_ssts s) + mset outs"
proof -
  let ?P = "\<lambda>t. sst_obj t \<in> sst_obj ` set (lj_inputs j)"
  have ok: "ssts_ok s" using inv by (simp add: db_inv_def)
  then have d: "distinct (db_ssts s)" "inj_on sst_obj (set (db_ssts s))" by (simp_all add: ssts_ok_def distinct_map)
  have sub: "set (lj_inputs j) \<subseteq> set (db_ssts s)" by (rule ljob_inputs [OF job])
  have "distinct (map sst_obj (db_ssts s1))" using exchange_objs [OF ok out] by (simp add: s1)
  then have "distinct (placed_of s1)" unfolding placed_of_def by (simp add: distinct_map inj_on_def)
  moreover have "distinct qs" by (rule ordered_distinct [OF leveled_exchange(1) [OF inv li job out s1 qs]])
  moreover have "set qs = set (placed_of s1)" by (simp add: qs)
  ultimately have "mset qs = mset (placed_of s1)" by (simp add: set_eq_iff_mset_eq_distinct)
  then have "mset (map snd qs) = mset (db_ssts s1)" by (metis mset_map snd_placed)
  moreover have "mset (lj_inputs j) = mset (filter ?P (db_ssts s))"
  proof -
    have "set (filter ?P (db_ssts s)) = set (lj_inputs j)" using sub d(2) by (auto dest: inj_onD)
    then show ?thesis using ljob_distinct(1) [OF job] d(1) by (metis distinct_filter set_eq_iff_mset_eq_distinct)
  qed
  moreover have "mset (filter ?P (db_ssts s)) + mset (filter (\<lambda>t. \<not> ?P t) (db_ssts s)) = mset (db_ssts s)"
    by (simp add: mset_filter flip: multiset_partition)
  ultimately show ?thesis by (simp add: s1 ac_simps)
qed

lemma levels_ok_exchange:
  assumes "levels_ok s" and "0 < l" and "l < 2 ^ 31" and "db_level s' = add_levels l outs (erase_levels ins (db_level s))"
  shows "levels_ok s'"
  using assms by (auto simp: levels_ok_def add_levels_eq erase_levels_eq)

lemma dur_leveled_install:
  assumes d: "dur s fl w k" and inv: "db_inv s" and li: "linv s" and job: "ljob_ok j (placed_of s)" and out: "loutput_ok j outs s"
    and on: "\<forall>t\<in>set outs. table_on (db_disk s) (db_gen s) t" and nm: "distinct (map sst_path (db_ssts s @ outs))"
      "\<forall>t\<in>set outs. \<exists>q < db_seq s. sst_path t = sst_name q"
    and seq: "unat (db_seq s) \<le> UINT32_MAX" and dest: "lj_dest j < 2 ^ 31"
    and run: "leveled_install no_faults j (n, outs) s = (Inr (), s')"
  shows "dur s' fl w k" and "tables_map s' = tables_map s" and "quiet {man_name, man_tmp_name} (db_disk s) (db_disk s')"
    and "mset (db_ssts s') + mset (lj_inputs j) = mset (db_ssts s) + mset outs"
    and "s' = s\<lparr>db_disk := db_disk s', db_level := db_level s', db_ssts := db_ssts s', db_stat := db_stat s', db_compacting := False,
      db_dead_ssts := db_dead_ssts s @ map sst_mark_obsolete (lj_inputs j)\<rparr>"
proof -
  define lv where "lv = add_levels (lj_dest j) outs (erase_levels (lj_inputs j) (db_level s))"
  define s1 where "s1 = s\<lparr>db_ssts := filter (\<lambda>t. sst_obj t \<notin> sst_obj ` set (lj_inputs j)) (db_ssts s) @ outs, db_level := lv\<rparr>"
  define qs where "qs = stable_sort level_less (placed_of s1)"
  obtain d1 s0 st s2 where i: "leveled_install no_faults j (n, outs) s = (Inr (), s0)"
    "s2 = s\<lparr>db_stat := st, db_ssts := map snd qs, db_level := lv\<rparr>"
    "write_manifest_locked no_faults s2 = (Inr (), s2\<lparr>db_disk := d1\<rparr>)"
    "s0 = (retire (lj_inputs j) (s2\<lparr>db_disk := d1\<rparr>))\<lparr>db_compacting := False\<rparr>" "db_inv s0" "tables_map s0 = tables_map s"
    by (rule leveled_install_run [OF inv li job out lv_def s1_def qs_def])
  have eq: "s0 = s'" using i(1) run by simp
  note inv' = i(5) [unfolded eq]
  show "tables_map s' = tables_map s" using i(6) eq by simp
  have s': "s' = s\<lparr>db_disk := d1, db_level := lv, db_ssts := map snd qs, db_stat := st, db_compacting := False,
      db_dead_ssts := db_dead_ssts s @ map sst_mark_obsolete (lj_inputs j)\<rparr>"
    using i(2,4) eq by (simp add: retire_def)
  then show "s' = s\<lparr>db_disk := db_disk s', db_level := db_level s', db_ssts := db_ssts s', db_stat := db_stat s', db_compacting := False,
      db_dead_ssts := db_dead_ssts s @ map sst_mark_obsolete (lj_inputs j)\<rparr>" by simp
  have ms: "mset (map snd qs) + mset (lj_inputs j) = mset (db_ssts s) + mset outs"
    by (rule exchange_mset [OF inv li job out s1_def [unfolded lv_def] qs_def])
  then show "mset (db_ssts s') + mset (lj_inputs j) = mset (db_ssts s) + mset outs" by (simp add: s')
  have sub: "set (map snd qs) \<subseteq> set (db_ssts s) \<union> set outs"
    using ms by (metis mset_subset_eq_add_left set_mset_mono set_mset_mset set_mset_union)
  have "mset (map sst_path (map snd qs @ lj_inputs j)) = mset (map sst_path (db_ssts s @ outs))" using ms by (metis mset_append mset_map)
  then have "distinct (map sst_path (map snd qs @ lj_inputs j))" using nm(1) mset_eq_imp_distinct_iff by blast
  then have "distinct (map sst_path (map snd qs))" by simp
  then have nm2: "named s2"
    using sub nm(2) seq dur_tables(2) [OF d] by (auto simp: named_def i(2))
  have wf: "dwf (db_disk s2)" using dur_dwf [OF d] by (simp add: i(2))
  have ts: "table_on (db_disk s2) (db_gen s2) u" if "u \<in> set (db_ssts s2)" for u
    using that sub on dur_tables(1) [OF d] by (auto simp: i(2))
  note c = commit_frame [OF i(3) wf nm2 ts qt.frame_refl [of "{}" d1]]
  have q: "quiet {man_name, man_tmp_name} (db_disk s) d1" using c(5) by (simp add: i(2))
  then show "quiet {man_name, man_tmp_name} (db_disk s) (db_disk s')" by (simp add: s')
  note keep = quietD(2) [OF q dur_dwf [OF d]]
  have lg: "logs_on d1 fl w k" using d by (intro logs_on_frame [OF _ keep keep]) (simp_all add: dur_def)
  have rd: "d_read d1 wal_name = Some (wal_bytes w)" using same_file_read [OF keep, of wal_name] d by (simp add: dur_def)
  have lvs: "levels_ok s'"
    by (rule levels_ok_exchange [of s]) (use d ljob_distinct(2) [OF job] dest in \<open>simp_all add: dur_def s' lv_def\<close>)
  have v: "vlog_on s'" by (rule vlog_on_frame [of s]) (use d c(4) [of "db_gen s"] in \<open>simp_all add: dur_def same_file_def s' i(2)\<close>)
  have nm': "named s'" using nm2 by (simp add: named_def s' i(2))
  have ts': "table_on (db_disk s') (db_gen s') u" if "u \<in> set (db_ssts s')" for u using c(3) [of u] that by (simp add: s' i(2))
  have man: "db_manifest s' = db_manifest s2" by (simp add: s' i(2) db_manifest_def)
  show "dur s' fl w k"
    by (rule dur_commit [OF inv' _ _ nm' lvs v ts']) (use c(1,2) lg rd man d in \<open>simp_all add: s' dur_def\<close>)
qed

lemma install_durable:
  assumes inv: "dlinv (e, LvBuilt j res) fl w k" and room: "roomy (e, LvBuilt j res)"
    and run: "leveled_install no_faults j res (en_db e) = (Inr (), s)"
  shows "leveled_advances (e, LvBuilt j res) EvTau (e\<lparr>en_db := s\<rparr>, LvIdle) fl w k"
proof -
  let ?s = "en_db e"
  obtain n outs where res: "res = (n, outs)" by (cases res)
  let ?g = "e\<lparr>en_mg := MgLeveled outs\<rparr>" and ?e' = "e\<lparr>en_db := s, en_mg := MgIdle\<rparr>"
  have D: "dinv (2 ^ 30) ?g fl w k" using roomy_dinv(1) [OF inv room] by (simp add: res)
  note p = dinv_parts [OF D]
  have li: "leveled_inv (e, LvBuilt j res)" using inv by (simp add: dlinv_def)
  note li' = lv_install_step [OF li run]
  have job: "ljob_ok j (placed_of ?s)" and out: "loutput_ok j outs ?s" and sh: "linv ?s"
    using li by (simp_all add: leveled_inv_def lv_ok_def res)
  have dur: "dur ?s fl w k" and db: "db_inv ?s" and c: "claims_ok ?g" using p by simp_all
  have on: "\<forall>t\<in>set outs. table_on (db_disk ?s) (db_gen ?s) t" using p(6) by (simp add: rest_ok_def mg_built_def)
  have cl: "claims ?g = map sst_path (db_ssts ?s) @ map sst_path (db_dead_ssts ?s) @ fl_claim ?s @ map sst_path outs"
    by (simp add: claims_def mg_claim_def)
  have nm: "distinct (map sst_path (db_ssts ?s @ outs))" "\<forall>t\<in>set outs. \<exists>q<db_seq ?s. sst_path t = sst_name q"
    using c unfolding claims_ok_def cl by auto
  have seq: "unat (db_seq ?s) \<le> UINT32_MAX" and dest: "lj_dest j < 2 ^ 31"
    using room by (simp_all add: roomy_def UINT32_MAX_def)
  note f = dur_leveled_install [OF dur db sh job out on nm seq dest run [unfolded res]]
  have g: "db_dead_ssts s = db_dead_ssts ?s @ map sst_mark_obsolete (lj_inputs j)" "db_dead_vlogs s = db_dead_vlogs ?s" "db_gen s = db_gen ?s"
    "db_seq s = db_seq ?s" "db_has_flushing s = db_has_flushing ?s" "db_fseq s = db_fseq ?s"
    by (subst f(5), simp)+
  have "map sst_path (map sst_mark_obsolete ts) = map sst_path ts" for ts by (induction ts) (simp_all add: sst_mark_obsolete_def)
  then have "mset (claims ?e') = mset (map sst_path (db_ssts s @ lj_inputs j)) + mset (map sst_path (db_dead_ssts ?s)) + mset (fl_claim ?s)"
    by (simp add: claims_def fl_claim_def mg_claim_def g del: map_map)
  also have "mset (map sst_path (db_ssts s @ lj_inputs j)) = mset (map sst_path (db_ssts ?s @ outs))"
    using f(4) by (metis mset_append mset_map)
  finally have "mset (claims ?e') = mset (claims ?g)" unfolding cl by simp
  then have c': "claims_ok ?e'" by (rule claims_mset [OF c]) (simp add: g)
  have N: "{man_name, man_tmp_name} \<inter> set (fl_claim ?s) = {}" using claims_names(3,4) [OF c] by (auto simp: claims_def)
  have wf: "dwf (db_disk ?s)" by (rule dur_dwf [OF dur])
  have vg: "grown (db_disk ?s) (db_disk s) (vlog_name (db_gen ?s))" by (rule quiet_other_vlog [OF f(3) wf]) simp
  have fl: "fl_ok ?s (en_fl e)" "fl_built ?s (en_fl e)" using p(3,6) by (simp_all add: rest_ok_def)
  have "fl_built s (en_fl e)" by (rule fl_built_frame [OF fl(2,1) f(3) wf N vg g(3) g(6)])
  moreover have "dead_logs s \<and> budget (2 ^ 30) s" using p(6) g by (simp add: rest_ok_def dead_logs_def budget_def)
  ultimately have "rest_ok (2 ^ 30) ?e'" using c' by (simp add: rest_ok_def mg_built_def)
  then have "dinv (2 ^ 30) ?e' fl w k" using f(1) ghost_inv [OF li'(1)] by (simp add: dinv_def)
  then have "dlinv (e\<lparr>en_db := s\<rparr>, LvIdle) fl w k" using li'(1) by (auto simp: dlinv_def)
  then show ?thesis by (rule advance_tau) (simp add: f(2))
qed

subsection \<open>Runs\<close>

lemma leveled_step_durable:
  assumes "leveled_step lg x ev y" and "dlinv x fl w k" and "roomy x"
  shows "leveled_advances x ev y fl w k"
  using assms
proof (induction rule: leveled_step.induct)
  case (Engine e ev e' pc)
  then show ?case using engine_leveled_durable by blast
next
  case (LvBegin e j s)
  then show ?case using begin_durable by blast
next
  case (LvWork j e res s)
  then show ?case using work_durable by blast
next
  case (LvInstall j res e s)
  then show ?case using install_durable by blast
qed

inductive roomy_run :: "(real \<Rightarrow> real) \<Rightarrow> engine \<times> lv_pc \<Rightarrow> event list \<Rightarrow> engine \<times> lv_pc \<Rightarrow> bool" for lg where
  Start: "roomy_run lg x [] x"
| Step: "\<lbrakk>leveled_step lg x ev y; roomy x; roomy_run lg y evs z\<rbrakk> \<Longrightarrow> roomy_run lg x (ev # evs) z"

lemma roomy_run_durable:
  assumes "roomy_run lg x evs y" and "dlinv x fl w k"
    and "hist past m0 (tables_map (en_db (fst x))) (fl_recs fl @ w) (length (fl_recs fl) + k)"
  shows "\<exists>fl' w' k'. dlinv y fl' w' k' \<and>
    hist (past @ evs) m0 (tables_map (en_db (fst y))) (fl_recs fl' @ w') (length (fl_recs fl') + k')"
  using assms
proof (induction arbitrary: fl w k past rule: roomy_run.induct)
  case (Start x)
  then show ?case by auto
next
  case (Step x ev y evs z)
  obtain fl1 w1 k1 where s1: "dlinv y fl1 w1 k1"
    "hist (past @ [ev]) m0 (tables_map (en_db (fst y))) (fl_recs fl1 @ w1) (length (fl_recs fl1) + k1)"
    using leveled_step_durable [OF Step.hyps(1) Step.prems(1) Step.hyps(2)] Step.prems(2) unfolding leveled_advances_def by blast
  from Step.IH [OF s1] show ?case by simp
qed

lemma fresh_dlinv:
  assumes "cf_leveled cf" and "db_open no_faults lg cf disk0 = (Inr (), s)"
  shows "dlinv (engine0 s, LvIdle) None [] 0"
proof -
  have "(engine0 s)\<lparr>en_mg := ghost LvIdle\<rparr> = engine0 s" by (simp add: engine0_def)
  then show ?thesis using fresh_dinv(1) [OF assms(2)] fresh_leveled(1) [OF assms] by (auto simp: dlinv_def)
qed

text \<open>A run that a crash cuts off between the work and the installation of a compaction.\<close>

lemma roomy_runs:
  assumes "engine_step lg e ev e'" and "dinv n e fl w k" and "n < 2 ^ 30" and "roomy_run lg (e', LvIdle) evs y"
  shows "roomy_run lg (e, LvIdle) (ev # evs) y"
proof -
  have "budget n (en_db e)" by (rule dinv_parts [OF assms(2)])
  then have "roomy (e, LvIdle)" "unat (db_seq (en_db e)) + 2 < 2 ^ 64" using assms(3) by (simp_all add: budget_def roomy_def)
  then show ?thesis by (intro roomy_run.Step [OF _ _ assms(4)] leveled_step.Engine [OF assms(1)])
qed

lemma compacting_run:
  obtains s0 e j res where "db_open no_faults lg_const conf_leveled disk0 = (Inr (), s0)"
    and "roomy_run lg_const (engine0 s0, LvIdle) [EvPut [1] [2] True, EvTau, EvTau, EvTau] (e, LvBuilt j res)"
    and "recovery_fits lg_const conf0 (lose_unsynced (db_disk (en_db e)))"
proof -
  obtain s0 s1 s2 t where s: "db_open no_faults lg_const conf_leveled disk0 = (Inr (), s0)" "leveled_inv (engine0 s2, LvIdle)"
    "db_inv s2" "linv s2" "db_ssts s2 = [t]" "sst_records t = [mk_record Put [1] [2]]" "db_level s2 (sst_obj t) = Some 0"
    "db_min_merge s2 = 1" "unat (db_seq s2) < 10" "\<not> db_has_flushing s2"
    "engine_step lg_const (engine0 s0) (EvPut [1] [2] True) (engine0 s1)" "engine_step lg_const (engine0 s1) EvTau (engine0 s2)"
    by (rule leveled_one_table)
  note D0 = fresh_dinv(1) [OF s(1)]
  obtain fl1 w1 k1 where D1: "dinv 1 (engine0 s1) fl1 w1 k1"
    using engine_step_durable [OF s(11) D0] by (auto simp: advances_def steps_left_def)
  have "steps_left 1" by (simp add: steps_left_def)
  then obtain fl2 w2 k2 where D2: "dinv (Suc 1) (engine0 s2) fl2 w2 k2"
    using engine_step_durable [OF s(12) D1] unfolding advances_def by blast
  obtain j where b: "leveled_begin s2 = (Inr (Some j), s2\<lparr>db_compacting := True\<rparr>)" by (rule single_begin [OF s(4,5,7,8)])
  let ?s3 = "s2\<lparr>db_compacting := True\<rparr>"
  let ?e3 = "(engine0 s2)\<lparr>en_db := ?s3\<rparr>"
  have fits: "leveled_fits lg_const j ?s3" by (rule single_leveled_fits [OF s(3,4) b s(5,6) _ _ s(9)]) simp_all
  have step3: "leveled_step lg_const (engine0 s2, LvIdle) EvTau (?e3, LvWorking j)"
    using leveled_step.LvBegin [of "engine0 s2" j ?s3 lg_const] b by (simp add: engine0_def)
  have inv3: "leveled_inv (?e3, LvWorking j)" using leveled_step_sim [OF step3 s(2)] by simp
  have vs: "vs_inv (db_vlogs ?s3) (db_disk ?s3)" and ins: "\<forall>u\<in>set (lj_inputs j). sst_inv u" and obj: "\<forall>u\<in>set (db_ssts ?s3). sst_obj u < db_next_obj ?s3"
    using s(3) ljob_inputs [OF leveled_begin_job(2) [OF s(4) b]] by (auto simp: db_inv_def ssts_ok_def)
  obtain n outs d4 s4 where w: "leveled_work no_faults lg_const j ?s3 = (Inr (n, outs), s4)"
    "s4 = ?s3\<lparr>db_seq := db_seq ?s3 + of_nat (length outs), db_disk := d4, db_next_obj := db_next_obj ?s3 + length outs\<rparr>"
    by (rule leveled_work_ok [OF vs ins fits obj])
  let ?e4 = "?e3\<lparr>en_db := s4\<rparr>"
  have step4: "leveled_step lg_const (?e3, LvWorking j) EvTau (?e4, LvBuilt j (n, outs))"
    by (rule leveled_step.LvWork) (use fits w(1) in simp_all)
  have "budget (Suc 1) s2" using dinv_parts(8) [OF D2] by (simp add: engine0_def)
  then have room: "roomy (engine0 s2, LvIdle)" "roomy (?e3, LvWorking j)" by (simp_all add: roomy_def budget_def engine0_def)
  have tail: "roomy_run lg_const (engine0 s2, LvIdle) [EvTau, EvTau] (?e4, LvBuilt j (n, outs))"
    by (rule roomy_run.Step [OF step3 room(1) roomy_run.Step [OF step4 room(2) roomy_run.Start]])
  have run: "roomy_run lg_const (engine0 s0, LvIdle) [EvPut [1] [2] True, EvTau, EvTau, EvTau] (?e4, LvBuilt j (n, outs))"
    by (rule roomy_runs [OF s(11) D0 _ roomy_runs [OF s(12) D1 _ tail]]) simp_all
  have "dlinv (engine0 s2, LvIdle) fl2 w2 k2" using D2 s(2) by (auto simp: dlinv_def engine0_def)
  then obtain fl3 w3 k3 where "dlinv (?e3, LvWorking j) fl3 w3 k3"
    using leveled_step_durable [OF step3 _ room(1)] unfolding leveled_advances_def by blast
  then obtain fl4 w4 k4 m where "dinv m (?e4\<lparr>en_mg := MgLeveled outs\<rparr>) fl4 w4 k4"
    using leveled_step_durable [OF step4 _ room(2)] unfolding leveled_advances_def dlinv_def by fastforce
  from dinv_parts(5) [OF this] have d4: "dur s4 fl4 w4 k4" by simp
  then have "fl4 = None" using s(10) w(2) by (simp add: dur_def)
  then have "recovery_fits lg_const conf0 (lose_unsynced (db_disk (en_db ?e4)))"
    using idle_recovery_fits [OF _ crash_cut_worst] d4 by simp
  then show thesis using that s(1) run by blast
qed



end
