(* ===== verification/Progress.thy ===== *)
theory Progress
  imports Fresh_Store Table_Frame
begin

text \<open>
  The background threads get somewhere. Every size-tiered round leaves fewer tables, so the
  compactor comes to rest when nothing else happens, which is what \<open>wait_for_idle\<close> waits for.
  A writer that waits for the sealed memtable is never stuck: the flusher can always go on,
  from whatever point it has reached, and then the writer can.
\<close>

subsection \<open>Compaction comes to rest\<close>

text \<open>\<open>compaction_loop\<close> as long as a compaction is pending and nothing else happens.\<close>

fun compaction_rounds :: "io \<Rightarrow> (real \<Rightarrow> real) \<Rightarrow> nat \<Rightarrow> (db, unit) prog" where
  "compaction_rounds io lg 0 s = (Inr (), s)"
| "compaction_rounds io lg (Suc n) s =
     (if db_stop s then (Inr (), s)
      else case compaction_pending lg s of
        Inl e \<Rightarrow> (Inl e, s)
      | Inr pending \<Rightarrow>
          if pending then sbind (compaction_round io lg) (\<lambda>_. compaction_rounds io lg n) s
          else (Inr (), s))"

text \<open>The sizes of every merge of the loop stay within the fields of the format.\<close>

fun rounds_fit :: "(real \<Rightarrow> real) \<Rightarrow> nat \<Rightarrow> db \<Rightarrow> bool" where
  "rounds_fit lg 0 s \<longleftrightarrow> True"
| "rounds_fit lg (Suc n) s \<longleftrightarrow>
     (case fst (size_tiered_begin lg s) of
        Inr (Some j) \<Rightarrow> merge_fits lg j \<and> rounds_fit lg n (snd (compaction_round no_faults lg s))
      | _ \<Rightarrow> True)"

lemma framed_size_tiered: "framed settled (do_size_tiered_compaction io lg)"
proof -
  have b: "framed settled (size_tiered_begin lg)"
    by (auto simp: framed_def settled_def size_tiered_begin_def split: option.split)
  have "framed settled (merge_work io lg ctx j)" for ctx j
    unfolding merge_work_def by (intro framed_db_rules framed_flush_pieces)
  moreover have "framed settled (merge_install io j res)" for j res
    unfolding merge_install_def install_merge_result_def
    by (intro framed_db_rules framed_flush_pieces; simp add: settled_def retire_def)
  ultimately show ?thesis
    unfolding do_size_tiered_compaction_def using b by (intro st.framed_rules) (auto split: option.split intro: st.framed_rules)
qed

lemma replace_inputs_length:
  assumes "job_ok j ts" and "distinct (map sst_obj ts)"
  shows "length (replace_inputs (map sst_obj (mj_inputs j)) t False ts) + length (mj_inputs j) = Suc (length ts)"
proof -
  obtain pre post where "ts = pre @ mj_inputs j @ post" "mj_inputs j \<noteq> []" using assms(1) by (auto simp: job_ok_def)
  then show ?thesis using replace_inputs_stretch [of pre "mj_inputs j" post t] assms(2) by simp
qed

lemma size_tiered_inputs:
  assumes "size_tiered_begin lg s = (Inr (Some j), s')"
  shows "2 \<le> length (mj_inputs j)"
proof -
  obtain p where p: "pick_compaction lg (db_ssts s) (db_min_merge s) (db_size_ratio s) = Some p"
    and j: "mj_inputs j = pick_inputs (db_ssts s) (cp_indices p)"
    using assms by (auto simp: size_tiered_begin_def split: option.splits)
  have mm: "2 \<le> db_min_merge s" "db_min_merge s \<le> length (db_ssts s)"
    using p by (auto simp: pick_compaction_def split: if_splits)
  then obtain a b where ab: "p = pick_of (length (db_ssts s)) a b"
    "best_run (bucket_at lg (db_ssts s) (db_size_ratio s)) (length (db_ssts s)) (db_min_merge s) (length (db_ssts s)) a b"
    by (rule pick_compaction_cases [where lg = lg and ratio = "db_size_ratio s"]) (use p in auto)
  then show ?thesis using mm(1) j by (simp add: best_run_def pick_of_def pick_inputs_def)
qed

lemma size_tiered_shrinks:
  assumes inv: "db_inv s" and run: "do_size_tiered_compaction io lg s = (Inr (), s')"
    and pick: "pick_compaction lg (db_ssts s) (db_min_merge s) (db_size_ratio s) \<noteq> None"
  shows "length (db_ssts s') < length (db_ssts s)"
proof -
  obtain j s1 where b: "size_tiered_begin lg s = (Inr (Some j), s1)" using pick by (auto simp: size_tiered_begin_def)
  note j = size_tiered_begin_ok [OF b]
  obtain bytes t s2 where w: "merge_work io lg ''compaction rename'' j s1 = (Inr (bytes, t), s2)" "merge_install io j (bytes, t) s2 = (Inr (), s')"
    using run b by (auto simp: do_size_tiered_compaction_def sbind_Inr sbind_eq_Inr)
  have sh: "framed shelf (merge_work io lg ctx j)" for ctx unfolding merge_work_def by (intro shelf_rules shelf_files)
  have ts: "db_ssts s2 = db_ssts s" using framed_run [OF sh w(1)] j(2) by (simp add: shelf_def)
  have "db_ssts s' = replace_inputs (map sst_obj (mj_inputs j)) t False (db_ssts s2)"
    using w(2) by (auto simp: merge_install_def install_merge_result_def sbind_eq_Inr add_stats_def retire_def
        write_manifest_locked_def on_disk_def split: prod.splits)
  moreover have "distinct (map sst_obj (db_ssts s))" using inv by (simp add: db_inv_def ssts_ok_def)
  ultimately show ?thesis
    using replace_inputs_length [OF j(1), of t] size_tiered_inputs [OF b] ts by simp
qed

lemma compaction_rounds_rest:
  assumes "db_inv s" and "\<not> db_leveled s" and "\<not> db_stop s" and "length (db_ssts s) \<le> n" and "rounds_fit lg n s"
  shows "\<exists>s'. compaction_rounds no_faults lg n s = (Inr (), s') \<and> db_inv s' \<and> abs_db s' = abs_db s \<and>
    compaction_pending lg s' = Inr False"
  using assms
proof (induction n arbitrary: s)
  case 0
  then show ?case by (auto simp: compaction_pending_def pick_compaction_def)
next
  case (Suc n)
  show ?case
  proof (cases "pick_compaction lg (db_ssts s) (db_min_merge s) (db_size_ratio s)")
    case None
    then show ?thesis using Suc.prems by (simp add: compaction_pending_def)
  next
    case (Some p)
    then obtain j s0 where b: "size_tiered_begin lg s = (Inr (Some j), s0)" by (simp add: size_tiered_begin_def)
    have fit: "merge_fits lg j" "rounds_fit lg n (snd (compaction_round no_faults lg s))" using Suc.prems(5) b by simp_all
    have fits: "merge_fits lg j'" if "size_tiered_begin lg s = (Inr (Some j'), s1)" for j' s1 using that b fit(1) by simp
    obtain s1 where s1: "do_size_tiered_compaction no_faults lg s = (Inr (), s1)" "db_inv s1" "abs_db s1 = abs_db s"
      using size_tiered_whole_ok [OF Suc.prems(1), of lg] fits by metis
    have run: "compaction_round no_faults lg s = (Inr (), s1)"
      using s1(1) Suc.prems(2,3) by (simp add: compaction_round_def sbind_def)
    have "settled s s1" using framed_run [OF framed_size_tiered s1(1)] .
    moreover have "length (db_ssts s1) < length (db_ssts s)" using size_tiered_shrinks [OF Suc.prems(1) s1(1)] Some by simp
    ultimately obtain s' where "compaction_rounds no_faults lg n s1 = (Inr (), s')" "db_inv s'" "abs_db s' = abs_db s1"
      "compaction_pending lg s' = Inr False"
      using Suc.IH [OF s1(2)] Suc.prems(2-4) fit(2) run by (auto simp: settled_def)
    then show ?thesis
      using Some Suc.prems(2,3) run s1(3) by (simp add: compaction_pending_def sbind_Inr)
  qed
qed

subsection \<open>A waiting writer\<close>

definition waits :: "db \<Rightarrow> db \<Rightarrow> bool" where
  "waits s s' \<longleftrightarrow> db_waiters s' = db_waiters s"

interpretation wt: frame_rel waits
  by unfold_locales (auto simp: waits_def)

lemma waits_piece:
  "(\<And>s. waits s (f s)) \<Longrightarrow> framed waits (supd f)" "framed waits (add_stats g)" "framed waits (on_disk m)"
  "framed waits (make_sst io path)" "framed waits (db_vlog_sync io gen)" "framed waits (db_vlog_append io gen key val)"
  by (auto simp: framed_def waits_def add_stats_def on_disk_def make_sst_def db_vlog_sync_def db_vlog_append_def
      split: sum.split prod.split option.split)

lemma waits_flusher: "framed waits (flush_work io lg j)" "framed waits (flush_install io res)"
  unfolding flush_work_def separate_def separate_step_def build_rename_def flush_install_def write_manifest_locked_def Let_def
  by (intro wt.framed_rules waits_piece allI; simp add: waits_def insert_flushed_def split: option.split)+

text \<open>From wherever the flusher is, its next steps free the slot.\<close>

lemma install_enabled:
  assumes inv: "engine_inv e" and pc: "en_fl e = FlBuilt res"
  obtains e' where "engine_step lg e EvTau e'" and "\<not> db_has_flushing (en_db e')" and "engine_inv e'"
    and "db_waiters (en_db e') = db_waiters (en_db e)"
proof -
  obtain t b w where res: "res = (t, b, w)" by (cases res)
  have db: "db_inv (en_db e)" and fl: "db_has_flushing (en_db e)" "flushed_ok t (en_db e)"
    using inv pc res by (simp_all add: engine_inv_def fl_ok_def)
  obtain s' where s': "flush_install no_faults (t, b, w) (en_db e) = (Inr (), s')" "\<not> db_has_flushing s'"
    by (rule flush_install_ok [OF db fl])
  have step: "engine_step lg e EvTau (e\<lparr>en_db := s', en_fl := FlIdle\<rparr>)"
    by (rule engine_step.FlInstall [OF pc]) (use s'(1) res in simp)
  have "db_waiters s' = db_waiters (en_db e)" using framed_run [OF waits_flusher(2) s'(1)] by (simp add: waits_def)
  then show thesis using that [OF step] s'(2) engine_step_sim [OF step inv] by simp
qed

lemma work_enabled:
  assumes inv: "engine_inv e" and pc: "en_fl e = FlWorking j"
    and fits: "flush_fits lg (db_gen (en_db e)) (mt_snapshot (db_fmem (en_db e))) (en_db e)"
  obtains e' res where "engine_step lg e EvTau e'" and "en_fl e' = FlBuilt res" and "engine_inv e'"
    and "db_waiters (en_db e') = db_waiters (en_db e)"
proof -
  have db: "db_inv (en_db e)" and j: "fj_records j = mt_snapshot (db_fmem (en_db e))" "fj_gen j = db_gen (en_db e)"
    using inv pc by (simp_all add: engine_inv_def fl_ok_def)
  obtain t b w s' where s': "flush_work no_faults lg j (en_db e) = (Inr (t, b, w), s')"
    using flush_work_ok [OF db j(1)] fits j(2) by metis
  have step: "engine_step lg e EvTau (e\<lparr>en_db := s', en_fl := FlBuilt (t, b, w)\<rparr>)"
    by (rule engine_step.FlWork [OF pc _ s']) (use fits j in simp)
  have "db_waiters s' = db_waiters (en_db e)" using framed_run [OF waits_flusher(1) s'] by (simp add: waits_def)
  then show thesis using that [OF step] engine_step_sim [OF step inv] by simp
qed

definition quiet_run :: "(real \<Rightarrow> real) \<Rightarrow> engine \<Rightarrow> nat \<Rightarrow> engine \<Rightarrow> bool" where
  "quiet_run lg e n e' \<longleftrightarrow> engine_run lg e (replicate n EvTau) e'"

lemma quiet_run_0: "quiet_run lg e 0 e"
  by (simp add: quiet_run_def engine_run.Start)

lemma quiet_run_Suc: "engine_step lg e EvTau e1 \<Longrightarrow> quiet_run lg e1 n e' \<Longrightarrow> quiet_run lg e (Suc n) e'"
  by (simp add: quiet_run_def engine_run.Step)

lemma slot_freed:
  assumes inv: "engine_inv e" and fits: "flush_fits lg (db_gen (en_db e)) (mt_snapshot (db_fmem (en_db e))) (en_db e)"
  obtains n e' where "n \<le> 3" and "quiet_run lg e n e'" and "slot_free (en_db e')" and "engine_inv e'"
    and "db_waiters (en_db e') = db_waiters (en_db e)"
proof (cases "slot_free (en_db e)")
  case True
  then show thesis using that [of 0 e] quiet_run_0 inv by simp
next
  case False
  then have fl: "db_has_flushing (en_db e)" "\<not> db_stop (en_db e)" by (auto simp: slot_free_def)
  have built: "\<exists>e'. quiet_run lg e1 1 e' \<and> slot_free (en_db e') \<and> engine_inv e' \<and> db_waiters (en_db e') = db_waiters (en_db e1)"
    if "engine_inv e1" "en_fl e1 = FlBuilt res" for e1 res
    using install_enabled [OF that, of lg] quiet_run_Suc [OF _ quiet_run_0] by (metis One_nat_def slot_free_def)
  have working: "\<exists>e'. quiet_run lg e1 2 e' \<and> slot_free (en_db e') \<and> engine_inv e' \<and> db_waiters (en_db e') = db_waiters (en_db e1)"
    if e1: "engine_inv e1" "en_fl e1 = FlWorking j" "en_db e1 = en_db e" for e1 j
  proof -
    obtain e2 res where e2: "engine_step lg e1 EvTau e2" "en_fl e2 = FlBuilt res" "engine_inv e2" "db_waiters (en_db e2) = db_waiters (en_db e1)"
      by (rule work_enabled [OF e1(1,2)]) (use fits e1(3) in simp_all)
    from built [OF e2(3,2)] quiet_run_Suc [OF e2(1), of 1] e2(4) show ?thesis by (auto simp: numeral_2_eq_2)
  qed
  show thesis
  proof (cases "en_fl e")
    case FlIdle
    let ?e = "e\<lparr>en_fl := FlWorking (flush_begin (en_db e))\<rparr>"
    have step: "engine_step lg e EvTau ?e" by (rule engine_step.FlBegin [OF FlIdle fl])
    have "engine_inv ?e" using engine_step_sim [OF step inv] by simp
    from working [OF this] obtain e' where "quiet_run lg ?e 2 e'" "slot_free (en_db e')" "engine_inv e'"
      "db_waiters (en_db e') = db_waiters (en_db e)" by auto
    then show thesis using that [of 3 e'] quiet_run_Suc [OF step, of 2 e'] by (simp add: numeral_3_eq_3 numeral_2_eq_2)
  next
    case (FlWorking j)
    from working [OF inv this refl] show thesis using that [of 2] by auto
  next
    case (FlBuilt res)
    from built [OF inv this] show thesis using that [of 1] by auto
  qed
qed

lemma wake_enabled:
  assumes inv: "engine_inv e" and free: "slot_free (en_db e)" and w: "0 < db_waiters (en_db e)"
  obtains e' where "engine_step lg e EvTau e'" and "maybe_seal_wake no_faults (en_db e) = (Inr (), en_db e')"
    and "db_waiters (en_db e') < db_waiters (en_db e)"
proof -
  have db: "db_inv (en_db e)" using inv by (simp add: engine_inv_def)
  obtain s where s: "maybe_seal_wake no_faults (en_db e) = (Inr (), s)" by (rule wake_ok [OF db free])
  have step: "engine_step lg e EvTau (e\<lparr>en_db := s\<rparr>)" by (rule engine_step.Wake [OF w free s])
  have "framed waits (seal_locked no_faults)"
    unfolding seal_locked_def open_wal_def by (intro wt.framed_rules waits_piece; simp add: waits_def framed_def take_seq_def)
  then have "db_waiters s = db_waiters (en_db e) - 1"
    using s framed_run [of waits "seal_locked no_faults"] by (auto simp: maybe_seal_wake_def Let_def waits_def split: if_splits)
  then show thesis using that [OF step] w s by simp
qed

subsection \<open>Properties\<close>




text \<open>A store that seals its memtable at every write: the second write waits for the flush of the first.\<close>

definition conf_seal :: db_config where
  "conf_seal = \<lparr>cf_threshold = 0, cf_min_merge = 2, cf_size_ratio = 2, cf_sep_threshold = 1000, cf_leveled = False\<rparr>"

lemma waiting_writer:
  obtains s where "engine_inv (engine0 s)" and "db_waiters s = 1" and "db_has_flushing s" and "\<not> db_stop s"
    and "flush_fits lg_const (db_gen s) (mt_snapshot (db_fmem s)) s"
proof -
  obtain s0 d where s0: "db_open no_faults lg_const conf_seal disk0 = (Inr (), s0)" "db_inv s0" "engine_inv (engine0 s0)"
    "s0 = (db1 conf_seal)\<lparr>db_disk := d\<rparr>" by (rule fresh_open)
  have f0: "db_threshold s0 = 0" "\<not> db_has_flushing s0" "\<not> db_stop s0" "db_waiters s0 = 0" "db_mem s0 = memtable0" "db_sep_threshold s0 = 1000"
    unfolding s0(4) by (simp_all add: db1_def db_init_def conf_seal_def)
  have len: "length [1] \<le> UINT32_MAX" "length [2] \<le> UINT32_MAX" by (simp_all add: UINT32_MAX_def)
  have put: "engine_step lg_const (engine0 s) (EvPut [1] [2] True) (engine0 s')" if "db_put no_faults [1] [2] True s = (Inr (), s')" for s s'
    using engine_step.Put [of "[1]" "[2]" True "engine0 s" s'] that by (simp add: engine0_def UINT32_MAX_def)
  obtain s1 where s1: "db_put no_faults [1] [2] True s0 = (Inr (), s1)" "db_inv s1" using db_put_ok [OF s0(2) len] by metis
  obtain s2 where s2: "db_put no_faults [1] [2] True s1 = (Inr (), s2)" "db_inv s2" using db_put_ok [OF s1(2) len] by metis
  have ne: "\<not> mt_empty (mt_put [1] [2] memtable0)" by (simp add: mt_empty_def mt_put_def memtable0_def)
  have f1: "db_has_flushing s1" "db_fmem s1 = mt_put [1] [2] memtable0" "db_waiters s1 = 0" "db_threshold s1 = 0" "\<not> db_stop s1" "db_sep_threshold s1 = 1000"
    using s1(1) f0 ne by (auto simp: db_put_def sbind_eq_Inr add_stats_def maybe_seal_def slot_free_def seal_locked_def
        take_seq_def on_disk_def open_wal_def split: prod.splits)
  have f2: "db_has_flushing s2" "db_fmem s2 = mt_put [1] [2] memtable0" "db_waiters s2 = 1" "db_sep_threshold s2 = 1000" "\<not> db_stop s2"
    using s2(1) f1 by (auto simp: db_put_def sbind_eq_Inr add_stats_def maybe_seal_def slot_free_def on_disk_def split: prod.splits)
  have i1: "engine_inv (engine0 s1)" using engine_step_sim [OF put [OF s1(1)] s0(3)] by simp
  have i2: "engine_inv (engine0 s2)" using engine_step_sim [OF put [OF s2(1)] i1] by simp
  have "sst_fits lg_const [mk_record Put [1] [2]]"
    using one_record_buildable [of "mk_record Put [1] [2]"] by (auto simp: buildable_def sst_rec_ok_def UINT32_MAX_def)
  then have "flush_fits lg_const (db_gen s2) (mt_snapshot (db_fmem s2)) s2"
    by (intro inline_flush_fits [OF s2(2)]) (simp_all add: f2 one_put_snapshot)
  then show thesis using that [OF i2 f2(3,1,5)] by simp
qed


end
