(* ===== verification/Well_Formed.thy ===== *)
theory Well_Formed
  imports Db_Leveled Disk_Frame Table_Frame Fresh_Store
begin

text \<open>
  What is well-formed about a store at any time, whatever system call has failed before:
  names and inodes of the directory, the memtables, the handle of the log, one object per
  value-log generation, the identities of the tables and a level for each. Every operation
  keeps it on every path, also the paths that throw.
\<close>

subsection \<open>Well-formed states\<close>

definition db_core :: "db \<Rightarrow> bool" where
  "db_core s \<longleftrightarrow> disk_wf (db_disk s) \<and> (\<forall>i. wal_fd (db_wal s) = Some i \<longrightarrow> i < next_ino (db_disk s)) \<and>
     mt_inv (db_mem s) \<and> mt_inv (db_fmem s) \<and> distinct (map fst (db_vlogs s)) \<and>
     (\<forall>t\<in>set (db_ssts s). sst_obj t < db_next_obj s)"

text \<open>Every table in the list has a level, so \<open>level_of_.at\<close> never throws.\<close>

definition all_leveled :: "db \<Rightarrow> bool" where
  "all_leveled s \<longleftrightarrow> (\<forall>t\<in>set (db_ssts s). db_level s (sst_obj t) \<noteq> None)"

definition db_wf :: "db \<Rightarrow> bool" where
  "db_wf s \<longleftrightarrow> db_core s \<and> all_leveled s"

definition dsound :: "disk \<Rightarrow> disk \<Rightarrow> bool" where
  "dsound d d' \<longleftrightarrow> (disk_wf d \<longrightarrow> disk_wf d') \<and> next_ino d \<le> next_ino d'"

definition sound :: "db \<Rightarrow> db \<Rightarrow> bool" where
  "sound s s' \<longleftrightarrow> (db_core s \<longrightarrow> db_core s') \<and> db_next_obj s \<le> db_next_obj s'"

definition level_kept :: "db \<Rightarrow> db \<Rightarrow> bool" where
  "level_kept s s' \<longleftrightarrow> (all_leveled s \<longrightarrow> all_leveled s')"

interpretation ds: frame_rel dsound
  by unfold_locales (auto simp: dsound_def)

interpretation so: frame_rel sound
  by unfold_locales (auto simp: sound_def)

interpretation lk: frame_rel level_kept
  by unfold_locales (auto simp: level_kept_def)

subsection \<open>The directory\<close>

lemma disk_wf_writes [simp]:
  "disk_wf (d_truncate i d) = disk_wf d" "disk_wf (d_append i bs d) = disk_wf d" "disk_wf (d_set i bs d) = disk_wf d"
  "disk_wf (d_fsync i d) = disk_wf d" "next_ino (d_truncate i d) = next_ino d" "next_ino (d_append i bs d) = next_ino d"
  "next_ino (d_set i bs d) = next_ino d" "next_ino (d_fsync i d) = next_ino d"
  by (simp_all add: d_truncate_def d_append_def d_set_def d_fsync_def disk_wf_def d_ino_def)

lemma dsound_create: "dsound d (snd (d_create path d))"
  using create_wf(1) [of d path] by (simp add: dsound_def d_create_eqs)

lemma dsound_unlink: "dsound d (d_unlink path d)"
  by (auto simp: dsound_def disk_wf_def d_unlink_eqs split: if_splits)

lemma dsound_rename: "dsound d (snd (d_rename io ctx old new d))"
proof (cases "io ctx = None \<and> d_ino d old \<noteq> None")
  case True
  then obtain i where i: "d_ino d old = Some i" by blast
  then have "snd (d_rename io ctx old new d) = d_moved old new d"
    using True by (simp add: d_rename_def d_moved_def no_faults_def)
  moreover have "disk_wf (d_moved old new d)" if "disk_wf d"
    using that i unfolding disk_wf_def d_moved_eqs [OF i] by (smt (verit) option.distinct(1) option.inject)
  ultimately show ?thesis by (simp add: dsound_def d_moved_eqs [OF i])
next
  case False
  then show ?thesis by (auto simp: d_rename_def ds.frame_refl split: option.split)
qed

lemma framed_dsound:
  "framed dsound (fsync_dir io)" "framed dsound (d_rename io ctx old new)"
  "framed dsound (write_file_sync io a b c path contents)"
  "framed dsound (wal_open io path tr)" "framed dsound (wal_append io r sync w)" "framed dsound (wal_sync io w)"
  "framed dsound (vlog_open io path gen)" "framed dsound (vlog_append io key val v)" "framed dsound (vlog_sync io v)"
proof -
  have c: "d_create path d = (i, d1) \<Longrightarrow> dsound d d1" for path d i d1 using dsound_create [of d path] by simp
  show "framed dsound (fsync_dir io)" "framed dsound (wal_append io r sync w)" "framed dsound (wal_sync io w)"
    "framed dsound (vlog_append io key val v)" "framed dsound (vlog_sync io v)"
    by (auto simp: framed_def dsound_def fsync_dir_def wal_append_def wal_sync_def vlog_append_def vlog_sync_def Let_def split: option.split)
  show "framed dsound (d_rename io ctx old new)" by (simp add: framed_def dsound_rename)
  show "framed dsound (write_file_sync io a b c path contents)" "framed dsound (wal_open io path tr)" "framed dsound (vlog_open io path gen)"
    using c by (auto simp: framed_def dsound_def write_file_sync_def wal_open_def vlog_open_def Let_def split: option.split prod.split)
qed

lemma framed_dsound_files: "framed dsound (sst_build io lg path recs)" "framed dsound (manifest_write io m)"
  unfolding sst_build_def manifest_write_def by (intro ds.framed_rules framed_dsound)+

subsection \<open>Pieces of operations\<close>

lemma sound_disk: "dsound (db_disk s) d \<Longrightarrow> sound s (s\<lparr>db_disk := d\<rparr>)"
  by (auto simp: sound_def dsound_def db_core_def intro: less_le_trans)

lemma sound_on_disk: "framed dsound m \<Longrightarrow> framed sound (on_disk m)"
  by (auto simp: framed_def on_disk_def split: prod.split) (metis snd_conv sound_disk)

lemma vlogs_set_distinct: "distinct (map fst vs) \<Longrightarrow> distinct (map fst (vlogs_set g v vs))"
  by (auto simp: vlogs_set_def distinct_map_filter)

lemma sound_piece:
  "framed sound (add_stats g)" "framed sound take_seq" "framed sound (make_sst io path)"
  "framed sound (db_vlog_sync io gen)" "framed sound (db_vlog_append io gen key val)" "framed sound (open_wal io tr)"
proof -
  show "framed sound (add_stats g)" "framed sound take_seq"
    by (simp_all add: framed_def sound_def add_stats_def take_seq_def db_core_def)
  show "framed sound (make_sst io path)"
    by (auto simp: framed_def sound_def make_sst_def db_core_def less_Suc_eq split: sum.split)
  show "framed sound (db_vlog_sync io gen)"
    unfolding framed_def db_vlog_sync_def
    using sound_on_disk [OF framed_dsound(9)] by (auto simp: framed_def so.frame_refl split: option.split)
  have a: "dsound d (snd (vlog_append io key val v d))" for v d using framed_dsound(8) by (simp add: framed_def)
  have v: "sound s (s\<lparr>db_disk := d, db_vlogs := vlogs_set gen v (db_vlogs s)\<rparr>)" if "dsound (db_disk s) d" for s v d
    using sound_disk [OF that] vlogs_set_distinct [of "db_vlogs s" gen v] by (auto simp: sound_def db_core_def)
  show "framed sound (db_vlog_append io gen key val)"
    unfolding framed_def db_vlog_append_def
    using a v sound_disk by (auto simp: so.frame_refl split: option.split prod.split sum.split) (metis snd_conv)+
  have w: "wal_open io wal_name tr d = (Inr w, d') \<Longrightarrow> dsound d d' \<and> (\<forall>i. wal_fd w = Some i \<longrightarrow> disk_wf d \<longrightarrow> i < next_ino d')" for d d' w
    using framed_run [OF framed_dsound(4)] create_wf(1) [of d wal_name] create_ino [of wal_name d]
    by (auto simp: wal_open_def disk_wf_def split: option.splits prod.splits if_splits)
  show "framed sound (open_wal io tr)"
    unfolding framed_def
  proof
    fix s :: db
    obtain r d where r: "wal_open io wal_name tr (db_disk s) = (r, d)" by fastforce
    have d: "sound s (s\<lparr>db_disk := d\<rparr>)" by (rule sound_disk) (rule framed_run [OF framed_dsound(4) r])
    show "sound s (snd (open_wal io tr s))"
    proof (cases r)
      case (Inl e)
      then show ?thesis using r d by (simp add: open_wal_def sbind_def on_disk_def)
    next
      case (Inr w1)
      then show ?thesis
        using r d w [of "db_disk s" w1 d] by (auto simp: open_wal_def sbind_def on_disk_def sound_def db_core_def wal_move_assign_def)
    qed
  qed
qed

lemma shelf_level: "framed shelf m \<Longrightarrow> framed level_kept m"
  by (simp add: framed_def shelf_def level_kept_def all_leveled_def)

lemma level_seq: "framed level_kept take_seq"
  by (simp add: framed_def level_kept_def all_leveled_def take_seq_def)

lemma make_sst_obj: "make_sst io path s = (Inr t, s') \<Longrightarrow> sst_obj t < db_next_obj s'"
  by (auto simp: make_sst_def sst_open_def sst_parse_def Let_def rbind_def split: sum.splits option.splits if_splits prod.splits)

text \<open>A new table may be used wherever it is an allocated object.\<close>

lemma sound_make:
  assumes g: "\<And>t s. sst_obj t < db_next_obj s \<Longrightarrow> sound s (snd (g t s))"
  shows "framed sound (sbind (make_sst io path) g)"
  unfolding framed_def
proof
  fix s :: db
  obtain r s1 where r: "make_sst io path s = (r, s1)" by fastforce
  have s1: "sound s s1" by (rule framed_run [OF sound_piece(3) r])
  show "sound s (snd (sbind (make_sst io path) g s))"
    using so.frame_trans [OF s1 g] make_sst_obj [of io path s] r s1 by (cases r) (auto simp: sbind_def)
qed

lemma sound_upd_then:
  assumes "sound s (u s)" and "framed sound m"
  shows "sound s (snd (sbind (supd u) (\<lambda>_. m) s))"
  using so.frame_trans [OF assms(1), of "snd (m (u s))"] assms(2) by (simp add: sbind_def framed_def)

lemma sound_insert: "sst_obj t < db_next_obj s \<Longrightarrow> sound s (insert_flushed t s)"
  by (auto simp: sound_def db_core_def insert_flushed_def)

lemma level_insert: "framed level_kept (supd (insert_flushed t))"
  by (auto simp: framed_def level_kept_def all_leveled_def insert_flushed_def)

lemmas sound_rules = so.framed_rules sound_piece sound_on_disk framed_dsound framed_dsound_files so.framed_upd

lemma sound_separate: "framed sound (separate io sep gen recs)"
  unfolding separate_def separate_step_def by (intro sound_rules allI)

lemma sound_files: "framed sound (build_rename io lg ctx seq recs)" "framed sound (write_manifest_locked io)"
  unfolding build_rename_def write_manifest_locked_def Let_def by (intro sound_rules)+

lemmas level_rules = lk.framed_rules level_seq level_insert shelf_level [OF shelf_piece(2)] shelf_level [OF shelf_piece(3)]
  shelf_level [OF shelf_piece(4)] shelf_level [OF shelf_separate] shelf_level [OF shelf_files(1)] shelf_level [OF shelf_files(2)]
  shelf_level [OF shelf_files(3)] lk.framed_upd

subsection \<open>Writing and flushing\<close>

lemma sound_flush_locked: "framed sound (flush_locked io lg)"
  unfolding flush_locked_def
  by (intro sound_rules sound_separate sound_files sound_make sound_upd_then sound_insert; simp add: sound_def db_core_def)

lemma level_flush_locked: "framed level_kept (flush_locked io lg)"
  unfolding flush_locked_def by (intro level_rules; simp add: level_kept_def all_leveled_def)

lemma sound_seal: "framed sound (seal_locked io)" "framed sound (maybe_seal io)" "framed sound (maybe_seal_wake io)"
proof -
  show seal: "framed sound (seal_locked io)"
    unfolding seal_locked_def by (intro sound_rules; simp add: sound_def db_core_def)
  have w: "sound s (s\<lparr>db_waiters := n\<rparr>)" for s n by (simp add: sound_def db_core_def)
  show "framed sound (maybe_seal io)"
    using seal w by (auto simp: framed_def maybe_seal_def so.frame_refl)
  have "sound s (snd (seal_locked io (s\<lparr>db_waiters := n\<rparr>)))" for s n
    by (rule so.frame_trans [OF w [of s n]]) (use seal in \<open>simp add: framed_def\<close>)
  then show "framed sound (maybe_seal_wake io)" using w by (simp add: framed_def maybe_seal_wake_def Let_def)
qed

lemma level_seal: "framed level_kept (seal_locked io)" "framed level_kept (maybe_seal io)" "framed level_kept (maybe_seal_wake io)"
proof -
  show seal: "framed level_kept (seal_locked io)"
    unfolding seal_locked_def by (intro level_rules; simp add: level_kept_def all_leveled_def)
  have w: "level_kept s (s\<lparr>db_waiters := n\<rparr>)" for s n by (simp add: level_kept_def all_leveled_def)
  show "framed level_kept (maybe_seal io)"
    using seal w by (auto simp: framed_def maybe_seal_def lk.frame_refl)
  have "level_kept s (snd (seal_locked io (s\<lparr>db_waiters := n\<rparr>)))" for s n
    by (rule lk.frame_trans [OF w [of s n]]) (use seal in \<open>simp add: framed_def\<close>)
  then show "framed level_kept (maybe_seal_wake io)" using w by (simp add: framed_def maybe_seal_wake_def Let_def)
qed

lemma sound_writes: "framed sound (db_put io key val sync)" "framed sound (db_del io key sync)" "framed sound (db_sync io)" "framed sound (db_flush io lg)"
  unfolding db_put_def db_del_def db_sync_def db_flush_def
  by (intro sound_rules sound_seal sound_flush_locked; simp add: sound_def db_core_def mt_put_inv mt_del_inv)+

lemma level_writes:
  "framed level_kept (db_put io key val sync)" "framed level_kept (db_del io key sync)" "framed level_kept (db_sync io)" "framed level_kept (db_flush io lg)"
  unfolding db_put_def db_del_def db_sync_def db_flush_def
  by (intro level_rules level_seal level_flush_locked; simp add: level_kept_def all_leveled_def)+

lemma sound_flush_work: "framed sound (flush_work io lg j)"
  unfolding flush_work_def by (intro sound_rules sound_separate sound_files)

lemma level_flush_work: "framed level_kept (flush_work io lg j)"
  unfolding flush_work_def by (intro level_rules)

lemma flush_work_obj: "flush_work io lg j s = (Inr (t, b, w), s') \<Longrightarrow> sst_obj t < db_next_obj s'"
  by (auto simp: flush_work_def sbind_eq_Inr dest: make_sst_obj split: prod.splits)

lemma sound_flush_install:
  assumes "sst_obj t < db_next_obj s"
  shows "sound s (snd (flush_install io (t, b, w) s))"
proof -
  have u: "sound s (s\<lparr>db_disk := d_unlink n (db_disk s)\<rparr>)" for s n by (rule sound_disk [OF dsound_unlink])
  show ?thesis
    unfolding flush_install_def prod.case
    by (intro sound_upd_then sound_insert assms sound_rules sound_files; simp add: sound_def db_core_def split: option.split)
      (use u in \<open>auto simp: sound_def db_core_def\<close>)
qed

lemma level_flush_install: "framed level_kept (flush_install io (t, b, w))"
  unfolding flush_install_def prod.case
  by (intro level_rules; simp add: level_kept_def all_leveled_def split: option.split)

lemma stat_steps: "sound s (s\<lparr>db_stat := st\<rparr>)" "level_kept s (s\<lparr>db_stat := st\<rparr>)"
  by (simp_all add: sound_def db_core_def level_kept_def all_leveled_def)

lemma get_finish_stat: "\<exists>st. snd (get_finish io k ph s) = s\<lparr>db_stat := st\<rparr>"
  by (cases ph) (auto simp: get_finish_def on_stats_def split: prod.split intro: exI [of _ "db_stat s"])

lemma query_frames:
  "framed sound (db_get io k)" "framed level_kept (db_get io k)" "framed sound (db_scan io a b)" "framed level_kept (db_scan io a b)"
proof -
  have g: "framed sound (get_finish io k ph)" "framed level_kept (get_finish io k ph)" for ph
    unfolding framed_def using get_finish_stat [of io k ph] stat_steps by metis+
  show "framed sound (db_get io k)" "framed sound (db_scan io a b)"
    unfolding db_get_def db_scan_def by (intro sound_rules g)+
  show "framed level_kept (db_get io k)" "framed level_kept (db_scan io a b)"
    unfolding db_get_def db_scan_def by (intro level_rules g)+
qed

subsection \<open>Compaction and garbage collection\<close>

lemma replace_inputs_sub:
  "t \<in> set (replace_inputs ids out b ts) \<Longrightarrow> t = out \<or> t \<in> set ts \<and> sst_obj t \<notin> set ids"
  by (induction ids out b ts rule: replace_inputs.induct) (auto split: if_splits)

lemma sound_install_merge:
  assumes "sst_obj t < db_next_obj s"
  shows "sound s (snd (install_merge_result io inputs t s))"
proof -
  have "sound s (s\<lparr>db_ssts := replace_inputs ids t False (db_ssts s), db_level := lv\<rparr>)" for ids lv
    using assms by (auto simp: sound_def db_core_def dest: replace_inputs_sub)
  moreover have "sound s (retire inputs s)" for s by (simp add: sound_def db_core_def retire_def)
  ultimately show ?thesis
    unfolding install_merge_result_def by (intro sound_upd_then sound_rules sound_files)
qed

lemma level_install_merge: "framed level_kept (install_merge_result io inputs t)"
proof -
  have "level_kept s (s\<lparr>db_ssts := replace_inputs (map sst_obj inputs) t False (db_ssts s),
      db_level := (erase_levels inputs (db_level s))(sst_obj t \<mapsto> 0)\<rparr>)" for s
    by (auto simp: level_kept_def all_leveled_def erase_levels_eq dest!: replace_inputs_sub)
  moreover have "level_kept s (retire inputs s)" for s by (simp add: level_kept_def all_leveled_def retire_def)
  ultimately show ?thesis unfolding install_merge_result_def by (intro level_rules)
qed

lemma sound_merge_install:
  assumes "sst_obj t < db_next_obj s"
  shows "sound s (snd (merge_install io j (b, t) s))"
proof -
  let ?u = "\<lambda>st. st\<lparr>st_compaction_bytes := st_compaction_bytes st + b, st_compactions := st_compactions st + 1\<rparr>"
  let ?s1 = "s\<lparr>db_stat := ?u (db_stat s)\<rparr>"
  have i: "sound s (snd (install_merge_result io (mj_inputs j) t ?s1))"
    using so.frame_trans [OF stat_steps(1) sound_install_merge] assms by simp
  have c: "sound s (s\<lparr>db_compacting := False\<rparr>)" for s by (simp add: sound_def db_core_def)
  obtain r s2 where r: "install_merge_result io (mj_inputs j) t ?s1 = (r, s2)" by fastforce
  then have "snd (merge_install io j (b, t) s) = (case r of Inl e \<Rightarrow> s2 | Inr _ \<Rightarrow> s2\<lparr>db_compacting := False\<rparr>)"
    by (cases r) (simp_all add: merge_install_def add_stats_def sbind_def)
  then show ?thesis using i r so.frame_trans [OF _ c] by (auto split: sum.split)
qed

lemma level_merge_install: "framed level_kept (merge_install io j (b, t))"
  unfolding merge_install_def prod.case by (intro level_rules level_install_merge; simp add: level_kept_def all_leveled_def)

lemma merge_work_frames: "framed sound (merge_work io lg ctx j)" "framed level_kept (merge_work io lg ctx j)"
  unfolding merge_work_def by (intro sound_rules sound_files, intro level_rules)

lemma merge_work_obj: "merge_work io lg ctx j s = (Inr (b, t), s') \<Longrightarrow> sst_obj t < db_next_obj s'"
  by (auto simp: merge_work_def sbind_eq_Inr dest: make_sst_obj)

text \<open>A job whose first section only takes a number and sets the flag.\<close>

lemma sound_merge_job: "framed sound (sbind (merge_work io lg ctx j) (merge_install io j))"
  unfolding framed_def
proof
  fix s :: db
  obtain r s1 where r: "merge_work io lg ctx j s = (r, s1)" by fastforce
  have s1: "sound s s1" by (rule framed_run [OF merge_work_frames(1) r])
  show "sound s (snd (sbind (merge_work io lg ctx j) (merge_install io j) s))"
    using r s1 so.frame_trans [OF s1 sound_merge_install] merge_work_obj [of io lg ctx j s] by (cases r) (auto simp: sbind_def)
qed

lemma level_merge_job: "framed level_kept (sbind (merge_work io lg ctx j) (merge_install io j))"
  using level_merge_install by (intro lk.framed_bind merge_work_frames) (metis prod.collapse)

lemma begin_frames:
  "framed sound (size_tiered_begin lg)" "framed level_kept (size_tiered_begin lg)"
  "framed sound compact_all_begin" "framed level_kept compact_all_begin" "framed sound leveled_begin" "framed level_kept leveled_begin"
  by (auto simp: framed_def size_tiered_begin_def compact_all_begin_def leveled_begin_def sound_def db_core_def level_kept_def
      all_leveled_def Let_def split: option.split sum.split)

lemma merge_frames:
  "framed sound (do_size_tiered_compaction io lg)" "framed level_kept (do_size_tiered_compaction io lg)"
  "framed sound (compact_all io lg)" "framed level_kept (compact_all io lg)"
  unfolding do_size_tiered_compaction_def compact_all_def
  by (rule so.framed_bind [OF begin_frames(1)] lk.framed_bind [OF begin_frames(2)] so.framed_bind [OF begin_frames(3)]
        lk.framed_bind [OF begin_frames(4)],
      rule so.framed_option lk.framed_option, rule so.framed_ret lk.framed_ret, rule sound_merge_job level_merge_job)+

subsection \<open>Leveled compaction\<close>

lemma sound_work_leveled: "framed sound (leveled_work io lg j)"
proof -
  have q: "framed sound (reserve_seqs n)" for n by (simp add: framed_def reserve_seqs_def sound_def db_core_def)
  show ?thesis
    unfolding leveled_work_def build_group_def by (intro sound_rules sound_files q)
qed

lemma level_work_leveled: "framed level_kept (leveled_work io lg j)"
proof -
  have q: "framed level_kept (reserve_seqs n)" for n by (simp add: framed_def reserve_seqs_def level_kept_def all_leveled_def)
  show ?thesis
    unfolding leveled_work_def build_group_def by (intro level_rules q)
qed

lemma leveled_work_obj:
  assumes "leveled_work io lg j s = (Inr (b, ts), s')" and "t \<in> set ts"
  shows "sst_obj t < db_next_obj s'"
proof -
  let ?I = "\<lambda>(acc :: u64 \<times> sstable list) (s :: db). \<forall>t\<in>set (snd acc). sst_obj t < db_next_obj s"
  let ?E = "\<lambda>(_ :: exn) (_ :: db). True"
  have r: "triple (\<lambda>s. \<forall>t\<in>set ts. sst_obj t < db_next_obj s) m (\<lambda>_ s. \<forall>t\<in>set ts. sst_obj t < db_next_obj s) ?E"
    if "framed sound m" for ts and m :: "(db, 'a) prog"
    using that by (intro tripleI) (auto simp: sound_def dest!: framed_run intro: less_le_trans)
  have m: "triple (\<lambda>s. \<forall>t\<in>set ts. sst_obj t < db_next_obj s) (make_sst io path)
      (\<lambda>x s. \<forall>t\<in>set (ts @ [x]). sst_obj t < db_next_obj s) ?E" for ts path
    using framed_run [OF sound_piece(3)] by (intro tripleI) (auto simp: sound_def dest: make_sst_obj intro: less_le_trans)
  have b: "triple (?I acc) (build_group io lg p acc) ?I ?E" for p acc
    unfolding build_group_def
    by (cases p; cases acc) (auto intro!: triple_bind [OF r [OF sound_files(1)]] triple_bind [OF m] triple_ret)
  obtain seqs groups s1 s2 where f: "sfold (build_group io lg) (zip seqs groups) (0, []) s1 = (Inr (b, ts), s2)" "on_disk (fsync_dir io) s2 = (Inr (), s')"
    using assms(1) by (auto simp: leveled_work_def sbind_eq_Inr)
  have tr: "triple (?I (0, [])) (sfold (build_group io lg) (zip seqs groups) (0, [])) ?I ?E"
    by (rule triple_fold [where I = ?I]) (rule b)
  have "?I (b, ts) s2" by (rule triple_InrD [OF tr _ f(1)]) simp
  then have "sst_obj t < db_next_obj s2" using assms(2) by simp
  then show ?thesis using framed_run [OF sound_on_disk [OF framed_dsound(1)] f(2)] by (simp add: sound_def)
qed

lemma levels_of_tables: "levels_of lv ts = Inr ps \<Longrightarrow> map snd ps = ts \<and> (\<forall>t\<in>set ts. lv (sst_obj t) \<noteq> None)"
  by (induction lv ts arbitrary: ps rule: levels_of.induct) (auto simp: rbind_eq_Inr split: option.splits sum.splits)

lemma reorder_tables: "\<exists>ts. snd (reorder_sstables_locked s) = s\<lparr>db_ssts := ts\<rparr> \<and> set ts = set (db_ssts s)"
proof (cases "snd (reorder_sstables_locked s) = s")
  case True
  then show ?thesis by (intro exI [of _ "db_ssts s"]) simp
next
  case False
  then obtain ps where "levels_of (db_level s) (db_ssts s) = Inr ps"
    "snd (reorder_sstables_locked s) = s\<lparr>db_ssts := map snd (stable_sort level_less ps)\<rparr>"
    by (auto simp: reorder_sstables_locked_def rbind_eq_Inr split: if_splits sum.splits)
  then show ?thesis using levels_of_tables [of "db_level s" "db_ssts s" ps] by (metis list.set_map set_stable_sort)
qed

lemma reorder_frames: "framed sound reorder_sstables_locked" "framed level_kept reorder_sstables_locked"
  unfolding framed_def
proof -
  have "sound s (snd (reorder_sstables_locked s)) \<and> level_kept s (snd (reorder_sstables_locked s))" for s
    using reorder_tables [of s] by (auto simp: sound_def db_core_def level_kept_def all_leveled_def)
  then show "\<forall>s. sound s (snd (reorder_sstables_locked s))" "\<forall>s. level_kept s (snd (reorder_sstables_locked s))" by blast+
qed

lemma sound_leveled_install:
  assumes "\<forall>t\<in>set ts. sst_obj t < db_next_obj s"
  shows "sound s (snd (leveled_install io j (b, ts) s))"
proof -
  have "sound s (s\<lparr>db_ssts := filter P (db_ssts s) @ ts, db_level := lv\<rparr>)" for P lv
    using assms by (auto simp: sound_def db_core_def)
  moreover have "sound s (retire xs s)" "sound s (s\<lparr>db_compacting := False\<rparr>)" for s xs
    by (simp_all add: sound_def db_core_def retire_def)
  ultimately show ?thesis
    unfolding leveled_install_def prod.case by (intro sound_upd_then sound_rules sound_files reorder_frames)
qed

lemma level_leveled_install: "framed level_kept (leveled_install io j (b, ts))"
proof -
  have "level_kept s (s\<lparr>db_ssts := filter (\<lambda>t. sst_obj t \<notin> sst_obj ` set (lj_inputs j)) (db_ssts s) @ ts,
      db_level := add_levels l ts (erase_levels (lj_inputs j) (db_level s))\<rparr>)" for s l
    by (auto simp: level_kept_def all_leveled_def add_levels_eq erase_levels_eq)
  moreover have "level_kept s (retire xs s)" "level_kept s (s\<lparr>db_compacting := False\<rparr>)" for s xs
    by (simp_all add: level_kept_def all_leveled_def retire_def)
  ultimately show ?thesis
    unfolding leveled_install_def prod.case by (intro level_rules reorder_frames)
qed

lemma sound_leveled_job: "framed sound (sbind (leveled_work io lg j) (leveled_install io j))"
  unfolding framed_def
proof
  fix s :: db
  obtain r s1 where r: "leveled_work io lg j s = (r, s1)" by fastforce
  have s1: "sound s s1" by (rule framed_run [OF sound_work_leveled r])
  show "sound s (snd (sbind (leveled_work io lg j) (leveled_install io j) s))"
    using r s1 so.frame_trans [OF s1 sound_leveled_install] leveled_work_obj [of io lg j s] by (cases r) (auto simp: sbind_def)
qed

lemma level_leveled_job: "framed level_kept (sbind (leveled_work io lg j) (leveled_install io j))"
  using level_leveled_install by (intro lk.framed_bind level_work_leveled) (metis prod.collapse)

lemma leveled_frames: "framed sound (do_leveled_compaction io lg)" "framed level_kept (do_leveled_compaction io lg)"
  unfolding do_leveled_compaction_def
  by (rule so.framed_bind [OF begin_frames(5)] lk.framed_bind [OF begin_frames(6)], rule so.framed_option lk.framed_option,
      rule so.framed_ret lk.framed_ret, rule sound_leveled_job level_leveled_job)+

subsection \<open>Garbage collection and destructors\<close>

lemma sound_gc_swap: "sst_obj t < db_next_obj s \<Longrightarrow> sound s (gc_swap g v t s)"
  using vlogs_set_distinct [of "db_vlogs s" g v] by (auto simp: sound_def db_core_def gc_swap_def)

lemma level_gc_swap: "level_kept s (gc_swap g v t s)"
  by (simp add: level_kept_def all_leveled_def gc_swap_def)

lemma gc_steps:
  "sound s (gc_drop_old g s)" "sound s (retire ts s)" "sound s (s\<lparr>db_compacting := c\<rparr>)"
  "level_kept s (gc_drop_old g s)" "level_kept s (retire ts s)" "level_kept s (s\<lparr>db_compacting := c\<rparr>)"
  by (auto simp: sound_def db_core_def level_kept_def all_leveled_def gc_drop_old_def retire_def distinct_map_filter)

lemma gc_frames: "framed sound (gc_value_log io lg)" "framed level_kept (gc_value_log io lg)"
  unfolding gc_value_log_def relocate_step_def
  by (intro sound_rules sound_flush_locked sound_files sound_make sound_upd_then sound_gc_swap gc_steps; assumption?)
    (intro level_rules level_flush_locked level_gc_swap gc_steps)

lemma reap_frames: "sound s (reap_sst s)" "level_kept s (reap_sst s)" "sound s (reap_vlog s)" "level_kept s (reap_vlog s)"
proof -
  have d: "dsound d (sst_destroy t d)" "dsound d (vlog_destroy v d)" for d t v
    by (simp_all add: sst_destroy_def vlog_destroy_def dsound_unlink ds.frame_refl)
  have u: "sound s (s\<lparr>db_dead_ssts := ts, db_disk := d\<rparr>)" "sound s (s\<lparr>db_dead_vlogs := vs, db_disk := d\<rparr>)" if "dsound (db_disk s) d" for d ts vs
    using sound_disk [OF that] by (auto simp: sound_def db_core_def)
  show "sound s (reap_sst s)" "sound s (reap_vlog s)"
    using d u so.frame_refl by (auto simp: reap_sst_def reap_vlog_def split: list.split)
  show "level_kept s (reap_sst s)" "level_kept s (reap_vlog s)"
    by (auto simp: reap_sst_def reap_vlog_def level_kept_def all_leveled_def split: list.split)
qed

subsection \<open>Opening\<close>

lemma sound_remove: "framed sound (fs_remove io name)"
proof -
  have "framed dsound (\<lambda>d. (Inr (), d_unlink name d))" by (simp add: framed_def dsound_unlink)
  then show ?thesis unfolding fs_remove_def by (auto intro: so.framed_throw sound_on_disk split: option.split)
qed

lemma sound_open_vlog: "framed sound (open_vlog io path gen)"
proof -
  have "sound s (s\<lparr>db_vlogs := vlogs_set gen v (db_vlogs s)\<rparr>)" for s v
    using vlogs_set_distinct [of "db_vlogs s" gen v] by (auto simp: sound_def db_core_def)
  then show ?thesis unfolding open_vlog_def by (intro sound_rules)
qed

lemma sound_push:
  assumes "\<And>t s. f t s = s\<lparr>db_level := lv t s, db_ssts := db_ssts s @ [t]\<rparr>"
  shows "framed sound (sbind (make_sst io path) (\<lambda>t. supd (f t)))"
  by (rule sound_make) (auto simp: assms sound_def db_core_def)

lemma sound_loading:
  "framed sound (cleanup_orphans io live)" "framed sound (load_sstables io)" "framed sound (load_vlogs io)" "framed sound (load_committed io m)"
proof -
  have e: "framed sound (load_entry io e u)" for e u unfolding load_entry_def by (rule sound_push) (rule refl)
  have p: "framed sound (push_sst io p u)" for p u unfolding push_sst_def by (rule sound_push [where lv = "\<lambda>_. db_level"]) simp
  have q: "sound s (s\<lparr>db_seq := n, db_gen := g\<rparr>)" "sound s (s\<lparr>db_seq := n\<rparr>)" "sound s (s\<lparr>db_gen := g\<rparr>)" for s n g
    by (simp_all add: sound_def db_core_def)
  show c: "framed sound (cleanup_orphans io live)" for live
    unfolding cleanup_orphans_def cleanup_one_def by (intro sound_rules sound_remove)
  show "framed sound (load_sstables io)"
    unfolding load_sstables_def load_one_def by (intro sound_rules sound_remove p q)
  show "framed sound (load_vlogs io)"
    unfolding load_vlogs_def load_vlog_one_def by (intro sound_rules sound_open_vlog q)
  show "framed sound (load_committed io m)"
    unfolding load_committed_def by (intro sound_rules sound_open_vlog e q c)
qed

lemma sound_ctor: "framed sound (db_ctor io lg)"
proof -
  have t: "framed sound (load_tables io man)" for man
    unfolding load_tables_def
    by (intro sound_rules sound_loading) (simp add: sound_def db_core_def level_all_0_def)
  have r: "framed sound (recover io lg)"
    unfolding recover_def replay_into_def
    by (intro sound_rules sound_flush_locked sound_remove) (simp_all add: sound_def db_core_def apply_recs_inv)
  show ?thesis unfolding db_ctor_def by (intro sound_rules t r sound_files)
qed

lemma level_remove: "framed level_kept (fs_remove io name)"
  unfolding fs_remove_def by (auto intro: level_rules split: option.split)

lemma level_loading: "framed level_kept (load_committed io m)" "framed level_kept (recover io lg)"
proof -
  have e: "framed level_kept (load_entry io e u)" for e u
    unfolding load_entry_def by (intro level_rules) (auto simp: level_kept_def all_leveled_def)
  have q: "level_kept s (s\<lparr>db_seq := n, db_gen := g\<rparr>)" "level_kept s (s\<lparr>db_vlogs := vs\<rparr>)" "level_kept s (s\<lparr>db_mem := mt\<rparr>)" for s n g vs mt
    by (simp_all add: level_kept_def all_leveled_def)
  have c: "framed level_kept (cleanup_orphans io live)" for live
    unfolding cleanup_orphans_def cleanup_one_def by (intro level_rules level_remove)
  show "framed level_kept (load_committed io m)"
    unfolding load_committed_def open_vlog_def by (intro level_rules e q c)
  show "framed level_kept (recover io lg)"
    unfolding recover_def replay_into_def by (intro level_rules level_flush_locked level_remove q)
qed

lemma load_tables_leveled:
  assumes "load_tables io man s = (Inr (), s')" and "db_ssts s = []"
  shows "all_leveled s'"
proof (cases man)
  case None
  then show ?thesis
    using assms(1) by (auto simp: load_tables_def sbind_eq_Inr level_all_0_def all_leveled_def add_levels_eq)
next
  case (Some m)
  then have "level_kept s s'" using framed_run [OF level_loading(1)] assms(1) by (simp add: load_tables_def)
  then show ?thesis using assms(2) by (simp add: level_kept_def all_leveled_def)
qed

lemma open_well_formed:
  assumes "disk_wf d" and "db_open io lg cf d = (Inr (), s)"
  shows "db_wf s"
proof -
  have "db_core (db_init cf d)" using assms(1) by (simp add: db_core_def db_init_def)
  moreover have "sound (db_init cf d) s" using framed_run [OF sound_ctor] assms(2) by (simp add: db_open_def)
  ultimately have core: "db_core s" by (simp add: sound_def)
  obtain s1 man s2 s3 where r: "open_wal io False (db_init cf d) = (Inr (), s1)" "load_tables io man s1 = (Inr (), s2)"
    "recover io lg s2 = (Inr (), s3)" "(if man = None then write_manifest_locked io else sret ()) s3 = (Inr (), s)"
    using assms(2) by (auto simp: db_open_def db_ctor_def sbind_eq_Inr)
  have "db_ssts s1 = []" using framed_run [OF shelf_files(3) r(1)] by (simp add: shelf_def db_init_def)
  then have "all_leveled s2" by (rule load_tables_leveled [OF r(2)])
  then have "all_leveled s3" using framed_run [OF level_loading(2) r(3)] by (simp add: level_kept_def)
  moreover have "framed level_kept (if man = None then write_manifest_locked io else sret ())" by (intro level_rules)
  then have "level_kept s3 s" using r(4) by (rule framed_run)
  ultimately show ?thesis using core by (simp add: db_wf_def level_kept_def)
qed

subsection \<open>The property\<close>

lemma wf_framed: "framed sound m \<Longrightarrow> framed level_kept m \<Longrightarrow> db_wf s \<Longrightarrow> db_wf (snd (m s))"
  by (simp add: framed_def sound_def level_kept_def db_wf_def)

lemma flush_install_wf:
  assumes "flush_work io lg j s = (Inr res, s1)" and "db_wf s2" and "db_next_obj s1 \<le> db_next_obj s2"
  shows "db_wf (snd (flush_install io res s2))"
proof -
  obtain t b w where res: "res = (t, b, w)" by (cases res)
  then have "sst_obj t < db_next_obj s2" using flush_work_obj [of io lg j s t b w s1] assms(1,3) by simp
  then show ?thesis
    using sound_flush_install [of t s2 io b w] level_flush_install [of io t b w] assms(2) res
    by (simp add: sound_def framed_def level_kept_def db_wf_def)
qed

lemma pending_wf:
  assumes "db_wf s"
  shows "\<exists>pending. compaction_pending lg s = Inr pending"
proof -
  have "\<exists>ps. levels_of lv ts = Inr ps" if "\<forall>t\<in>set ts. lv (sst_obj t) \<noteq> None" for lv ts
    using that by (induction ts) (auto simp: rbind_def)
  from this [of "db_ssts s" "db_level s"] show ?thesis
    using assms by (auto simp: db_wf_def all_leveled_def compaction_pending_def leveled_pending_locked_def rbind_def)
qed

lemma reap_wf: "db_wf s \<Longrightarrow> db_wf (reap_sst s)" "db_wf s \<Longrightarrow> db_wf (reap_vlog s)"
  using reap_frames [of s] by (simp_all add: sound_def level_kept_def db_wf_def)

lemmas wf_frames = sound_writes level_writes query_frames sound_seal level_seal sound_flush_work level_flush_work
  merge_frames leveled_frames gc_frames

text \<open>
  Property C10: the state of a store is well-formed at all times. Opening a well-formed directory
  gives it, and every operation of every thread keeps it on every path, whichever of its
  system calls fails and however: names and inodes of the directory, sorted memtables with
  exact sizes, a valid log handle, one log per generation, allocated tables that all have a
  level. So asking whether a compaction is pending never throws.
\<close>

theorem operations_keep_wf:
  "(disk_wf d \<and> db_open io lg cf d = (Inr (), s0) \<longrightarrow> db_wf s0) \<and>
   (db_wf s \<longrightarrow>
    db_wf (snd (db_put io k v sync s)) \<and> db_wf (snd (db_del io k sync s)) \<and> db_wf (snd (db_sync io s)) \<and>
    db_wf (snd (db_get io k s)) \<and> db_wf (snd (db_scan io a b s)) \<and> db_wf (snd (db_flush io lg s)) \<and>
    db_wf (snd (maybe_seal_wake io s)) \<and> db_wf (snd (flush_work io lg j s)) \<and>
    (\<forall>res s1 s2. flush_work io lg j s = (Inr res, s1) \<and> db_wf s2 \<and> db_next_obj s1 \<le> db_next_obj s2 \<longrightarrow>
       db_wf (snd (flush_install io res s2))) \<and>
    db_wf (snd (do_size_tiered_compaction io lg s)) \<and> db_wf (snd (do_leveled_compaction io lg s)) \<and>
    db_wf (snd (compact_all io lg s)) \<and> db_wf (snd (gc_value_log io lg s)) \<and> db_wf (reap_sst s) \<and> db_wf (reap_vlog s) \<and>
    (\<exists>pending. compaction_pending lg s = Inr pending))"
  by (intro conjI impI allI; (elim conjE)?;
      (erule (1) open_well_formed | erule (2) flush_install_wf | erule reap_wf | erule pending_wf | erule wf_framed [rotated -1], (rule wf_frames)+))

theorem operations_keep_wf_witness:
  "\<exists>s. db_open no_faults lg_const conf0 disk0 = (Inr (), s) \<and> db_wf s \<and> db_wf (snd (db_put (\<lambda>_. Some (3, 28)) [1] [2] True s)) \<and>
     fst (db_put (\<lambda>_. Some (3, 28)) [1] [2] True s) = Inl (SystemError 28 ''WAL write'')"
proof -
  obtain s where s: "db_open no_faults lg_const conf0 disk0 = (Inr (), s)" "rested s" by (rule fresh_rested)
  have "disk_wf disk0" by (simp add: disk_wf_def disk0_def d_ino_def)
  then have wf: "db_wf s" using operations_keep_wf s(1) by blast
  moreover have "db_wf (snd (db_put (\<lambda>_. Some (3, 28)) [1] [2] True s))" using operations_keep_wf wf by blast
  moreover have "\<exists>i. wal_fd (db_wal s) = Some i" using s(2) by (auto simp: rested_def db_inv_def wal_inv_def)
  then have "fst (db_put (\<lambda>_. Some (3, 28)) [1] [2] True s) = Inl (SystemError 28 ''WAL write'')"
    by (auto simp: db_put_def sbind_def on_disk_def wal_append_def UINT32_MAX_def)
  ultimately show ?thesis using s(1) by blast
qed

end
