(* ===== verification/Accounting.thy ===== *)
theory Accounting
  imports Fresh_Store
begin

text \<open>
  The counters of the store. Every put and every deletion that succeeds counts the bytes of
  the caller and the bytes of the log, which differ by the nine bytes of a record's header;
  nothing else touches these counters. The sums are 64-bit and wrap around together.
\<close>

definition metered :: "db \<Rightarrow> bool" where
  "metered s \<longleftrightarrow> st_wal_bytes (db_stat s) =
     st_user_bytes (db_stat s) + 9 * (st_writes (db_stat s) + st_deletes (db_stat s))"

definition meter :: "db \<Rightarrow> db \<Rightarrow> bool" where
  "meter s s' \<longleftrightarrow> (metered s \<longrightarrow> metered s')"

interpretation mt: frame_rel meter
  by unfold_locales (auto simp: meter_def)

lemma meter_same: "db_stat s' = db_stat s \<Longrightarrow> meter s s'"
  by (simp add: meter_def metered_def)

lemma meter_piece:
  "framed meter take_seq" "framed meter (make_sst io path)" "framed meter (db_vlog_sync io gen)" "framed meter (db_vlog_append io gen key val)"
  by (auto simp: framed_def take_seq_def make_sst_def db_vlog_sync_def db_vlog_append_def on_disk_def intro!: meter_same
      split: sum.split option.split prod.split)

lemma meter_on_disk: "framed meter (on_disk m)"
  by (auto simp: framed_def on_disk_def intro!: meter_same split: prod.split)

lemma meter_stats:
  assumes "\<And>st. st_wal_bytes (g st) = st_wal_bytes st \<and> st_user_bytes (g st) = st_user_bytes st \<and>
    st_writes (g st) = st_writes st \<and> st_deletes (g st) = st_deletes st"
  shows "framed meter (add_stats g)"
  using assms by (simp add: framed_def add_stats_def meter_def metered_def)

lemmas meter_rules = mt.framed_rules meter_piece meter_on_disk meter_stats mt.framed_upd

lemma meter_files:
  "framed meter (separate io sep gen recs)" "framed meter (build_rename io lg ctx seq recs)" "framed meter (write_manifest_locked io)"
  "framed meter (open_wal io tr)"
  unfolding separate_def separate_step_def build_rename_def write_manifest_locked_def open_wal_def Let_def
  by (intro meter_rules; simp add: meter_same)+

lemma meter_flush: "framed meter (flush_locked io lg)" "framed meter (db_flush io lg)" "framed meter (db_sync io)"
proof -
  show f: "framed meter (flush_locked io lg)"
    unfolding flush_locked_def by (intro meter_rules meter_files; simp add: meter_same insert_flushed_def)
  show "framed meter (db_flush io lg)" "framed meter (db_sync io)"
    unfolding db_flush_def db_sync_def by (intro meter_rules f)+
qed

lemma meter_seal: "framed meter (seal_locked io)" "framed meter (maybe_seal io)" "framed meter (maybe_seal_wake io)"
proof -
  show seal: "framed meter (seal_locked io)"
    unfolding seal_locked_def by (intro meter_rules meter_files; simp add: meter_same)
  have w: "meter s (s\<lparr>db_waiters := n\<rparr>)" for s n by (rule meter_same) simp
  show "framed meter (maybe_seal io)" using seal w by (auto simp: framed_def maybe_seal_def mt.frame_refl)
  have "meter s (snd (seal_locked io (s\<lparr>db_waiters := n\<rparr>)))" for s n
    by (rule mt.frame_trans [OF w [of s n]]) (use seal in \<open>simp add: framed_def\<close>)
  then show "framed meter (maybe_seal_wake io)" using w by (simp add: framed_def maybe_seal_wake_def Let_def)
qed

text \<open>The two operations that count: one more record, nine bytes more in the log than the caller's.\<close>

lemma meter_writes: "framed meter (db_put io key val sync)" "framed meter (db_del io key sync)"
proof -
  have "framed meter (add_stats (\<lambda>st. st\<lparr>st_writes := st_writes st + 1,
      st_user_bytes := st_user_bytes st + (of_nat (length key) + of_nat (length val)),
      st_wal_bytes := st_wal_bytes st + wal_record_bytes key val\<rparr>))"
    by (simp add: framed_def add_stats_def meter_def metered_def wal_record_bytes_def algebra_simps)
  then show "framed meter (db_put io key val sync)"
    unfolding db_put_def by (intro mt.framed_rules meter_on_disk mt.framed_upd meter_seal; simp add: meter_same)
  have "framed meter (add_stats (\<lambda>st. st\<lparr>st_deletes := st_deletes st + 1,
      st_user_bytes := st_user_bytes st + of_nat (length key), st_wal_bytes := st_wal_bytes st + wal_record_bytes key []\<rparr>))"
    by (simp add: framed_def add_stats_def meter_def metered_def wal_record_bytes_def algebra_simps)
  then show "framed meter (db_del io key sync)"
    unfolding db_del_def by (intro mt.framed_rules meter_on_disk mt.framed_upd meter_seal; simp add: meter_same)
qed

definition same_meter :: "db_stats \<Rightarrow> db_stats \<Rightarrow> bool" where
  "same_meter st st' \<longleftrightarrow> st_wal_bytes st' = st_wal_bytes st \<and> st_user_bytes st' = st_user_bytes st \<and>
     st_writes st' = st_writes st \<and> st_deletes st' = st_deletes st"

interpretation sm: frame_rel same_meter
  by unfold_locales (auto simp: same_meter_def)

lemma search_meter: "framed same_meter (get_search io vlogs use_bloom d key ts)"
proof (induction ts)
  case Nil
  show ?case by (simp only: get_search.simps sm.framed_ret)
next
  case (Cons t ts)
  have u: "framed same_meter (supd (\<lambda>st. st\<lparr>st_bloom_checks := c st\<rparr>))" "framed same_meter (supd (\<lambda>st. st\<lparr>st_bloom_skips := c st\<rparr>))"
    "framed same_meter (supd (\<lambda>st. if b then st\<lparr>st_bloom_fps := c st\<rparr> else st))" for b c
    by (simp_all add: framed_def same_meter_def)
  show ?case unfolding get_search.simps Let_def by (intro sm.framed_rules u Cons)
qed

lemma meter_queries: "framed meter (db_get io k)" "framed meter (db_scan io a b)"
proof -
  have "meter s (snd (get_finish io k ph s))" for ph s
  proof (cases ph)
    case (Answer a)
    then show ?thesis by (simp add: get_finish_def mt.frame_refl)
  next
    case (Search sn)
    let ?m = "get_search io (sn_vlogs sn) (sn_bloom sn) (db_disk s) k (sn_ssts sn)"
    have "same_meter (db_stat s) (snd (?m (db_stat s)))" using search_meter by (simp add: framed_def)
    then show ?thesis using Search by (auto simp: get_finish_def on_stats_def meter_def metered_def same_meter_def split: prod.split)
  qed
  then have "framed meter (get_finish io k ph)" for ph by (simp add: framed_def)
  then show "framed meter (db_get io k)" "framed meter (db_scan io a b)"
    unfolding db_get_def db_scan_def by (intro meter_rules; simp)+
qed

lemma meter_background:
  "framed meter (flush_work io lg j)" "framed meter (flush_install io res)" "framed meter (do_size_tiered_compaction io lg)"
  "framed meter (compact_all io lg)" "framed meter (do_leveled_compaction io lg)" "framed meter (gc_value_log io lg)"
proof -
  have b: "framed meter (size_tiered_begin lg)" "framed meter compact_all_begin" "framed meter leveled_begin" "framed meter reorder_sstables_locked"
    "framed meter (reserve_seqs n)" for n
    by (auto simp: framed_def size_tiered_begin_def compact_all_begin_def leveled_begin_def reorder_sstables_locked_def reserve_seqs_def Let_def
        intro!: meter_same split: option.split sum.split)
  show "framed meter (flush_work io lg j)" "framed meter (flush_install io res)"
    unfolding flush_work_def flush_install_def
    by (intro meter_rules meter_files; simp add: meter_same insert_flushed_def split: option.split)+
  show "framed meter (do_size_tiered_compaction io lg)" "framed meter (compact_all io lg)"
    unfolding do_size_tiered_compaction_def compact_all_def merge_work_def merge_install_def install_merge_result_def
    by (intro meter_rules meter_files b; simp add: meter_same retire_def)+
  show "framed meter (do_leveled_compaction io lg)"
    unfolding do_leveled_compaction_def leveled_work_def leveled_install_def build_group_def
    by (intro meter_rules meter_files b; simp add: meter_same retire_def)
  show "framed meter (gc_value_log io lg)"
    unfolding gc_value_log_def relocate_step_def
    by (intro meter_rules meter_files meter_flush; simp add: meter_same retire_def gc_swap_def gc_drop_old_def)
qed

lemma meter_ctor: "framed meter (db_ctor io lg)"
proof -
  have r: "framed meter (fs_remove io name)" for name
    unfolding fs_remove_def by (auto intro: meter_rules split: option.split)
  have v: "framed meter (open_vlog io path gen)" for path gen
    unfolding open_vlog_def by (intro meter_rules; simp add: meter_same)
  have "framed meter (load_tables io man)" for man
    unfolding load_tables_def load_committed_def load_sstables_def load_vlogs_def load_entry_def load_one_def load_vlog_one_def
      push_sst_def cleanup_orphans_def cleanup_one_def
    by (intro meter_rules r v; simp add: meter_same level_all_0_def)
  moreover have "framed meter (recover io lg)"
    unfolding recover_def replay_into_def by (intro meter_rules meter_flush r; simp add: meter_same)
  ultimately show ?thesis unfolding db_ctor_def by (intro meter_rules meter_files)
qed

lemmas meter_operations = meter_writes meter_queries meter_flush meter_seal meter_background

text \<open>
  Property C11: the log's share of the write amplification is exact. From the opening on, and
  whatever fails, the bytes counted for the log are the caller's bytes plus nine for every
  put and deletion counted, also when the 64-bit counters have wrapped around.
\<close>

theorem write_accounting:
  "(db_open io lg cf d = (r, s0) \<longrightarrow> metered s0) \<and>
   (metered s \<longrightarrow>
    metered (snd (db_put io k v sync s)) \<and> metered (snd (db_del io k sync s)) \<and> metered (snd (db_get io k s)) \<and>
    metered (snd (db_scan io a b s)) \<and> metered (snd (db_sync io s)) \<and> metered (snd (db_flush io lg s)) \<and>
    metered (snd (maybe_seal_wake io s)) \<and> metered (snd (flush_work io lg j s)) \<and> metered (snd (flush_install io res s)) \<and>
    metered (snd (do_size_tiered_compaction io lg s)) \<and> metered (snd (do_leveled_compaction io lg s)) \<and>
    metered (snd (compact_all io lg s)) \<and> metered (snd (gc_value_log io lg s)))"
proof -
  have "metered s0" if "db_open io lg cf d = (r, s0)"
    using framed_run [OF meter_ctor] that by (auto simp: db_open_def meter_def metered_def db_init_def stats0_def)
  then show ?thesis using meter_operations by (auto simp: framed_def meter_def)
qed

theorem write_accounting_witness:
  "\<exists>s s1. db_open no_faults lg_const conf0 disk0 = (Inr (), s) \<and> metered s \<and> db_put no_faults [1] [2] True s = (Inr (), s1) \<and> metered s1 \<and>
     metered (snd (db_del (\<lambda>_. Some (0, 5)) [1] False s1))"
proof -
  obtain s where s: "db_open no_faults lg_const conf0 disk0 = (Inr (), s)" "rested s" by (rule fresh_rested)
  have m: "metered s" using write_accounting s(1) by blast
  obtain s1 where s1: "db_put no_faults [1] [2] True s = (Inr (), s1)"
    by (rule db_put_ok [of s "[1]" "[2]" True]) (use s in \<open>simp_all add: rested_def UINT32_MAX_def\<close>)
  have "metered (snd (db_put no_faults [1] [2] True s))" using write_accounting m by blast
  then have m1: "metered s1" using s1 by simp
  moreover have "metered (snd (db_del (\<lambda>_. Some (0, 5)) [1] False s1))" using write_accounting m1 by blast
  ultimately show ?thesis using s(1) m s1 by blast
qed

end
