(* ===== verification/Spec2Isabelle.thy ===== *)
theory Spec2Isabelle
  imports Dashboard Benchmark Leveled_Durable Progress Well_Formed Accounting
begin

text \<open>
  A verification development of tombstash, a log-structured key-value store in C++.

  \<^bold>\<open>The program.\<close> A store lives in one directory. A write is appended to the write-ahead log
  (\<open>src/wal.cpp\<close>) and applied to a memtable (\<open>src/memtable.cpp\<close>). A full memtable is sealed:
  its log is renamed and a background thread writes it to a sorted table (\<open>src/sstable.cpp\<close>,
  with a Bloom filter from \<open>src/bloom_filter.cpp\<close>), long values going to a value log
  (\<open>src/vlog.cpp\<close>). A second background thread merges tables (\<open>src/compaction.cpp\<close>), and the
  value log is collected on request. The manifest names the live tables; it is replaced
  atomically. \<open>src/db.cpp\<close> ties the parts together, opens a directory and recovers it.
  \<open>cli/main.cpp\<close> is a command line program on top of it.

  \<^bold>\<open>Foundations.\<close> \<open>Prelude\<close>: byte strings, exceptions and results. \<open>Encoding\<close>
  (\<open>encoding.h\<close>) and \<open>Kv_Record\<close> (\<open>record.h\<close>): little-endian integers and records.
  \<open>Effects\<close>: programs that change state and may throw, keeping the state a throw leaves, and
  Hoare triples for them. \<open>Posix_Io\<close>: a disk of names, inodes and synced lengths, the retry
  loops around \<open>write\<close>, \<open>pwrite\<close> and \<open>pread\<close>, and what a crash may leave. The argument \<open>io\<close>
  of an operation says which of its system calls fails, after how many bytes and with which
  \<open>errno\<close>; \<open>no_faults\<close> is the run without errors.

  \<^bold>\<open>Components.\<close> \<open>Wal\<close>, \<open>Memtable\<close>, \<open>Bloom_Filter\<close>, \<open>Value_Log\<close>, \<open>Sstable\<close> with
  \<open>Sstable_Format\<close> and \<open>Sstable_Query\<close>, \<open>Kway_Merge\<close> and \<open>Compaction\<close>, \<open>Naming\<close>, \<open>Manifest\<close>:
  one definition per function of the sources, with the formats' round trips, behaviour on
  damaged input, and the loops' results. \<open>Record_Source\<close> is the interface of a sorted run of
  records that the range merge relies on; memtables and tables are its instances.

  \<^bold>\<open>The engine.\<close> \<open>Db_Core\<close> (state, writing, sealing, flushing, destructors), \<open>Db_Read\<close> (\<open>get\<close>,
  \<open>scan\<close> and their snapshots), \<open>Db_Compact\<close> (size-tiered, leveled and major compaction, garbage
  collection), \<open>Db_Open\<close> (the constructor). Each critical section and each piece of work
  outside the lock is one definition; a wait on the condition variable splits a function in
  two. \<open>Db_Store\<close>, \<open>Db_Flush\<close>, \<open>Db_Query\<close>, \<open>Db_Merge\<close>, \<open>Db_Gc\<close> hold the invariant \<open>db_inv\<close>, the
  abstraction \<open>abs_db\<close> to a map, and what every operation does to both. \<open>Engine\<close> is the step
  relation of callers, flusher, compactor and destructors with its refinement of a map.
  \<open>Frames\<close>: what no operation changes, whatever fails. \<open>Fresh_Store\<close>: the first open.
  \<open>Progress\<close>: the compactor comes to rest, and no writer waits in vain for the flusher.

  \<^bold>\<open>Leveled compaction.\<close> \<open>Level_Order\<close> describes tables placed in levels, level 0 by age and
  deeper levels with disjoint key ranges, and shows that merging a source with the overlapping
  part of the next level changes no lookup. \<open>Db_Leveled\<close> holds the invariant \<open>linv\<close> and what the
  three sections of \<open>do_leveled_compaction\<close> do to it, \<open>Table_Frame\<close> what other operations leave of
  the tables, \<open>Leveled_Engine\<close> the step relation of a leveled store, \<open>Leveled_Store\<close> its
  refinement of a map, and \<open>Leveled_Durable\<close> that its files too are always ahead of what callers
  were promised, with a compaction under way or not.

  \<^bold>\<open>Durability.\<close> \<open>Durable_Disk\<close> and \<open>Disk_Frame\<close> say what a directory holds of a store and which
  files an operation leaves alone, \<open>Recovery\<close> shows what opening such a directory gives.
  \<open>Durable_Ops\<close>, \<open>Durable_State\<close>, \<open>Durable_Steps\<close>, \<open>Durable_Flush\<close> and \<open>Durable_Merge\<close> link
  the running engine to its files; \<open>Durability\<close> and \<open>Crash_Safety\<close> show that every step keeps
  the files ahead of what callers were promised. \<open>Reopen\<close> goes on after the end of a process
  or a crash: the life of a store. \<open>Cli\<close> is the command line program.

  \<^bold>\<open>Well-formedness.\<close> \<open>Well_Formed\<close> states what holds of a store under every failing system
  call: directory, memtables, handles, identities and levels are well-formed after every
  operation, whether it returns or throws.

  \<^bold>\<open>The dashboard.\<close> \<open>Json_Text\<close> holds the escaping of \<open>dashboard/stats_server.cpp\<close> and a
  reader of JSON that gives every document back; \<open>Dashboard\<close> the statistics page, HTTP
  responses and requests, the workload thread and the server as steps over the engine. The
  reader's fuel is the length of the text plus one, and every value takes at least one byte.

  \<^bold>\<open>The benchmark.\<close> \<open>Accounting\<close> relates the byte counters of log and caller. \<open>Benchmark\<close> holds the
  keys, the order of the calls and the counts of \<open>bench/benchmark.cpp\<close>, and the geometry of
  its chart: its reads get the right answers under both compaction strategies, its keys are
  in the order of their numbers, and its bars fit the picture.

  \<^bold>\<open>Assumptions.\<close> File sizes and counters stay within the fields of the formats: \<open>flush_fits\<close>,
  \<open>merge_fits\<close>, \<open>gc_fits\<close>, \<open>recovery_fits\<close> and the bound of \<open>2 ^ 31\<close> steps say so, the last one
  because two sequence numbers may be used per step and names are formed from them. Steps of
  the engine are those of a run without I/O errors; single operations are also described
  under faults. At most one merge is in flight. A leveled store has its own step relation, in
  which \<open>compact_all\<close> is not a step: \<open>Leveled_Store.compact_all_overtakes_flush\<close> shows why. The
  counters of a leveled store are bounded state by state (\<open>roomy\<close>), because one compaction may
  take any number of file names; its theorem about crashes is about one process, that of a
  size-tiered store about a life of many. A crash keeps the directory and cuts each file at or after its synced
  prefix: creation, renaming and unlinking are ordered by the directory syncs of the
  sources. The natural logarithm that sizes Bloom filters is a parameter; \<open>lg_const\<close> is an
  instance for examples. After a crash in the middle of a record the log keeps its torn
  tail, and what is appended behind it can be lost; \<open>Wal.append_after_torn_lost\<close> proves this,
  and \<open>life\<close> therefore continues only after crashes that leave the log at a record boundary.

  \<^bold>\<open>Not modelled.\<close> The tests, which hold no logic of the store, timing and printing in the
  benchmark program, the set-up of the dashboard's listening socket, and the process-wide
  counter of block reads that only the benchmark uses.
\<close>

section \<open>The store behaves as a map\<close>



text \<open>
  Property C2: the invariant is inductive. Every single step of every thread keeps it, has
  on the map exactly the effect of its event, and reports only what is true.
\<close>

theorem engine_step_refines:
  assumes "engine_step lg e ev e'" and "engine_inv e"
  shows "engine_inv e' \<and> abs_db (en_db e') = map_step ev (abs_db (en_db e)) \<and> reports ev (abs_db (en_db e))"
  using assms by (rule engine_step_sim)

theorem engine_step_refines_witness:
  "\<exists>s s'. rested s \<and> engine_step lg_const (engine0 s) (EvDel [7] False) (engine0 s') \<and>
     engine_inv (engine0 s') \<and> abs_db s' [7] = None"
proof -
  obtain s where s: "rested s" "engine_inv (engine0 s)" by (rule fresh_rested [of lg_const])
  obtain s' where s': "db_del no_faults [7] False s = (Inr (), s')"
    by (rule db_del_ok [of s "[7]" False]) (use s in \<open>simp_all add: rested_def UINT32_MAX_def\<close>)
  have step: "engine_step lg_const (engine0 s) (EvDel [7] False) (engine0 s')"
    using engine_step.Del [of "[7]" False "engine0 s" s'] s' by (simp add: engine0_def UINT32_MAX_def)
  have "engine_inv (engine0 s')" "abs_db s' [7] = None"
    using engine_step_refines [OF step s(2)] by (simp_all add: engine0_def)
  with step s(1) show ?thesis by blast
qed

section \<open>Processes and crashes\<close>







section \<open>Operations\<close>

text \<open>
  Property C13: a write always returns and is seen at once. After \<open>put\<close> every \<open>get\<close> returns,
  and answers with the new value at its key and with the old contents elsewhere; after
  \<open>del\<close> the key is gone, also when older tables still hold it.
\<close>

theorem write_then_read:
  assumes "db_inv s" and "length k \<le> UINT32_MAX" and "length v \<le> UINT32_MAX"
  shows "\<exists>s' s''. db_put no_faults k v sync s = (Inr (), s') \<and> db_del no_faults k sync s = (Inr (), s'') \<and>
    (\<forall>j. fst (db_get no_faults j s') = Inr (if j = k then Some v else abs_db s j)) \<and>
    (\<forall>j. fst (db_get no_faults j s'') = Inr (if j = k then None else abs_db s j))"
proof -
  obtain s' where s': "db_put no_faults k v sync s = (Inr (), s')" "db_inv s'" "abs_db s' = (abs_db s)(k \<mapsto> v)"
    by (rule db_put_ok [OF assms])
  obtain s'' where s'': "db_del no_faults k sync s = (Inr (), s'')" "db_inv s''" "abs_db s'' = (abs_db s)(k := None)"
    by (rule db_del_ok [OF assms(1,2)])
  have get: "fst (db_get no_faults j t) = Inr (abs_db t j)" if "db_inv t" for t j
    using db_get_ok [OF that, of j] by auto
  show ?thesis using s' s'' get [OF s'(2)] get [OF s''(2)] by auto
qed

theorem write_then_read_witness:
  "\<exists>s s'. rested s \<and> length (db_ssts s) = 2 \<and> db_del no_faults [1] True s = (Inr (), s') \<and>
     abs_db s [1] = Some [3] \<and> fst (db_get no_faults [1] s') = Inr None"
proof -
  obtain s t u where s: "rested s" "db_ssts s = [t, u]" "abs_db s = [[1] \<mapsto> [3]]" by (rule two_tables)
  then have "db_inv s" by (simp add: rested_def)
  from write_then_read [OF this, of "[1]" "[]" True] s show ?thesis by (auto simp: UINT32_MAX_def)
qed

text \<open>
  Property C14: \<open>scan\<close> always returns, and returns exactly the live pairs of the half-open
  range, each key once and in ascending order.
\<close>

theorem scan_exact:
  assumes "db_inv s"
  shows "\<exists>out s'. db_scan no_faults a b s = (Inr out, s') \<and> ssorted (map fst out) \<and>
    set out = {(k, v). a \<le> k \<and> k < b \<and> abs_db s k = Some v}"
proof -
  obtain out st where "db_scan no_faults a b s = (Inr out, s\<lparr>db_stat := st\<rparr>)" "ssorted (map fst out)"
    "\<forall>k v. (k, v) \<in> set out \<longleftrightarrow> a \<le> k \<and> k < b \<and> abs_db s k = Some v"
    by (rule db_scan_ok [OF assms, of a b])
  then show ?thesis by auto
qed

theorem scan_exact_witness:
  "\<exists>s out s'. length (db_ssts s) = 2 \<and> db_scan no_faults [0] [9] s = (Inr out, s') \<and> set out = {([1], [3])}"
proof -
  obtain s t u where s: "rested s" "db_ssts s = [t, u]" "abs_db s = [[1] \<mapsto> [3]]" by (rule two_tables)
  then have "db_inv s" by (simp add: rested_def)
  then obtain out s' where "db_scan no_faults [0] [9] s = (Inr out, s')"
    "set out = {(k, v). [0] \<le> k \<and> k < [9] \<and> abs_db s k = Some v}" using scan_exact [of s "[0]" "[9]"] by blast
  moreover have "{(k, v). [0] \<le> k \<and> k < [9] \<and> abs_db s k = Some v} = {([1], [3])}"
    by (auto simp: s(3) split: if_splits)
  moreover have "length (db_ssts s) = 2" by (simp add: s(2))
  ultimately show ?thesis by auto
qed


section \<open>Rearranging the data keeps the map\<close>

text \<open>
  Property C19: \<open>flush\<close>, once no background flush is under way, returns with an empty
  memtable and the same contents.
\<close>

theorem flush_keeps_map:
  assumes "db_inv s" and "\<not> db_has_flushing s" and "\<not> db_stop s"
    and "flush_fits lg (db_gen s) (mt_snapshot (db_mem s)) (s\<lparr>db_seq := db_seq s + 1\<rparr>)"
  shows "\<exists>s'. db_flush no_faults lg s = (Inr (), s') \<and> db_inv s' \<and> mt_empty (db_mem s') \<and> abs_db s' = abs_db s"
proof -
  have "slot_free s" using assms(2) by (simp add: slot_free_def)
  then obtain s' where "db_flush no_faults lg s = (Inr (), s')" "db_inv s' \<and> abs_db s' = abs_db s \<and> keeps s s'"
    "\<not> db_stop s \<Longrightarrow> mt_empty (db_mem s')"
    using db_flush_ok [OF assms(1) _ assms(4)] by metis
  with assms(3) show ?thesis by auto
qed

theorem flush_keeps_map_witness:
  "\<exists>s s'. abs_db s = [[1] \<mapsto> [2]] \<and> \<not> mt_empty (db_mem s) \<and> db_flush no_faults lg_const s = (Inr (), s') \<and>
     mt_empty (db_mem s') \<and> abs_db s' = abs_db s"
proof -
  obtain s0 where s0: "rested s0" "abs_db s0 = Map.empty" by (rule fresh_rested [of lg_const])
  obtain s where s: "db_inv s" "db_mem s = mt_put [1] [2] memtable0" "\<not> db_has_flushing s" "\<not> db_stop s"
    "abs_db s = (abs_db s0)([1] \<mapsto> [2])" "settled s0 s"
    by (rule small_put [OF s0(1), of "[1]" "[2]"]) simp_all
  note w = small_write [OF s0(1) _ _ s(2,1,6)]
  have "flush_fits lg_const (db_gen s) (mt_snapshot (db_mem s)) (s\<lparr>db_seq := db_seq s + 1\<rparr>)" "\<not> mt_empty (db_mem s)"
    by (rule w(4), simp_all, rule w(1), simp_all)
  from flush_keeps_map [OF s(1,3,4) this(1)] this(2) s(5) s0(2) show ?thesis by auto
qed

text \<open>
  Property C15: a round of size-tiered compaction and a major compaction return and keep the
  contents. A major compaction of several tables leaves one table in which no key occurs
  twice and no tombstone is left.
\<close>

theorem compaction_keeps_map:
  assumes "db_inv s" and "\<forall>j s1. size_tiered_begin lg s = (Inr (Some j), s1) \<longrightarrow> merge_fits lg j"
    and "\<forall>j s1. compact_all_begin s = (Inr (Some j), s1) \<longrightarrow> merge_fits lg j"
  shows "\<exists>s' s''. do_size_tiered_compaction no_faults lg s = (Inr (), s') \<and> db_inv s' \<and> abs_db s' = abs_db s \<and>
    compact_all no_faults lg s = (Inr (), s'') \<and> db_inv s'' \<and> abs_db s'' = abs_db s \<and>
    (1 < length (db_ssts s) \<longrightarrow> (\<exists>t. db_ssts s'' = [t] \<and> distinct (map rec_key (sst_records t)) \<and>
      (\<forall>r\<in>set (sst_records t). rec_op r \<noteq> Delete)))"
proof -
  obtain s' where "do_size_tiered_compaction no_faults lg s = (Inr (), s')" "db_inv s'" "abs_db s' = abs_db s"
    using size_tiered_whole_ok [OF assms(1)] assms(2) by metis
  moreover obtain s'' where "compact_all no_faults lg s = (Inr (), s'')" "db_inv s''" "abs_db s'' = abs_db s"
    "1 < length (db_ssts s) \<longrightarrow> (\<exists>t. db_ssts s'' = [t] \<and> distinct (map rec_key (sst_records t)) \<and>
      (\<forall>r\<in>set (sst_records t). rec_op r \<noteq> Delete))"
    using compact_all_whole_ok [OF assms(1)] assms(3) by metis
  ultimately show ?thesis by blast
qed


theorem compaction_keeps_map_witness:
  "\<exists>s s''. length (db_ssts s) = 2 \<and> abs_db s [1] = Some [3] \<and> compact_all no_faults lg_const s = (Inr (), s'') \<and>
     abs_db s'' = abs_db s \<and> length (db_ssts s'') = 1"
proof -
  obtain s t u where s: "rested s" "db_ssts s = [t, u]" "sst_records t = [mk_record Put [1] [3]]"
    "sst_records u = [mk_record Put [1] [2]]" "abs_db s = [[1] \<mapsto> [3]]" by (rule two_tables)
  have inv: "db_inv s" using s(1) by (simp add: rested_def)
  have fits: "merge_fits lg_const j" if "job_ok j (db_ssts s)" for j
    by (rule small_merge_fits [OF inv that s(2-4)]) simp_all
  have "\<forall>j s1. size_tiered_begin lg_const s = (Inr (Some j), s1) \<longrightarrow> merge_fits lg_const j"
    "\<forall>j s1. compact_all_begin s = (Inr (Some j), s1) \<longrightarrow> merge_fits lg_const j"
    using fits size_tiered_begin_ok(1) compact_all_begin_ok(1) by blast+
  then obtain s'' where "compact_all no_faults lg_const s = (Inr (), s'')" "abs_db s'' = abs_db s"
    "1 < length (db_ssts s) \<longrightarrow> (\<exists>t. db_ssts s'' = [t] \<and> distinct (map rec_key (sst_records t)) \<and>
      (\<forall>r\<in>set (sst_records t). rec_op r \<noteq> Delete))"
    using compaction_keeps_map [OF inv] by blast
  moreover from this(3) have "length (db_ssts s'') = 1" using s(2) by auto
  moreover have "length (db_ssts s) = 2" "abs_db s [1] = Some [3]" using s by simp_all
  ultimately show ?thesis by blast
qed


text \<open>
  Property C18: garbage collection of the value log, started when no merge and no background
  flush runs, returns, keeps the contents, and leaves nothing of the old log in use: there
  is one table, one open generation, and every pointer of the table leads into it.
\<close>

theorem gc_keeps_map:
  assumes "db_inv s" and "gc_ready s"
    and "flush_fits lg (db_gen s) (mt_snapshot (db_mem s)) (s\<lparr>db_compacting := True, db_seq := db_seq s + 1\<rparr>)"
    and "flush_locked no_faults lg (s\<lparr>db_compacting := True\<rparr>) = (Inr (), s1)" and "gc_fits lg s1"
  shows "\<exists>s'. gc_value_log no_faults lg s = (Inr (), s') \<and> db_inv s' \<and> abs_db s' = abs_db s \<and> \<not> db_compacting s' \<and>
    (db_ssts s' = [] \<or> (\<exists>t nv. db_ssts s' = [t] \<and> db_vlogs s' = [(db_gen s + 1, nv)] \<and>
      set (map (vp_gen \<circ> rec_vptr) (filter rec_separated (sst_records t))) \<subseteq> {db_gen s + 1}))"
proof -
  obtain s' where s': "gc_value_log no_faults lg s = (Inr (), s')" "db_inv s'" "abs_db s' = abs_db s" "\<not> db_compacting s'"
    "db_ssts s' = [] \<or> (\<exists>t nv. db_ssts s' = [t] \<and> db_vlogs s' = [(db_gen s + 1, nv)] \<and> db_gen s' = db_gen s + 1 \<and>
      (\<forall>r\<in>set (sst_records t). rec_separated r \<longrightarrow> vp_gen (rec_vptr r) = db_gen s + 1))"
    by (rule gc_value_log_ok [OF assms])
  from s'(5) have "db_ssts s' = [] \<or> (\<exists>t nv. db_ssts s' = [t] \<and> db_vlogs s' = [(db_gen s + 1, nv)] \<and>
      set (map (vp_gen \<circ> rec_vptr) (filter rec_separated (sst_records t))) \<subseteq> {db_gen s + 1})"
    by auto
  with s'(1-4) show ?thesis by blast
qed

theorem gc_keeps_map_witness:
  "\<exists>s s'. abs_db s = [[1] \<mapsto> [2]] \<and> gc_value_log no_faults lg_const s = (Inr (), s') \<and> abs_db s' = abs_db s \<and>
     \<not> db_compacting s'"
proof -
  obtain s s1 where s: "db_inv s" "gc_ready s" "abs_db s = [[1] \<mapsto> [2]]"
    "flush_fits lg_const (db_gen s) (mt_snapshot (db_mem s)) (s\<lparr>db_compacting := True, db_seq := db_seq s + 1\<rparr>)"
    "flush_locked no_faults lg_const (s\<lparr>db_compacting := True\<rparr>) = (Inr (), s1)" "gc_fits lg_const s1"
    by (rule small_gc)
  from gc_keeps_map [OF s(1,2,4-6)] s(3) show ?thesis by blast
qed

section \<open>Errors\<close>

text \<open>
  Property C20: a write that throws leaves the contents alone. A key or value that does not
  fit the 32-bit length field is refused before anything is touched. When the write to the
  log fails, or the fsync that the caller asked for, the exception carries the error number
  and the memtable is not changed, so no reader sees the write, although bytes of it may be
  in the log.
\<close>

theorem failed_write_invisible:
  assumes "db_inv s" and "db_put io k v sync s = (Inl e, s')"
    and "UINT32_MAX < length k \<or> UINT32_MAX < length v \<or> io ''WAL write'' \<noteq> None \<or> sync \<and> io ''WAL fsync'' \<noteq> None"
  shows "abs_db s' = abs_db s \<and> db_inv s' \<and> db_mem s' = db_mem s \<and>
    (if UINT32_MAX < length k \<or> UINT32_MAX < length v then s' = s \<and> e = LengthError ''WAL record field exceeds 4 GiB''
     else (case io ''WAL write'' of
        Some (m, n) \<Rightarrow> e = SystemError n ''WAL write''
      | None \<Rightarrow> (\<exists>m n. io ''WAL fsync'' = Some (m, n) \<and> e = SystemError n ''WAL fsync'')))"
proof -
  obtain i where i: "wal_fd (db_wal s) = Some i" "d_ino (db_disk s) wal_name = Some i" "i \<notin> fds (db_vlogs s)"
    using assms(1) by (auto simp: db_inv_def wal_inv_def)
  have same: "db_inv (s\<lparr>db_disk := d_append i bs (db_disk s)\<rparr>) \<and> abs_db (s\<lparr>db_disk := d_append i bs (db_disk s)\<rparr>) = abs_db s" for bs
  proof -
    have "calm (db_vlogs s) (db_disk s) (d_append i bs (db_disk s))"
      by (rule calm_same_names) (use assms(1) i(3) in \<open>auto simp: db_inv_def d_append_def d_set_def\<close>)
    from same_data [OF assms(1) this, of "s\<lparr>db_disk := d_append i bs (db_disk s)\<rparr>"] dead_okI [OF assms(1)]
    show ?thesis by (simp add: dead_ok_def d_append_def d_set_def d_ino_def)
  qed
  show ?thesis
  proof (cases "UINT32_MAX < length k \<or> UINT32_MAX < length v")
    case True
    then show ?thesis using assms(1,2) by (auto simp: db_put_def sbind_def on_disk_def wal_append_def)
  next
    case False
    then show ?thesis
      using assms(2,3) i(1) same
      by (auto simp: db_put_def sbind_def on_disk_def wal_append_def wal_sync_def Let_def split: option.splits)
  qed
qed


theorem failed_write_invisible_witness:
  "\<exists>s s'. rested s \<and> db_put (\<lambda>ctx. if ctx = ''WAL write'' then Some (3, 28) else None) [1] [2] True s
       = (Inl (SystemError 28 ''WAL write''), s') \<and> abs_db s' = Map.empty"
proof -
  let ?io = "\<lambda>ctx. if ctx = ''WAL write'' then Some (3, 28) else None"
  obtain s where s: "rested s" "abs_db s = Map.empty" by (rule fresh_rested [of lg_const])
  then obtain i where i: "wal_fd (db_wal s) = Some i" "db_inv s" by (auto simp: rested_def db_inv_def wal_inv_def)
  then obtain s' where run: "db_put ?io [1] [2] True s = (Inl (SystemError 28 ''WAL write''), s')"
    by (simp add: db_put_def sbind_def on_disk_def wal_append_def UINT32_MAX_def)
  from failed_write_invisible [OF i(2) run] s run show ?thesis by auto
qed

end
